(* ===== verification/Prelude.thy ===== *)
theory Prelude
  imports Main "HOL-Library.Word"
begin

text \<open>
  Shared vocabulary of the development: the outcome of running kernel code, the combinators
  in which every kernel function is written, and the rules that execute them symbolically.

  A kernel function is a state transformer \<open>'s \<Rightarrow> ('a, 's) outcome\<close>. The state \<open>'s\<close> is
  always (an extension of) the record of the component that declares the function, so that a
  function of a lower layer runs unchanged on the state of every layer above it.
  The outcomes are those a call in the C code has:
  \<^item> \<open>Ok a s\<close>: it returned \<open>a\<close> in state \<open>s\<close>;
  \<^item> \<open>Switched s k\<close>: it gave up the CPU inside \<open>swtch\<close> (through \<open>sleep\<close>, \<open>yield\<close> or \<open>exit\<close>);
    \<open>s\<close> is the state the scheduler sees and \<open>k\<close> is the rest of the function, to be run in
    whatever state it is switched back to;
  \<^item> \<open>Spin s k\<close>: it busy-waits for another CPU or a device; \<open>k\<close> is its next attempt;
  \<^item> \<open>Panic e\<close>: it called \<open>panic(e)\<close>, which never returns;
  \<^item> \<open>Fault\<close>: it did something C leaves undefined (a null or dangling pointer, an index out of
    an array's range).

  A function may switch away or spin any number of times, so outcomes are a codatatype.
\<close>

datatype wait = Swtch | Busy

datatype stop = Panicked string | Undefined

codatatype ('a, 's) outcome =
    Ok 'a 's
  | Wait wait 's "'s \<Rightarrow> ('a, 's) outcome"
  | Stop stop

abbreviation Switched :: "'s \<Rightarrow> ('s \<Rightarrow> ('a, 's) outcome) \<Rightarrow> ('a, 's) outcome" where
  "Switched \<equiv> Wait Swtch"

abbreviation Spin :: "'s \<Rightarrow> ('s \<Rightarrow> ('a, 's) outcome) \<Rightarrow> ('a, 's) outcome" where
  "Spin \<equiv> Wait Busy"

abbreviation Panic :: "string \<Rightarrow> ('a, 's) outcome" where
  "Panic e \<equiv> Stop (Panicked e)"

abbreviation Fault :: "('a, 's) outcome" where
  "Fault \<equiv> Stop Undefined"

type_synonym ('a, 's) kern = "'s \<Rightarrow> ('a, 's) outcome"

named_theorems run_simps \<open>symbolic execution of kernel functions\<close>
named_theorems frame_simps \<open>what an operation leaves unchanged\<close>

definition ret :: "'a \<Rightarrow> ('a, 's) kern" where
  "ret a = (\<lambda>s. Ok a s)"

text \<open>\<open>andthen r f\<close>: what the outcome \<open>r\<close> becomes when \<open>f\<close> follows.\<close>

primcorec andthen :: "('a, 's) outcome \<Rightarrow> ('a \<Rightarrow> ('b, 's) kern) \<Rightarrow> ('b, 's) outcome" where
  "andthen r f = (case r of
       Ok a t \<Rightarrow> f a t
     | Wait w t k \<Rightarrow> Wait w t (\<lambda>u. andthen (k u) f)
     | Stop e \<Rightarrow> Stop e)"

definition bnd :: "('a, 's) kern \<Rightarrow> ('a \<Rightarrow> ('b, 's) kern) \<Rightarrow> ('b, 's) kern" where
  "bnd m f = (\<lambda>s. andthen (m s) f)"

definition sq :: "('a, 's) kern \<Rightarrow> ('b, 's) kern \<Rightarrow> ('b, 's) kern" where
  "sq m n = bnd m (\<lambda>_. n)"

definition panic :: "string \<Rightarrow> ('a, 's) kern" where
  "panic e = (\<lambda>s. Panic e)"

definition fault :: "('a, 's) kern" where
  "fault = (\<lambda>s. Fault)"

definition gets :: "('s \<Rightarrow> 'a) \<Rightarrow> ('a, 's) kern" where
  "gets f = (\<lambda>s. Ok (f s) s)"

definition modify :: "('s \<Rightarrow> 's) \<Rightarrow> (unit, 's) kern" where
  "modify f = (\<lambda>s. Ok () (f s))"

definition guardM :: "bool \<Rightarrow> (unit, 's) kern" where
  "guardM b = (\<lambda>s. if b then Ok () s else Fault)"

definition whenM :: "bool \<Rightarrow> (unit, 's) kern \<Rightarrow> (unit, 's) kern" where
  "whenM b m = (if b then m else ret ())"

text \<open>\<open>for\<close> loops over an index range, and the sequence of a list of statements.\<close>

fun forM :: "'i list \<Rightarrow> ('i \<Rightarrow> (unit, 's) kern) \<Rightarrow> (unit, 's) kern" where
  "forM [] f = ret ()"
| "forM (i # is) f = sq (f i) (forM is f)"

text \<open>
  Loops that wait. The body of \<open>again b\<close> either leaves the loop with a result (\<open>Inl\<close>) or has waited
  and goes round again (\<open>Inr\<close>); a body that goes round without waiting is a busy loop.
\<close>

primcorec again_from :: "('a + unit, 's) kern \<Rightarrow> ('a + unit, 's) outcome \<Rightarrow> ('a, 's) outcome" where
  "again_from b r = (case r of
       Ok x t \<Rightarrow> (case x of
           Inl a \<Rightarrow> Ok a t
         | Inr _ \<Rightarrow> (case b t of
               Ok y u \<Rightarrow> (case y of Inl a \<Rightarrow> Ok a u | Inr _ \<Rightarrow> Spin u (\<lambda>v. again_from b (b v)))
             | Wait w u k \<Rightarrow> Wait w u (\<lambda>v. again_from b (k v))
             | Stop e \<Rightarrow> Stop e))
     | Wait w t k \<Rightarrow> Wait w t (\<lambda>u. again_from b (k u))
     | Stop e \<Rightarrow> Stop e)"

definition again :: "('a + unit, 's) kern \<Rightarrow> ('a, 's) kern" where
  "again b = (\<lambda>s. again_from b (b s))"

subsection \<open>Symbolic execution\<close>

lemma ret_run [run_simps]: "ret a s = Ok a s"
  by (simp add: ret_def)

lemma gets_run [run_simps]: "gets f s = Ok (f s) s"
  by (simp add: gets_def)

lemma modify_run [run_simps]: "modify f s = Ok () (f s)"
  by (simp add: modify_def)

lemma panic_run [run_simps]: "panic e s = Panic e"
  by (simp add: panic_def)

lemma fault_run [run_simps]: "fault s = Fault"
  by (simp add: fault_def)

lemma guardM_run [run_simps]: "guardM b s = (if b then Ok () s else Fault)"
  by (simp add: guardM_def)

lemma whenM_run [run_simps]: "whenM b m s = (if b then m s else Ok () s)"
  by (simp add: whenM_def ret_def)

lemma andthen_simps [simp]:
  "andthen (Ok a t) f = f a t"
  "andthen (Wait w t k) f = Wait w t (\<lambda>u. andthen (k u) f)"
  "andthen (Stop e) f = Stop e"
  by (subst andthen.code, simp)+

lemma bnd_run [run_simps]:
  "bnd m f s = (case m s of
       Ok a t \<Rightarrow> f a t
     | Wait w t k \<Rightarrow> Wait w t (\<lambda>u. andthen (k u) f)
     | Stop e \<Rightarrow> Stop e)"
  by (simp add: bnd_def split: outcome.split)

lemma sq_run [run_simps]:
  "sq m n s = (case m s of
       Ok a t \<Rightarrow> n t
     | Wait w t k \<Rightarrow> Wait w t (\<lambda>u. andthen (k u) (\<lambda>_. n))
     | Stop e \<Rightarrow> Stop e)"
  by (simp add: sq_def bnd_run)

lemma again_from_simps:
  "again_from b (Ok (Inl a) t) = Ok a t"
  "again_from b (Ok (Inr z) t) = (case b t of
       Ok y u \<Rightarrow> (case y of Inl a \<Rightarrow> Ok a u | Inr _ \<Rightarrow> Spin u (\<lambda>v. again_from b (b v)))
     | Wait w u k \<Rightarrow> Wait w u (\<lambda>v. again_from b (k v))
     | Stop e \<Rightarrow> Stop e)"
  "again_from b (Wait w t k) = Wait w t (\<lambda>u. again_from b (k u))"
  "again_from b (Stop e) = Stop e"
  by (subst again_from.code, simp)+

lemma again_run [run_simps]:
  "again b s = (case b s of
       Ok x t \<Rightarrow> (case x of
           Inl a \<Rightarrow> Ok a t
         | Inr _ \<Rightarrow> (case b t of
               Ok y u \<Rightarrow> (case y of Inl a \<Rightarrow> Ok a u | Inr _ \<Rightarrow> Spin u (\<lambda>v. again_from b (b v)))
             | Wait w u k \<Rightarrow> Wait w u (\<lambda>v. again_from b (k v))
             | Stop e \<Rightarrow> Stop e))
     | Wait w t k \<Rightarrow> Wait w t (\<lambda>u. again_from b (k u))
     | Stop e \<Rightarrow> Stop e)"
  unfolding again_def by (subst again_from.code) simp

lemma if_run [run_simps]: "(if b then m else n) s = (if b then m s else n s)"
  by simp

lemma case_option_run [run_simps]:
  "(case x of None \<Rightarrow> m | Some a \<Rightarrow> f a) s = (case x of None \<Rightarrow> m s | Some a \<Rightarrow> f a s)"
  by (simp split: option.split)

lemma case_prod_run [run_simps]: "(case p of (a, b) \<Rightarrow> f a b) s = (case p of (a, b) \<Rightarrow> f a b s)"
  by (simp split: prod.split)

lemma let_run [run_simps]: "(let x = a in f x) s = (let x = a in f x s)"
  by simp

lemma andthen_Ok_iff: "andthen r f = Ok b u \<longleftrightarrow> (\<exists>a t. r = Ok a t \<and> f a t = Ok b u)"
  by (cases r) auto

lemma bnd_Ok_iff:
  "bnd m f s = Ok b u \<longleftrightarrow> (\<exists>a t. m s = Ok a t \<and> f a t = Ok b u)"
  by (simp add: bnd_def andthen_Ok_iff)

lemma sq_Ok_iff: "sq m n s = Ok b u \<longleftrightarrow> (\<exists>a t. m s = Ok a t \<and> n t = Ok b u)"
  by (simp add: sq_def bnd_Ok_iff)

lemma andthen_assoc: "andthen (andthen r f) g = andthen r (\<lambda>a s. andthen (f a s) g)"
proof -
  have "(\<exists>r. x = andthen (andthen r f) g \<and> y = andthen r (\<lambda>a s. andthen (f a s) g)) \<Longrightarrow> x = y" for x y
  proof (coinduction arbitrary: x y rule: outcome.coinduct_strong)
    case (Eq_outcome x y)
    then obtain r where "x = andthen (andthen r f) g" "y = andthen r (\<lambda>a s. andthen (f a s) g)" by blast
    then show ?case
      by (cases r) (auto simp: rel_fun_def)
  qed
  then show ?thesis by blast
qed

lemma sq_assoc: "sq (sq m n) p = sq m (sq n p)"
  by (simp add: fun_eq_iff sq_def bnd_def andthen_assoc)

lemma bnd_OkI: "m s = Ok a t \<Longrightarrow> f a t = r \<Longrightarrow> bnd m f s = r"
  by (simp add: bnd_def)

lemma sq_OkI: "m s = Ok a t \<Longrightarrow> n t = r \<Longrightarrow> sq m n s = r"
  by (simp add: sq_def bnd_def)

lemma sq_ret [simp]: "sq (ret a) m = m"
  by (simp add: fun_eq_iff run_simps)

lemma forM_append: "forM (xs @ ys) f = sq (forM xs f) (forM ys f)"
  by (induction xs) (simp_all add: sq_assoc)

text \<open>A loop whose body always returns, and whose effect on the state is a function, folds it.\<close>

lemma forM_fold:
  assumes "\<And>i s. i \<in> set is \<Longrightarrow> P s \<Longrightarrow> f i s = Ok () (g i s) \<and> P (g i s)"
    and "P s"
  shows "forM is f s = Ok () (fold g is s) \<and> P (fold g is s)"
  using assms by (induction "is" arbitrary: s) (simp_all add: run_simps)

subsection \<open>Specifications of kernel functions\<close>

text \<open>
  \<open>meets R G E Q r\<close>: the outcome \<open>r\<close> meets the postcondition \<open>Q\<close> under the rely \<open>R\<close>:
  \<^item> when it returns \<open>a\<close> in state \<open>t\<close>, \<open>Q a t\<close>;
  \<^item> whenever it waits in state \<open>t\<close>, \<open>G\<close> holds of \<open>t\<close>, and it goes on to meet \<open>Q\<close> from every state
    \<open>u\<close> the rest of the system may resume it in (\<open>R w t u\<close>);
  \<^item> it stops only in ways that \<open>E\<close> allows.

  \<open>spec R G E P m Q\<close>: so does \<open>m\<close> from every state in \<open>P\<close>.
\<close>

coinductive meets :: "(wait \<Rightarrow> 's \<Rightarrow> 's \<Rightarrow> bool) \<Rightarrow> (wait \<Rightarrow> 's \<Rightarrow> bool) \<Rightarrow> (stop \<Rightarrow> bool) \<Rightarrow>
    ('a \<Rightarrow> 's \<Rightarrow> bool) \<Rightarrow> ('a, 's) outcome \<Rightarrow> bool" for R G E Q where
  meets_Ok: "Q a t \<Longrightarrow> meets R G E Q (Ok a t)"
| meets_Wait: "G w t \<Longrightarrow> (\<And>u. R w t u \<Longrightarrow> meets R G E Q (k u)) \<Longrightarrow> meets R G E Q (Wait w t k)"
| meets_Stop: "E e \<Longrightarrow> meets R G E Q (Stop e)"

inductive_simps meets_simps [simp]:
  "meets R G E Q (Ok a t)"
  "meets R G E Q (Wait w t k)"
  "meets R G E Q (Stop e)"

definition spec :: "(wait \<Rightarrow> 's \<Rightarrow> 's \<Rightarrow> bool) \<Rightarrow> (wait \<Rightarrow> 's \<Rightarrow> bool) \<Rightarrow> (stop \<Rightarrow> bool) \<Rightarrow>
    ('s \<Rightarrow> bool) \<Rightarrow> ('a, 's) kern \<Rightarrow> ('a \<Rightarrow> 's \<Rightarrow> bool) \<Rightarrow> bool" where
  "spec R G E P m Q \<longleftrightarrow> (\<forall>s. P s \<longrightarrow> meets R G E Q (m s))"

named_theorems spec_intros \<open>specifications, one rule per combinator and operation\<close>

lemma meets_andthen:
  assumes "meets R G E (\<lambda>a t. meets R G E Q (f a t)) r"
  shows "meets R G E Q (andthen r f)"
proof -
  have "(\<exists>r. x = andthen r f \<and> meets R G E (\<lambda>a t. meets R G E Q (f a t)) r) \<or> meets R G E Q x \<Longrightarrow> meets R G E Q x" for x
  proof (coinduction arbitrary: x rule: meets.coinduct)
    case (meets x)
    show ?case
    proof (cases "meets R G E Q x")
      case True
      then show ?thesis by (cases x) auto
    next
      case False
      with meets obtain r where r: "x = andthen r f" "meets R G E (\<lambda>a t. meets R G E Q (f a t)) r" by blast
      show ?thesis
      proof (cases r)
        case (Ok a t)
        then have "meets R G E Q x" using r by simp
        with False show ?thesis by simp
      qed (use r in auto)
    qed
  qed
  then show ?thesis using assms by blast
qed

lemma meets_conseq:
  assumes "meets R G E Q r"
    and "\<And>a t. Q a t \<Longrightarrow> Q' a t" and "\<And>w t. G w t \<Longrightarrow> G' w t" and "\<And>e. E e \<Longrightarrow> E' e"
    and "\<And>w t u. R' w t u \<Longrightarrow> R w t u"
  shows "meets R' G' E' Q' r"
  using assms(1)
proof (coinduction arbitrary: r rule: meets.coinduct)
  case (meets r)
  then show ?case using assms(2-) by (cases r) auto
qed

lemma meets_bnd: "meets R G E (\<lambda>a t. meets R G E Q (f a t)) (m s) \<Longrightarrow> meets R G E Q (bnd m f s)"
  unfolding bnd_def by (rule meets_andthen)

lemma meets_sq: "meets R G E (\<lambda>_ t. meets R G E Q (n t)) (m s) \<Longrightarrow> meets R G E Q (sq m n s)"
  unfolding sq_def by (rule meets_bnd)

lemma spec_bnd:
  assumes "spec R G E P m M" and "\<And>a. spec R G E (M a) (f a) Q"
  shows "spec R G E P (bnd m f) Q"
  unfolding spec_def
proof (intro allI impI meets_bnd)
  fix s assume "P s"
  with assms(1) have "meets R G E M (m s)" by (simp add: spec_def)
  then show "meets R G E (\<lambda>a t. meets R G E Q (f a t)) (m s)"
    by (rule meets_conseq) (use assms(2) in \<open>auto simp: spec_def\<close>)
qed

lemma spec_sq: "spec R G E P m (\<lambda>_. M) \<Longrightarrow> spec R G E M n Q \<Longrightarrow> spec R G E P (sq m n) Q"
  unfolding sq_def by (rule spec_bnd)

lemma spec_again:
  assumes body: "spec R G E J b (\<lambda>x t. case x of Inl a \<Rightarrow> Q a t | Inr _ \<Rightarrow> J t)"
    and stable: "\<And>t. J t \<Longrightarrow> G Busy t" "\<And>t u. J t \<Longrightarrow> R Busy t u \<Longrightarrow> J u"
  shows "spec R G E J (again b) Q"
proof -
  let ?B = "\<lambda>x t. case x of Inl a \<Rightarrow> Q a t | Inr _ \<Rightarrow> J t"
  have b: "meets R G E ?B (b s)" if "J s" for s using body that by (simp add: spec_def)
  have "(\<exists>r. x = again_from b r \<and> meets R G E ?B r) \<Longrightarrow> meets R G E Q x" for x
  proof (coinduction arbitrary: x rule: meets.coinduct)
    case (meets x)
    then obtain r where x: "x = again_from b r" and r: "meets R G E ?B r" by blast
    show ?case
    proof (cases r)
      case (Ok y t)
      show ?thesis
      proof (cases y)
        case (Inl a)
        then show ?thesis using Ok x r by (simp add: again_from_simps)
      next
        case (Inr z)
        then have J: "J t" using Ok r by simp
        show ?thesis
        proof (cases "b t")
          case (Ok y' v)
          then show ?thesis using \<open>r = Ok y t\<close> Inr x b [OF J] stable
            by (cases y') (auto simp: again_from_simps intro!: exI [of _ "b _"] b)
        qed (use \<open>r = Ok y t\<close> Inr x b [OF J] in \<open>auto simp: again_from_simps\<close>)
      qed
    qed (use x r in \<open>auto simp: again_from_simps\<close>)
  qed
  then show ?thesis using b by (auto simp: spec_def again_def)
qed

text \<open>
  \<open>keeps I m\<close>: every state that \<open>m\<close> hands over, by returning, by switching away or while it spins,
  is in \<open>I\<close>, provided it is started and always resumed in a state in \<open>I\<close>.
\<close>

abbreviation keeps :: "('s \<Rightarrow> bool) \<Rightarrow> ('a, 's) kern \<Rightarrow> bool" where
  "keeps I m \<equiv> spec (\<lambda>_ _ u. I u) (\<lambda>_. I) (\<lambda>_. True) I m (\<lambda>_. I)"

named_theorems keeps_intros \<open>invariant preservation, one rule per combinator and operation\<close>

lemma keeps_ret [keeps_intros]: "keeps I (ret a)"
  by (simp add: spec_def ret_def)

lemma keeps_panic [keeps_intros]: "keeps I (panic e)"
  by (simp add: spec_def panic_def)

lemma keeps_fault [keeps_intros]: "keeps I fault"
  by (simp add: spec_def fault_def)

lemma keeps_gets [keeps_intros]: "keeps I (gets f)"
  by (simp add: spec_def gets_def)

lemma keeps_guardM [keeps_intros]: "keeps I (guardM b)"
  by (simp add: spec_def guardM_def)

lemma keeps_modify: "(\<And>s. I s \<Longrightarrow> I (f s)) \<Longrightarrow> keeps I (modify f)"
  by (simp add: spec_def modify_def)

lemma keeps_bnd [keeps_intros]: "keeps I m \<Longrightarrow> (\<And>a. keeps I (f a)) \<Longrightarrow> keeps I (bnd m f)"
  by (rule spec_bnd)

lemma keeps_sq [keeps_intros]: "keeps I m \<Longrightarrow> keeps I n \<Longrightarrow> keeps I (sq m n)"
  by (rule spec_sq)

lemma keeps_if [keeps_intros]: "(b \<Longrightarrow> keeps I m) \<Longrightarrow> (\<not> b \<Longrightarrow> keeps I n) \<Longrightarrow> keeps I (if b then m else n)"
  by simp

lemma keeps_whenM [keeps_intros]: "(b \<Longrightarrow> keeps I m) \<Longrightarrow> keeps I (whenM b m)"
  by (simp add: whenM_def keeps_ret)

lemma keeps_forM [keeps_intros]: "(\<And>i. i \<in> set is \<Longrightarrow> keeps I (f i)) \<Longrightarrow> keeps I (forM is f)"
  by (induction "is") (simp_all add: keeps_ret keeps_sq)

lemma keeps_option [keeps_intros]:
  "keeps I m \<Longrightarrow> (\<And>a. keeps I (f a)) \<Longrightarrow> keeps I (case x of None \<Rightarrow> m | Some a \<Rightarrow> f a)"
  by (cases x) auto

lemma keeps_sum [keeps_intros]:
  "(\<And>a. keeps I (f a)) \<Longrightarrow> (\<And>a. keeps I (g a)) \<Longrightarrow> keeps I (case x of Inl a \<Rightarrow> f a | Inr a \<Rightarrow> g a)"
  by (cases x) auto

lemma keeps_prod [keeps_intros]: "(\<And>a b. x = (a, b) \<Longrightarrow> keeps I (f a b)) \<Longrightarrow> keeps I (case x of (a, b) \<Rightarrow> f a b)"
  by (cases x) auto

lemma keeps_let [keeps_intros]: "keeps I (f a) \<Longrightarrow> keeps I (let x = a in f x)"
  by simp

lemma keeps_again [keeps_intros]:
  assumes "keeps I b"
  shows "keeps I (again b)"
proof (rule spec_again)
  show "spec (\<lambda>_ _ u. I u) (\<lambda>_. I) (\<lambda>_. True) I b (\<lambda>x t. case x of Inl a \<Rightarrow> I t | Inr _ \<Rightarrow> I t)"
    using assms by (auto simp: spec_def elim!: meets_conseq split: sum.split)
qed auto

lemma meets_conj:
  assumes "meets R G E Q r" and "meets R G' E' Q' r"
  shows "meets R (\<lambda>w t. G w t \<and> G' w t) (\<lambda>e. E e \<and> E' e) (\<lambda>a t. Q a t \<and> Q' a t) r"
  using assms
proof (coinduction arbitrary: r rule: meets.coinduct)
  case (meets r)
  then show ?case by (cases r) auto
qed

text \<open>An invariant that the rely keeps may be added to any specification.\<close>

lemma spec_keeps:
  assumes "spec R G E P m Q" and "keeps F m" and "\<And>w t u. F t \<Longrightarrow> R w t u \<Longrightarrow> F u"
  shows "spec R (\<lambda>w t. G w t \<and> F t) E (\<lambda>s. P s \<and> F s) m (\<lambda>a s. Q a s \<and> F s)"
proof -
  have "meets R (\<lambda>_. F) (\<lambda>_. True) Q' r" if "meets (\<lambda>_ _ u. F u) (\<lambda>_. F) (\<lambda>_. True) Q' r" for Q' and r :: "('b, 'a) outcome"
    using that
  proof (coinduction arbitrary: r rule: meets.coinduct)
    case (meets r)
    then show ?case using assms(3) by (cases r) auto
  qed
  then have "meets R (\<lambda>_. F) (\<lambda>_. True) (\<lambda>_. F) (m s)" if "F s" for s using assms(2) that by (simp add: spec_def)
  then show ?thesis using assms(1) meets_conj [of R G E Q _ "\<lambda>_. F" "\<lambda>_. True" "\<lambda>_. F"] by (simp add: spec_def)
qed

lemma spec_conseq:
  assumes "spec R G E P m Q" and "\<And>s. P' s \<Longrightarrow> P s" and "\<And>a t. Q a t \<Longrightarrow> Q' a t" and "\<And>w t. G w t \<Longrightarrow> G' w t"
  shows "spec R G' E P' m Q'"
  unfolding spec_def
proof (intro allI impI)
  fix s assume "P' s"
  with assms(1,2) have "meets R G E Q (m s)" by (simp add: spec_def)
  then show "meets R G' E Q' (m s)" by (rule meets_conseq) (use assms(3,4) in auto)
qed

lemma spec_ex: "(\<And>x. spec R G E (P x) m Q) \<Longrightarrow> spec R G E (\<lambda>s. \<exists>x. P x s) m Q"
  by (auto simp: spec_def)

lemma keepsD: "keeps I m \<Longrightarrow> I s \<Longrightarrow> m s = Ok a t \<Longrightarrow> I t"
  unfolding spec_def by force

subsection \<open>Total correctness\<close>

text \<open>
  \<open>achieves R G Q r\<close>: in every environment \<open>R\<close>, \<open>r\<close> returns after finitely many waits with a result and
  a state in \<open>Q\<close>; it never stops, and whenever it waits, \<open>G\<close> holds and the environment can resume it.
\<close>

inductive achieves :: "(wait \<Rightarrow> 's \<Rightarrow> 's \<Rightarrow> bool) \<Rightarrow> (wait \<Rightarrow> 's \<Rightarrow> bool) \<Rightarrow>
    ('a \<Rightarrow> 's \<Rightarrow> bool) \<Rightarrow> ('a, 's) outcome \<Rightarrow> bool" for R G Q where
  achieves_Ok: "Q a t \<Longrightarrow> achieves R G Q (Ok a t)"
| achieves_Wait: "G w t \<Longrightarrow> R w t u0 \<Longrightarrow> (\<And>u. R w t u \<Longrightarrow> achieves R G Q (k u)) \<Longrightarrow> achieves R G Q (Wait w t k)"

inductive_simps achieves_simps [simp]:
  "achieves R G Q (Ok a t)"
  "achieves R G Q (Wait w t k)"
  "achieves R G Q (Stop e)"

lemma achieves_andthen:
  assumes "achieves R G M r" and "\<And>a t. M a t \<Longrightarrow> achieves R G Q (f a t)"
  shows "achieves R G Q (andthen r f)"
  using assms by (induction rule: achieves.induct) (auto intro: achieves_Wait)

lemma achieves_conseq:
  assumes "achieves R G Q r" and "\<And>a t. Q a t \<Longrightarrow> Q' a t" and "\<And>w t. G w t \<Longrightarrow> G' w t"
  shows "achieves R G' Q' r"
  using assms by (induction rule: achieves.induct) (auto intro: achieves_Wait)

subsection \<open>Lists\<close>

lemma find_index_split:
  assumes "\<exists>x\<in>set xs. P x"
  shows "\<exists>ys x zs. xs = ys @ x # zs \<and> P x \<and> (\<forall>y\<in>set ys. \<not> P y)"
  using assms by (rule split_list_first_prop_iff [THEN iffD1])

end
