(* ===== verification/Riscv.thy ===== *)
theory Riscv
  imports Prelude
begin

unbundle bit_operations_syntax

text \<open>
  The machine layer: the integer types of \<open>kernel/types.h\<close>, the constants of \<open>kernel/param.h\<close>
  and \<open>kernel/memlayout.h\<close>, the address and page-table-entry arithmetic of
  \<open>kernel/riscv.h\<close>, and physical memory as a map from 64-bit addresses to bytes, with the
  little-endian loads and stores the compiled code performs.
\<close>

type_synonym u8 = "8 word"
type_synonym u16 = "16 word"
type_synonym u32 = "32 word"
type_synonym u64 = "64 word"

type_synonym bytes = "u8 list"
type_synonym memory = "u64 \<Rightarrow> u8"

subsection \<open>Constants\<close>

abbreviation (input) NPROC :: nat where "NPROC \<equiv> 64"
abbreviation (input) NCPU :: nat where "NCPU \<equiv> 8"
abbreviation (input) NOFILE :: nat where "NOFILE \<equiv> 16"
abbreviation (input) NFILE :: nat where "NFILE \<equiv> 100"
abbreviation (input) NINODE :: nat where "NINODE \<equiv> 50"
abbreviation (input) NDEV :: nat where "NDEV \<equiv> 10"
abbreviation (input) ROOTDEV :: nat where "ROOTDEV \<equiv> 1"
abbreviation (input) MAXARG :: nat where "MAXARG \<equiv> 32"
abbreviation (input) MAXOPBLOCKS :: nat where "MAXOPBLOCKS \<equiv> 10"
abbreviation (input) LOGSIZE :: nat where "LOGSIZE \<equiv> 30"
abbreviation (input) NBUF :: nat where "NBUF \<equiv> 30"
abbreviation (input) FSSIZE :: nat where "FSSIZE \<equiv> 2000"
abbreviation (input) MAXPATH :: nat where "MAXPATH \<equiv> 128"

definition KERNBASE :: u64 where "KERNBASE = 0x80000000"
definition PHYSTOP :: u64 where "PHYSTOP = 0x88000000"
definition MAXVA :: u64 where "MAXVA = push_bit (9 + 9 + 9 + 12 - 1) 1"
abbreviation (input) PGSIZE :: u64 where "PGSIZE \<equiv> 4096"
definition TRAMPOLINE :: u64 where "TRAMPOLINE = MAXVA - PGSIZE"
definition TRAPFRAME :: u64 where "TRAPFRAME = TRAMPOLINE - PGSIZE"
definition KSTACK :: "nat \<Rightarrow> u64" where
  "KSTACK p = TRAMPOLINE - (of_nat p + 1) * 2 * PGSIZE"

definition UART0 :: u64 where "UART0 = 0x10000000"
definition VIRTIO0 :: u64 where "VIRTIO0 = 0x10001000"
definition PLIC :: u64 where "PLIC = 0x0c000000"

subsection \<open>Page arithmetic\<close>

definition PGROUNDUP :: "u64 \<Rightarrow> u64" where
  "PGROUNDUP sz = (sz + PGSIZE - 1) AND NOT (PGSIZE - 1)"

definition PGROUNDDOWN :: "u64 \<Rightarrow> u64" where
  "PGROUNDDOWN a = a AND NOT (PGSIZE - 1)"

abbreviation (input) PTE_V :: u64 where "PTE_V \<equiv> 1"
abbreviation (input) PTE_R :: u64 where "PTE_R \<equiv> 2"
abbreviation (input) PTE_W :: u64 where "PTE_W \<equiv> 4"
abbreviation (input) PTE_X :: u64 where "PTE_X \<equiv> 8"
abbreviation (input) PTE_U :: u64 where "PTE_U \<equiv> 16"

definition PA2PTE :: "u64 \<Rightarrow> u64" where
  "PA2PTE pa = push_bit 10 (drop_bit 12 pa)"

definition PTE2PA :: "u64 \<Rightarrow> u64" where
  "PTE2PA pte = push_bit 12 (drop_bit 10 pte)"

definition PTE_FLAGS :: "u64 \<Rightarrow> u64" where
  "PTE_FLAGS pte = pte AND 0x3FF"

definition PXSHIFT :: "nat \<Rightarrow> nat" where
  "PXSHIFT level = 12 + 9 * level"

definition PX :: "nat \<Rightarrow> u64 \<Rightarrow> u64" where
  "PX level va = drop_bit (PXSHIFT level) va AND 0x1FF"

definition MAKE_SATP :: "u64 \<Rightarrow> u64" where
  "MAKE_SATP pagetable = push_bit 60 8 OR drop_bit 12 pagetable"

subsection \<open>Memory\<close>

text \<open>Little-endian encoding of an integer as \<open>n\<close> bytes, and back.\<close>

definition le_bytes :: "nat \<Rightarrow> 'a::len word \<Rightarrow> bytes" where
  "le_bytes n v = map (\<lambda>i. ucast (drop_bit (8 * i) v)) [0..<n]"

fun le_word :: "bytes \<Rightarrow> 'a::len word" where
  "le_word [] = 0"
| "le_word (b # bs) = ucast b OR push_bit 8 (le_word bs)"

definition mem_bytes :: "memory \<Rightarrow> u64 \<Rightarrow> nat \<Rightarrow> bytes" where
  "mem_bytes m a n = map (\<lambda>i. m (a + of_nat i)) [0..<n]"

definition mem_put :: "u64 \<Rightarrow> bytes \<Rightarrow> memory \<Rightarrow> memory" where
  "mem_put a bs m = (\<lambda>x. if unat (x - a) < length bs then bs ! unat (x - a) else m x)"

definition load64 :: "memory \<Rightarrow> u64 \<Rightarrow> u64" where
  "load64 m a = le_word (mem_bytes m a 8)"

definition store64 :: "u64 \<Rightarrow> u64 \<Rightarrow> memory \<Rightarrow> memory" where
  "store64 a v m = mem_put a (le_bytes 8 v) m"

subsection \<open>Rounding to pages\<close>

lemma and_not_mask_push: "(a :: 'a::len word) AND NOT (mask n) = push_bit n (drop_bit n a)"
  by (rule bit_word_eqI) (auto simp: bit_simps)

lemma pgsize_mask: "(4095 :: u64) = mask 12"
  by (simp add: mask_eq_exp_minus_1)

lemma pgdown_push: "PGROUNDDOWN a = push_bit 12 (drop_bit 12 a)"
  using and_not_mask_push [of a 12] by (simp add: PGROUNDDOWN_def mask_eq_exp_minus_1)

lemma unat_push_drop: "unat (push_bit n (drop_bit n (a :: u64))) = unat a div 2 ^ n * 2 ^ n"
proof -
  have "unat a div 2 ^ n * 2 ^ n < 2 ^ 64"
    by (rule le_less_trans [OF div_times_less_eq_dividend]) (use unsigned_less [of a] in simp)
  moreover have "unat (push_bit n (drop_bit n a)) = take_bit 64 (push_bit n (drop_bit n (unat a)))"
    using unsigned_less [of a, where 'a = nat]
    by (simp only: unsigned_push_bit_eq unsigned_drop_bit_eq) (simp add: take_bit_nat_eq_self)
  ultimately show ?thesis
    by (simp add: push_bit_eq_mult drop_bit_eq_div take_bit_eq_mod)
qed

lemma unat_pgdown: "unat (PGROUNDDOWN a) = unat a div 4096 * 4096"
  by (simp add: pgdown_push unat_push_drop)

lemma pgdown_le: "unat (PGROUNDDOWN a) \<le> unat a"
  by (simp add: unat_pgdown)

lemma unat_pgup:
  assumes "unat a \<le> 2 ^ 64 - 4096"
  shows "unat (PGROUNDUP a) = (unat a + 4095) div 4096 * 4096"
proof -
  have "unat (a + 4095) = unat a + 4095"
    using assms by (simp add: unat_word_ariths)
  then show ?thesis
    using unat_pgdown [of "a + 4095"] by (simp add: PGROUNDUP_def PGROUNDDOWN_def add_diff_eq [symmetric])
qed

definition pg_aligned :: "u64 \<Rightarrow> bool" where
  "pg_aligned a \<longleftrightarrow> a mod PGSIZE = 0"

lemma pg_aligned_iff: "(a :: u64) mod PGSIZE = 0 \<longleftrightarrow> unat a mod 4096 = 0"
  by (simp add: word_eq_iff_unsigned unsigned_eq_0_iff unat_mod flip: unat_eq_0)

subsection \<open>Page table entries\<close>

lemma aligned_drop_push: "(pa :: u64) mod PGSIZE = 0 \<Longrightarrow> push_bit 12 (drop_bit 12 pa) = pa"
  by (rule word_unat_eq_iff [THEN iffD2])
    (simp add: unat_push_drop pg_aligned_iff div_mult_mod_eq minus_mod_eq_div_mult [symmetric])

lemma bit_small: "(w :: u64) < 2 ^ n \<Longrightarrow> bit w i \<Longrightarrow> i < n"
  by (metis bit_take_bit_iff less_mask_eq take_bit_eq_mask)

lemma PTE2PA_PA2PTE:
  assumes "pa mod PGSIZE = 0" and "f < 1024"
  shows "PTE2PA (PA2PTE pa OR f) = pa"
proof -
  have "PTE2PA (PA2PTE pa OR f) = push_bit 12 (drop_bit 12 pa)"
    using bit_small [of f 10] assms(2)
    by (intro bit_word_eqI) (force simp: PTE2PA_def PA2PTE_def bit_simps)
  then show ?thesis using assms(1) by (simp add: aligned_drop_push)
qed

lemma PTE_FLAGS_PA2PTE:
  assumes "f < 1024"
  shows "PTE_FLAGS (PA2PTE pa OR f) = f"
proof -
  have "PTE_FLAGS w = take_bit 10 w" for w
    by (simp add: PTE_FLAGS_def take_bit_eq_mask mask_eq_exp_minus_1)
  then show ?thesis
    using bit_small [of f 10] assms by (intro bit_word_eqI) (auto simp: PA2PTE_def bit_simps)
qed

lemma PTE2PA_aligned: "PTE2PA pte mod PGSIZE = 0"
proof -
  have "unat (PTE2PA pte) = take_bit 64 (push_bit 12 (unat (drop_bit 10 pte)))"
    unfolding PTE2PA_def by (simp only: unsigned_push_bit_eq) simp
  then show ?thesis
    by (simp add: pg_aligned_iff push_bit_eq_mult take_bit_eq_mod mod_mod_cancel)
qed

text \<open>The three indices and the offset determine an address below \<open>MAXVA\<close>.\<close>

lemma PX_bit: "bit (PX l va) i \<longleftrightarrow> i < 9 \<and> bit va (12 + 9 * l + i)"
proof -
  have "PX l va = take_bit 9 (drop_bit (12 + 9 * l) va)"
    by (simp add: PX_def PXSHIFT_def take_bit_eq_mask mask_eq_exp_minus_1)
  then show ?thesis by (auto simp: bit_simps)
qed

lemma PX_less: "PX l va < 512"
proof -
  have "PX l va \<le> 0x1FF" unfolding PX_def by (rule word_and_le1)
  then show ?thesis by (rule le_less_trans) simp
qed

lemma MAXVA_eq: "MAXVA = 2 ^ 38"
  by (simp add: MAXVA_def)

lemma PX_inject:
  assumes "va < MAXVA" and "va' < MAXVA"
    and "PX 2 va = PX 2 va'" and "PX 1 va = PX 1 va'" and "PX 0 va = PX 0 va'"
  shows "PGROUNDDOWN va = PGROUNDDOWN va'"
proof (rule bit_word_eqI)
  fix n assume "n < LENGTH(64)"
  have low: "n < 38" if "bit va n \<or> bit va' n"
    using that bit_small [of va 38 n] bit_small [of va' 38 n] assms(1,2) by (auto simp: MAXVA_eq)
  have px: "bit va (12 + 9 * l + i) = bit va' (12 + 9 * l + i)" if "l \<in> {0, 1, 2}" "i < 9" for l i
    using that PX_bit [of l va i] PX_bit [of l va' i] assms(3-5) by auto
  have "bit va n = bit va' n" if n: "12 \<le> n" "n < 38"
  proof -
    define l i where "l = (n - 12) div 9" and "i = (n - 12) mod 9"
    have "n = 12 + 9 * l + i" "i < 9" "l \<in> {0, 1, 2}" using n by (auto simp: l_def i_def)
    then show ?thesis using px by auto
  qed
  then show "bit (PGROUNDDOWN va) n = bit (PGROUNDDOWN va') n"
    using low by (auto simp: pgdown_push bit_simps)
qed

subsection \<open>Bytes\<close>

lemma le_bytes_length [simp]: "length (le_bytes n v) = n"
  by (simp add: le_bytes_def)

lemma le_bytes_Suc: "le_bytes (Suc n) v = ucast v # le_bytes n (drop_bit 8 v)"
  by (rule nth_equalityI) (auto simp: le_bytes_def nth_Cons drop_bit_drop_bit add.commute split: nat.split simp del: upt_Suc)

lemma le_bytes_0 [simp]: "le_bytes 0 v = []"
  by (simp add: le_bytes_def)

lemma le_word_le_bytes: "le_word (le_bytes n v) = (take_bit (8 * n) v :: 'a::len word)"
proof (induction n arbitrary: v)
  case 0
  then show ?case by simp
next
  case (Suc n)
  show ?case
    unfolding le_bytes_Suc le_word.simps Suc
    by (rule bit_word_eqI) (auto simp: bit_simps)
qed

lemma le_word_le_bytes_64 [simp]: "le_word (le_bytes 8 v) = (v :: u64)"
  by (simp add: le_word_le_bytes take_bit_word_eq_self)

lemma le_word_le_bytes_32 [simp]: "le_word (le_bytes 4 v) = (v :: u32)"
  by (simp add: le_word_le_bytes take_bit_word_eq_self)

lemma le_word_le_bytes_16 [simp]: "le_word (le_bytes 2 v) = (v :: u16)"
  by (simp add: le_word_le_bytes take_bit_word_eq_self)

lemma mem_bytes_length [simp]: "length (mem_bytes m a n) = n"
  by (simp add: mem_bytes_def)

lemma mem_bytes_nth [simp]: "i < n \<Longrightarrow> mem_bytes m a n ! i = m (a + of_nat i)"
  by (simp add: mem_bytes_def)

lemma unat_of_nat_64: "n < 2 ^ 64 \<Longrightarrow> unat (of_nat n :: u64) = n"
  by (simp add: unat_of_nat take_bit_nat_eq_self)

lemma mem_bytes_put_same:
  assumes "length bs < 2 ^ 64"
  shows "mem_bytes (mem_put a bs m) a (length bs) = bs"
  by (rule nth_equalityI) (use assms in \<open>auto simp: mem_put_def unat_of_nat_64\<close>)

lemma unat_diff_eq_iff: "n < 2 ^ 64 \<Longrightarrow> unat (x - a :: u64) = n \<longleftrightarrow> x = a + of_nat n"
  by (metis add_diff_cancel_left' diff_add_cancel add.commute unat_of_nat_64 unsigned_word_eqI unat_of_nat_64)

lemma add_diff_of_nat: "\<exists>k. x = a + of_nat k \<and> k = unat (x - a :: u64)"
  by (metis add.commute diff_add_cancel of_nat_unat ucast_id)

text \<open>Address ranges: \<open>rng a n\<close> is the set of the \<open>n\<close> byte addresses from \<open>a\<close> on.\<close>

definition rng :: "u64 \<Rightarrow> nat \<Rightarrow> u64 set" where
  "rng a n = {x. unat (x - a) < n}"

lemma mem_put_out: "x \<notin> rng a (length bs) \<Longrightarrow> mem_put a bs m x = m x"
  by (simp add: mem_put_def rng_def)

lemma mem_put_in: "unat (x - a) < length bs \<Longrightarrow> mem_put a bs m x = bs ! unat (x - a)"
  by (simp add: mem_put_def)

lemma rngE:
  assumes "x \<in> rng a n"
  obtains k where "x = a + of_nat k" and "k < n"
proof -
  obtain k where k: "x = a + of_nat k" "k = unat (x - a)" using add_diff_of_nat by blast
  moreover have "k < n" using assms k(2) by (simp add: rng_def)
  ultimately show thesis by (intro that)
qed

lemma in_rng: "i < n \<Longrightarrow> n \<le> 2 ^ 64 \<Longrightarrow> a + of_nat i \<in> rng a n"
  by (simp add: rng_def unat_of_nat_64)

lemma mem_bytes_put_disjoint:
  assumes "rng a n \<inter> rng b (length bs) = {}" and "n \<le> 2 ^ 64"
  shows "mem_bytes (mem_put b bs m) a n = mem_bytes m a n"
proof (rule nth_equalityI)
  fix i assume "i < length (mem_bytes (mem_put b bs m) a n)"
  then have "a + of_nat i \<in> rng a n" "i < n" using assms(2) by (auto intro: in_rng)
  with assms(1) have "a + of_nat i \<notin> rng b (length bs)" by auto
  with \<open>i < n\<close> show "mem_bytes (mem_put b bs m) a n ! i = mem_bytes m a n ! i"
    by (simp add: mem_put_out)
qed simp

lemma load64_store64_same [simp]: "load64 (store64 a v m) a = v"
proof -
  have "mem_bytes (store64 a v m) a 8 = le_bytes 8 v"
    using mem_bytes_put_same [of "le_bytes 8 v" a m] by (simp add: store64_def)
  then show ?thesis by (simp add: load64_def)
qed

lemma load64_store64_disjoint:
  "rng a 8 \<inter> rng b 8 = {} \<Longrightarrow> load64 (store64 b v m) a = load64 m a"
  by (simp add: load64_def store64_def mem_bytes_put_disjoint)

lemma load64_put_disjoint:
  "rng a 8 \<inter> rng b (length bs) = {} \<Longrightarrow> load64 (mem_put b bs m) a = load64 m a"
  by (simp add: load64_def mem_bytes_put_disjoint)

end
