(* ===== verification/Cstring.thy ===== *)
theory Cstring
  imports Riscv
begin

text \<open>
  \<open>kernel/string.c\<close>. Block operations (\<open>memset\<close>, \<open>memmove\<close>) work on physical memory; the
  comparison and string operations work on arrays, a \<open>char*\<close> being the function from the
  index to the byte at that index. Every loop is the recursion of the source, and each is
  shown equal to what the function is for.
\<close>

type_synonym chars = "nat \<Rightarrow> u8"

definition memset :: "u64 \<Rightarrow> u32 \<Rightarrow> nat \<Rightarrow> memory \<Rightarrow> memory" where
  "memset dst c n m = fold (\<lambda>i m. m(dst + of_nat i := ucast c)) [0..<n] m"

text \<open>\<open>*d++ = *s++\<close> and \<open>*--d = *--s\<close>, \<open>n\<close> times.\<close>

fun copy_fwd :: "nat \<Rightarrow> u64 \<Rightarrow> u64 \<Rightarrow> memory \<Rightarrow> memory" where
  "copy_fwd 0 d s m = m"
| "copy_fwd (Suc n) d s m = copy_fwd n (d + 1) (s + 1) (m(d := m s))"

fun copy_bwd :: "nat \<Rightarrow> u64 \<Rightarrow> u64 \<Rightarrow> memory \<Rightarrow> memory" where
  "copy_bwd 0 d s m = m"
| "copy_bwd (Suc n) d s m = copy_bwd n (d - 1) (s - 1) (m(d - 1 := m (s - 1)))"

definition memmove :: "u64 \<Rightarrow> u64 \<Rightarrow> nat \<Rightarrow> memory \<Rightarrow> memory" where
  "memmove dst src n m =
     (if n = 0 then m
      else if src < dst \<and> src + of_nat n > dst
      then copy_bwd n (dst + of_nat n) (src + of_nat n) m
      else copy_fwd n dst src m)"

definition memcpy :: "u64 \<Rightarrow> u64 \<Rightarrow> nat \<Rightarrow> memory \<Rightarrow> memory" where
  "memcpy dst src n m = memmove dst src n m"

fun memcmp_loop :: "chars \<Rightarrow> chars \<Rightarrow> nat \<Rightarrow> nat \<Rightarrow> int" where
  "memcmp_loop s1 s2 i 0 = 0"
| "memcmp_loop s1 s2 i (Suc n) =
     (if s1 i \<noteq> s2 i then uint (s1 i) - uint (s2 i) else memcmp_loop s1 s2 (Suc i) n)"

definition memcmp :: "chars \<Rightarrow> chars \<Rightarrow> nat \<Rightarrow> int" where
  "memcmp v1 v2 n = memcmp_loop v1 v2 0 n"

fun strncmp_loop :: "chars \<Rightarrow> chars \<Rightarrow> nat \<Rightarrow> nat \<Rightarrow> int" where
  "strncmp_loop p q i 0 = 0"
| "strncmp_loop p q i (Suc n) =
     (if p i \<noteq> 0 \<and> p i = q i then strncmp_loop p q (Suc i) n
      else uint (p i) - uint (q i))"

definition strncmp :: "chars \<Rightarrow> chars \<Rightarrow> nat \<Rightarrow> int" where
  "strncmp p q n = strncmp_loop p q 0 n"

text \<open>
  \<open>strncpy\<close> copies up to and including the NUL and pads with zeros; \<open>safestrcpy\<close> copies at
  most \<open>n - 1\<close> bytes and stores a NUL where the copy stopped.
\<close>

fun strncpy_pad :: "nat \<Rightarrow> nat \<Rightarrow> chars \<Rightarrow> chars" where
  "strncpy_pad i 0 s = s"
| "strncpy_pad i (Suc n) s = strncpy_pad (Suc i) n (s(i := 0))"

fun strncpy_copy :: "chars \<Rightarrow> nat \<Rightarrow> nat \<Rightarrow> chars \<Rightarrow> chars" where
  "strncpy_copy t i 0 s = s"
| "strncpy_copy t i (Suc n) s =
     (if t i \<noteq> 0 then strncpy_copy t (Suc i) n (s(i := t i))
      else strncpy_pad (Suc i) n (s(i := t i)))"

definition strncpy :: "chars \<Rightarrow> chars \<Rightarrow> int \<Rightarrow> chars" where
  "strncpy s t n = strncpy_copy t 0 (nat n) s"

fun safestrcpy_loop :: "chars \<Rightarrow> nat \<Rightarrow> nat \<Rightarrow> chars \<Rightarrow> chars" where
  "safestrcpy_loop t i 0 s = s(i := 0)"
| "safestrcpy_loop t i (Suc n) s =
     (if t i \<noteq> 0 then safestrcpy_loop t (Suc i) n (s(i := t i))
      else (s(i := t i))(Suc i := 0))"

definition safestrcpy :: "chars \<Rightarrow> chars \<Rightarrow> int \<Rightarrow> chars" where
  "safestrcpy s t n = (if n \<le> 0 then s else safestrcpy_loop t 0 (nat n - 1) s)"

text \<open>\<open>strlen\<close> runs on while it sees no NUL, so it returns only where there is one.\<close>

partial_function (option) strlen_from :: "chars \<Rightarrow> nat \<Rightarrow> nat option" where
  "strlen_from s n = (if s n = 0 then Some n else strlen_from s (Suc n))"

definition strlen :: "chars \<Rightarrow> nat option" where
  "strlen s = strlen_from s 0"

text \<open>The string an array holds in its first \<open>n\<close> bytes, and the array of a literal.\<close>

definition cstr_upto :: "nat \<Rightarrow> chars \<Rightarrow> bytes" where
  "cstr_upto n p = takeWhile (\<lambda>b. b \<noteq> 0) (map p [0..<n])"

definition cstr :: "bytes \<Rightarrow> chars" where
  "cstr bs = (\<lambda>i. if i < length bs then bs ! i else 0)"

subsection \<open>Block operations\<close>

lemma memset_eq: "n \<le> 2 ^ 64 \<Longrightarrow> memset dst c n m = mem_put dst (replicate n (ucast c)) m"
proof (induction n)
  case 0
  then show ?case by (simp add: memset_def mem_put_def)
next
  case (Suc n)
  then have IH: "memset dst c n m = mem_put dst (replicate n (ucast c)) m" by simp
  have step: "memset dst c (Suc n) m = (memset dst c n m)(dst + of_nat n := ucast c)"
    by (simp add: memset_def)
  show ?case
  proof
    fix x
    have "unat (x - dst) = n \<longleftrightarrow> x = dst + of_nat n"
      using Suc.prems by (intro unat_diff_eq_iff) simp
    then show "memset dst c (Suc n) m x = mem_put dst (replicate (Suc n) (ucast c)) m x"
      unfolding step IH by (auto simp: mem_put_def less_Suc_eq simp del: replicate_Suc)
  qed
qed

lemma rng_Suc: "unat (x - d :: u64) < Suc n \<longleftrightarrow> x = d \<or> (x \<noteq> d \<and> unat (x - (d + 1)) < n)"
proof (cases "x = d")
  case False
  then have "unat (x - d - 1) = unat (x - d) - 1" "unat (x - d) \<noteq> 0"
    by (simp_all add: unat_minus_one unat_eq_0)
  moreover have "x - (d + 1) = x - d - 1" by simp
  ultimately show ?thesis using False by (simp only:) auto
qed simp

text \<open>A forward copy is right where no byte is overwritten before it is read.\<close>

lemma copy_fwd_eq:
  assumes "\<forall>i j. i < j \<longrightarrow> j < n \<longrightarrow> d + of_nat i \<noteq> s + of_nat j" and "n < 2 ^ 64"
  shows "copy_fwd n d s m = (\<lambda>x. if unat (x - d) < n then m (s + (x - d)) else m x)"
  using assms
proof (induction n arbitrary: d s m)
  case 0
  then show ?case by simp
next
  case (Suc n)
  have sep: "\<forall>i j. i < j \<longrightarrow> j < n \<longrightarrow> d + 1 + of_nat i \<noteq> s + 1 + of_nat j"
  proof (intro allI impI)
    fix i j :: nat assume "i < j" "j < n"
    then have "d + of_nat (Suc i) \<noteq> s + of_nat (Suc j)" using Suc.prems(1) by blast
    then show "d + 1 + of_nat i \<noteq> s + 1 + of_nat j" by (simp add: algebra_simps)
  qed
  have d: "s + (x - d) \<noteq> d" if "x \<noteq> d" "unat (x - (d + 1)) < n" for x
  proof -
    define j where "j = Suc (unat (x - (d + 1)))"
    have "0 < j" "j < Suc n" using that by (simp_all add: j_def)
    then have "d + of_nat 0 \<noteq> s + of_nat j" using Suc.prems(1) by blast
    then show ?thesis by (simp add: j_def)
  qed
  have "copy_fwd (Suc n) d s m =
      (\<lambda>x. if unat (x - (d + 1)) < n then (m(d := m s)) (s + 1 + (x - (d + 1))) else (m(d := m s)) x)"
    using Suc.IH [OF sep] Suc.prems(2) by simp
  also have "\<dots> = (\<lambda>x. if unat (x - d) < Suc n then m (s + (x - d)) else m x)"
  proof
    fix x
    have "unat (d - (d + 1)) = 2 ^ 64 - 1"
      by (simp add: unsigned_minus_1_eq_mask mask_eq_exp_minus_1)
    then show "(if unat (x - (d + 1)) < n then (m(d := m s)) (s + 1 + (x - (d + 1))) else (m(d := m s)) x)
        = (if unat (x - d) < Suc n then m (s + (x - d)) else m x)"
      using d [of x] Suc.prems(2) by (cases "x = d") (simp_all add: rng_Suc [of x d n])
  qed
  finally show ?case .
qed

lemma copy_bwd_eq:
  assumes "\<forall>i j. j < i \<longrightarrow> i < n \<longrightarrow> d + of_nat i \<noteq> s + of_nat j" and "n < 2 ^ 64"
  shows "copy_bwd n (d + of_nat n) (s + of_nat n) m =
    (\<lambda>x. if unat (x - d) < n then m (s + (x - d)) else m x)"
  using assms
proof (induction n arbitrary: m)
  case 0
  then show ?case by simp
next
  case (Suc n)
  let ?m = "m(d + of_nat n := m (s + of_nat n))"
  have "copy_bwd (Suc n) (d + of_nat (Suc n)) (s + of_nat (Suc n)) m =
      copy_bwd n (d + of_nat n) (s + of_nat n) ?m"
    by (simp add: algebra_simps)
  also have "\<dots> = (\<lambda>x. if unat (x - d) < n then ?m (s + (x - d)) else ?m x)"
    by (rule Suc.IH) (use Suc.prems in simp_all)
  also have "\<dots> = (\<lambda>x. if unat (x - d) < Suc n then m (s + (x - d)) else m x)"
  proof
    fix x
    have "d + of_nat n \<noteq> s + of_nat (unat (x - d))" if "unat (x - d) < n"
      using that Suc.prems(1) by blast
    then show "(if unat (x - d) < n then ?m (s + (x - d)) else ?m x) =
        (if unat (x - d) < Suc n then m (s + (x - d)) else m x)"
      using unat_diff_eq_iff [of n x d] Suc.prems(2) by (auto simp: less_Suc_eq)
  qed
  finally show ?case .
qed

lemma mem_put_bytes:
  "n < 2 ^ 64 \<Longrightarrow> mem_put d (mem_bytes m s n) m' = (\<lambda>x. if unat (x - d) < n then m (s + (x - d)) else m' x)"
  by (rule ext) (simp add: mem_put_def)

lemma word_add_inj_nowrap:
  assumes "unat (d :: u64) + i < 2 ^ 64" and "unat s + j < 2 ^ 64"
  shows "d + of_nat i = s + of_nat j \<longleftrightarrow> unat d + i = unat s + j"
proof -
  have "unat (d + of_nat i) = unat d + i" "unat (s + of_nat j) = unat s + j"
    using assms by (simp_all add: unat_word_ariths unat_of_nat_64)
  then show ?thesis by (metis word_unat_eq_iff)
qed

lemma memmove_eq:
  assumes "unat src + n < 2 ^ 64" and "unat dst + n < 2 ^ 64"
  shows "memmove dst src n m = mem_put dst (mem_bytes m src n) m"
proof -
  have no_wrap: "dst + of_nat i = src + of_nat j \<longleftrightarrow> unat dst + i = unat src + j" if "i < n" "j < n" for i j
    using that assms by (intro word_add_inj_nowrap) simp_all
  have above: "dst < src + of_nat n \<longleftrightarrow> unat dst < unat src + n"
    using assms by (simp add: word_less_nat_alt unat_word_ariths unat_of_nat_64)
  have "memmove dst src n m = (\<lambda>x. if unat (x - dst) < n then m (src + (x - dst)) else m x)"
  proof (cases "src < dst \<and> dst < src + of_nat n")
    case True
    then have "\<forall>i j. j < i \<longrightarrow> i < n \<longrightarrow> dst + of_nat i \<noteq> src + of_nat j"
      using no_wrap by (auto simp: word_less_nat_alt)
    with True assms show ?thesis by (simp add: memmove_def copy_bwd_eq)
  next
    case False
    then have "\<forall>i j. i < j \<longrightarrow> j < n \<longrightarrow> dst + of_nat i \<noteq> src + of_nat j"
      using no_wrap above by (auto simp: word_less_nat_alt)
    with False assms show ?thesis by (auto simp: memmove_def copy_fwd_eq)
  qed
  with assms show ?thesis by (simp add: mem_put_bytes)
qed

text \<open>
  C37: \<open>memmove\<close> leaves at \<open>dst\<close> the \<open>n\<close> bytes that were at \<open>src\<close> before the call and changes no
  byte outside \<open>dst .. dst + n\<close>, also when the two ranges overlap, as long as neither range
  reaches the end of the address space.
\<close>

theorem memmove_correct:
  assumes "unat src + n < 2 ^ 64" and "unat dst + n < 2 ^ 64"
  shows "mem_bytes (memmove dst src n m) dst n = mem_bytes m src n
    \<and> (x \<in> rng dst n \<or> memmove dst src n m x = m x)"
  using assms mem_bytes_put_same [of "mem_bytes m src n" dst m] mem_put_out [of x dst "mem_bytes m src n" m]
  by (auto simp: memmove_eq)

theorem memmove_correct_witness:
  "mem_bytes (memmove 0x1004 0x1000 8 (\<lambda>x. ucast x)) 0x1004 8 = mem_bytes (\<lambda>x. ucast x) 0x1000 8
    \<and> (0x1003 \<in> rng 0x1004 8 \<or> memmove 0x1004 0x1000 8 (\<lambda>x. ucast x) 0x1003 = ucast (0x1003 :: u64))"
  by (rule memmove_correct) simp_all

subsection \<open>Strings\<close>

lemma strncmp_loop_zero:
  "strncmp_loop p q i n = 0 \<longleftrightarrow>
     takeWhile (\<lambda>b. b \<noteq> 0) (map p [i..<i + n]) = takeWhile (\<lambda>b. b \<noteq> 0) (map q [i..<i + n])"
proof (induction n arbitrary: i)
  case 0
  then show ?case by simp
next
  case (Suc n)
  have upt: "[i..<i + Suc n] = i # [Suc i..<Suc i + n]" by (simp add: upt_conv_Cons del: upt_Suc)
  have diff: "uint a - uint b = 0 \<longleftrightarrow> a = b" for a b :: u8 by (simp add: word_uint_eq_iff)
  show ?case unfolding upt using Suc.IH [of "Suc i"] diff [of "p i" "q i"]
    by (auto simp del: upt_Suc)
qed

lemma strncmp_zero: "strncmp p q n = 0 \<longleftrightarrow> cstr_upto n p = cstr_upto n q"
  using strncmp_loop_zero [of p q 0 n] by (simp add: strncmp_def cstr_upto_def)

lemma strncpy_pad_eq: "strncpy_pad i n s = (\<lambda>k. if i \<le> k \<and> k < i + n then 0 else s k)"
  by (induction n arbitrary: i s) (auto simp: fun_eq_iff)

lemma strncpy_copy_eq:
  "strncpy_copy t i n s =
     (\<lambda>k. if i \<le> k \<and> k < i + n then (if \<exists>j. i \<le> j \<and> j < k \<and> t j = 0 then 0 else t k) else s k)"
proof (induction n arbitrary: i s)
  case 0
  then show ?case by (auto simp: fun_eq_iff)
next
  case (Suc n)
  show ?case
  proof (cases "t i = 0")
    case True
    then show ?thesis by (auto simp: strncpy_pad_eq fun_eq_iff)
  next
    case False
    then have "(\<exists>j. i \<le> j \<and> j < k \<and> t j = 0) = (\<exists>j. Suc i \<le> j \<and> j < k \<and> t j = 0)" for k
      by (metis Suc_le_eq le_eq_less_or_eq)
    with False show ?thesis by (auto simp: Suc.IH fun_eq_iff)
  qed
qed

lemma strncpy_eq:
  "strncpy s t (int n) = (\<lambda>k. if k < n then (if \<exists>j<k. t j = 0 then 0 else t k) else s k)"
  by (rule ext) (simp add: strncpy_def strncpy_copy_eq)

lemma takeWhile_map_upt_cong:
  assumes "\<And>k. k < n \<Longrightarrow> \<forall>j<k. p j \<noteq> 0 \<Longrightarrow> p k = q k"
  shows "takeWhile (\<lambda>b. b \<noteq> (0 :: u8)) (map p [0..<n]) = takeWhile (\<lambda>b. b \<noteq> 0) (map q [0..<n])"
  using assms
proof (induction n)
  case 0
  then show ?case by simp
next
  case (Suc n)
  then have IH: "takeWhile (\<lambda>b. b \<noteq> 0) (map p [0..<n]) = takeWhile (\<lambda>b. b \<noteq> 0) (map q [0..<n])"
    by simp
  show ?case
  proof (cases "\<forall>j<n. p j \<noteq> 0")
    case True
    have "p j = q j" if "j < Suc n" for j using that Suc.prems True by auto
    then have "map p [0..<Suc n] = map q [0..<Suc n]" by simp
    then show ?thesis by (simp only:)
  next
    case False
    then obtain j where j: "j < n" "p j = 0" "\<forall>i<j. p i \<noteq> 0"
      using exists_least_iff [of "\<lambda>j. j < n \<and> p j = 0"] by (metis order.strict_trans)
    then have "q j = 0" using Suc.prems by (metis less_Suc_eq)
    with j have "\<exists>x\<in>set (map p [0..<n]). x = 0" "\<exists>x\<in>set (map q [0..<n]). x = 0" by force+
    then have "takeWhile (\<lambda>b. b \<noteq> 0) (map p [0..<n] @ [p n]) = takeWhile (\<lambda>b. b \<noteq> 0) (map p [0..<n])"
      "takeWhile (\<lambda>b. b \<noteq> 0) (map q [0..<n] @ [q n]) = takeWhile (\<lambda>b. b \<noteq> 0) (map q [0..<n])"
      by (simp_all add: takeWhile_append1)
    with IH show ?thesis by simp
  qed
qed

lemma cstr_upto_strncpy: "cstr_upto n (strncpy s t (int n)) = cstr_upto n t"
  unfolding cstr_upto_def
  by (rule takeWhile_map_upt_cong [symmetric]) (auto simp: strncpy_eq)

lemma strncmp_strncpy: "strncmp t (strncpy s t (int n)) n = 0"
  by (simp add: strncmp_zero cstr_upto_strncpy)

lemma safestrcpy_loop_eq:
  "safestrcpy_loop t i n s k =
     (if i \<le> k \<and> k < i + n \<and> (\<forall>j. i \<le> j \<and> j < k \<longrightarrow> t j \<noteq> 0) then t k
      else if i \<le> k \<and> k \<le> i + n \<and> (\<forall>j. i \<le> j \<and> Suc j < k \<longrightarrow> t j \<noteq> 0) then 0
      else s k)"
proof (induction n arbitrary: i s)
  case 0
  then show ?case by auto
next
  case (Suc n)
  show ?case
  proof (cases "t i = 0")
    case True
    then show ?thesis by (auto simp: le_eq_less_or_eq Suc_le_eq)
  next
    case False
    have "(\<forall>j. i \<le> j \<and> j < k \<longrightarrow> t j \<noteq> 0) = (\<forall>j. Suc i \<le> j \<and> j < k \<longrightarrow> t j \<noteq> 0)"
      "(\<forall>j. i \<le> j \<and> Suc j < k \<longrightarrow> t j \<noteq> 0) = (\<forall>j. Suc i \<le> j \<and> Suc j < k \<longrightarrow> t j \<noteq> 0)" for k
      using False by (metis Suc_le_eq le_eq_less_or_eq)+
    with False show ?thesis by (auto simp: Suc.IH)
  qed
qed

lemma safestrcpy_string:
  assumes "0 < n"
  shows "cstr_upto n (safestrcpy s t (int n)) = cstr_upto (n - 1) t"
    and "\<exists>k<n. safestrcpy s t (int n) k = 0"
    and "\<And>k. n \<le> k \<Longrightarrow> safestrcpy s t (int n) k = s k"
proof -
  obtain m where n: "n = Suc m" using assms by (cases n) auto
  let ?r = "safestrcpy s t (int n)"
  have r: "?r k = (if k < m \<and> (\<forall>j<k. t j \<noteq> 0) then t k
      else if k \<le> m \<and> (\<forall>j. Suc j < k \<longrightarrow> t j \<noteq> 0) then 0 else s k)" for k
  proof -
    have "?r = safestrcpy_loop t 0 m s" using n assms by (simp add: safestrcpy_def nat_add_distrib)
    then show ?thesis by (auto simp: safestrcpy_loop_eq)
  qed
  have same: "?r k = t k" if "k < m" "\<forall>j<k. t j \<noteq> 0" for k using that by (simp add: r)
  have "cstr_upto m ?r = cstr_upto m t"
    unfolding cstr_upto_def
    by (rule takeWhile_map_upt_cong [symmetric]) (use same in auto)
  moreover have "cstr_upto (Suc m) ?r = cstr_upto m ?r"
  proof (cases "\<forall>j<m. t j \<noteq> 0")
    case True
    then have "?r m = 0" by (auto simp: r)
    then show ?thesis by (auto simp: cstr_upto_def takeWhile_append takeWhile_eq_all_conv [THEN iffD2])
  next
    case False
    then obtain j where "j < m" "t j = 0" "\<forall>i<j. t i \<noteq> 0"
      using exists_least_iff [of "\<lambda>j. j < m \<and> t j = 0"] by (metis order.strict_trans)
    then have "?r j = 0" using same by simp
    with \<open>j < m\<close> have "\<exists>x\<in>set (map ?r [0..<m]). x = 0" by force
    then show ?thesis by (simp add: cstr_upto_def takeWhile_append1)
  qed
  ultimately show "cstr_upto n ?r = cstr_upto (n - 1) t" by (simp add: n)
  show "\<exists>k<n. ?r k = 0"
  proof (cases "\<forall>j<m. t j \<noteq> 0")
    case True
    then have "?r m = 0" by (auto simp: r)
    then show ?thesis using n by blast
  next
    case False
    then obtain j where "j < m" "t j = 0" "\<forall>i<j. t i \<noteq> 0"
      using exists_least_iff [of "\<lambda>j. j < m \<and> t j = 0"] by (metis order.strict_trans)
    then have "?r j = 0" "j < n" using same [of j] n by simp_all
    then show ?thesis by blast
  qed
  show "?r k = s k" if "n \<le> k" for k
  proof -
    have "m < k" using that n by simp
    then show ?thesis by (simp add: r)
  qed
qed

lemma strlen_from_Some:
  assumes "s k = 0" and "n \<le> k"
  shows "strlen_from s n = Some (LEAST j. n \<le> j \<and> s j = 0)"
  using assms(2)
proof (induction "k - n" arbitrary: n)
  case 0
  then have "n = k" by simp
  with assms(1) show ?case by (subst strlen_from.simps) (auto intro: Least_equality [symmetric])
next
  case (Suc d)
  show ?case
  proof (cases "s n = 0")
    case True
    then show ?thesis by (subst strlen_from.simps) (auto intro: Least_equality [symmetric])
  next
    case False
    with assms(1) Suc have "n < k" by (metis le_eq_less_or_eq)
    moreover have "d = k - Suc n" using Suc.hyps(2) by simp
    ultimately have "strlen_from s (Suc n) = Some (LEAST j. Suc n \<le> j \<and> s j = 0)"
      using Suc.hyps(1) [of "Suc n"] by simp
    moreover have "(\<lambda>j. Suc n \<le> j \<and> s j = 0) = (\<lambda>j. n \<le> j \<and> s j = 0)"
      using False by (auto simp: fun_eq_iff Suc_le_eq le_eq_less_or_eq)
    ultimately show ?thesis using False by (subst strlen_from.simps) simp
  qed
qed

lemma strlen_Some: "s k = 0 \<Longrightarrow> strlen s = Some (LEAST j. s j = 0)"
  using strlen_from_Some [of s k 0] by (simp add: strlen_def)

end
