(* ===== verification/Spinlock.thy ===== *)
theory Spinlock
  imports Riscv
begin

text \<open>
  \<open>kernel/spinlock.c\<close>, with the per-CPU part of \<open>kernel/proc.c\<close> and the interrupt bit of
  \<open>kernel/riscv.h\<close>. The record \<open>mach\<close> is the bottom layer of the kernel's state: the spin
  locks, the \<open>struct cpu\<close> array, each hart's \<open>sstatus\<close> register and the hart that runs.
  Every other component extends it, so its functions call \<open>acquire\<close> and \<open>release\<close> as they are.

  The second half gives the lock an interleaving semantics, in which any number of CPUs execute
  \<open>acquire\<close> and \<open>release\<close> one memory access at a time.
\<close>

text \<open>The locks of the kernel, named by the object that holds them.\<close>

datatype sleepid = BufSleep nat | InodeSleep nat

datatype lockid =
    KmemLock
  | PidLock
  | WaitLock
  | ProcLock nat
  | BcacheLock
  | SleepSpin sleepid
  | LogLock
  | ItableLock
  | FtableLock
  | PipeLock u64
  | ConsLock
  | UartTxLock
  | PrLock
  | TicksLock
  | VdiskLock

record spinlock =
  lk_locked :: u32
  lk_name :: string
  lk_cpu :: "nat option"

text \<open>
  \<open>noff\<close> is an \<open>int\<close> in \<open>kernel/proc.h\<close>; here it is the integer that it stands for, which is the same as long as the
  depth is below \<open>2^31\<close> (\<open>push_pop_nesting\<close>). The depth is at most one more than the number of locks that a CPU holds.
\<close>

record cpu =
  cpu_proc :: "nat option"
  noff :: int
  intena :: bool

record mach =
  locks :: "lockid \<Rightarrow> spinlock"
  cpus :: "nat \<Rightarrow> cpu"
  sstatus :: "nat \<Rightarrow> u64"
  tp :: nat

definition SSTATUS_SIE :: u64 where "SSTATUS_SIE = 2"
definition SSTATUS_UPIE :: u64 where "SSTATUS_UPIE = 16"
definition SSTATUS_SPIE :: u64 where "SSTATUS_SPIE = 32"
definition SSTATUS_SPP :: u64 where "SSTATUS_SPP = 256"

subsection \<open>Interrupt enable bit, current CPU\<close>

unbundle bit_operations_syntax

definition w_sstatus :: "u64 \<Rightarrow> (unit, 'z mach_scheme) kern" where
  "w_sstatus x = modify (\<lambda>s. s\<lparr>sstatus := (sstatus s)(tp s := x)\<rparr>)"

definition r_sstatus :: "(u64, 'z mach_scheme) kern" where
  "r_sstatus = gets (\<lambda>s. sstatus s (tp s))"

definition intr_on :: "(unit, 'z mach_scheme) kern" where
  "intr_on = bnd r_sstatus (\<lambda>x. w_sstatus (x OR SSTATUS_SIE))"

definition intr_off :: "(unit, 'z mach_scheme) kern" where
  "intr_off = bnd r_sstatus (\<lambda>x. w_sstatus (x AND NOT SSTATUS_SIE))"

definition intr_get :: "(bool, 'z mach_scheme) kern" where
  "intr_get = bnd r_sstatus (\<lambda>x. ret (x AND SSTATUS_SIE \<noteq> 0))"

definition cpuid :: "(nat, 'z mach_scheme) kern" where
  "cpuid = gets tp"

definition mycpu :: "(nat, 'z mach_scheme) kern" where
  "mycpu = cpuid"

definition upd_cpu :: "nat \<Rightarrow> (cpu \<Rightarrow> cpu) \<Rightarrow> (unit, 'z mach_scheme) kern" where
  "upd_cpu c f = modify (\<lambda>s. s\<lparr>cpus := (cpus s)(c := f (cpus s c))\<rparr>)"

definition upd_lock :: "lockid \<Rightarrow> (spinlock \<Rightarrow> spinlock) \<Rightarrow> (unit, 'z mach_scheme) kern" where
  "upd_lock l f = modify (\<lambda>s. s\<lparr>locks := (locks s)(l := f (locks s l))\<rparr>)"

subsection \<open>The operations of spinlock.c\<close>

definition init_spinlock :: "string \<Rightarrow> spinlock" where
  "init_spinlock nm = \<lparr>lk_locked = 0, lk_name = nm, lk_cpu = None\<rparr>"

definition initlock :: "lockid \<Rightarrow> string \<Rightarrow> (unit, 'z mach_scheme) kern" where
  "initlock l nm = upd_lock l (\<lambda>_. init_spinlock nm)"

definition push_off :: "(unit, 'z mach_scheme) kern" where
  "push_off =
     bnd intr_get (\<lambda>old.
     sq intr_off (
     bnd mycpu (\<lambda>c.
     bnd (gets (\<lambda>s. noff (cpus s c))) (\<lambda>n.
     sq (whenM (n = 0) (upd_cpu c (\<lambda>k. k\<lparr>intena := old\<rparr>)))
        (upd_cpu c (\<lambda>k. k\<lparr>noff := noff k + 1\<rparr>))))))"

definition pop_off :: "(unit, 'z mach_scheme) kern" where
  "pop_off =
     bnd mycpu (\<lambda>c.
     bnd intr_get (\<lambda>on.
     if on then panic ''pop_off - interruptible''
     else bnd (gets (\<lambda>s. noff (cpus s c))) (\<lambda>n.
     if n < 1 then panic ''pop_off''
     else sq (upd_cpu c (\<lambda>k. k\<lparr>noff := noff k - 1\<rparr>)) (
     bnd (gets (\<lambda>s. cpus s c)) (\<lambda>k.
     whenM (noff k = 0 \<and> intena k) intr_on)))))"

text \<open>The memory accesses of the lock protocol, shared with the interleaving semantics below.\<close>

definition lk_holding :: "spinlock \<Rightarrow> nat \<Rightarrow> bool" where
  "lk_holding lk c \<longleftrightarrow> lk_locked lk \<noteq> 0 \<and> lk_cpu lk = Some c"

definition lk_swap :: "spinlock \<Rightarrow> u32 \<times> spinlock" where
  "lk_swap lk = (lk_locked lk, lk\<lparr>lk_locked := 1\<rparr>)"

definition holding :: "lockid \<Rightarrow> (bool, 'z mach_scheme) kern" where
  "holding l = bnd mycpu (\<lambda>c. gets (\<lambda>s. lk_holding (locks s l) c))"

text \<open>The loop \<open>while(__sync_lock_test_and_set(&lk->locked, 1) != 0)\<close>.\<close>

definition swap_locked :: "lockid \<Rightarrow> 'z mach_scheme \<Rightarrow> 'z mach_scheme" where
  "swap_locked l s = s\<lparr>locks := (locks s)(l := snd (lk_swap (locks s l)))\<rparr>"

primcorec spin_swap :: "lockid \<Rightarrow> 'z mach_scheme \<Rightarrow> (unit, 'z mach_scheme) outcome" where
  "spin_swap l s =
     (if fst (lk_swap (locks s l)) = 0 then Ok () (swap_locked l s)
      else Spin (swap_locked l s) (\<lambda>u. spin_swap l u))"

definition acquire :: "lockid \<Rightarrow> (unit, 'z mach_scheme) kern" where
  "acquire l =
     sq push_off (
     bnd (holding l) (\<lambda>h.
     if h then panic ''acquire''
     else sq (spin_swap l) (
     bnd mycpu (\<lambda>c. upd_lock l (\<lambda>k. k\<lparr>lk_cpu := Some c\<rparr>)))))"

definition release :: "lockid \<Rightarrow> (unit, 'z mach_scheme) kern" where
  "release l =
     bnd (holding l) (\<lambda>h.
     if \<not> h then panic ''release''
     else sq (upd_lock l (\<lambda>k. k\<lparr>lk_cpu := None\<rparr>)) (
     sq (upd_lock l (\<lambda>k. k\<lparr>lk_locked := 0\<rparr>)) pop_off))"

lemmas spinlock_ops =
  w_sstatus_def r_sstatus_def intr_on_def intr_off_def intr_get_def cpuid_def mycpu_def
  upd_cpu_def upd_lock_def initlock_def push_off_def pop_off_def holding_def acquire_def release_def

lemma spin_swap_run:
  "lk_locked (locks s l) = 0 \<Longrightarrow> spin_swap l s = Ok () (swap_locked l s)"
  "lk_locked (locks s l) \<noteq> 0 \<Longrightarrow> spin_swap l s = Spin (swap_locked l s) (spin_swap l)"
  by (subst spin_swap.code, simp add: lk_swap_def)+

text \<open>Facts about the rest of the state survive the lock operations.\<close>

definition mach_free :: "('z mach_scheme \<Rightarrow> bool) \<Rightarrow> bool" where
  "mach_free F \<longleftrightarrow> (\<forall>s f g h. F s \<longrightarrow> F (locks_update f s) \<and> F (cpus_update g s) \<and> F (sstatus_update h s))"

lemma mach_freeD:
  "mach_free F \<Longrightarrow> F s \<Longrightarrow> F (locks_update f s)"
  "mach_free F \<Longrightarrow> F s \<Longrightarrow> F (cpus_update g s)"
  "mach_free F \<Longrightarrow> F s \<Longrightarrow> F (sstatus_update h s)"
  by (auto simp: mach_free_def)

lemma keeps_mach [keeps_intros]:
  assumes "mach_free F"
  shows "keeps F (w_sstatus x)" "keeps F (upd_cpu c k)" "keeps F (upd_lock l g)"
  using mach_freeD [OF assms] by (auto simp: w_sstatus_def upd_cpu_def upd_lock_def intro!: keeps_modify)

lemma keeps_spin_swap [keeps_intros]:
  assumes "mach_free F"
  shows "keeps F (spin_swap l)"
proof -
  have "meets (\<lambda>_ _ u. F u) (\<lambda>_. F) (\<lambda>_. True) (\<lambda>_. F) (spin_swap l s)" if "F s" for s
    using that
  proof (coinduction arbitrary: s rule: meets.coinduct)
    case (meets s)
    then have "F (swap_locked l s)" using assms by (simp add: swap_locked_def mach_free_def)
    then show ?case by (cases "lk_locked (locks s l) = 0") (auto simp: spin_swap_run)
  qed
  then show ?thesis by (simp add: spec_def)
qed

lemma keeps_locking [keeps_intros]:
  assumes "mach_free F"
  shows "keeps F intr_on" "keeps F intr_off" "keeps F intr_get" "keeps F mycpu" "keeps F (initlock l nm)"
    "keeps F push_off" "keeps F pop_off" "keeps F (holding l)" "keeps F (acquire l)" "keeps F (release l)"
  unfolding intr_on_def intr_off_def intr_get_def r_sstatus_def cpuid_def mycpu_def initlock_def
    push_off_def pop_off_def holding_def acquire_def release_def
  by (intro keeps_intros assms)+

subsection \<open>Balanced critical sections\<close>

definition ie :: "'z mach_scheme \<Rightarrow> bool" where
  "ie s \<longleftrightarrow> sstatus s (tp s) AND SSTATUS_SIE \<noteq> 0"

text \<open>
  The interrupt bookkeeping of the running CPU is consistent: the nesting depth is not negative,
  interrupts are off inside a \<open>push_off\<close>, and outside one the saved state is the current state.
\<close>

definition mach_ok :: "'z mach_scheme \<Rightarrow> bool" where
  "mach_ok s \<longleftrightarrow> 0 \<le> noff (cpus s (tp s)) \<and>
     (if noff (cpus s (tp s)) = 0 then intena (cpus s (tp s)) = ie s else \<not> ie s)"

definition lock_free :: "'z mach_scheme \<Rightarrow> lockid \<Rightarrow> bool" where
  "lock_free s l \<longleftrightarrow> lk_locked (locks s l) = 0 \<and> lk_cpu (locks s l) = None"

definition acq :: "lockid \<Rightarrow> 'z mach_scheme \<Rightarrow> 'z mach_scheme" where
  "acq l s = s\<lparr>
     locks := (locks s)(l := (locks s l)\<lparr>lk_locked := 1, lk_cpu := Some (tp s)\<rparr>),
     cpus := (cpus s)(tp s := (cpus s (tp s))\<lparr>noff := noff (cpus s (tp s)) + 1\<rparr>),
     sstatus := (sstatus s)(tp s := sstatus s (tp s) AND NOT SSTATUS_SIE)\<rparr>"

lemma bit_sie [simp]: "bit SSTATUS_SIE n \<longleftrightarrow> n = 1"
  by (auto simp: SSTATUS_SIE_def bit_2_iff)

lemma sie_bit: "x AND SSTATUS_SIE = (if bit x 1 then 2 else 0)"
  by (rule bit_word_eqI) (auto simp: bit_and_iff bit_2_iff)

lemma sie_off [simp]: "(x AND NOT SSTATUS_SIE) AND SSTATUS_SIE = 0"
  by (rule bit_word_eqI) (auto simp: bit_simps)

lemma sie_off_idem [simp]: "(x AND NOT SSTATUS_SIE) AND NOT SSTATUS_SIE = x AND NOT SSTATUS_SIE"
  by (rule bit_word_eqI) (auto simp: bit_simps)

lemma sie_restore: "x AND SSTATUS_SIE \<noteq> 0 \<Longrightarrow> (x AND NOT SSTATUS_SIE) OR SSTATUS_SIE = x"
  unfolding sie_bit by (rule bit_word_eqI) (auto simp: bit_simps split: if_splits)

lemma sie_keep: "x AND SSTATUS_SIE = 0 \<Longrightarrow> x AND NOT SSTATUS_SIE = x"
  unfolding sie_bit by (rule bit_word_eqI) (auto simp: bit_simps split: if_splits)

lemma sie_on [simp]: "(x OR SSTATUS_SIE) AND SSTATUS_SIE \<noteq> 0"
  by (simp add: sie_bit bit_or_iff)

lemma acq_simps [simp]:
  "tp (acq l s) = tp s"
  "locks (acq l s) l' = (if l' = l then (locks s l)\<lparr>lk_locked := 1, lk_cpu := Some (tp s)\<rparr> else locks s l')"
  "cpus (acq l s) = (cpus s)(tp s := (cpus s (tp s))\<lparr>noff := noff (cpus s (tp s)) + 1\<rparr>)"
  "sstatus (acq l s) = (sstatus s)(tp s := sstatus s (tp s) AND NOT SSTATUS_SIE)"
  by (simp_all add: acq_def)

lemma ie_acq [simp]: "\<not> ie (acq l s)"
  by (simp add: ie_def)

lemma mach_ok_acq [simp]: "mach_ok s \<Longrightarrow> mach_ok (acq l s)"
  by (auto simp: mach_ok_def split: if_splits)

lemma lock_free_acq [simp]: "lock_free (acq l s) l' \<longleftrightarrow> l' \<noteq> l \<and> lock_free s l'"
  by (auto simp: lock_free_def)

lemma acq_commute: "l \<noteq> l' \<Longrightarrow> acq l (acq l' s) = acq l' (acq l s)"
  by (simp add: acq_def fun_upd_twist)

lemma acquire_acq [run_simps]:
  "mach_ok s \<Longrightarrow> lock_free s l \<Longrightarrow> acquire l s = Ok () (acq l s)"
  by (auto simp: spinlock_ops run_simps spin_swap_run swap_locked_def lk_holding_def lk_swap_def mach_ok_def
      lock_free_def ie_def acq_def split: if_splits intro!: mach.equality)

lemma release_acq [run_simps]:
  assumes "mach_ok s" and "lock_free s l"
  shows "release l (acq l s) = Ok () s"
proof -
  have "locks s = (locks s)(l := (locks s l)\<lparr>lk_locked := 0, lk_cpu := None\<rparr>)"
    using assms(2) by (simp add: lock_free_def fun_eq_iff)
  with assms show ?thesis
    by (auto simp: spinlock_ops run_simps lk_holding_def mach_ok_def lock_free_def ie_def acq_def
        sie_restore sie_keep split: if_splits intro!: mach.equality)
qed

text \<open>Misuse is caught: a second \<open>acquire\<close> by the holder and a \<open>release\<close> by anyone else panic.\<close>

lemma acquire_held: "mach_ok s \<Longrightarrow> acquire l (acq l s) = Panic ''acquire''"
  by (auto simp: spinlock_ops run_simps lk_holding_def mach_ok_def ie_def split: if_splits)

lemma acquire_spins:
  assumes "mach_ok s" and "lk_locked (locks s l) = 1" and "lk_cpu (locks s l) \<noteq> Some (tp s)"
  shows "\<exists>t k. acquire l s = Spin t k \<and> locks t = locks s"
proof -
  have "(locks s)(l := (locks s l)\<lparr>lk_locked := 1\<rparr>) = locks s" using assms(2) by (simp add: fun_eq_iff)
  with assms show ?thesis
    by (auto simp: spinlock_ops run_simps spin_swap_run swap_locked_def lk_holding_def lk_swap_def mach_ok_def
        ie_def split: if_splits)
qed

lemma release_not_held: "\<not> lk_holding (locks s l) (tp s) \<Longrightarrow> release l s = Panic ''release''"
  by (simp add: spinlock_ops run_simps)

text \<open>Nested \<open>push_off\<close> and \<open>pop_off\<close>.\<close>

definition pushed :: "nat \<Rightarrow> 'z mach_scheme \<Rightarrow> 'z mach_scheme" where
  "pushed n s = (if n = 0 then s else s\<lparr>
     cpus := (cpus s)(tp s := (cpus s (tp s))\<lparr>noff := noff (cpus s (tp s)) + int n\<rparr>),
     sstatus := (sstatus s)(tp s := sstatus s (tp s) AND NOT SSTATUS_SIE)\<rparr>)"

lemma push_off_pushed: "mach_ok s \<Longrightarrow> push_off (pushed n s) = Ok () (pushed (Suc n) s)"
  by (auto simp: spinlock_ops run_simps pushed_def mach_ok_def ie_def split: if_splits
      intro!: mach.equality)

lemma pop_off_pushed: "mach_ok s \<Longrightarrow> pop_off (pushed (Suc n) s) = Ok () (pushed n s)"
  by (auto simp: spinlock_ops run_simps pushed_def mach_ok_def ie_def sie_restore sie_keep
      split: if_splits intro!: mach.equality)

lemma push_offs: "mach_ok s \<Longrightarrow> forM [0..<n] (\<lambda>_. push_off) s = Ok () (pushed n s)"
proof (induction n)
  case (Suc n)
  then show ?case by (simp add: forM_append run_simps push_off_pushed)
qed (simp add: run_simps pushed_def)

lemma pop_offs: "mach_ok s \<Longrightarrow> forM is (\<lambda>_. pop_off) (pushed (length is + n) s) = Ok () (pushed n s)"
  by (induction "is") (simp_all add: run_simps pop_off_pushed)


definition mach_enabled :: mach where
  "mach_enabled = \<lparr>locks = (\<lambda>_. init_spinlock ''''),
     cpus = (\<lambda>_. \<lparr>cpu_proc = None, noff = 0, intena = True\<rparr>), sstatus = (\<lambda>_. 2), tp = 0\<rparr>"


subsection \<open>Interleaved execution\<close>

text \<open>
  Any number of CPUs run \<open>acquire\<close> and \<open>release\<close> on one lock; a step is one memory access of one
  CPU. The program counter of a CPU names the next access of the source:
  \<^item> \<open>Idle\<close>: outside both functions;
  \<^item> \<open>Spinning\<close>: \<open>holding\<close> was false, the next access is the atomic swap;
  \<^item> \<open>Won\<close>: the swap returned 0, \<open>lk->cpu\<close> is not yet written;
  \<^item> \<open>Inside\<close>: in the critical section;
  \<^item> \<open>Leaving\<close>: \<open>release\<close> has cleared \<open>lk->cpu\<close>, the next access clears \<open>lk->locked\<close>;
  \<^item> \<open>Died\<close>: it called \<open>panic\<close>.
\<close>

datatype lkpc = Idle | Spinning | Won | Inside | Leaving | Died

record lksys =
  the_lock :: spinlock
  pcs :: "nat \<Rightarrow> lkpc"

definition lk_init :: "string \<Rightarrow> lksys" where
  "lk_init nm = \<lparr>the_lock = init_spinlock nm, pcs = (\<lambda>_. Idle)\<rparr>"

inductive lk_step :: "lksys \<Rightarrow> lksys \<Rightarrow> bool" where
  acquire_check: "pcs s c = Idle \<Longrightarrow> \<not> lk_holding (the_lock s) c \<Longrightarrow>
     lk_step s (s\<lparr>pcs := (pcs s)(c := Spinning)\<rparr>)"
| acquire_panic: "pcs s c \<in> {Idle, Inside} \<Longrightarrow> lk_holding (the_lock s) c \<Longrightarrow>
     lk_step s (s\<lparr>pcs := (pcs s)(c := Died)\<rparr>)"
| swap_busy: "pcs s c = Spinning \<Longrightarrow> lk_swap (the_lock s) = (old, lk) \<Longrightarrow> old \<noteq> 0 \<Longrightarrow>
     lk_step s (s\<lparr>the_lock := lk\<rparr>)"
| swap_won: "pcs s c = Spinning \<Longrightarrow> lk_swap (the_lock s) = (0, lk) \<Longrightarrow>
     lk_step s (s\<lparr>the_lock := lk, pcs := (pcs s)(c := Won)\<rparr>)"
| set_cpu: "pcs s c = Won \<Longrightarrow>
     lk_step s (s\<lparr>the_lock := (the_lock s)\<lparr>lk_cpu := Some c\<rparr>, pcs := (pcs s)(c := Inside)\<rparr>)"
| release_check: "pcs s c \<in> {Idle, Inside} \<Longrightarrow> lk_holding (the_lock s) c \<Longrightarrow>
     lk_step s (s\<lparr>the_lock := (the_lock s)\<lparr>lk_cpu := None\<rparr>, pcs := (pcs s)(c := Leaving)\<rparr>)"
| release_panic: "pcs s c \<in> {Idle, Inside} \<Longrightarrow> \<not> lk_holding (the_lock s) c \<Longrightarrow>
     lk_step s (s\<lparr>pcs := (pcs s)(c := Died)\<rparr>)"
| release_store: "pcs s c = Leaving \<Longrightarrow>
     lk_step s (s\<lparr>the_lock := (the_lock s)\<lparr>lk_locked := 0\<rparr>, pcs := (pcs s)(c := Idle)\<rparr>)"

inductive lk_reachable :: "string \<Rightarrow> lksys \<Rightarrow> bool" for nm where
  start: "lk_reachable nm (lk_init nm)"
| step: "lk_reachable nm s \<Longrightarrow> lk_step s t \<Longrightarrow> lk_reachable nm t"

text \<open>The CPUs between the winning swap and the store that frees the lock.\<close>

definition owns :: "lksys \<Rightarrow> nat \<Rightarrow> bool" where
  "owns s c \<longleftrightarrow> pcs s c \<in> {Won, Inside, Leaving} \<or> (pcs s c = Died \<and> lk_holding (the_lock s) c)"

definition lk_inv :: "lksys \<Rightarrow> bool" where
  "lk_inv s \<longleftrightarrow>
     (\<exists>w. (\<forall>c. owns s c \<longleftrightarrow> w = Some c) \<and> (lk_locked (the_lock s) \<noteq> 0 \<longleftrightarrow> w \<noteq> None)) \<and>
     (\<forall>c. pcs s c = Inside \<longrightarrow> lk_cpu (the_lock s) = Some c) \<and>
     (\<forall>c. lk_cpu (the_lock s) = Some c \<longrightarrow>
        pcs s c \<in> {Inside, Died} \<and> lk_locked (the_lock s) \<noteq> 0)"

lemma lk_inv_init: "lk_inv (lk_init nm)"
  by (auto simp: lk_inv_def lk_init_def owns_def lk_holding_def init_spinlock_def intro!: exI [of _ None])

lemma lk_invI:
  assumes "\<And>c. owns s c \<longleftrightarrow> w = Some c" and "lk_locked (the_lock s) \<noteq> 0 \<longleftrightarrow> w \<noteq> None"
    and "\<And>c. pcs s c = Inside \<Longrightarrow> lk_cpu (the_lock s) = Some c"
    and "\<And>c. lk_cpu (the_lock s) = Some c \<Longrightarrow> pcs s c \<in> {Inside, Died} \<and> lk_locked (the_lock s) \<noteq> 0"
  shows "lk_inv s"
  unfolding lk_inv_def using assms by blast

lemma lk_step_inv:
  assumes "lk_step s t" and "lk_inv s"
  shows "lk_inv t"
proof -
  from assms(2) obtain w where w: "\<And>c. owns s c \<longleftrightarrow> w = Some c"
    and locked: "lk_locked (the_lock s) \<noteq> 0 \<longleftrightarrow> w \<noteq> None"
    and inside: "\<And>c. pcs s c = Inside \<Longrightarrow> lk_cpu (the_lock s) = Some c"
    and cpu: "\<And>c. lk_cpu (the_lock s) = Some c \<Longrightarrow> pcs s c \<in> {Inside, Died} \<and> lk_locked (the_lock s) \<noteq> 0"
    unfolding lk_inv_def by blast
  note facts = owns_def lk_holding_def lk_swap_def
  have other: "pcs s d \<notin> {Won, Inside, Leaving} \<and> (pcs s d = Died \<longrightarrow> lk_cpu (the_lock s) \<noteq> Some d)"
    if "w = Some c" "d \<noteq> c" for c d
    using that w [of d] cpu [of d] by (auto simp: facts)
  from assms(1) show ?thesis
  proof cases
    case (swap_won c lk)
    then have "w = None" using locked by (auto simp: lk_swap_def)
    with w have "\<And>d. \<not> owns s d" by simp
    with swap_won show ?thesis
      by (intro lk_invI [where w = "Some c"]) (use inside cpu in \<open>auto simp: facts split: if_splits\<close>)
  next
    case (set_cpu c)
    then have "w = Some c" using w [of c] by (simp add: owns_def)
    with set_cpu other [of c] show ?thesis
      by (intro lk_invI [where w = w]) (use locked in \<open>auto simp: facts split: if_splits\<close>)
  next
    case (release_check c)
    then have "w = Some c" using w [of c] cpu by (auto simp: facts)
    with release_check other [of c] show ?thesis
      by (intro lk_invI [where w = w]) (use locked in \<open>auto simp: facts split: if_splits\<close>)
  next
    case (release_store c)
    then have "w = Some c" using w [of c] by (simp add: owns_def)
    have "lk_cpu (the_lock s) = None"
    proof (cases "lk_cpu (the_lock s)")
      case (Some d)
      with cpu [of d] other [of c d] \<open>w = Some c\<close> release_store show ?thesis by (cases "d = c") auto
    qed
    with release_store other [of c] \<open>w = Some c\<close> show ?thesis
      by (intro lk_invI [where w = None]) (auto simp: facts split: if_splits)
  next
    case (acquire_check c)
    then have "owns t d = owns s d" for d by (auto simp: facts)
    with acquire_check show ?thesis
      by (intro lk_invI [where w = w]) (auto simp: w locked dest: inside cpu split: if_splits)
  next
    case (acquire_panic c)
    then have "pcs s c = Inside" using cpu [of c] by (auto simp: facts)
    with acquire_panic have "owns t d = owns s d" for d by (auto simp: facts)
    with acquire_panic show ?thesis
      by (intro lk_invI [where w = w]) (auto simp: w locked dest: inside cpu split: if_splits)
  next
    case (swap_busy c old lk)
    then have "owns t d = owns s d" for d by (auto simp: facts)
    with swap_busy show ?thesis
      by (intro lk_invI [where w = w]) (auto simp: w lk_swap_def dest: inside cpu locked [THEN iffD1])
  next
    case (release_panic c)
    then have "pcs s c = Idle" using inside [of c] cpu [of c] by (auto simp: facts)
    with release_panic have "owns t d = owns s d" for d by (auto simp: facts)
    with release_panic show ?thesis
      by (intro lk_invI [where w = w]) (auto simp: w locked dest: inside cpu split: if_splits)
  qed
qed

lemma lk_reachable_inv: "lk_reachable nm s \<Longrightarrow> lk_inv s"
  by (induction rule: lk_reachable.induct) (auto intro: lk_inv_init lk_step_inv)

text \<open>
  C15: mutual exclusion. In every state reachable by interleaving the steps of any number of CPUs,
  at most one CPU is inside the critical section of the lock, and \<open>holding\<close> answers exactly
  whether the asking CPU is the one inside.
\<close>

theorem spinlock_mutual_exclusion:
  assumes "lk_reachable nm s" and "pcs s c = Inside"
  shows "(pcs s d = Inside \<longleftrightarrow> d = c) \<and> (lk_holding (the_lock s) d \<longleftrightarrow> d = c)
    \<and> pcs s d \<noteq> Won \<and> pcs s d \<noteq> Leaving"
proof -
  from assms(1) have "lk_inv s" by (rule lk_reachable_inv)
  then obtain w where w: "\<And>c. owns s c \<longleftrightarrow> w = Some c"
    and inside: "\<And>c. pcs s c = Inside \<Longrightarrow> lk_cpu (the_lock s) = Some c"
    and cpu: "\<And>c. lk_cpu (the_lock s) = Some c \<Longrightarrow> lk_locked (the_lock s) \<noteq> 0"
    unfolding lk_inv_def by blast
  have "w = Some c" using w [of c] assms(2) by (simp add: owns_def)
  with w [of d] assms(2) have "pcs s d = Inside \<longleftrightarrow> d = c" "pcs s d \<noteq> Won" "pcs s d \<noteq> Leaving"
    by (auto simp: owns_def)
  moreover have "lk_holding (the_lock s) d \<longleftrightarrow> d = c"
    using inside [OF assms(2)] cpu [of c] by (auto simp: lk_holding_def)
  ultimately show ?thesis by simp
qed

definition lk_inside_1 :: lksys where
  "lk_inside_1 = \<lparr>the_lock = \<lparr>lk_locked = 1, lk_name = ''kmem'', lk_cpu = Some 1\<rparr>,
     pcs = ((\<lambda>_. Idle)(2 := Spinning))(1 := Inside)\<rparr>"

lemma lk_inside_1_reachable: "lk_reachable ''kmem'' lk_inside_1"
proof -
  let ?s1 = "(lk_init ''kmem'')\<lparr>pcs := (pcs (lk_init ''kmem''))(1 := Spinning)\<rparr>"
  let ?s2 = "?s1\<lparr>pcs := (pcs ?s1)(2 := Spinning)\<rparr>"
  let ?s3 = "?s2\<lparr>the_lock := (the_lock ?s2)\<lparr>lk_locked := 1\<rparr>, pcs := (pcs ?s2)(1 := Won)\<rparr>"
  have "lk_reachable ''kmem'' ?s1"
    by (rule step [OF start acquire_check]) (simp_all add: lk_init_def lk_holding_def init_spinlock_def)
  then have "lk_reachable ''kmem'' ?s2"
    by (rule step [OF _ acquire_check]) (simp_all add: lk_init_def lk_holding_def init_spinlock_def)
  then have "lk_reachable ''kmem'' ?s3"
    by (rule step [OF _ swap_won]) (simp_all add: lk_init_def lk_swap_def init_spinlock_def)
  then have "lk_reachable ''kmem'' (?s3\<lparr>the_lock := (the_lock ?s3)\<lparr>lk_cpu := Some 1\<rparr>, pcs := (pcs ?s3)(1 := Inside)\<rparr>)"
    by (rule step [OF _ set_cpu]) simp
  then show ?thesis by (simp add: lk_inside_1_def lk_init_def init_spinlock_def fun_upd_twist)
qed

theorem spinlock_mutual_exclusion_witness:
  "(pcs lk_inside_1 2 = Inside \<longleftrightarrow> 2 = (1::nat)) \<and> (lk_holding (the_lock lk_inside_1) 2 \<longleftrightarrow> 2 = (1::nat))
    \<and> pcs lk_inside_1 2 \<noteq> Won \<and> pcs lk_inside_1 2 \<noteq> Leaving"
  by (rule spinlock_mutual_exclusion [OF lk_inside_1_reachable]) (simp add: lk_inside_1_def)

end
