(* ===== verification/Kalloc.thy ===== *)
theory Kalloc
  imports Cstring Spinlock
begin

text \<open>
  \<open>kernel/kalloc.c\<close>: the physical page allocator. Its state is physical memory itself and the
  head of the free list, which is threaded through the free pages: the first eight bytes of a
  free page hold the address of the next (\<open>struct run\<close>). \<open>kernel_end\<close> is the linker's symbol
  \<open>end\<close>, the first address after the kernel.
\<close>

record kmem = mach +
  mem :: memory
  freelist :: u64
  kernel_end :: u64

definition upd_mem :: "(memory \<Rightarrow> memory) \<Rightarrow> (unit, 'z kmem_scheme) kern" where
  "upd_mem f = modify (\<lambda>s. s\<lparr>mem := f (mem s)\<rparr>)"

definition kfree :: "u64 \<Rightarrow> (unit, 'z kmem_scheme) kern" where
  "kfree pa =
     bnd (gets kernel_end) (\<lambda>e.
     if pa mod PGSIZE \<noteq> 0 \<or> pa < e \<or> pa \<ge> PHYSTOP then panic ''kfree''
     else sq (upd_mem (memset pa 1 (unat PGSIZE))) (
     sq (acquire KmemLock) (
     sq (bnd (gets freelist) (\<lambda>nxt. upd_mem (store64 pa nxt))) (
     sq (modify (\<lambda>s. s\<lparr>freelist := pa\<rparr>)) (
     release KmemLock)))))"

definition kalloc :: "(u64, 'z kmem_scheme) kern" where
  "kalloc =
     sq (acquire KmemLock) (
     bnd (gets freelist) (\<lambda>r.
     sq (whenM (r \<noteq> 0) (modify (\<lambda>s. s\<lparr>freelist := load64 (mem s) r\<rparr>))) (
     sq (release KmemLock) (
     sq (whenM (r \<noteq> 0) (upd_mem (memset r 5 (unat PGSIZE)))) (
     ret r)))))"

text \<open>
  The loop of \<open>freerange\<close>. Its bound \<open>p + PGSIZE <= pa_end\<close> compares pointers, whose arithmetic
  does not wrap in C, so it is written over the natural numbers.
\<close>

function freerange_loop :: "u64 \<Rightarrow> u64 \<Rightarrow> (unit, 'z kmem_scheme) kern" where
  "freerange_loop p pa_end =
     (if unat p + 4096 \<le> unat pa_end
      then sq (kfree p) (freerange_loop (p + PGSIZE) pa_end)
      else ret ())"
  by pat_completeness auto
termination
proof (relation "measure (\<lambda>(p, pa_end). unat pa_end - unat p)")
  fix p pa_end :: u64
  assume le: "unat p + 4096 \<le> unat pa_end"
  then have "unat p + 4096 < 2 ^ 64" using unsigned_less [of pa_end, where 'a = nat] by simp
  then have "unat (p + PGSIZE) = unat p + 4096" by (simp add: unat_word_ariths)
  with le show "((p + PGSIZE, pa_end), p, pa_end) \<in> measure (\<lambda>(p, pa_end). unat pa_end - unat p)"
    by simp
qed simp

declare freerange_loop.simps [simp del]

definition freerange :: "u64 \<Rightarrow> u64 \<Rightarrow> (unit, 'z kmem_scheme) kern" where
  "freerange pa_start pa_end = freerange_loop (PGROUNDUP pa_start) pa_end"

definition kinit :: "(unit, 'z kmem_scheme) kern" where
  "kinit = sq (initlock KmemLock ''kmem'') (bnd (gets kernel_end) (\<lambda>e. freerange e PHYSTOP))"

subsection \<open>Frame rules\<close>

lemma kmem_acq [simp]:
  "mem (acq l s) = mem s" "freelist (acq l s) = freelist s" "kernel_end (acq l s) = kernel_end s"
  by (simp_all add: acq_def)

lemma kmem_upd_acq [simp]:
  "mem_update f (acq l s) = acq l (mem_update f s)"
  "freelist_update g (acq l s) = acq l (freelist_update g s)"
  by (simp_all add: acq_def)

lemma kmem_upd_mach [simp]:
  "mach_ok (mem_update f s) = mach_ok s" "mach_ok (freelist_update g s) = mach_ok s"
  "lock_free (mem_update f s) l = lock_free s l" "lock_free (freelist_update g s) l = lock_free s l"
  by (simp_all add: mach_ok_def lock_free_def ie_def)

definition mem_free :: "('z kmem_scheme \<Rightarrow> bool) \<Rightarrow> bool" where
  "mem_free F \<longleftrightarrow> mach_free F \<and> (\<forall>s f g. F s \<longrightarrow> F (mem_update f s) \<and> F (freelist_update g s))"

lemma mem_freeD:
  "mem_free F \<Longrightarrow> mach_free F"
  "mem_free F \<Longrightarrow> F s \<Longrightarrow> F (mem_update f s)"
  "mem_free F \<Longrightarrow> F s \<Longrightarrow> F (freelist_update g s)"
  by (auto simp: mem_free_def)

lemma keeps_upd_mem [keeps_intros]: "mem_free F \<Longrightarrow> keeps F (upd_mem f)"
  by (auto simp: upd_mem_def mem_free_def intro!: keeps_modify)

lemma keeps_kalloc_kfree [keeps_intros]:
  assumes "mem_free F"
  shows "keeps F kalloc" "keeps F (kfree pa)"
  unfolding kalloc_def kfree_def
  by (intro keeps_intros keeps_modify mem_freeD [OF assms] assms; assumption)+

subsection \<open>The free list in memory\<close>

primrec flist :: "memory \<Rightarrow> u64 \<Rightarrow> u64 list \<Rightarrow> bool" where
  "flist m p [] \<longleftrightarrow> p = 0"
| "flist m p (q # qs) \<longleftrightarrow> p = q \<and> p \<noteq> 0 \<and> flist m (load64 m p) qs"

definition page_ok :: "u64 \<Rightarrow> u64 \<Rightarrow> bool" where
  "page_ok e p \<longleftrightarrow> pg_aligned p \<and> e \<le> p \<and> p < PHYSTOP"

definition page :: "u64 \<Rightarrow> u64 set" where
  "page p = rng p 4096"

definition kmem_inv :: "'z kmem_scheme \<Rightarrow> u64 list \<Rightarrow> bool" where
  "kmem_inv s ps \<longleftrightarrow> mach_ok s \<and> lock_free s KmemLock \<and> 0 < kernel_end s \<and>
     flist (mem s) (freelist s) ps \<and> distinct ps \<and> (\<forall>p\<in>set ps. page_ok (kernel_end s) p)"

lemma in_page_iff:
  assumes "pg_aligned p"
  shows "x \<in> page p \<longleftrightarrow> PGROUNDDOWN x = p"
proof
  assume "x \<in> page p"
  then obtain k where k: "x = p + of_nat k" "k < 4096" by (auto simp: page_def elim: rngE)
  have al: "unat p mod 4096 = 0" using assms by (simp add: pg_aligned_def pg_aligned_iff)
  then obtain q where q: "unat p = 4096 * q" by auto
  have "4096 * q < 2 ^ 64" using unsigned_less [of p, where 'a = nat] q by simp
  with k(2) have "unat p + k < 2 ^ 64" unfolding q by simp
  then have "unat x = unat p + k" using k by (simp add: unat_word_ariths unat_of_nat_64)
  moreover have "(unat p + k) div 4096 * 4096 = unat p" using q k(2) by simp
  ultimately have "unat (PGROUNDDOWN x) = unat p" by (simp add: unat_pgdown)
  then show "PGROUNDDOWN x = p" by (simp add: word_unat_eq_iff)
next
  assume p: "PGROUNDDOWN x = p"
  then have "unat (x - p) = unat x - unat p"
    using pgdown_le [of x] by (simp add: unat_sub word_le_nat_alt)
  also have "\<dots> = unat x mod 4096"
    using p unat_pgdown [of x] by (simp add: minus_div_mult_eq_mod)
  finally show "x \<in> page p" by (simp add: page_def rng_def)
qed

lemma pages_disjoint: "pg_aligned p \<Longrightarrow> pg_aligned q \<Longrightarrow> p \<noteq> q \<Longrightarrow> page p \<inter> page q = {}"
  by (auto simp: in_page_iff)

lemma rng_sub_page:
  assumes "n + k \<le> 4096"
  shows "rng (p + of_nat k) n \<subseteq> page p"
proof
  fix x assume "x \<in> rng (p + of_nat k) n"
  then obtain j where j: "x = p + of_nat k + of_nat j" "j < n" by (rule rngE)
  then have "x = p + of_nat (k + j)" "k + j < 4096" using assms by simp_all
  then show "x \<in> page p" using in_rng [of "k + j" 4096 p] by (simp add: page_def)
qed

lemma rng8_page: "rng p 8 \<subseteq> page p"
  using rng_sub_page [of 8 0 p] by simp

lemma load64_cong:
  assumes "\<And>x. x \<in> rng a 8 \<Longrightarrow> m' x = m x"
  shows "load64 m' a = load64 m a"
proof -
  have "mem_bytes m' a 8 = mem_bytes m a 8"
    by (rule nth_equalityI) (use assms in_rng [of _ 8 a] in simp_all)
  then show ?thesis by (simp add: load64_def)
qed

lemma flist_cong:
  "(\<And>p x. p \<in> set ps \<Longrightarrow> x \<in> page p \<Longrightarrow> m' x = m x) \<Longrightarrow> flist m' q ps = flist m q ps"
proof (induction ps arbitrary: q)
  case (Cons p ps)
  have "load64 m' p = load64 m p"
    by (rule load64_cong, rule Cons.prems [of p]) (use rng8_page [of p] in auto)
  moreover have "flist m' r ps = flist m r ps" for r
  proof (rule Cons.IH)
    fix p' x assume "p' \<in> set ps" "x \<in> page p'"
    then show "m' x = m x" by (intro Cons.prems [of p']) simp_all
  qed
  ultimately show ?case unfolding flist.simps by metis
next
  case Nil
  show ?case by simp
qed

lemma memset_page: "memset p c 4096 m = mem_put p (replicate 4096 (ucast c)) m"
  by (simp add: memset_eq)

lemma mem_put_page_out: "length bs \<le> 4096 \<Longrightarrow> x \<notin> page p \<Longrightarrow> mem_put p bs m x = m x"
  by (rule mem_put_out) (auto simp: page_def rng_def)

lemma store64_out: "x \<notin> rng a 8 \<Longrightarrow> store64 a v m x = m x"
  by (simp add: store64_def mem_put_out)

subsection \<open>Allocation and release\<close>

lemma kalloc_empty: "kmem_inv s [] \<Longrightarrow> kalloc s = Ok 0 s"
  by (simp add: kalloc_def run_simps kmem_inv_def)

lemma kalloc_Cons:
  assumes "kmem_inv s (p # ps)"
  defines "t \<equiv> s\<lparr>mem := memset p 5 4096 (mem s), freelist := load64 (mem s) p\<rparr>"
  shows "kalloc s = Ok p t" and "kmem_inv t ps"
proof -
  show "kalloc s = Ok p t"
    using assms by (auto simp: kalloc_def run_simps kmem_inv_def upd_mem_def)
  have "flist (memset p 5 4096 (mem s)) q ps = flist (mem s) q ps" for q
  proof (rule flist_cong)
    fix r x assume "r \<in> set ps" "x \<in> page r"
    moreover from this have "x \<notin> page p"
      using assms(1) pages_disjoint [of p r] by (auto simp: kmem_inv_def page_ok_def)
    ultimately show "memset p 5 4096 (mem s) x = mem s x" by (simp add: memset_page mem_put_page_out)
  qed
  with assms show "kmem_inv t ps" by (auto simp: kmem_inv_def)
qed

lemma kfree_ok:
  assumes "kmem_inv s ps" and "page_ok (kernel_end s) p" and "p \<notin> set ps"
  defines "t \<equiv> s\<lparr>mem := store64 p (freelist s) (memset p 1 4096 (mem s)), freelist := p\<rparr>"
  shows "kfree p s = Ok () t" and "kmem_inv t (p # ps)"
proof -
  show "kfree p s = Ok () t"
    using assms by (auto simp: kfree_def run_simps kmem_inv_def page_ok_def pg_aligned_def upd_mem_def)
  have "flist (mem t) q ps = flist (mem s) q ps" for q
  proof (rule flist_cong)
    fix r x assume "r \<in> set ps" "x \<in> page r"
    moreover from this have "x \<notin> page p"
      using assms pages_disjoint [of p r] by (auto simp: kmem_inv_def page_ok_def)
    moreover from this have "x \<notin> rng p 8" using rng8_page by blast
    ultimately show "mem t x = mem s x" by (simp add: t_def store64_out memset_page mem_put_page_out)
  qed
  with assms show "kmem_inv t (p # ps)" by (auto simp: kmem_inv_def page_ok_def)
qed


text \<open>Writing to pages that are not free does not disturb the free list.\<close>

lemma kmem_inv_mem:
  assumes "kmem_inv s ps" and "\<And>p x. p \<in> set ps \<Longrightarrow> x \<in> page p \<Longrightarrow> m' x = mem s x"
  shows "kmem_inv (s\<lparr>mem := m'\<rparr>) ps"
  using assms flist_cong [of ps m' "mem s" "freelist s"] by (simp add: kmem_inv_def)

lemma kfree_panics:
  "\<not> page_ok (kernel_end s) p \<Longrightarrow> kfree p s = Panic ''kfree''"
  unfolding kfree_def pg_aligned_def [symmetric] by (auto simp: run_simps page_ok_def)

subsection \<open>Boot\<close>

definition pages_between :: "u64 \<Rightarrow> u64 \<Rightarrow> u64 list" where
  "pages_between p e = map (\<lambda>i. p + of_nat i * PGSIZE) [0..<(unat e - unat p) div 4096]"

lemma pages_between_Nil: "\<not> unat p + 4096 \<le> unat e \<Longrightarrow> pages_between p e = []"
  by (simp add: pages_between_def)

lemma pages_between_Cons:
  assumes "unat p + 4096 \<le> unat e"
  shows "unat (p + PGSIZE) = unat p + 4096" and "pages_between p e = p # pages_between (p + PGSIZE) e"
proof -
  show p: "unat (p + PGSIZE) = unat p + 4096"
    using assms unsigned_less [of e, where 'a = nat] by (simp add: unat_word_ariths)
  have "(unat e - unat p) div 4096 = Suc ((unat e - (unat p + 4096)) div 4096)"
    using assms by (subst le_div_geq) (simp_all add: diff_diff_left)
  then show "pages_between p e = p # pages_between (p + PGSIZE) e"
    by (simp add: pages_between_def p upt_conv_Cons map_Suc_upt [symmetric] algebra_simps del: upt_Suc)
qed

lemma freerange_loop_ok:
  assumes "kmem_inv s ps" and "pg_aligned p" and "kernel_end s \<le> p" and "\<forall>q\<in>set ps. q < p"
  shows "\<exists>t. freerange_loop p PHYSTOP s = Ok () t \<and> kmem_inv t (rev (pages_between p PHYSTOP) @ ps)
     \<and> kernel_end t = kernel_end s"
  using assms
proof (induction p PHYSTOP arbitrary: s ps rule: freerange_loop.induct)
  case (1 p)
  show ?case
  proof (cases "unat p + 4096 \<le> unat PHYSTOP")
    case True
    note sz = pages_between_Cons [OF True]
    have ok: "page_ok (kernel_end s) p" "p \<notin> set ps"
      using 1 True by (auto simp: page_ok_def word_less_nat_alt)
    obtain t where t: "kfree p s = Ok () t" "kmem_inv t (p # ps)" "kernel_end t = kernel_end s"
      using kfree_ok [OF 1(2) ok] by auto
    have lt: "p < p + PGSIZE" using sz(1) by (simp add: word_less_nat_alt)
    have "pg_aligned (p + PGSIZE)"
      using 1(3) sz(1) by (simp add: pg_aligned_def pg_aligned_iff)
    moreover have "\<forall>q\<in>set (p # ps). q < p + PGSIZE" using 1(5) lt by auto
    moreover have "kernel_end t \<le> p + PGSIZE" using 1(4) t(3) lt by simp
    ultimately obtain u where "freerange_loop (p + PGSIZE) PHYSTOP t = Ok () u"
        "kmem_inv u (rev (pages_between (p + PGSIZE) PHYSTOP) @ p # ps)" "kernel_end u = kernel_end t"
      using 1(1) [OF True t(2)] by auto
    with t True show ?thesis by (subst freerange_loop.simps) (simp add: run_simps sz(2))
  next
    case False
    with 1(2) show ?thesis by (subst freerange_loop.simps) (simp add: run_simps pages_between_Nil)
  qed
qed

text \<open>
  C36: booting the allocator puts every whole page between the end of the kernel image and
  \<open>PHYSTOP\<close> on the free list, each exactly once.
\<close>

theorem kinit_frees_all:
  assumes "mach_ok s" and "freelist s = 0" and "0 < kernel_end s" and "kernel_end s \<le> PHYSTOP"
  shows "\<exists>t. kinit s = Ok () t
    \<and> kmem_inv t (rev (pages_between (PGROUNDUP (kernel_end s)) PHYSTOP))"
proof -
  define u where "u = s\<lparr>locks := (locks s)(KmemLock := init_spinlock ''kmem'')\<rparr>"
  have init: "initlock KmemLock ''kmem'' s = Ok () u"
    by (simp add: initlock_def upd_lock_def run_simps u_def)
  have inv: "kmem_inv u []"
    using assms by (auto simp: kmem_inv_def u_def mach_ok_def ie_def lock_free_def init_spinlock_def)
  have e: "kernel_end u = kernel_end s" by (simp add: u_def)
  have le: "unat (kernel_end s) \<le> 2 ^ 64 - 4096"
    using assms(4) by (simp add: word_le_nat_alt PHYSTOP_def)
  then have up: "unat (PGROUNDUP (kernel_end s)) = (unat (kernel_end s) + 4095) div 4096 * 4096"
    by (rule unat_pgup)
  then have "pg_aligned (PGROUNDUP (kernel_end s))" by (simp add: pg_aligned_def pg_aligned_iff)
  moreover have "kernel_end s \<le> PGROUNDUP (kernel_end s)"
    unfolding word_le_nat_alt up by linarith
  ultimately show ?thesis
    using freerange_loop_ok [OF inv, of "PGROUNDUP (kernel_end s)"] e init
    by (auto simp: kinit_def freerange_def run_simps)
qed

subsection \<open>The allocator's contract\<close>

text \<open>
  What the rest of the kernel relies on. \<open>inv s ps\<close>: the allocator's state is sound and \<open>ps\<close> are
  the free pages, in the order in which they will be handed out. A client only ever frees pages
  it was given, so its use of the allocator is a sequence of \<open>aop\<close>: an allocation, or the release
  of the \<open>i\<close>-th page it holds.
\<close>

datatype aop = Alloc | Free nat

fun run_aops :: "('p, 's) kern \<Rightarrow> ('p \<Rightarrow> (unit, 's) kern) \<Rightarrow> 'p \<Rightarrow> aop list \<Rightarrow> 'p list \<Rightarrow> ('p list, 's) kern" where
  "run_aops alloc free null [] held = ret held"
| "run_aops alloc free null (Alloc # ops) held =
     bnd alloc (\<lambda>p. run_aops alloc free null ops (if p = null then held else p # held))"
| "run_aops alloc free null (Free i # ops) held =
     (if i < length held
      then sq (free (held ! i)) (run_aops alloc free null ops (take i held @ drop (Suc i) held))
      else run_aops alloc free null ops held)"

locale page_allocator =
  fixes alloc :: "('p, 's) kern"
    and free :: "'p \<Rightarrow> (unit, 's) kern"
    and null :: 'p
    and inv :: "'s \<Rightarrow> 'p list \<Rightarrow> bool"
    and usable :: "'s \<Rightarrow> 'p \<Rightarrow> bool"
  assumes alloc_none: "inv s [] \<Longrightarrow> alloc s = Ok null s"
    and alloc_some: "inv s (p # ps) \<Longrightarrow>
      \<exists>t. alloc s = Ok p t \<and> inv t ps \<and> p \<noteq> null \<and> usable t = usable s"
    and free_one: "inv s ps \<Longrightarrow> usable s p \<Longrightarrow> p \<notin> set ps \<Longrightarrow>
      \<exists>t. free p s = Ok () t \<and> inv t (p # ps) \<and> usable t = usable s"
    and free_usable: "inv s ps \<Longrightarrow> distinct ps \<and> (\<forall>p\<in>set ps. usable s p)"
begin

lemma aops_conserve:
  assumes "inv s ps" and "distinct (held @ ps)" and "\<forall>p\<in>set held. usable s p"
  shows "\<exists>held' ps' t. run_aops alloc free null ops held s = Ok held' t \<and> inv t ps'
    \<and> distinct (held' @ ps') \<and> set held' \<union> set ps' = set held \<union> set ps"
  using assms
proof (induction ops arbitrary: s ps held)
  case Nil
  then show ?case by (auto simp: run_simps)
next
  case (Cons op ops)
  show ?case
  proof (cases op)
    case Alloc
    show ?thesis
    proof (cases ps)
      case Nil
      with Cons.IH [of s "[]" held] Cons.prems Alloc show ?thesis by (simp add: run_simps alloc_none)
    next
      case (Cons p qs)
      with Cons.prems obtain t where t: "alloc s = Ok p t" "inv t qs" "p \<noteq> null" "usable t = usable s"
        using alloc_some by blast
      have "usable s p" using Cons Cons.prems free_usable by auto
      with t Cons.IH [of t qs "p # held"] Cons.prems Cons Alloc show ?thesis by (auto simp: run_simps)
    qed
  next
    case (Free i)
    show ?thesis
    proof (cases "i < length held")
      case True
      define rest where "rest = take i held @ drop (Suc i) held"
      define x where "x = held ! i"
      have "held = take i held @ x # drop (Suc i) held" using True by (simp add: x_def id_take_nth_drop)
      then obtain as bs where split: "held = as @ x # bs" "rest = as @ bs" unfolding rest_def by blast
      have held: "set held = insert x (set rest)" "distinct (x # rest @ ps)"
        using Cons.prems(2) by (auto simp: split)
      with Cons.prems obtain t where t: "free x s = Ok () t" "inv t (x # ps)" "usable t = usable s"
        using free_one [of s ps x] by auto
      have "run_aops alloc free null (op # ops) held s = run_aops alloc free null ops rest t"
        using True Free t(1) by (simp add: run_simps rest_def x_def)
      moreover have "distinct (rest @ x # ps)" "\<forall>p\<in>set rest. usable t p"
          "set held \<union> set ps = set rest \<union> set (x # ps)"
        using held Cons.prems(3) t(3) by auto
      ultimately show ?thesis using Cons.IH [OF t(2)] by simp
    next
      case False
      with Cons Free show ?thesis by simp
    qed
  qed
qed

lemma alloc_all:
  assumes "inv s ps"
  shows "\<exists>t. run_aops alloc free null (replicate (length ps) Alloc) held s = Ok (rev ps @ held) t \<and> inv t []"
  using assms
proof (induction ps arbitrary: s held)
  case (Cons p ps)
  then obtain t where "alloc s = Ok p t" "inv t ps" "p \<noteq> null" using alloc_some by blast
  with Cons.IH [of t "p # held"] show ?case by (simp add: run_simps)
qed (simp add: run_simps)

end

interpretation pa: page_allocator kalloc kfree 0 kmem_inv "\<lambda>s. page_ok (kernel_end s)"
proof unfold_locales
  fix s :: "'z kmem_scheme" and p ps
  show "kmem_inv s [] \<Longrightarrow> kalloc s = Ok 0 s" by (rule kalloc_empty)
  show "kmem_inv s ps \<Longrightarrow> distinct ps \<and> (\<forall>p\<in>set ps. page_ok (kernel_end s) p)"
    by (simp add: kmem_inv_def)
  show "\<exists>t. kalloc s = Ok p t \<and> kmem_inv t ps \<and> p \<noteq> 0 \<and> page_ok (kernel_end t) = page_ok (kernel_end s)"
    if "kmem_inv s (p # ps)"
    using kalloc_Cons [OF that] that by (auto simp: kmem_inv_def)
  show "\<exists>t. kfree p s = Ok () t \<and> kmem_inv t (p # ps) \<and> page_ok (kernel_end t) = page_ok (kernel_end s)"
    if "kmem_inv s ps" "page_ok (kernel_end s) p" "p \<notin> set ps"
    using kfree_ok [OF that] by auto
qed

text \<open>
  C6: no sequence of allocations and releases ever hands out a page twice or loses one. Starting
  with free pages \<open>ps\<close>, after any such sequence the pages the client holds and the pages on the
  free list are all different, and together they are exactly the pages there were.
\<close>

theorem kalloc_kfree_conserve:
  assumes "kmem_inv s ps"
  shows "\<exists>held ps' t. run_aops kalloc kfree 0 ops [] s = Ok held t \<and> kmem_inv t ps'
    \<and> distinct (held @ ps') \<and> set held \<union> set ps' = set ps"
  using pa.aops_conserve [OF assms, of "[]" ops] pa.free_usable [OF assms] by simp

subsection \<open>A concrete machine\<close>

text \<open>
  The state the loader leaves, with all of the kernel's data zero: no lock is held, interrupts
  are off, memory is zero. The witnesses run on it.
\<close>

definition zero_kmem :: "u64 \<Rightarrow> kmem" where
  "zero_kmem fl = \<lparr>locks = (\<lambda>_. init_spinlock ''''),
     cpus = (\<lambda>_. \<lparr>cpu_proc = None, noff = 0, intena = False\<rparr>), sstatus = (\<lambda>_. 0), tp = 0,
     mem = (\<lambda>_. 0), freelist = fl, kernel_end = 0x80021d48\<rparr>"

lemma le_word_replicate_0: "le_word (replicate n 0) = 0"
  by (induction n) simp_all

lemma load64_zero [simp]: "load64 (\<lambda>_. 0) a = 0"
  unfolding load64_def mem_bytes_def by (simp only: map_replicate_const length_upt le_word_replicate_0)

lemma zero_kmem_ok: "mach_ok (zero_kmem fl)" "lock_free (zero_kmem fl) l"
  by (simp_all add: zero_kmem_def mach_ok_def ie_def lock_free_def init_spinlock_def)

theorem kinit_frees_all_witness:
  "\<exists>t. kinit (zero_kmem 0) = Ok () t
    \<and> kmem_inv t (rev (pages_between (PGROUNDUP 0x80021d48) PHYSTOP))"
proof -
  have e: "kernel_end (zero_kmem 0) = 0x80021d48" "freelist (zero_kmem 0) = 0" by (simp_all add: zero_kmem_def)
  have "kernel_end (zero_kmem 0) \<le> PHYSTOP" by (simp add: e PHYSTOP_def)
  moreover have "0 < kernel_end (zero_kmem 0)" by (simp add: e)
  ultimately show ?thesis using kinit_frees_all [OF zero_kmem_ok(1), of 0] by (simp only: e)
qed

lemma zero_kmem_inv: "kmem_inv (zero_kmem 0x87fff000) [0x87fff000]"
proof -
  have "flist (mem (zero_kmem p)) (freelist (zero_kmem p)) [p] \<longleftrightarrow> p \<noteq> 0" for p
    by (simp add: zero_kmem_def)
  moreover have "pg_aligned 0x87fff000" unfolding pg_aligned_def pg_aligned_iff by simp
  ultimately show ?thesis
    unfolding kmem_inv_def by (simp add: zero_kmem_ok) (simp add: zero_kmem_def page_ok_def PHYSTOP_def)
qed

theorem kalloc_kfree_conserve_witness:
  "\<exists>held ps' t. run_aops kalloc kfree 0 [Alloc, Alloc, Free 0] [] (zero_kmem 0x87fff000) = Ok held t
    \<and> kmem_inv t ps' \<and> distinct (held @ ps') \<and> set held \<union> set ps' = set [0x87fff000]"
  by (rule kalloc_kfree_conserve [OF zero_kmem_inv])

end
