(* ===== verification/Vm.thy ===== *)
theory Vm
  imports Kalloc
begin

text \<open>
  \<open>kernel/vm.c\<close>: Sv39 page tables in physical memory. A page table is the address of its root
  page; an entry is eight bytes of memory, read with \<open>load64\<close> and written with \<open>store64\<close>.
  \<open>etext\<close> and \<open>trampoline\<close> are symbols of the linker script.

  A kernel buffer that \<open>copyout\<close> reads or \<open>copyin\<close> writes is a C object of another component, never
  a page of a process, so it is passed by content: \<open>copyout\<close> takes the characters to copy, and
  \<open>copyin\<close> and \<open>copyinstr\<close> return the characters they stored before they returned.
\<close>

unbundle bit_operations_syntax

record vmstate = kmem +
  kernel_pagetable :: u64
  satp :: "nat \<Rightarrow> u64"
  etext :: u64
  trampoline :: u64

subsection \<open>Walking and mapping\<close>

definition get_pte :: "u64 \<Rightarrow> (u64, 'z kmem_scheme) kern" where
  "get_pte a = gets (\<lambda>s. load64 (mem s) a)"

definition set_pte :: "u64 \<Rightarrow> u64 \<Rightarrow> (unit, 'z kmem_scheme) kern" where
  "set_pte a v = upd_mem (store64 a v)"

primrec walk_loop :: "nat \<Rightarrow> u64 \<Rightarrow> u64 \<Rightarrow> bool \<Rightarrow> (u64, 'z kmem_scheme) kern" where
  "walk_loop 0 pagetable va alloc = ret (pagetable + 8 * PX 0 va)"
| "walk_loop (Suc l) pagetable va alloc =
     (let pte = pagetable + 8 * PX (Suc l) va in
      bnd (get_pte pte) (\<lambda>e.
      if e AND PTE_V \<noteq> 0 then walk_loop l (PTE2PA e) va alloc
      else if \<not> alloc then ret 0
      else bnd kalloc (\<lambda>p.
      if p = 0 then ret 0
      else sq (upd_mem (memset p 0 (unat PGSIZE))) (
      sq (set_pte pte (PA2PTE p OR PTE_V)) (
      walk_loop l p va alloc)))))"

definition walk :: "u64 \<Rightarrow> u64 \<Rightarrow> bool \<Rightarrow> (u64, 'z kmem_scheme) kern" where
  "walk pagetable va alloc =
     (if va \<ge> MAXVA then panic ''walk'' else walk_loop 2 pagetable va alloc)"

definition walkaddr :: "u64 \<Rightarrow> u64 \<Rightarrow> (u64, 'z kmem_scheme) kern" where
  "walkaddr pagetable va =
     (if va \<ge> MAXVA then ret 0
      else bnd (walk pagetable va False) (\<lambda>pte.
      if pte = 0 then ret 0
      else bnd (get_pte pte) (\<lambda>e.
      if e AND PTE_V = 0 then ret 0
      else if e AND PTE_U = 0 then ret 0
      else ret (PTE2PA e))))"

text \<open>
  The loop of \<open>mappages\<close>, which the source leaves when \<open>a == last\<close>. It visits \<open>size / PGSIZE\<close>
  pages, the first argument; the case 0 is never reached.
\<close>

primrec mappages_loop :: "nat \<Rightarrow> u64 \<Rightarrow> u64 \<Rightarrow> u64 \<Rightarrow> u64 \<Rightarrow> u64 \<Rightarrow> (int, 'z kmem_scheme) kern" where
  "mappages_loop 0 pagetable a lst pa perm = fault"
| "mappages_loop (Suc n) pagetable a lst pa perm =
     bnd (walk pagetable a True) (\<lambda>pte.
     if pte = 0 then ret (-1)
     else bnd (get_pte pte) (\<lambda>e.
     if e AND PTE_V \<noteq> 0 then panic ''mappages: remap''
     else sq (set_pte pte (PA2PTE pa OR perm OR PTE_V)) (
     if a = lst then ret 0
     else mappages_loop n pagetable (a + PGSIZE) lst (pa + PGSIZE) perm)))"

definition mappages :: "u64 \<Rightarrow> u64 \<Rightarrow> u64 \<Rightarrow> u64 \<Rightarrow> u64 \<Rightarrow> (int, 'z kmem_scheme) kern" where
  "mappages pagetable va sz pa perm =
     (if \<not> pg_aligned va then panic ''mappages: va not aligned''
      else if \<not> pg_aligned sz then panic ''mappages: size not aligned''
      else if sz = 0 then panic ''mappages: size''
      else mappages_loop (unat (sz div PGSIZE)) pagetable va (va + sz - PGSIZE) pa perm)"

definition kvmmap :: "u64 \<Rightarrow> u64 \<Rightarrow> u64 \<Rightarrow> u64 \<Rightarrow> u64 \<Rightarrow> (unit, 'z kmem_scheme) kern" where
  "kvmmap kpgtbl va pa sz perm =
     bnd (mappages kpgtbl va sz pa perm) (\<lambda>r. whenM (r \<noteq> 0) (panic ''kvmmap''))"

definition proc_mapstacks :: "u64 \<Rightarrow> (unit, 'z kmem_scheme) kern" where
  "proc_mapstacks kpgtbl = forM [0..<NPROC] (\<lambda>i.
     bnd kalloc (\<lambda>pa.
     if pa = 0 then panic ''kalloc''
     else kvmmap kpgtbl (KSTACK i) pa PGSIZE (PTE_R OR PTE_W)))"

definition kvmmake :: "(u64, 'z vmstate_scheme) kern" where
  "kvmmake =
     bnd kalloc (\<lambda>kpgtbl.
     sq (guardM (kpgtbl \<noteq> 0)) (
     sq (upd_mem (memset kpgtbl 0 (unat PGSIZE))) (
     bnd (gets etext) (\<lambda>et.
     bnd (gets trampoline) (\<lambda>tramp.
     sq (kvmmap kpgtbl UART0 UART0 PGSIZE (PTE_R OR PTE_W)) (
     sq (kvmmap kpgtbl VIRTIO0 VIRTIO0 PGSIZE (PTE_R OR PTE_W)) (
     sq (kvmmap kpgtbl PLIC PLIC 0x4000000 (PTE_R OR PTE_W)) (
     sq (kvmmap kpgtbl KERNBASE KERNBASE (et - KERNBASE) (PTE_R OR PTE_X)) (
     sq (kvmmap kpgtbl et et (PHYSTOP - et) (PTE_R OR PTE_W)) (
     sq (kvmmap kpgtbl TRAMPOLINE tramp PGSIZE (PTE_R OR PTE_X)) (
     sq (proc_mapstacks kpgtbl) (
     ret kpgtbl))))))))))))"

definition kvminit :: "(unit, 'z vmstate_scheme) kern" where
  "kvminit = bnd kvmmake (\<lambda>p. modify (\<lambda>s. s\<lparr>kernel_pagetable := p\<rparr>))"

definition kvminithart :: "(unit, 'z vmstate_scheme) kern" where
  "kvminithart = modify (\<lambda>s. s\<lparr>satp := (satp s)(tp s := MAKE_SATP (kernel_pagetable s))\<rparr>)"

subsection \<open>User address spaces\<close>

text \<open>
  The indices of a loop \<open>for(a = x; a < e; a += PGSIZE)\<close>. Lemma \<open>for_pages_Cons\<close> below is the loop's
  recursion; an address within a page of \<open>2^64\<close> is never visited, because \<open>walk\<close> panics first.
\<close>

definition for_pages :: "u64 \<Rightarrow> u64 \<Rightarrow> u64 list" where
  "for_pages x e = map (\<lambda>i. x + of_nat i * PGSIZE) [0..<(unat e - unat x + 4095) div 4096]"

definition unmap_page :: "u64 \<Rightarrow> bool \<Rightarrow> u64 \<Rightarrow> (unit, 'z kmem_scheme) kern" where
  "unmap_page pagetable do_free a =
     bnd (walk pagetable a False) (\<lambda>pte.
     if pte = 0 then panic ''uvmunmap: walk''
     else bnd (get_pte pte) (\<lambda>e.
     if e AND PTE_V = 0 then panic ''uvmunmap: not mapped''
     else if PTE_FLAGS e = PTE_V then panic ''uvmunmap: not a leaf''
     else sq (whenM do_free (kfree (PTE2PA e))) (set_pte pte 0)))"

definition uvmunmap :: "u64 \<Rightarrow> u64 \<Rightarrow> u64 \<Rightarrow> bool \<Rightarrow> (unit, 'z kmem_scheme) kern" where
  "uvmunmap pagetable va npages do_free =
     (if \<not> pg_aligned va then panic ''uvmunmap: not aligned''
      else forM (for_pages va (va + npages * PGSIZE)) (unmap_page pagetable do_free))"

definition uvmcreate :: "(u64, 'z kmem_scheme) kern" where
  "uvmcreate = bnd kalloc (\<lambda>pagetable.
     if pagetable = 0 then ret 0
     else sq (upd_mem (memset pagetable 0 (unat PGSIZE))) (ret pagetable))"

definition uvmfirst :: "u64 \<Rightarrow> bytes \<Rightarrow> (unit, 'z kmem_scheme) kern" where
  "uvmfirst pagetable src =
     (if length src \<ge> unat PGSIZE then panic ''uvmfirst: more than a page''
      else bnd kalloc (\<lambda>m.
      sq (guardM (m \<noteq> 0)) (
      sq (upd_mem (memset m 0 (unat PGSIZE))) (
      sq (mappages pagetable 0 PGSIZE m (PTE_W OR PTE_R OR PTE_X OR PTE_U)) (
      upd_mem (mem_put m src))))))"

definition uvmdealloc :: "u64 \<Rightarrow> u64 \<Rightarrow> u64 \<Rightarrow> (u64, 'z kmem_scheme) kern" where
  "uvmdealloc pagetable oldsz newsz =
     (if newsz \<ge> oldsz then ret oldsz
      else sq (whenM (PGROUNDUP newsz < PGROUNDUP oldsz)
         (let npages = (ucast ((PGROUNDUP oldsz - PGROUNDUP newsz) div PGSIZE) :: u32) in
          uvmunmap pagetable (PGROUNDUP newsz) (scast npages) True))
        (ret newsz))"

primrec uvmalloc_loop :: "u64 list \<Rightarrow> u64 \<Rightarrow> u64 \<Rightarrow> u64 \<Rightarrow> u64 \<Rightarrow> (u64, 'z kmem_scheme) kern" where
  "uvmalloc_loop [] pagetable oldsz newsz xperm = ret newsz"
| "uvmalloc_loop (a # as) pagetable oldsz newsz xperm =
     bnd kalloc (\<lambda>m.
     if m = 0 then sq (uvmdealloc pagetable a oldsz) (ret 0)
     else sq (upd_mem (memset m 0 (unat PGSIZE))) (
     bnd (mappages pagetable a PGSIZE m (PTE_R OR PTE_U OR xperm)) (\<lambda>r.
     if r \<noteq> 0 then sq (kfree m) (sq (uvmdealloc pagetable a oldsz) (ret 0))
     else uvmalloc_loop as pagetable oldsz newsz xperm)))"

definition uvmalloc :: "u64 \<Rightarrow> u64 \<Rightarrow> u64 \<Rightarrow> u64 \<Rightarrow> (u64, 'z kmem_scheme) kern" where
  "uvmalloc pagetable oldsz newsz xperm =
     (if newsz < oldsz then ret oldsz
      else uvmalloc_loop (for_pages (PGROUNDUP oldsz) newsz) pagetable (PGROUNDUP oldsz) newsz xperm)"

text \<open>
  \<open>freewalk\<close> calls itself on the tables below. A Sv39 tree is three tables deep; the first argument
  bounds the depth of the recursion.
\<close>

primrec freewalk_rec :: "nat \<Rightarrow> u64 \<Rightarrow> (unit, 'z kmem_scheme) kern" where
  "freewalk_rec 0 pagetable = fault"
| "freewalk_rec (Suc d) pagetable =
     sq (forM [0..<512] (\<lambda>i.
       bnd (get_pte (pagetable + 8 * of_nat i)) (\<lambda>pte.
       if pte AND PTE_V \<noteq> 0 \<and> pte AND (PTE_R OR PTE_W OR PTE_X) = 0
       then sq (freewalk_rec d (PTE2PA pte)) (set_pte (pagetable + 8 * of_nat i) 0)
       else if pte AND PTE_V \<noteq> 0 then panic ''freewalk: leaf''
       else ret ())))
     (kfree pagetable)"

definition freewalk :: "u64 \<Rightarrow> (unit, 'z kmem_scheme) kern" where
  "freewalk pagetable = freewalk_rec 64 pagetable"

definition uvmfree :: "u64 \<Rightarrow> u64 \<Rightarrow> (unit, 'z kmem_scheme) kern" where
  "uvmfree pagetable sz =
     sq (whenM (sz > 0) (uvmunmap pagetable 0 (PGROUNDUP sz div PGSIZE) True))
        (freewalk pagetable)"

text \<open>The error exit \<open>err\<close> of \<open>uvmcopy\<close> unmaps the \<open>i / PGSIZE\<close> pages copied so far.\<close>

definition uvmcopy_err :: "u64 \<Rightarrow> u64 \<Rightarrow> (int, 'z kmem_scheme) kern" where
  "uvmcopy_err new i = sq (uvmunmap new 0 (i div PGSIZE) True) (ret (-1))"

primrec uvmcopy_loop :: "u64 list \<Rightarrow> u64 \<Rightarrow> u64 \<Rightarrow> (int, 'z kmem_scheme) kern" where
  "uvmcopy_loop [] old new = ret 0"
| "uvmcopy_loop (i # is) old new =
     bnd (walk old i False) (\<lambda>pte.
     if pte = 0 then panic ''uvmcopy: pte should exist''
     else bnd (get_pte pte) (\<lambda>e.
     if e AND PTE_V = 0 then panic ''uvmcopy: page not present''
     else bnd kalloc (\<lambda>m.
     if m = 0 then uvmcopy_err new i
     else sq (upd_mem (memmove m (PTE2PA e) (unat PGSIZE))) (
     bnd (mappages new i PGSIZE m (PTE_FLAGS e)) (\<lambda>r.
     if r \<noteq> 0 then sq (kfree m) (uvmcopy_err new i)
     else uvmcopy_loop is old new)))))"

definition uvmcopy :: "u64 \<Rightarrow> u64 \<Rightarrow> u64 \<Rightarrow> (int, 'z kmem_scheme) kern" where
  "uvmcopy old new sz = uvmcopy_loop (for_pages 0 sz) old new"

definition uvmclear :: "u64 \<Rightarrow> u64 \<Rightarrow> (unit, 'z kmem_scheme) kern" where
  "uvmclear pagetable va =
     bnd (walk pagetable va False) (\<lambda>pte.
     if pte = 0 then panic ''uvmclear''
     else bnd (get_pte pte) (\<lambda>e. set_pte pte (e AND NOT PTE_U)))"

subsection \<open>Copying between kernel and user memory\<close>

text \<open>The bytes of a transfer that lie in the page of \<open>va\<close>.\<close>

definition chunk :: "u64 \<Rightarrow> u64 \<Rightarrow> u64" where
  "chunk va len = (let n = PGSIZE - (va - PGROUNDDOWN va) in if n > len then len else n)"

lemma pgoff: "unat (va - PGROUNDDOWN va) = unat va mod 4096"
proof -
  have "PGROUNDDOWN va \<le> va" using pgdown_le [of va] by (simp add: word_le_nat_alt)
  then show ?thesis by (simp add: unat_sub unat_pgdown minus_div_mult_eq_mod)
qed

lemma unat_chunk: "unat (chunk va len) = min (4096 - unat va mod 4096) (unat len)"
proof -
  have "unat (PGSIZE - (va - PGROUNDDOWN va)) = 4096 - unat va mod 4096"
    by (subst unat_sub) (simp_all add: word_le_nat_alt pgoff)
  then show ?thesis by (auto simp: chunk_def Let_def word_less_nat_alt min_def)
qed

lemma chunk_less:
  assumes "len \<noteq> 0"
  shows "unat (len - chunk va len) < unat len"
proof -
  have "chunk va len \<le> len" by (simp add: word_le_nat_alt unat_chunk)
  moreover have "0 < unat (chunk va len)" using assms by (simp add: unat_chunk unat_gt_0)
  ultimately show ?thesis using assms by (simp add: unat_sub unat_gt_0)
qed

function copyout :: "u64 \<Rightarrow> u64 \<Rightarrow> chars \<Rightarrow> u64 \<Rightarrow> (int, 'z kmem_scheme) kern" where
  "copyout pagetable dstva src len =
     (if len = 0 then ret 0
      else let va0 = PGROUNDDOWN dstva in
      if va0 \<ge> MAXVA then ret (-1)
      else bnd (walk pagetable va0 False) (\<lambda>pte.
      if pte = 0 then ret (-1)
      else bnd (get_pte pte) (\<lambda>e.
      if e AND PTE_V = 0 \<or> e AND PTE_U = 0 \<or> e AND PTE_W = 0 then ret (-1)
      else let n = chunk dstva len in
      sq (upd_mem (mem_put (PTE2PA e + (dstva - va0)) (map src [0..<unat n]))) (
      copyout pagetable (va0 + PGSIZE) (\<lambda>k. src (unat n + k)) (len - n)))))"
  by pat_completeness auto
termination
  by (relation "measure (\<lambda>(pagetable, dstva, src, len). unat len)") (simp_all add: chunk_less)

declare copyout.simps [simp del]

function copyin_acc :: "u64 \<Rightarrow> bytes \<Rightarrow> u64 \<Rightarrow> u64 \<Rightarrow> (int \<times> bytes, 'z kmem_scheme) kern" where
  "copyin_acc pagetable dst srcva len =
     (if len = 0 then ret (0, dst)
      else let va0 = PGROUNDDOWN srcva in
      bnd (walkaddr pagetable va0) (\<lambda>pa0.
      if pa0 = 0 then ret (-1, dst)
      else let n = chunk srcva len in
      bnd (gets (\<lambda>s. mem_bytes (mem s) (pa0 + (srcva - va0)) (unat n))) (\<lambda>bs.
      copyin_acc pagetable (dst @ bs) (va0 + PGSIZE) (len - n))))"
  by pat_completeness auto
termination
  by (relation "measure (\<lambda>(pagetable, dst, srcva, len). unat len)") (simp_all add: chunk_less)

declare copyin_acc.simps [simp del]

definition copyin :: "u64 \<Rightarrow> u64 \<Rightarrow> u64 \<Rightarrow> (int \<times> bytes, 'z kmem_scheme) kern" where
  "copyin pagetable srcva len = copyin_acc pagetable [] srcva len"

text \<open>
  The inner loop of \<open>copyinstr\<close> over the bytes of one page: the bytes stored in \<open>dst\<close>, the
  terminating 0 included, and whether it was found.
\<close>

fun copystr_page :: "bytes \<Rightarrow> bytes \<times> bool" where
  "copystr_page [] = ([], False)"
| "copystr_page (b # bs) =
     (if b = 0 then ([0], True)
      else (let (ds, got) = copystr_page bs in (b # ds, got)))"

function copyinstr_acc :: "u64 \<Rightarrow> bytes \<Rightarrow> u64 \<Rightarrow> u64 \<Rightarrow> (int \<times> bytes, 'z kmem_scheme) kern" where
  "copyinstr_acc pagetable dst srcva mx =
     (if mx = 0 then ret (-1, dst)
      else let va0 = PGROUNDDOWN srcva in
      bnd (walkaddr pagetable va0) (\<lambda>pa0.
      if pa0 = 0 then ret (-1, dst)
      else let n = chunk srcva mx in
      bnd (gets (\<lambda>s. mem_bytes (mem s) (pa0 + (srcva - va0)) (unat n))) (\<lambda>bs.
      let (ds, got_null) = copystr_page bs in
      if got_null then ret (0, dst @ ds)
      else copyinstr_acc pagetable (dst @ ds) (va0 + PGSIZE) (mx - n))))"
  by pat_completeness auto
termination
  by (relation "measure (\<lambda>(pagetable, dst, srcva, len). unat len)") (simp_all add: chunk_less)

declare copyinstr_acc.simps [simp del]

definition copyinstr :: "u64 \<Rightarrow> u64 \<Rightarrow> u64 \<Rightarrow> (int \<times> bytes, 'z kmem_scheme) kern" where
  "copyinstr pagetable srcva mx = copyinstr_acc pagetable [] srcva mx"

subsection \<open>Frame\<close>

text \<open>Every function here only changes memory, the free list and the state of the memory lock.\<close>

lemma keeps_pte [keeps_intros]:
  "keeps F (get_pte a)" "mem_free F \<Longrightarrow> keeps F (set_pte a v)"
  by (simp_all add: get_pte_def set_pte_def keeps_intros)

lemma keeps_walk [keeps_intros]:
  assumes "mem_free F"
  shows "keeps F (walk pagetable va alloc)"
proof -
  have "keeps F (walk_loop l p va alloc)" for l p
    by (induction l arbitrary: p) (simp_all add: keeps_ret, intro keeps_intros assms)
  then show ?thesis unfolding walk_def by (intro keeps_intros)
qed

lemma keeps_mappages [keeps_intros]:
  assumes "mem_free F"
  shows "keeps F (mappages pagetable va sz pa perm)"
proof -
  have "keeps F (mappages_loop n p a lst q perm)" for n p a lst q
  proof (induction n arbitrary: a q)
    case (Suc n)
    then show ?case unfolding mappages_loop.simps by (intro keeps_intros assms)
  qed (simp add: keeps_fault)
  then show ?thesis unfolding mappages_def by (intro keeps_intros)
qed

lemma keeps_unmap [keeps_intros]:
  assumes "mem_free F"
  shows "keeps F (uvmunmap pagetable va npages do_free)" "keeps F uvmcreate"
    "keeps F (uvmdealloc pagetable oldsz newsz)"
  unfolding uvmdealloc_def uvmunmap_def unmap_page_def uvmcreate_def by (intro keeps_intros assms)+

lemma keeps_uvm [keeps_intros]:
  assumes "mem_free F"
  shows "keeps F (uvmfirst pagetable src)" "keeps F (uvmalloc pagetable oldsz newsz xperm)"
    "keeps F (uvmfree pagetable sz)" "keeps F (uvmcopy old new sz)" "keeps F (uvmclear pagetable va)"
    "keeps F (walkaddr pagetable va)"
proof -
  have u: "keeps F (uvmalloc_loop as pagetable oldsz newsz xperm)" for "as" pagetable oldsz newsz xperm
    by (induction "as") (simp_all add: keeps_ret, intro keeps_intros assms)
  have w: "keeps F (freewalk_rec d p)" for d p
    by (induction d arbitrary: p) (simp_all add: keeps_fault del: upt_rec_numeral, intro keeps_intros assms)
  have c: "keeps F (uvmcopy_loop is old new)" for "is" old new
    by (induction "is") (simp_all add: keeps_ret, unfold uvmcopy_err_def, intro keeps_intros assms)
  show "keeps F (uvmfirst pagetable src)" "keeps F (uvmalloc pagetable oldsz newsz xperm)"
    "keeps F (uvmfree pagetable sz)" "keeps F (uvmcopy old new sz)" "keeps F (uvmclear pagetable va)"
    "keeps F (walkaddr pagetable va)"
    unfolding uvmfirst_def uvmalloc_def uvmfree_def freewalk_def uvmcopy_def uvmclear_def walkaddr_def
    by (intro keeps_intros assms u w c)+
qed

lemma keeps_copy [keeps_intros]:
  assumes "mem_free F"
  shows "keeps F (copyout pagetable va src len)" "keeps F (copyin pagetable va len)"
    "keeps F (copyinstr pagetable va len)"
proof -
  show "keeps F (copyout pagetable va src len)"
  proof (induction pagetable va src len rule: copyout.induct)
    case (1 pagetable dstva src len)
    show ?case
      by (subst copyout.simps) (intro keeps_intros assms 1; simp)
  qed
  have "keeps F (copyin_acc pagetable dst va len)" for dst
  proof (induction pagetable dst va len rule: copyin_acc.induct)
    case (1 pagetable dst srcva len)
    show ?case
      by (subst copyin_acc.simps) (intro keeps_intros assms 1; simp)
  qed
  then show "keeps F (copyin pagetable va len)" by (simp add: copyin_def)
  have "keeps F (copyinstr_acc pagetable dst va len)" for dst
  proof (induction pagetable dst va len rule: copyinstr_acc.induct)
    case (1 pagetable dst srcva len)
    show ?case
      by (subst copyinstr_acc.simps) (intro keeps_intros assms 1; (assumption | rule refl | erule sym)?)
  qed
  then show "keeps F (copyinstr pagetable va len)" by (simp add: copyinstr_def)
qed

end
