(* ===== verification/Pagetable.thy ===== *)
theory Pagetable
  imports Vm "HOL-Library.Multiset"
begin

text \<open>
  What a page table in memory means. \<open>tab m p i\<close> is entry \<open>i\<close> of the table in page \<open>p\<close>; the tree
  below a root is read off it (\<open>pt_pages\<close> lists its pages), and \<open>vmap\<close> is the map from virtual
  addresses to leaf entries that the hardware walker computes. The lemmas show what each function
  of \<open>vm.c\<close> does to that map, to the ownership of pages, and to the rest of memory.
\<close>

unbundle bit_operations_syntax

subsection \<open>Tables and trees\<close>

definition tab :: "memory \<Rightarrow> u64 \<Rightarrow> nat \<Rightarrow> u64" where
  "tab m p i = (if pg_aligned p \<and> i < 512 then load64 m (p + 8 * of_nat i) else 0)"

abbreviation valid :: "u64 \<Rightarrow> bool" where
  "valid e \<equiv> e AND PTE_V \<noteq> 0"

definition px :: "nat \<Rightarrow> u64 \<Rightarrow> nat" where
  "px l va = unat (PX l va)"

definition kids :: "(u64 \<Rightarrow> nat \<Rightarrow> u64) \<Rightarrow> u64 \<Rightarrow> u64 list" where
  "kids T p = map (\<lambda>i. PTE2PA (T p i)) (filter (\<lambda>i. valid (T p i)) [0..<512])"

definition pt_pages :: "(u64 \<Rightarrow> nat \<Rightarrow> u64) \<Rightarrow> u64 \<Rightarrow> u64 list" where
  "pt_pages T r = r # concat (map (\<lambda>p. p # kids T p) (kids T r))"

definition walkT :: "(u64 \<Rightarrow> nat \<Rightarrow> u64) \<Rightarrow> u64 \<Rightarrow> u64 \<Rightarrow> (u64 \<times> nat) option" where
  "walkT T r va =
     (let e2 = T r (px 2 va) in
      if \<not> valid e2 then None
      else let e1 = T (PTE2PA e2) (px 1 va) in
      if \<not> valid e1 then None else Some (PTE2PA e1, px 0 va))"

definition vmap :: "(u64 \<Rightarrow> nat \<Rightarrow> u64) \<Rightarrow> u64 \<Rightarrow> u64 \<Rightarrow> u64" where
  "vmap T r va = (case walkT T r va of None \<Rightarrow> 0 | Some (p, i) \<Rightarrow> T p i)"

lemma px_less [simp]: "px l va < 512"
  using PX_less [of l va] by (simp add: px_def word_less_nat_alt)

lemma PX_px: "PX l va = of_nat (px l va)"
  by (simp add: px_def)

lemma PTE2PA_pg [simp]: "pg_aligned (PTE2PA e)"
  by (simp add: pg_aligned_def PTE2PA_aligned)

lemma ent_rng: "i < 512 \<Longrightarrow> rng (p + 8 * of_nat i) 8 \<subseteq> page p"
  using rng_sub_page [of 8 "8 * i" p] by simp

lemma ent_rng_disjoint:
  assumes "i < 512" and "j < 512" and "i \<noteq> j"
  shows "rng (p + 8 * of_nat i) 8 \<inter> rng (p + 8 * of_nat j) 8 = {}"
proof -
  have "False" if x: "x \<in> rng (p + 8 * of_nat i) 8" "x \<in> rng (p + 8 * of_nat j) 8" for x
  proof -
    obtain k where k: "x = p + 8 * of_nat i + of_nat k" "k < 8" using x(1) by (rule rngE)
    obtain l where l: "x = p + 8 * of_nat j + of_nat l" "l < 8" using x(2) by (rule rngE)
    have "(of_nat (8 * i + k) :: u64) = of_nat (8 * j + l)" using k(1) l(1) by simp
    then have "unat (of_nat (8 * i + k) :: u64) = unat (of_nat (8 * j + l) :: u64)" by (rule arg_cong)
    moreover have "8 * i + k < 2 ^ 64" "8 * j + l < 2 ^ 64" using assms k l by simp_all
    ultimately have "8 * i + k = 8 * j + l" by (simp only: unat_of_nat_64)
    with assms k l show False by presburger
  qed
  then show ?thesis by blast
qed

lemma tab_cong: "(\<And>x. x \<in> page p \<Longrightarrow> m' x = m x) \<Longrightarrow> tab m' p = tab m p"
  unfolding tab_def using ent_rng by (intro ext) (auto intro!: load64_cong)

lemma tab_store:
  assumes "pg_aligned p" and "i < 512"
  shows "tab (store64 (p + 8 * of_nat i) v m) = (tab m)(p := (tab m p)(i := v))"
proof (intro ext)
  fix q j
  have "tab (store64 (p + 8 * of_nat i) v m) q = tab m q" if "q \<noteq> p" "pg_aligned q"
    using that assms ent_rng [of i p] pages_disjoint [of p q] by (intro tab_cong store64_out) auto
  then show "tab (store64 (p + 8 * of_nat i) v m) q j = ((tab m)(p := (tab m p)(i := v))) q j"
    using assms ent_rng_disjoint [of j i p]
    by (cases "q = p"; cases "pg_aligned q") (auto simp: load64_store64_disjoint, auto simp: tab_def load64_store64_disjoint)
qed

lemma tab_put_other:
  assumes "pg_aligned p" and "pg_aligned q" and "q \<noteq> p" and "length bs \<le> 4096"
  shows "tab (mem_put p bs m) q = tab m q"
  using assms pages_disjoint [of p q] by (intro tab_cong mem_put_page_out) auto

lemma tab_zero:
  assumes "pg_aligned p"
  shows "tab (memset p 0 4096 m) = (tab m)(p := (\<lambda>_. 0))"
proof (intro ext)
  fix q j
  have "load64 (memset p 0 4096 m) (p + 8 * of_nat j) = load64 (\<lambda>_. 0) (p + 8 * of_nat j)" if "j < 512"
  proof (rule load64_cong)
    fix x assume "x \<in> rng (p + 8 * of_nat j) 8"
    then have "x \<in> page p" using ent_rng [OF that] by blast
    then show "memset p 0 4096 m x = 0"
      by (simp add: memset_page mem_put_def page_def rng_def)
  qed
  moreover have "tab (memset p 0 4096 m) q = tab m q" if "q \<noteq> p" "pg_aligned q"
    using that assms by (simp add: memset_page tab_put_other)
  ultimately show "tab (memset p 0 4096 m) q j = ((tab m)(p := (\<lambda>_. 0))) q j"
    using assms by (cases "q = p"; cases "pg_aligned q") (auto, auto simp: tab_def)
qed

subsection \<open>The tree below a root\<close>

lemma kids_mem: "valid (T p i) \<Longrightarrow> i < 512 \<Longrightarrow> PTE2PA (T p i) \<in> set (kids T p)"
  by (auto simp: kids_def)

lemma kids_aligned: "q \<in> set (kids T p) \<Longrightarrow> pg_aligned q"
  by (auto simp: kids_def)

lemma kids_zero [simp]: "T p = (\<lambda>_. 0) \<Longrightarrow> kids T p = []"
  by (simp add: kids_def)

lemma kids_cong: "T' p = T p \<Longrightarrow> kids T' p = kids T p"
  by (simp add: kids_def)

lemma kids_inj:
  assumes "distinct (kids T p)" and "valid (T p i)" and "valid (T p j)" and "i < 512" and "j < 512"
    and "PTE2PA (T p i) = PTE2PA (T p j)"
  shows "i = j"
proof -
  have "inj_on (\<lambda>i. PTE2PA (T p i)) (set (filter (\<lambda>i. valid (T p i)) [0..<512]))"
    using assms(1) by (simp add: kids_def distinct_map)
  with assms(2-) show ?thesis by (auto simp: inj_on_def)
qed

lemma mset_filter_map_insert:
  assumes "distinct xs" and "i \<in> set xs" and "\<not> P i" and "P' i"
    and "\<And>j. j \<in> set xs \<Longrightarrow> j \<noteq> i \<Longrightarrow> P' j = P j \<and> g' j = g j"
  shows "mset (map g' (filter P' xs)) = add_mset (g' i) (mset (map g (filter P xs)))"
  using assms
proof (induction xs)
  case (Cons x xs)
  show ?case
  proof (cases "x = i")
    case True
    have "map g' (filter P' xs) = map g (filter P xs)"
      using Cons.prems True by (intro map_cong filter_cong) auto
    with True Cons.prems show ?thesis by simp
  next
    case False
    with Cons show ?thesis by (simp add: add_mset_commute)
  qed
qed simp

lemma mset_kids_insert:
  assumes "\<not> valid (T p i)" and "i < 512" and "T' p = (T p)(i := e)" and "valid e"
  shows "mset (kids T' p) = add_mset (PTE2PA e) (mset (kids T p))"
  using assms unfolding kids_def by (subst mset_filter_map_insert [where i = i]) auto

lemma pt_pages_mem:
  "r \<in> set (pt_pages T r)"
  "p \<in> set (kids T r) \<Longrightarrow> p \<in> set (pt_pages T r)"
  "p \<in> set (kids T r) \<Longrightarrow> q \<in> set (kids T p) \<Longrightarrow> q \<in> set (pt_pages T r)"
  by (auto simp: pt_pages_def)

lemma distinct_nested:
  assumes "distinct (concat (map (\<lambda>p. p # k p) xs))"
  shows "distinct xs" and "\<forall>p\<in>set xs. distinct (k p)" and "\<forall>p\<in>set xs. set (k p) \<inter> set xs = {}"
    and "\<forall>p\<in>set xs. \<forall>p'\<in>set xs. set (k p) \<inter> set (k p') \<noteq> {} \<longrightarrow> p = p'"
  using assms
proof (induction xs)
  case (Cons x xs)
  {
    case 1
    with Cons show ?case by auto
  next
    case 2
    with Cons show ?case by simp
  next
    case 3
    with Cons show ?case by auto
  next
    case 4
    then have "set (k x) \<inter> set (k p) = {}" if "p \<in> set xs" for p using that by auto
    moreover have "\<forall>p\<in>set xs. \<forall>p'\<in>set xs. set (k p) \<inter> set (k p') \<noteq> {} \<longrightarrow> p = p'"
      using 4 by (intro Cons.IH(4)) simp
    ultimately show ?case by (auto simp: Int_commute)
  }
qed simp_all

lemma pt_pages_distinct:
  assumes "distinct (pt_pages T r)"
  shows "distinct (kids T r)" and "p \<in> set (kids T r) \<Longrightarrow> p \<noteq> r"
    and "p \<in> set (kids T r) \<Longrightarrow> distinct (kids T p)"
    and "p \<in> set (kids T r) \<Longrightarrow> q \<in> set (kids T p) \<Longrightarrow> q \<noteq> r \<and> q \<notin> set (kids T r)"
    and "p \<in> set (kids T r) \<Longrightarrow> p' \<in> set (kids T r) \<Longrightarrow> q \<in> set (kids T p) \<Longrightarrow> q \<in> set (kids T p') \<Longrightarrow> p = p'"
proof -
  have d: "distinct (concat (map (\<lambda>p. p # kids T p) (kids T r)))"
    and r: "r \<notin> set (concat (map (\<lambda>p. p # kids T p) (kids T r)))"
    using assms by (simp_all add: pt_pages_def)
  note n = distinct_nested [OF d]
  show "distinct (kids T r)" by (rule n(1))
  show "p \<in> set (kids T r) \<Longrightarrow> p \<noteq> r" using r by auto
  show "p \<in> set (kids T r) \<Longrightarrow> distinct (kids T p)" using n(2) by blast
  show "p \<in> set (kids T r) \<Longrightarrow> q \<in> set (kids T p) \<Longrightarrow> q \<noteq> r \<and> q \<notin> set (kids T r)"
    using n(3) r by auto
  show "p \<in> set (kids T r) \<Longrightarrow> p' \<in> set (kids T r) \<Longrightarrow> q \<in> set (kids T p) \<Longrightarrow> q \<in> set (kids T p') \<Longrightarrow> p = p'"
    using n(4) by blast
qed

lemma mset_pt_pages:
  "mset (pt_pages T r) = add_mset r (\<Sum>p\<in>#mset (kids T r). add_mset p (mset (kids T p)))"
  by (simp add: pt_pages_def mset_concat comp_def flip: sum_mset_sum_list)

text \<open>A walk ends in a page of the tree, and different pages of virtual addresses end in different entries.\<close>

lemma walkT_Some:
  assumes "walkT T r va = Some (p, i)"
  shows "valid (T r (px 2 va))" and "PTE2PA (T r (px 2 va)) \<in> set (kids T r)"
    and "valid (T (PTE2PA (T r (px 2 va))) (px 1 va))"
    and "p = PTE2PA (T (PTE2PA (T r (px 2 va))) (px 1 va))"
    and "p \<in> set (kids T (PTE2PA (T r (px 2 va))))" and "i = px 0 va"
  using assms by (auto simp: walkT_def Let_def kids_mem split: if_splits)

lemma walkT_inj:
  assumes "distinct (pt_pages T r)" and "walkT T r va = Some (p, i)" and "walkT T r va' = Some (p, i)"
    and "va < MAXVA" and "va' < MAXVA"
  shows "PGROUNDDOWN va = PGROUNDDOWN va'"
proof -
  note d = pt_pages_distinct [OF assms(1)]
  note w = walkT_Some [OF assms(2)] and w' = walkT_Some [OF assms(3)]
  have p1: "PTE2PA (T r (px 2 va)) = PTE2PA (T r (px 2 va'))"
    using d(5) [OF w(2) w'(2) w(5) w'(5)] .
  have "px 2 va = px 2 va'" using kids_inj [OF d(1) w(1) w'(1) _ _ p1] by simp
  moreover have "px 1 va = px 1 va'"
    using kids_inj [OF d(3) [OF w(2)] w(3) _ _ _, of "px 1 va'"] w'(3,4) w(4) p1 by simp
  moreover have "px 0 va = px 0 va'" using w(6) w'(6) by simp
  ultimately show ?thesis
    using assms(4,5) by (intro PX_inject) (simp_all add: px_def word_unat_eq_iff)
qed

lemma walkT_tree: "walkT T r va = Some (p, i) \<Longrightarrow> p \<in> set (pt_pages T r) \<and> pg_aligned p \<and> i < 512"
  using walkT_Some [of T r va p i] by (auto intro: pt_pages_mem)

lemma PX_pgdown:
  assumes "PGROUNDDOWN va' = PGROUNDDOWN va"
  shows "PX l va' = PX l va"
proof -
  have "bit va' n = bit va n" if "n \<ge> 12" for n
    using assms that
    by (cases "n < 64") (auto simp: pgdown_push bit_eq_iff bit_simps dest!: spec [of _ n] dest: bit_imp_le_length)
  then show ?thesis by (intro bit_word_eqI) (simp add: PX_bit)
qed

lemma walkT_pgdown: "PGROUNDDOWN va' = PGROUNDDOWN va \<Longrightarrow> walkT T r va' = walkT T r va"
  using PX_pgdown [of va' va] by (simp add: walkT_def px_def Let_def)

lemma vmap_pgdown: "PGROUNDDOWN va' = PGROUNDDOWN va \<Longrightarrow> vmap T r va' = vmap T r va"
  unfolding vmap_def using walkT_pgdown [of va' va T r] by simp

text \<open>Writing a leaf entry changes one page of the map and no table.\<close>

lemma leaf_update:
  assumes "distinct (pt_pages T r)" and "walkT T r va = Some (p, i)" and "T' = T(p := (T p)(i := e))"
  shows "pt_pages T' r = pt_pages T r" and "walkT T' r = walkT T r"
    and "va < MAXVA \<Longrightarrow> va' < MAXVA \<Longrightarrow>
      vmap T' r va' = (if PGROUNDDOWN va' = PGROUNDDOWN va then e else vmap T r va')"
    and "\<And>x. x = r \<or> x \<in> set (kids T r) \<Longrightarrow> T' x = T x"
proof -
  note d = pt_pages_distinct [OF assms(1)]
  note w = walkT_Some [OF assms(2)]
  have "p \<noteq> r" "p \<notin> set (kids T r)" using d(4) [OF w(2) w(5)] by auto
  then have T': "T' r = T r" "\<And>q. q \<in> set (kids T r) \<Longrightarrow> T' q = T q" using assms(3) by auto
  then show "\<And>x. x = r \<or> x \<in> set (kids T r) \<Longrightarrow> T' x = T x" by blast
  have kr: "kids T' r = kids T r" using T'(1) by (rule kids_cong)
  have "map (\<lambda>q. q # kids T' q) (kids T r) = map (\<lambda>q. q # kids T q) (kids T r)"
    using T'(2) by (intro map_cong) (auto intro: kids_cong)
  then show "pt_pages T' r = pt_pages T r" by (simp only: pt_pages_def kr)
  show wk: "walkT T' r = walkT T r"
    using T' kids_mem [of T r] by (intro ext) (auto simp: walkT_def Let_def)
  assume va: "va < MAXVA" "va' < MAXVA"
  show "vmap T' r va' = (if PGROUNDDOWN va' = PGROUNDDOWN va then e else vmap T r va')"
  proof (cases "PGROUNDDOWN va' = PGROUNDDOWN va")
    case True
    then have "walkT T r va' = walkT T r va" by (rule walkT_pgdown)
    with True assms(2) have "vmap T' r va' = T' p i" unfolding vmap_def wk by simp
    with True assms(3) show ?thesis by simp
  next
    case False
    then have "walkT T r va' \<noteq> Some (p, i)"
      using walkT_inj [OF assms(1) assms(2) _ va] by auto
    moreover have "T' q j = T q j" if "(q, j) \<noteq> (p, i)" for q j using that assms(3) by auto
    ultimately have "vmap T' r va' = vmap T r va'"
      unfolding vmap_def wk by (cases "walkT T r va'") (auto split: prod.split)
    with False show ?thesis by simp
  qed
qed

text \<open>Hanging a fresh zeroed table below an invalid entry adds one page and maps nothing new.\<close>

lemma pte_ptr [simp]: "valid (PA2PTE q OR PTE_V)" "pg_aligned q \<Longrightarrow> PTE2PA (PA2PTE q OR PTE_V) = q"
  by (auto simp: PTE2PA_PA2PTE pg_aligned_def and_one_eq mod_2_eq_odd even_or_iff)

lemma tree_grow:
  assumes d: "distinct (pt_pages T r)" and q: "q \<notin> set (pt_pages T r)" "pg_aligned q"
    and p: "p = r \<or> p \<in> set (kids T r)" and i: "i < 512" "\<not> valid (T p i)"
  defines "T' \<equiv> T(q := (\<lambda>_. 0), p := (T p)(i := PA2PTE q OR PTE_V))"
  shows "mset (pt_pages T' r) = add_mset q (mset (pt_pages T r))" and "vmap T' r = vmap T r"
proof -
  note dist = pt_pages_distinct [OF d]
  note m = pt_pages_mem [of r T] pt_pages_mem(2,3) [of _ T r]
  have same: "T' x = T x" if "x \<in> set (pt_pages T r)" "x \<noteq> p" for x
    using that q by (auto simp: T'_def)
  have "p \<in> set (pt_pages T r)" using p m by auto
  then have pq: "p \<noteq> q" using q by auto
  then have Tq: "T' q = (\<lambda>_. 0)" and Tp: "T' p = (T p)(i := PA2PTE q OR PTE_V)" by (simp_all add: T'_def)
  have kp: "mset (kids T' p) = add_mset q (mset (kids T p))"
    using mset_kids_insert [where T = T and p = p and i = i and T' = T' and e = "PA2PTE q OR PTE_V"] i Tp q by simp
  have kx: "kids T' x = kids T x" if "x \<in> set (pt_pages T r)" "x \<noteq> p" for x
    using same [OF that] by (rule kids_cong)
  show "mset (pt_pages T' r) = add_mset q (mset (pt_pages T r))"
  proof (cases "p = r")
    case True
    have "image_mset (\<lambda>x. add_mset x (mset (kids T' x))) (mset (kids T r))
        = image_mset (\<lambda>x. add_mset x (mset (kids T x))) (mset (kids T r))"
      by (rule image_mset_cong) (use True dist(2) m kx in auto)
    with True kp Tq show ?thesis by (simp add: mset_pt_pages)
  next
    case False
    then have pk: "p \<in> set (kids T r)" using p by simp
    define M where "M = mset (remove1 p (kids T r))"
    have M: "mset (kids T r) = add_mset p M" using pk by (simp add: M_def)
    have pM: "p \<notin># M" unfolding M_def set_mset_mset using dist(1) by simp
    have in_kids: "x \<in> set (kids T r)" if "x \<in># M" for x
      using that set_remove1_subset [of p "kids T r"] unfolding M_def set_mset_mset by blast
    have "image_mset (\<lambda>x. add_mset x (mset (kids T' x))) M = image_mset (\<lambda>x. add_mset x (mset (kids T x))) M"
      by (rule image_mset_cong) (use pM in_kids m kx in metis)
    moreover have "kids T' r = kids T r" using kx False m by auto
    ultimately show ?thesis using kp M by (simp add: mset_pt_pages)
  qed
  show "vmap T' r = vmap T r"
  proof
    fix va
    let ?p1 = "PTE2PA (T r (px 2 va))" and ?p0 = "PTE2PA (T (PTE2PA (T r (px 2 va))) (px 1 va))"
    have k1: "valid (T r (px 2 va)) \<Longrightarrow> ?p1 \<in> set (kids T r)" by (rule kids_mem) simp_all
    have k0: "valid (T ?p1 (px 1 va)) \<Longrightarrow> ?p0 \<in> set (kids T ?p1)" by (rule kids_mem) simp_all
    have s0: "T' ?p0 = T ?p0" if "valid (T r (px 2 va))" "valid (T ?p1 (px 1 va))"
      using dist(4) [OF k1 k0] that p m k1 k0 by (intro same) auto
    show "vmap T' r va = vmap T r va"
    proof (cases "p = r")
      case True
      have "T' ?p1 = T ?p1" if "valid (T r (px 2 va))"
        using k1 [OF that] dist(2) True m by (intro same) auto
      with True Tp Tq q s0 i show ?thesis
        by (cases "px 2 va = i") (auto simp: vmap_def walkT_def Let_def)
    next
      case False
      then have "T' r = T r" using m by (intro same) auto
      moreover have "T' ?p1 = T ?p1" if "valid (T r (px 2 va))" "?p1 \<noteq> p"
        using k1 [OF that(1)] that m by (intro same) auto
      ultimately show ?thesis using Tp Tq q s0 i
        by (cases "?p1 = p"; cases "px 1 va = i") (auto simp: vmap_def walkT_def Let_def)
    qed
  qed
qed

subsection \<open>Ownership of pages\<close>

text \<open>
  \<open>ptr_ok T r\<close>: the valid entries of the two upper levels are pointers (no permission bits), and
  the root has none in the upper half, which addresses below \<open>MAXVA\<close> never reach.
\<close>

definition ptr_ok :: "(u64 \<Rightarrow> nat \<Rightarrow> u64) \<Rightarrow> u64 \<Rightarrow> bool" where
  "ptr_ok T r \<longleftrightarrow> (\<forall>i<512. valid (T r i) \<longrightarrow> i < 256) \<and>
     (\<forall>p\<in>insert r (set (kids T r)). \<forall>i<512. valid (T p i) \<longrightarrow> T p i AND (PTE_R OR PTE_W OR PTE_X) = 0)"

lemma ptr_ok_cong:
  assumes "\<And>x. x = r \<or> x \<in> set (kids T r) \<Longrightarrow> T' x = T x"
  shows "ptr_ok T' r = ptr_ok T r"
proof -
  have "kids T' r = kids T r" using assms by (intro kids_cong) simp
  then show ?thesis using assms by (simp add: ptr_ok_def)
qed

lemma pte_ptr_perm: "(PA2PTE q OR PTE_V) AND (PTE_R OR PTE_W OR PTE_X) = 0"
proof (rule bit_word_eqI)
  fix n
  have "bit (PTE_R OR PTE_W OR PTE_X) n \<Longrightarrow> n < 10 \<and> n \<noteq> 0"
    using bit_small [of "PTE_R OR PTE_W OR PTE_X" 4 n] by (cases n) auto
  then show "bit ((PA2PTE q OR PTE_V) AND (PTE_R OR PTE_W OR PTE_X)) n = bit (0 :: u64) n"
    by (auto simp: PA2PTE_def bit_simps)
qed

lemma pte_ptr_perm14: "(PA2PTE q OR 1) AND 14 = 0"
  using pte_ptr_perm [of q] by simp

lemma ptr_ok_grow:
  assumes "ptr_ok T r" and "q \<notin> set (pt_pages T r)" and "pg_aligned q" and "p = r \<or> p \<in> set (kids T r)"
    and "p = r \<Longrightarrow> i < 256" and "i < 512" and "\<not> valid (T p i)"
  shows "ptr_ok (T(q := (\<lambda>_. 0), p := (T p)(i := PA2PTE q OR PTE_V))) r"
proof -
  let ?T = "T(q := (\<lambda>_. 0), p := (T p)(i := PA2PTE q OR PTE_V))"
  have ne: "q \<noteq> r" "q \<noteq> p" using assms(2,4) pt_pages_mem [of r T] pt_pages_mem(2) [of p T r] by auto
  have Tp: "?T p = (T p)(i := PA2PTE q OR PTE_V)" by simp
  have "mset (kids ?T p) = add_mset q (mset (kids T p))"
    using mset_kids_insert [where T = T and p = p and i = i and T' = ?T and e = "PA2PTE q OR PTE_V"] assms by simp
  then have kp: "set (kids ?T p) = insert q (set (kids T p))" by (metis set_mset_add_mset_insert set_mset_mset)
  have kr: "set (kids ?T r) \<subseteq> insert q (set (kids T r))"
  proof (cases "p = r")
    case False
    then have "kids ?T r = kids T r" using ne by (intro kids_cong) auto
    then show ?thesis by auto
  qed (use kp in simp)
  have ok: "?T x j AND (PTE_R OR PTE_W OR PTE_X) = 0"
    if "x = r \<or> x \<in> set (kids T r) \<or> x = q" "j < 512" "valid (?T x j)" for x j
    using that assms(1) ne by (cases "x = p"; cases "j = i"; cases "x = q") (auto simp: ptr_ok_def pte_ptr_perm14)
  moreover have "j < 256" if "j < 512" "valid (?T r j)" for j
    using that assms(1,5) ne by (cases "r = p"; cases "j = i") (auto simp: ptr_ok_def)
  ultimately show ?thesis unfolding ptr_ok_def using kr by blast
qed

text \<open>
  \<open>vm_inv s r ps\<close>: the allocator is sound with free pages \<open>ps\<close>, the tables below root \<open>r\<close> form a
  tree of allocatable pages, each used once and none of them free.
  \<open>acct r s ps t ps'\<close>: from \<open>s\<close> to \<open>t\<close> pages only moved between the free list and the tree
  below \<open>r\<close>, and no byte outside them changed.
\<close>

definition vm_inv :: "'z kmem_scheme \<Rightarrow> u64 \<Rightarrow> u64 list \<Rightarrow> bool" where
  "vm_inv s r ps \<longleftrightarrow> kmem_inv s ps \<and> distinct (pt_pages (tab (mem s)) r @ ps) \<and> ptr_ok (tab (mem s)) r
     \<and> (\<forall>p\<in>set (pt_pages (tab (mem s)) r). page_ok (kernel_end s) p)"

definition owned :: "'z kmem_scheme \<Rightarrow> u64 \<Rightarrow> u64 list \<Rightarrow> u64 multiset" where
  "owned s r ps = mset (pt_pages (tab (mem s)) r) + mset ps"

definition acct :: "u64 \<Rightarrow> 'z kmem_scheme \<Rightarrow> u64 list \<Rightarrow> 'z kmem_scheme \<Rightarrow> u64 list \<Rightarrow> bool" where
  "acct r s ps t ps' \<longleftrightarrow> vm_inv t r ps' \<and> owned t r ps' = owned s r ps
     \<and> (\<forall>x. PGROUNDDOWN x \<notin># owned s r ps \<longrightarrow> mem t x = mem s x)
     \<and> t = s\<lparr>mem := mem t, freelist := freelist t\<rparr>"

lemma acct_refl: "vm_inv s r ps \<Longrightarrow> acct r s ps s ps"
  by (simp add: acct_def)

lemma acct_trans: "acct r s ps t qs \<Longrightarrow> acct r t qs u rs \<Longrightarrow> acct r s ps u rs"
  unfolding acct_def by (metis (no_types, lifting) kmem.surjective kmem.update_convs(1,2))

lemma acct_vm_inv: "acct r s ps t qs \<Longrightarrow> vm_inv t r qs"
  by (simp add: acct_def)

lemma acct_kernel_end: "acct r s ps t qs \<Longrightarrow> kernel_end t = kernel_end s"
proof -
  assume "acct r s ps t qs"
  then have "t = s\<lparr>mem := mem t, freelist := freelist t\<rparr>" by (simp add: acct_def)
  then have "kernel_end t = kernel_end (s\<lparr>mem := mem t, freelist := freelist t\<rparr>)" by (rule arg_cong)
  then show ?thesis by simp
qed

lemma page_ok_nz:
  assumes "page_ok e p" and "0 < e" and "k < 4096"
  shows "p + of_nat k \<noteq> 0"
proof -
  have "unat p < unat PHYSTOP" "0 < unat p"
    using assms by (auto simp: page_ok_def word_less_nat_alt word_le_nat_alt)
  then have "unat (p + of_nat k) = unat p + k"
    using assms(3) by (simp add: unat_word_ariths unat_of_nat_64 PHYSTOP_def)
  with \<open>0 < unat p\<close> show ?thesis by auto
qed

lemma ent_nz: "page_ok e p \<Longrightarrow> 0 < e \<Longrightarrow> i < 512 \<Longrightarrow> p + 8 * of_nat i \<noteq> 0"
  using page_ok_nz [of e p "8 * i"] by simp

lemma in_page_down: "pg_aligned p \<Longrightarrow> x \<in> page p \<Longrightarrow> PGROUNDDOWN x = p"
  by (simp add: in_page_iff)

text \<open>Allocating a table for an invalid entry \<open>i\<close> of page \<open>p\<close>, as \<open>walk\<close> does.\<close>

lemma alloc_table:
  assumes inv: "vm_inv s r (q # ps)" and p: "p = r \<or> p \<in> set (kids (tab (mem s)) r)"
    and i: "i < 512" "\<not> valid (tab (mem s) p i)" and hi: "p = r \<Longrightarrow> i < 256"
  defines "m \<equiv> store64 (p + 8 * of_nat i) (PA2PTE q OR PTE_V) (memset q 0 4096 (memset q 5 4096 (mem s)))"
  defines "t \<equiv> s\<lparr>mem := m, freelist := load64 (mem s) q\<rparr>"
  shows "tab m = (tab (mem s))(q := (\<lambda>_. 0), p := (tab (mem s) p)(i := PA2PTE q OR PTE_V))"
    and "acct r s (q # ps) t ps" and "vmap (tab m) r = vmap (tab (mem s)) r"
proof -
  let ?T = "tab (mem s)"
  have p_in: "p \<in> set (pt_pages ?T r)" using p by (auto intro: pt_pages_mem)
  have ok: "page_ok (kernel_end s) q" "page_ok (kernel_end s) p" "q \<noteq> p" "q \<notin> set (pt_pages ?T r)" "q \<notin> set ps"
      "p \<notin> set ps" "distinct (pt_pages ?T r)"
    using inv p_in by (auto simp: vm_inv_def kmem_inv_def)
  then have al: "pg_aligned q" "pg_aligned p" by (auto simp: page_ok_def)
  have "tab (memset q 5 4096 (mem s)) x = ?T x" if "x \<noteq> q" for x
  proof (cases "pg_aligned x")
    case True
    then show ?thesis using al that by (simp add: memset_page tab_put_other)
  next
    case False
    then show ?thesis by (simp add: tab_def fun_eq_iff)
  qed
  then have "(tab (memset q 5 4096 (mem s)))(q := (\<lambda>_. 0)) = ?T(q := (\<lambda>_. 0))" by auto
  then have "tab (memset q 0 4096 (memset q 5 4096 (mem s))) = ?T(q := (\<lambda>_. 0))"
    using al by (simp add: tab_zero)
  then show T': "tab m = ?T(q := (\<lambda>_. 0), p := (?T p)(i := PA2PTE q OR PTE_V))"
    using al i ok by (simp add: m_def tab_store)
  note grow = tree_grow [OF ok(7) ok(4) al(1) p i, folded T']
  show "vmap (tab m) r = vmap ?T r" by (rule grow(2))
  have frame: "m x = mem s x" if "PGROUNDDOWN x \<noteq> p" "PGROUNDDOWN x \<noteq> q" for x
  proof -
    have "x \<notin> page p" "x \<notin> page q" using that al by (auto simp: in_page_iff)
    moreover from this have "x \<notin> rng (p + 8 * of_nat i) 8" using ent_rng [OF i(1)] by blast
    ultimately show ?thesis by (simp add: m_def store64_out memset_page mem_put_page_out)
  qed
  have own: "mset (pt_pages (tab m) r) + mset ps = owned s r (q # ps)"
    by (simp add: grow(1) owned_def)
  have "distinct (pt_pages (tab m) r @ ps)"
  proof -
    have "mset (pt_pages (tab m) r @ ps) = mset (pt_pages ?T r @ q # ps)" by (simp add: grow(1))
    moreover have "distinct (pt_pages ?T r @ q # ps)" using inv by (simp add: vm_inv_def)
    ultimately show ?thesis by (rule mset_eq_imp_distinct_iff [THEN iffD2])
  qed
  moreover have "kmem_inv t ps"
  proof -
    define u where "u = s\<lparr>mem := memset q 5 4096 (mem s), freelist := load64 (mem s) q\<rparr>"
    have "kmem_inv s (q # ps)" using inv by (simp add: vm_inv_def)
    then have u: "kmem_inv u ps" unfolding u_def by (rule kalloc_Cons)
    have agree: "m x = mem u x" if "p' \<in> set ps" "x \<in> page p'" for p' x
    proof -
      have "pg_aligned p'" using u that by (auto simp: kmem_inv_def page_ok_def)
      with that have "PGROUNDDOWN x = p'" by (simp add: in_page_iff)
      with that ok have ne: "PGROUNDDOWN x \<noteq> p" "PGROUNDDOWN x \<noteq> q" by auto
      then have "x \<notin> page q" using al by (simp add: in_page_iff)
      then have "mem u x = mem s x" by (simp add: u_def memset_page mem_put_page_out)
      with frame [OF ne] show ?thesis by simp
    qed
    have "kmem_inv (u\<lparr>mem := m\<rparr>) ps" using u agree by (rule kmem_inv_mem)
    moreover have "u\<lparr>mem := m\<rparr> = t" by (simp add: u_def t_def)
    ultimately show ?thesis by simp
  qed
  moreover have "\<forall>x\<in>set (pt_pages (tab m) r). page_ok (kernel_end t) x"
    using inv ok(1) mset_eq_setD [of "pt_pages (tab m) r" "q # pt_pages ?T r"]
    by (auto simp: grow(1) vm_inv_def t_def)
  moreover have "ptr_ok (tab m) r"
    unfolding T' using inv ok al p i hi by (intro ptr_ok_grow) (auto simp: vm_inv_def)
  ultimately have "vm_inv t r ps" by (simp add: vm_inv_def t_def)
  moreover have "\<forall>x. PGROUNDDOWN x \<notin># owned s r (q # ps) \<longrightarrow> mem t x = mem s x"
  proof (intro allI impI)
    fix x assume "PGROUNDDOWN x \<notin># owned s r (q # ps)"
    then have "PGROUNDDOWN x \<noteq> p" "PGROUNDDOWN x \<noteq> q" using p_in by (auto simp: owned_def)
    then show "mem t x = mem s x" using frame by (simp add: t_def)
  qed
  moreover have "owned t r ps = owned s r (q # ps)" using own by (simp add: owned_def t_def)
  ultimately show "acct r s (q # ps) t ps" by (simp add: acct_def t_def)
qed

subsection \<open>walk\<close>

lemma walk_lookup:
  assumes "pg_aligned r" and "va < MAXVA"
  shows "walk r va False s = Ok (case walkT (tab (mem s)) r va of None \<Rightarrow> 0 | Some (p, i) \<Rightarrow> p + 8 * of_nat i) s"
proof -
  have "\<not> MAXVA \<le> va" using assms(2) by (simp only: not_le)
  with assms(1) show ?thesis
    by (simp add: walk_def numeral_2_eq_2 walkT_def Let_def get_pte_def run_simps PX_px tab_def)
qed

text \<open>
  One level of a walk that may allocate: it ends with 0 because memory ran out, or goes on with the
  rest \<open>K\<close> of the walk in the table the entry now points to.
\<close>

definition level_step :: "u64 \<Rightarrow> nat \<Rightarrow> (u64 \<Rightarrow> (u64, 'z kmem_scheme) kern) \<Rightarrow> (u64, 'z kmem_scheme) kern" where
  "level_step p i K =
     (let pte = p + 8 * of_nat i in
      bnd (get_pte pte) (\<lambda>e.
      if e AND PTE_V \<noteq> 0 then K (PTE2PA e)
      else bnd kalloc (\<lambda>q.
      if q = 0 then ret 0
      else sq (upd_mem (memset q 0 (unat PGSIZE))) (
      sq (set_pte pte (PA2PTE q OR PTE_V)) (
      K q)))))"

lemma walk_alloc_levels:
  "walk r va True = (if va \<ge> MAXVA then panic ''walk''
     else level_step r (px 2 va) (\<lambda>p. level_step p (px 1 va) (\<lambda>p. ret (p + 8 * of_nat (px 0 va)))))"
  unfolding walk_def numeral_2_eq_2 walk_loop.simps level_step_def PX_px Let_def One_nat_def
    not_True_eq_False if_False by simp

lemma level_step_cases:
  assumes "vm_inv s r ps" and "p = r \<or> p \<in> set (kids (tab (mem s)) r)" and "i < 512" and "p = r \<Longrightarrow> i < 256"
  shows "(ps = [] \<and> level_step p i K s = Ok 0 s) \<or>
    (\<exists>t ps'. level_step p i K s = K (PTE2PA (tab (mem t) p i)) t \<and> acct r s ps t ps'
       \<and> valid (tab (mem t) p i) \<and> vmap (tab (mem t)) r = vmap (tab (mem s)) r
       \<and> (\<forall>x\<in>set (pt_pages (tab (mem s)) r). x \<noteq> p \<longrightarrow> tab (mem t) x = tab (mem s) x))"
proof -
  have p: "p \<in> set (pt_pages (tab (mem s)) r)" using assms(2) by (auto intro: pt_pages_mem)
  then have al: "pg_aligned p" using assms(1) by (auto simp: vm_inv_def page_ok_def)
  then have e: "load64 (mem s) (p + 8 * of_nat i) = tab (mem s) p i" using assms(3) by (simp add: tab_def)
  have km: "kmem_inv s ps" using assms(1) by (simp add: vm_inv_def)
  consider (v) "valid (tab (mem s) p i)" | (none) "\<not> valid (tab (mem s) p i)" "ps = []"
    | (new) q qs where "\<not> valid (tab (mem s) p i)" "ps = q # qs"
    by (cases ps) auto
  then show ?thesis
  proof cases
    case v
    then have "level_step p i K s = K (PTE2PA (tab (mem s) p i)) s"
      by (simp add: level_step_def get_pte_def run_simps e)
    with v acct_refl [OF assms(1)] show ?thesis by blast
  next
    case none
    then have "level_step p i K s = Ok 0 s"
      using kalloc_empty [of s] km by (simp add: level_step_def get_pte_def run_simps e)
    with none show ?thesis by blast
  next
    case new
    note at = alloc_table [OF assms(1) [unfolded new(2)] assms(2,3) new(1) assms(4)]
    have q: "q \<noteq> 0" "q \<notin> set (pt_pages (tab (mem s)) r)" "pg_aligned q"
      using assms(1) new by (auto simp: vm_inv_def kmem_inv_def page_ok_def)
    define t where "t = s\<lparr>freelist := load64 (mem s) q, mem := store64 (p + 8 * of_nat i) (PA2PTE q OR PTE_V)
        (memset q 0 4096 (memset q 5 4096 (mem s)))\<rparr>"
    have t: "t = s\<lparr>mem := store64 (p + 8 * of_nat i) (PA2PTE q OR PTE_V)
        (memset q 0 4096 (memset q 5 4096 (mem s))), freelist := load64 (mem s) q\<rparr>" by (simp add: t_def)
    have ac: "acct r s ps t qs" unfolding t new(2) by (rule at(2))
    have ent: "tab (mem t) p i = PA2PTE q OR PTE_V" using at(1) by (simp add: t_def)
    have "level_step p i K s = K q t"
      using kalloc_Cons(1) [OF km [unfolded new(2)]] new(1) q
      by (simp add: level_step_def get_pte_def set_pte_def upd_mem_def run_simps e t_def)
    moreover have "\<forall>x\<in>set (pt_pages (tab (mem s)) r). x \<noteq> p \<longrightarrow> tab (mem t) x = tab (mem s) x"
      using at(1) q by (auto simp: t_def)
    ultimately have "level_step p i K s = K (PTE2PA (tab (mem t) p i)) t \<and> acct r s ps t qs
       \<and> valid (tab (mem t) p i) \<and> vmap (tab (mem t)) r = vmap (tab (mem s)) r
       \<and> (\<forall>x\<in>set (pt_pages (tab (mem s)) r). x \<noteq> p \<longrightarrow> tab (mem t) x = tab (mem s) x)"
      using ac at(3) q(3) unfolding ent by (simp add: t_def)
    then show ?thesis by blast
  qed
qed

lemma px2_less: "va < MAXVA \<Longrightarrow> px 2 va < 256"
proof -
  assume "va < MAXVA"
  then have "\<not> bit va n" if "38 \<le> n" for n using bit_small [of va 38 n] that by (auto simp: MAXVA_eq)
  then have "\<not> bit va (30 + n)" if "\<not> n < 8" for n using that by simp
  then have "take_bit 8 (PX 2 va) = PX 2 va" by (intro bit_word_eqI) (auto simp: bit_simps PX_bit)
  then have "px 2 va = take_bit 8 (px 2 va)" unfolding px_def by (metis unsigned_take_bit_eq)
  then show ?thesis using take_bit_nat_less_exp [of 8 "px 2 va"] by simp
qed

lemma walk_alloc:
  fixes s :: "'z kmem_scheme"
  assumes "vm_inv s r ps" and "va < MAXVA"
  shows "\<exists>a t ps'. walk r va True s = Ok a t \<and> acct r s ps t ps'
    \<and> vmap (tab (mem t)) r = vmap (tab (mem s)) r
    \<and> (if a = 0 then ps' = [] else \<exists>p i. a = p + 8 * of_nat i \<and> walkT (tab (mem t)) r va = Some (p, i))"
proof -
  let ?K1 = "\<lambda>p. ret (p + 8 * of_nat (px 0 va)) :: (u64, 'z kmem_scheme) kern"
  let ?K2 = "\<lambda>p. level_step p (px 1 va) ?K1"
  have w: "walk r va True s = level_step r (px 2 va) ?K2 s"
    using assms(2) by (simp add: walk_alloc_levels not_le [symmetric] del: not_le)
  have "r = r \<or> r \<in> set (kids (tab (mem s)) r)" by simp
  from level_step_cases [OF assms(1) this px_less px2_less [OF assms(2)], of ?K2] show ?thesis
  proof (elim disjE exE conjE)
    assume "ps = []" "level_step r (px 2 va) ?K2 s = Ok 0 s"
    then show ?thesis using w acct_refl [OF assms(1)] by auto
  next
    fix t :: "'z kmem_scheme" and ps'
    define p where "p = PTE2PA (tab (mem t) r (px 2 va))"
    assume t: "level_step r (px 2 va) ?K2 s = ?K2 (PTE2PA (tab (mem t) r (px 2 va))) t" "acct r s ps t ps'"
      "valid (tab (mem t) r (px 2 va))" "vmap (tab (mem t)) r = vmap (tab (mem s)) r"
    have inv: "vm_inv t r ps'" using t(2) by (rule acct_vm_inv)
    have pk: "p \<in> set (kids (tab (mem t)) r)" unfolding p_def using t(3) by (rule kids_mem) simp
    then have "p = r \<or> p \<in> set (kids (tab (mem t)) r)" by simp
    moreover have pr: "p \<noteq> r" using inv pk pt_pages_distinct(2) [of "tab (mem t)" r p] by (simp add: vm_inv_def)
    ultimately consider "ps' = []" "level_step p (px 1 va) ?K1 t = Ok 0 t"
      | u qs where "level_step p (px 1 va) ?K1 t = ?K1 (PTE2PA (tab (mem u) p (px 1 va))) u" "acct r t ps' u qs"
        "valid (tab (mem u) p (px 1 va))" "vmap (tab (mem u)) r = vmap (tab (mem t)) r"
        "\<forall>x\<in>set (pt_pages (tab (mem t)) r). x \<noteq> p \<longrightarrow> tab (mem u) x = tab (mem t) x"
      using level_step_cases [OF inv _ px_less, of p 1 va ?K1] by blast
    then show ?thesis
    proof cases
      case 1
      then have "walk r va True s = Ok 0 t" using w t(1) by (simp add: p_def)
      with t 1 show ?thesis by auto
    next
      case (2 u qs)
      note u = 2(1-4) and same = 2(5)
      define q where "q = PTE2PA (tab (mem u) p (px 1 va))"
      have r: "tab (mem u) r = tab (mem t) r" using pr same pt_pages_mem(1) [of r "tab (mem t)"] by metis
      have wT: "walkT (tab (mem u)) r va = Some (q, px 0 va)"
        using t(3) u(3) r by (simp add: walkT_def Let_def p_def q_def)
      have inv_u: "vm_inv u r qs" using u(2) by (rule acct_vm_inv)
      then have "page_ok (kernel_end u) q" "0 < kernel_end u"
        using walkT_tree [OF wT] by (auto simp: vm_inv_def kmem_inv_def)
      then have "q + 8 * of_nat (px 0 va) \<noteq> 0" by (intro ent_nz) simp_all
      moreover have "walk r va True s = Ok (q + 8 * of_nat (px 0 va)) u"
        using w t(1) u(1) by (simp add: p_def q_def run_simps)
      ultimately show ?thesis using wT t(2,4) u(2,4) acct_trans by fastforce
    qed
  qed
qed

lemma walkaddr_vmap:
  assumes "vm_inv s r ps"
  shows "walkaddr r va s = Ok (let e = vmap (tab (mem s)) r va in
     if va \<ge> MAXVA \<or> \<not> valid e \<or> e AND PTE_U = 0 then 0 else PTE2PA e) s"
proof (cases "va < MAXVA")
  case True
  have r: "pg_aligned r" using assms pt_pages_mem(1) [of r] by (auto simp: vm_inv_def page_ok_def)
  show ?thesis
  proof (cases "walkT (tab (mem s)) r va")
    case None
    then show ?thesis using True walk_lookup [OF r True, of s]
      by (simp add: walkaddr_def run_simps vmap_def Let_def)
  next
    case (Some pi)
    then obtain p i where pi: "walkT (tab (mem s)) r va = Some (p, i)" by (cases pi) auto
    note w = walkT_tree [OF pi]
    have "p + 8 * of_nat i \<noteq> 0" using w assms by (intro ent_nz [of "kernel_end s"]) (auto simp: vm_inv_def kmem_inv_def)
    moreover have "load64 (mem s) (p + 8 * of_nat i) = vmap (tab (mem s)) r va"
      using w pi by (simp add: vmap_def tab_def)
    ultimately show ?thesis using True walk_lookup [OF r True, of s] pi
      by (simp add: walkaddr_def run_simps Let_def get_pte_def)
  qed
qed (simp add: walkaddr_def run_simps Let_def not_less)

subsection \<open>Writing leaf entries\<close>

lemma pt_pages_cong:
  assumes "\<And>x. x \<in> set (pt_pages T r) \<Longrightarrow> T' x = T x"
  shows "pt_pages T' r = pt_pages T r" and "walkT T' r = walkT T r" and "vmap T' r = vmap T r"
proof -
  note m = pt_pages_mem [of r T] pt_pages_mem(2,3) [of _ T r]
  have kr: "kids T' r = kids T r" using assms m by (intro kids_cong) blast
  have "map (\<lambda>q. q # kids T' q) (kids T r) = map (\<lambda>q. q # kids T q) (kids T r)"
    using assms m by (intro map_cong) (auto intro!: kids_cong)
  then show "pt_pages T' r = pt_pages T r" by (simp only: pt_pages_def kr)
  have r: "T' r = T r" using assms m by blast
  have k: "T' p = T p" if "p \<in> set (kids T r)" for p using assms m that by blast
  show wk: "walkT T' r = walkT T r"
    using r k kids_mem [of T r] by (intro ext) (auto simp: walkT_def Let_def)
  show "vmap T' r = vmap T r"
  proof
    fix va
    show "vmap T' r va = vmap T r va"
      unfolding vmap_def wk using walkT_tree [of T r va] assms by (auto split: option.split)
  qed
qed

lemma kmem_inv_write:
  assumes "kmem_inv s ps" and "p \<notin> set ps" and "pg_aligned p" and "\<And>x. x \<notin> page p \<Longrightarrow> m' x = mem s x"
  shows "kmem_inv (s\<lparr>mem := m'\<rparr>) ps"
proof (rule kmem_inv_mem [OF assms(1)])
  fix q x assume q: "q \<in> set ps" "x \<in> page q"
  then have "pg_aligned q" using assms(1) by (auto simp: kmem_inv_def page_ok_def)
  with q assms(2,3) have "x \<notin> page p" using pages_disjoint [of p q] by blast
  then show "m' x = mem s x" by (rule assms(4))
qed

lemma set_leaf:
  fixes e :: u64
  assumes inv: "vm_inv s r ps" and w: "walkT (tab (mem s)) r va = Some (p, i)"
  defines "t \<equiv> s\<lparr>mem := store64 (p + 8 * of_nat i) e (mem s)\<rparr>"
  shows "acct r s ps t ps" and "pt_pages (tab (mem t)) r = pt_pages (tab (mem s)) r"
    and "va < MAXVA \<Longrightarrow> va' < MAXVA \<Longrightarrow> vmap (tab (mem t)) r va' =
      (if PGROUNDDOWN va' = PGROUNDDOWN va then e else vmap (tab (mem s)) r va')"
proof -
  have p: "p \<in> set (pt_pages (tab (mem s)) r)" "pg_aligned p" "i < 512" using walkT_tree [OF w] by auto
  have d: "distinct (pt_pages (tab (mem s)) r)" using inv by (simp add: vm_inv_def)
  have T': "tab (mem t) = (tab (mem s))(p := (tab (mem s) p)(i := e))"
    using p by (simp add: t_def tab_store)
  note lu = leaf_update [OF d w T']
  show pg: "pt_pages (tab (mem t)) r = pt_pages (tab (mem s)) r" by (rule lu(1))
  show "va < MAXVA \<Longrightarrow> va' < MAXVA \<Longrightarrow> vmap (tab (mem t)) r va' =
      (if PGROUNDDOWN va' = PGROUNDDOWN va then e else vmap (tab (mem s)) r va')" by (rule lu(3))
  have out: "mem t x = mem s x" if "x \<notin> page p" for x
    using that ent_rng [OF p(3), of p] by (simp add: t_def, intro store64_out) blast
  have "kmem_inv t ps" unfolding t_def
    using inv p out by (intro kmem_inv_write [of s ps p]) (auto simp: vm_inv_def t_def)
  moreover have "ptr_ok (tab (mem t)) r = ptr_ok (tab (mem s)) r" using lu(4) by (rule ptr_ok_cong)
  ultimately have "vm_inv t r ps" using inv pg by (simp add: vm_inv_def t_def)
  moreover have "\<forall>x. PGROUNDDOWN x \<notin># owned s r ps \<longrightarrow> mem t x = mem s x"
    by (intro allI impI out) (use p in \<open>auto simp: owned_def in_page_iff\<close>)
  ultimately show "acct r s ps t ps" using pg by (simp add: acct_def owned_def t_def)
qed

end
