(* ===== verification/Uvm.thy ===== *)
theory Uvm
  imports Pagetable
begin

text \<open>
  The address-space operations of \<open>vm.c\<close> on top of \<open>walk\<close>: what \<open>mappages\<close>, \<open>uvmunmap\<close>,
  \<open>uvmalloc\<close>, \<open>uvmdealloc\<close>, \<open>uvmcopy\<close> and \<open>uvmfree\<close> do to the virtual memory map and to the
  ownership of physical pages, out-of-memory paths included.
\<close>

unbundle bit_operations_syntax

subsection \<open>Sequences of pages\<close>

lemma pgdown_aligned [simp]: "pg_aligned a \<Longrightarrow> PGROUNDDOWN a = a"
  unfolding pg_aligned_def pgdown_push by (rule aligned_drop_push)

lemma pg_aligned_unat: "pg_aligned a \<longleftrightarrow> unat a mod 4096 = 0"
  unfolding pg_aligned_def by (rule pg_aligned_iff)

lemma unat_page_add:
  assumes "unat a + j * 4096 < 2 ^ 64"
  shows "unat (a + of_nat j * PGSIZE) = unat a + j * 4096"
proof -
  have "(of_nat j * PGSIZE :: u64) = of_nat (j * 4096)" by simp
  then show ?thesis using assms unat_of_nat_64 [of "j * 4096"] by (simp add: unat_word_ariths)
qed

lemma pg_aligned_add: "pg_aligned a \<Longrightarrow> unat a + j * 4096 < 2 ^ 64 \<Longrightarrow> pg_aligned (a + of_nat j * PGSIZE)"
  by (simp add: pg_aligned_unat unat_page_add mod_add_eq [symmetric])

lemma page_seq_inj:
  assumes "unat a + i * 4096 < 2 ^ 64" and "unat a + j * 4096 < 2 ^ 64"
  shows "a + of_nat i * PGSIZE = a + of_nat j * PGSIZE \<longleftrightarrow> i = j"
  using unat_page_add [OF assms(1)] unat_page_add [OF assms(2)] by (auto simp: word_unat_eq_iff)

lemma for_pages_Nil: "\<not> a < e \<Longrightarrow> for_pages a e = []"
  by (simp add: for_pages_def word_less_nat_alt)

lemma for_pages_Cons:
  assumes "a < e" and "unat a + 4096 < 2 ^ 64"
  shows "for_pages a e = a # for_pages (a + PGSIZE) e"
proof -
  have p: "unat (a + PGSIZE) = unat a + 4096" using assms(2) by (simp add: unat_word_ariths)
  define x where "x = unat e - unat a"
  have x: "0 < x" "unat e - (unat a + 4096) = x - 4096" using assms(1) by (auto simp: x_def word_less_nat_alt)
  have "(x + 4095) div 4096 = Suc ((x - 1) div 4096)" using x(1) by (subst le_div_geq) auto
  also have "(x - 1) div 4096 = (x - 4096 + 4095) div 4096"
  proof (cases "x < 4096")
    case True
    then show ?thesis by (subst div_less, simp)+ (rule refl)
  next
    case False
    then have "x - 4096 + 4095 = x - 1" by linarith
    then show ?thesis by (rule arg_cong [where f = "\<lambda>y. y div 4096", OF sym])
  qed
  finally have eq: "(x + 4095) div 4096 = Suc ((x - 4096 + 4095) div 4096)" .
  have step: "a + of_nat (Suc i) * PGSIZE = a + PGSIZE + of_nat i * PGSIZE" for i by (simp add: algebra_simps)
  show ?thesis
    unfolding for_pages_def p x(2) x_def [symmetric] eq map_upt_Suc step by simp
qed

subsection \<open>mappages\<close>

text \<open>\<open>n\<close> pages from \<open>a\<close> on mapped to physical memory from \<open>pa\<close> on.\<close>

definition map_range :: "nat \<Rightarrow> u64 \<Rightarrow> u64 \<Rightarrow> u64 \<Rightarrow> (u64 \<Rightarrow> u64) \<Rightarrow> u64 \<Rightarrow> u64" where
  "map_range n a pa perm f va =
     (if \<exists>j<n. PGROUNDDOWN va = a + of_nat j * PGSIZE
      then PA2PTE (pa + (PGROUNDDOWN va - a)) OR perm OR PTE_V else f va)"

definition same_map :: "(u64 \<Rightarrow> u64) \<Rightarrow> (u64 \<Rightarrow> u64) \<Rightarrow> bool" where
  "same_map f g \<longleftrightarrow> (\<forall>va<MAXVA. f va = g va)"

lemma same_mapD: "same_map f g \<Longrightarrow> va < MAXVA \<Longrightarrow> f va = g va"
  by (simp add: same_map_def)

lemma map_range_0 [simp]: "map_range 0 a pa perm f = f"
  by (simp add: map_range_def fun_eq_iff)

lemma map_range_Suc:
  assumes "unat a + Suc n * 4096 \<le> 2 ^ 38"
    and "\<And>va. va < MAXVA \<Longrightarrow> g va = (if PGROUNDDOWN va = a then PA2PTE pa OR perm OR PTE_V else f va)"
  shows "same_map (map_range n (a + PGSIZE) (pa + PGSIZE) perm g) (map_range (Suc n) a pa perm f)"
proof -
  have suc: "a + PGSIZE + of_nat j * PGSIZE = a + of_nat (Suc j) * PGSIZE" for j by (simp add: algebra_simps)
  have rg: "(\<exists>j<n. x = a + PGSIZE + of_nat j * PGSIZE) \<longleftrightarrow> (\<exists>j<Suc n. x = a + of_nat j * PGSIZE) \<and> x \<noteq> a" for x
  proof
    assume "\<exists>j<n. x = a + PGSIZE + of_nat j * PGSIZE"
    then obtain j where j: "j < n" "x = a + of_nat (Suc j) * PGSIZE" unfolding suc by blast
    have "x \<noteq> a + of_nat 0 * PGSIZE"
      unfolding j(2) using page_seq_inj [of a "Suc j" 0] j(1) assms(1) by simp
    with j show "(\<exists>j<Suc n. x = a + of_nat j * PGSIZE) \<and> x \<noteq> a" by auto
  next
    assume "(\<exists>j<Suc n. x = a + of_nat j * PGSIZE) \<and> x \<noteq> a"
    then obtain j where j: "j < Suc n" "x = a + of_nat j * PGSIZE" "x \<noteq> a" by blast
    then obtain k where "j = Suc k" by (cases j) auto
    with j show "\<exists>j<n. x = a + PGSIZE + of_nat j * PGSIZE" unfolding suc by auto
  qed
  have a0: "\<exists>j<Suc n. a = a + of_nat j * PGSIZE" by (intro exI [of _ 0]) simp
  have pa: "pa + PGSIZE + (x - (a + PGSIZE)) = pa + (x - a)" for x by (simp add: algebra_simps)
  show ?thesis
    unfolding same_map_def map_range_def rg pa using assms(2) a0 by (simp, blast)
qed

lemma mappages_loop_ok:
  assumes "vm_inv s r ps" and "pg_aligned a" and "unat a + n * 4096 \<le> 2 ^ 38" and "0 < n"
    and "lst = a + of_nat (n - 1) * PGSIZE"
    and "\<And>j. j < n \<Longrightarrow> \<not> valid (vmap (tab (mem s)) r (a + of_nat j * PGSIZE))"
  shows "\<exists>res t ps' k. mappages_loop n r a lst pa perm s = Ok res t \<and> acct r s ps t ps'
    \<and> same_map (vmap (tab (mem t)) r) (map_range k a pa perm (vmap (tab (mem s)) r))
    \<and> (res = 0 \<and> k = n \<or> res = -1 \<and> k < n \<and> ps' = [])"
  using assms
proof (induction n arbitrary: s a pa ps)
  case (Suc n)
  have a_lt: "a < MAXVA" using Suc.prems(3) by (simp add: word_less_nat_alt MAXVA_eq)
  obtain pte t ps' where w: "walk r a True s = Ok pte t" "acct r s ps t ps'"
      "vmap (tab (mem t)) r = vmap (tab (mem s)) r"
      "if pte = 0 then ps' = [] else \<exists>p i. pte = p + 8 * of_nat i \<and> walkT (tab (mem t)) r a = Some (p, i)"
    using walk_alloc [OF Suc.prems(1) a_lt] by blast
  show ?case
  proof (cases "pte = 0")
    case True
    then have "mappages_loop (Suc n) r a lst pa perm s = Ok (-1) t" using w by (simp add: run_simps)
    moreover have "same_map (vmap (tab (mem t)) r) (map_range 0 a pa perm (vmap (tab (mem s)) r))"
      using w(3) by (simp add: same_map_def)
    moreover have "(- 1 :: int) = 0 \<and> 0 = Suc n \<or> (- 1 :: int) = -1 \<and> 0 < Suc n \<and> ps' = []"
      using w(4) True by simp
    ultimately show ?thesis using w(2) by blast
  next
    case False
    then obtain p i where pi: "pte = p + 8 * of_nat i" "walkT (tab (mem t)) r a = Some (p, i)" using w(4) by auto
    have inv: "vm_inv t r ps'" using w(2) by (rule acct_vm_inv)
    have "load64 (mem t) pte = vmap (tab (mem t)) r a"
      using pi walkT_tree [OF pi(2)] by (simp add: vmap_def tab_def)
    then have nv: "\<not> valid (load64 (mem t) pte)" using Suc.prems(6) [of 0] w(3) by simp
    define e where "e = PA2PTE pa OR perm OR PTE_V"
    define u where "u = t\<lparr>mem := store64 pte e (mem t)\<rparr>"
    note sl = set_leaf [where e = e, OF inv pi(2), folded pi(1) u_def]
    have ac: "acct r s ps u ps'" using w(2) sl(1) by (rule acct_trans)
    have step: "mappages_loop (Suc n) r a lst pa perm s =
        (if a = lst then Ok 0 u else mappages_loop n r (a + PGSIZE) lst (pa + PGSIZE) perm u)"
      using w(1) False nv
      by (simp add: run_simps get_pte_def set_pte_def upd_mem_def u_def e_def)
    have vu: "vmap (tab (mem u)) r va = (if PGROUNDDOWN va = a then e else vmap (tab (mem s)) r va)"
      if "va < MAXVA" for va
      using sl(3) [OF a_lt that] Suc.prems(2) w(3) by simp
    show ?thesis
    proof (cases n)
      case 0
      then have "a = lst" using Suc.prems(5) by simp
      moreover have "same_map (vmap (tab (mem u)) r) (map_range (Suc n) a pa perm (vmap (tab (mem s)) r))"
        using map_range_Suc [OF Suc.prems(3), of "vmap (tab (mem u)) r" pa perm] vu 0 by (simp add: e_def)
      ultimately show ?thesis using step ac by auto
    next
      case (Suc m)
      have lim: "unat (a + PGSIZE) = unat a + 4096"
        using Suc.prems(3) by (simp add: unat_word_ariths)
      have ne: "a \<noteq> lst"
        using page_seq_inj [of a 0 n] Suc Suc.prems(3,5) by auto
      have "pg_aligned (a + PGSIZE)" using pg_aligned_add [of a 1] Suc.prems(2,3) by simp
      moreover have "unat (a + PGSIZE) + n * 4096 \<le> 2 ^ 38" using Suc.prems(3) lim by simp
      moreover have "lst = a + PGSIZE + of_nat (n - 1) * PGSIZE"
        using Suc.prems(5) Suc by (simp add: algebra_simps)
      moreover have "\<not> valid (vmap (tab (mem u)) r (a + PGSIZE + of_nat j * PGSIZE))" if j: "j < n" for j
      proof -
        let ?b = "a + of_nat (Suc j) * PGSIZE"
        have b: "unat ?b = unat a + Suc j * 4096" using Suc.prems(3) j by (intro unat_page_add) simp
        then have "?b < MAXVA" using Suc.prems(3) j by (simp add: word_less_nat_alt MAXVA_eq)
        moreover have "PGROUNDDOWN ?b = ?b"
          using Suc.prems(2,3) j by (intro pgdown_aligned pg_aligned_add) simp_all
        moreover have "?b \<noteq> a" using b by auto
        ultimately have "vmap (tab (mem u)) r ?b = vmap (tab (mem s)) r ?b" using vu by simp
        moreover have "a + PGSIZE + of_nat j * PGSIZE = ?b" by (simp add: algebra_simps)
        ultimately show ?thesis using Suc.prems(6) [of "Suc j"] j by (simp only: Suc_less_eq simp_thms)
      qed
      ultimately obtain res v qs k where v: "mappages_loop n r (a + PGSIZE) lst (pa + PGSIZE) perm u = Ok res v"
          "acct r u ps' v qs"
          "same_map (vmap (tab (mem v)) r) (map_range k (a + PGSIZE) (pa + PGSIZE) perm (vmap (tab (mem u)) r))"
          "res = 0 \<and> k = n \<or> res = -1 \<and> k < n \<and> qs = []"
        using Suc.IH [OF acct_vm_inv [OF ac], of "a + PGSIZE" "pa + PGSIZE"] Suc by blast
      have "same_map (vmap (tab (mem v)) r) (map_range (Suc k) a pa perm (vmap (tab (mem s)) r))"
      proof -
        have "unat a + Suc k * 4096 \<le> 2 ^ 38" using v(4) Suc.prems(3) by auto
        from map_range_Suc [OF this, of "vmap (tab (mem u)) r" pa perm] vu v(3) show ?thesis
          by (auto simp: same_map_def e_def)
      qed
      moreover have "mappages_loop (Suc n) r a lst pa perm s = Ok res v" using step ne v(1) by simp
      moreover have "acct r s ps v qs" using ac v(2) by (rule acct_trans)
      moreover have "res = 0 \<and> Suc k = Suc n \<or> res = -1 \<and> Suc k < Suc n \<and> qs = []" using v(4) by auto
      ultimately show ?thesis by blast
    qed
  qed
qed simp

lemma unat_div_pages: "unat (sz div PGSIZE) = unat sz div 4096"
  by (simp add: unat_div)

lemma mappages_ok:
  assumes "vm_inv s r ps" and "pg_aligned a" and "pg_aligned sz" and "sz \<noteq> 0" and "unat a + unat sz \<le> 2 ^ 38"
    and "\<And>j. j < unat sz div 4096 \<Longrightarrow> \<not> valid (vmap (tab (mem s)) r (a + of_nat j * PGSIZE))"
  shows "\<exists>res t ps' k. mappages r a sz pa perm s = Ok res t \<and> acct r s ps t ps'
    \<and> same_map (vmap (tab (mem t)) r) (map_range k a pa perm (vmap (tab (mem s)) r))
    \<and> (res = 0 \<and> k = unat sz div 4096 \<or> res = -1 \<and> k < unat sz div 4096 \<and> ps' = [])"
proof -
  define n where "n = unat sz div 4096"
  have "unat sz mod 4096 = 0" using assms(3) by (simp add: pg_aligned_unat)
  then have sz: "unat sz = n * 4096" unfolding n_def by (metis add.right_neutral div_mult_mod_eq)
  moreover have "0 < unat sz" using assms(4) by (simp add: unat_gt_0)
  ultimately have n: "0 < n" by (cases n) auto
  have "sz = of_nat (n * 4096)" by (metis of_nat_unat sz ucast_id)
  then have lst: "a + sz - PGSIZE = a + of_nat (n - 1) * PGSIZE"
    using n by (cases n) (simp_all add: algebra_simps)
  have eq: "mappages r a sz pa perm s = mappages_loop n r a (a + sz - PGSIZE) pa perm s"
    using assms(2-4) by (simp add: mappages_def n_def unat_div_pages)
  have lim: "unat a + n * 4096 \<le> 2 ^ 38" using assms(5) by (simp only: sz)
  show ?thesis
    unfolding eq n_def [symmetric]
    by (rule mappages_loop_ok [OF assms(1,2) lim n lst]) (use assms(6) n_def in blast)
qed

text \<open>The case of one page, on which the other operations are built.\<close>

lemma mappages_one:
  assumes "vm_inv s r ps" and "pg_aligned a" and "a < MAXVA" and "\<not> valid (vmap (tab (mem s)) r a)"
  obtains t ps' where "mappages r a PGSIZE pa perm s = Ok 0 t" and "acct r s ps t ps'"
      and "\<And>va. va < MAXVA \<Longrightarrow> vmap (tab (mem t)) r va =
        (if PGROUNDDOWN va = a then PA2PTE pa OR perm OR PTE_V else vmap (tab (mem s)) r va)"
    | t where "mappages r a PGSIZE pa perm s = Ok (-1) t" and "acct r s ps t []"
      and "same_map (vmap (tab (mem t)) r) (vmap (tab (mem s)) r)"
proof -
  have lim: "unat a + 4096 \<le> 2 ^ 38"
  proof -
    have "unat a < 2 ^ 38" "unat a mod 4096 = 0" using assms(2,3) by (auto simp: word_less_nat_alt MAXVA_eq pg_aligned_unat)
    then obtain q where "unat a = 4096 * q" by auto
    with \<open>unat a < 2 ^ 38\<close> show ?thesis by simp
  qed
  have one: "pg_aligned PGSIZE" by (simp add: pg_aligned_def)
  obtain res t ps' k where r: "mappages r a PGSIZE pa perm s = Ok res t" "acct r s ps t ps'"
      "same_map (vmap (tab (mem t)) r) (map_range k a pa perm (vmap (tab (mem s)) r))"
      "res = 0 \<and> k = 1 \<or> res = -1 \<and> k < 1 \<and> ps' = []"
    using mappages_ok [OF assms(1,2) one, of pa perm] lim assms(4) by fastforce
  from r(4) show thesis
  proof (elim disjE conjE)
    assume k: "res = 0" "k = 1"
    have "vmap (tab (mem t)) r va = (if PGROUNDDOWN va = a then PA2PTE pa OR perm OR PTE_V else vmap (tab (mem s)) r va)"
      if "va < MAXVA" for va
      using same_mapD [OF r(3) that] k by (simp add: map_range_def)
    with r(1,2) k that(1) show thesis by blast
  next
    assume "res = -1" "k < 1" "ps' = []"
    with r that(2) show thesis by simp
  qed
qed

text \<open>
  C10: on a sound page table \<open>mappages\<close> makes every page of the range map to the corresponding
  physical page with the given permissions, and leaves all other addresses mapped as they were;
  or it returns -1, which happens only when physical memory is exhausted. In both cases pages
  only move from the free list into the page-table tree, which stays a tree, and no other byte
  of memory is changed.
\<close>

theorem mappages_correct:
  assumes "vm_inv s r ps" and "pg_aligned a" and "pg_aligned sz" and "sz \<noteq> 0" and "unat a + unat sz \<le> 2 ^ 38"
    and "\<forall>j < unat sz div 4096. \<not> valid (vmap (tab (mem s)) r (a + of_nat j * PGSIZE))"
  shows "\<exists>res t ps'. mappages r a sz pa perm s = Ok res t \<and> acct r s ps t ps'
    \<and> (res = 0 \<and> same_map (vmap (tab (mem t)) r) (map_range (unat sz div 4096) a pa perm (vmap (tab (mem s)) r))
       \<or> res = -1 \<and> ps' = [])"
  using mappages_ok [OF assms(1-5), of pa perm] assms(6) by blast

subsection \<open>User pages\<close>

text \<open>
  \<open>uvm_inv s r D ps\<close>: besides the tables below \<open>r\<close> and the free pages \<open>ps\<close> there are the data
  pages \<open>D\<close>, and the three are disjoint. \<open>uacct\<close>: pages only moved between the three kinds, and no
  byte outside all of them changed.
\<close>

definition uvm_inv :: "'z kmem_scheme \<Rightarrow> u64 \<Rightarrow> u64 set \<Rightarrow> u64 list \<Rightarrow> bool" where
  "uvm_inv s r D ps \<longleftrightarrow> vm_inv s r ps \<and> (\<forall>d\<in>D. page_ok (kernel_end s) d)
     \<and> D \<inter> (set (pt_pages (tab (mem s)) r) \<union> set ps) = {}"

definition all_pages :: "'z kmem_scheme \<Rightarrow> u64 \<Rightarrow> u64 set \<Rightarrow> u64 list \<Rightarrow> u64 set" where
  "all_pages s r D ps = D \<union> set (pt_pages (tab (mem s)) r) \<union> set ps"

definition uacct :: "u64 \<Rightarrow> 'z kmem_scheme \<Rightarrow> u64 set \<Rightarrow> u64 list \<Rightarrow> 'z kmem_scheme \<Rightarrow> u64 set \<Rightarrow> u64 list \<Rightarrow> bool" where
  "uacct r s D ps t D' ps' \<longleftrightarrow> uvm_inv t r D' ps' \<and> all_pages t r D' ps' = all_pages s r D ps
     \<and> (\<forall>x. PGROUNDDOWN x \<notin> all_pages s r D ps \<longrightarrow> mem t x = mem s x)
     \<and> t = s\<lparr>mem := mem t, freelist := freelist t\<rparr>"

definition keeps_pages :: "u64 set \<Rightarrow> 'z kmem_scheme \<Rightarrow> 'z kmem_scheme \<Rightarrow> bool" where
  "keeps_pages A s t \<longleftrightarrow> (\<forall>x. PGROUNDDOWN x \<in> A \<longrightarrow> mem t x = mem s x)"

lemma keeps_pages_refl [simp]: "keeps_pages A s s"
  by (simp add: keeps_pages_def)

lemma keeps_pages_trans: "keeps_pages A s t \<Longrightarrow> keeps_pages B t u \<Longrightarrow> C \<subseteq> A \<Longrightarrow> C \<subseteq> B \<Longrightarrow> keeps_pages C s u"
  by (auto simp: keeps_pages_def subset_iff)

lemma uacct_inv: "uacct r s D ps t D' ps' \<Longrightarrow> uvm_inv t r D' ps'"
  by (simp add: uacct_def)

lemma uacct_refl: "uvm_inv s r D ps \<Longrightarrow> uacct r s D ps s D ps"
  by (simp add: uacct_def)

lemma uacct_trans: "uacct r s D ps t E qs \<Longrightarrow> uacct r t E qs u F rs \<Longrightarrow> uacct r s D ps u F rs"
  unfolding uacct_def by (metis (no_types, lifting) kmem.surjective kmem.update_convs(1,2))

lemma uvm_vm_inv: "uvm_inv s r D ps \<Longrightarrow> vm_inv s r ps"
  by (simp add: uvm_inv_def)

text \<open>An operation on the tables leaves the data pages alone.\<close>

lemma acct_uacct:
  assumes "uvm_inv s r D ps" and "acct r s ps t ps'"
  shows "uacct r s D ps t D ps'" and "keeps_pages D s t"
proof -
  have ow: "set (pt_pages (tab (mem t)) r) \<union> set ps' = set (pt_pages (tab (mem s)) r) \<union> set ps"
    using assms(2) unfolding acct_def owned_def by (metis set_mset_mset set_mset_union)
  have fr: "mem t x = mem s x" if "PGROUNDDOWN x \<notin> set (pt_pages (tab (mem s)) r) \<union> set ps" for x
    using assms(2) that by (simp add: acct_def owned_def)
  show "keeps_pages D s t"
    unfolding keeps_pages_def using fr assms(1) by (auto simp: uvm_inv_def)
  have "uvm_inv t r D ps'"
    using assms ow acct_kernel_end [OF assms(2)] by (auto simp: uvm_inv_def acct_def)
  moreover have "all_pages t r D ps' = all_pages s r D ps" using ow by (simp add: all_pages_def Un_assoc)
  moreover have "t = s\<lparr>mem := mem t, freelist := freelist t\<rparr>" using assms(2) by (simp add: acct_def)
  ultimately show "uacct r s D ps t D ps'" using fr by (simp add: uacct_def all_pages_def)
qed

text \<open>Writing to one data page, and moving a page between the data and the free pages.\<close>

lemma tab_eq_off_page:
  assumes "pg_aligned d" and "x \<noteq> d" and "\<And>y. y \<notin> page d \<Longrightarrow> m' y = m y"
  shows "tab m' x = tab m x"
proof (cases "pg_aligned x")
  case True
  then show ?thesis using assms pages_disjoint [of d x] by (intro tab_cong) blast
next
  case False
  then show ?thesis by (simp add: tab_def fun_eq_iff)
qed

lemma tree_off_page:
  assumes "pg_aligned d" and "d \<notin> set (pt_pages (tab m) r)" and "\<And>y. y \<notin> page d \<Longrightarrow> m' y = m y"
  shows "pt_pages (tab m') r = pt_pages (tab m) r" and "vmap (tab m') r = vmap (tab m) r"
    and "ptr_ok (tab m') r = ptr_ok (tab m) r"
proof -
  have eq: "\<And>x. x \<in> set (pt_pages (tab m) r) \<Longrightarrow> tab m' x = tab m x"
    using assms by (intro tab_eq_off_page [of d]) auto
  from eq show "pt_pages (tab m') r = pt_pages (tab m) r" by (rule pt_pages_cong)
  from eq show "vmap (tab m') r = vmap (tab m) r" by (rule pt_pages_cong)
  show "ptr_ok (tab m') r = ptr_ok (tab m) r"
    by (rule ptr_ok_cong, rule eq) (use pt_pages_mem [of r "tab m"] pt_pages_mem(2) [of _ "tab m" r] in auto)
qed

lemma write_data:
  assumes "uvm_inv s r D ps" and "d \<in> D" and "\<And>x. x \<notin> page d \<Longrightarrow> m' x = mem s x"
  defines "t \<equiv> s\<lparr>mem := m'\<rparr>"
  shows "uacct r s D ps t D ps" and "keeps_pages (- {d}) s t"
    and "vmap (tab (mem t)) r = vmap (tab (mem s)) r"
    and "pt_pages (tab (mem t)) r = pt_pages (tab (mem s)) r"
proof -
  have d: "pg_aligned d" "d \<notin> set (pt_pages (tab (mem s)) r)" "d \<notin> set ps"
    using assms(1,2) by (auto simp: uvm_inv_def page_ok_def)
  have pc: "pt_pages (tab (mem t)) r = pt_pages (tab (mem s)) r" "vmap (tab (mem t)) r = vmap (tab (mem s)) r"
      "ptr_ok (tab (mem t)) r = ptr_ok (tab (mem s)) r"
    using tree_off_page [OF d(1,2) assms(3)] by (simp_all add: t_def)
  show "vmap (tab (mem t)) r = vmap (tab (mem s)) r" by (rule pc(2))
  show pp: "pt_pages (tab (mem t)) r = pt_pages (tab (mem s)) r" by (rule pc(1))
  show "keeps_pages (- {d}) s t"
    using assms(3) d(1) by (auto simp: keeps_pages_def in_page_iff t_def)
  then have fr: "mem t x = mem s x" if "PGROUNDDOWN x \<noteq> d" for x using that by (simp add: keeps_pages_def)
  have "kmem_inv t ps" unfolding t_def
    using assms(1,3) d by (intro kmem_inv_write [of s ps d]) (auto simp: uvm_inv_def vm_inv_def)
  then have "uvm_inv t r D ps" using assms(1) pc by (simp add: uvm_inv_def vm_inv_def t_def)
  moreover have "mem t x = mem s x" if "PGROUNDDOWN x \<notin> all_pages s r D ps" for x
    by (rule fr) (use that assms(2) in \<open>auto simp: all_pages_def\<close>)
  ultimately show "uacct r s D ps t D ps" using pp by (simp add: uacct_def all_pages_def t_def)
qed

lemma kfree_data:
  assumes "uvm_inv s r D ps" and "d \<in> D"
  obtains t where "kfree d s = Ok () t" and "uacct r s D ps t (D - {d}) (d # ps)"
    and "keeps_pages (- {d}) s t" and "vmap (tab (mem t)) r = vmap (tab (mem s)) r"
    and "pt_pages (tab (mem t)) r = pt_pages (tab (mem s)) r"
proof -
  have d: "page_ok (kernel_end s) d" "pg_aligned d" "d \<notin> set (pt_pages (tab (mem s)) r)" "d \<notin> set ps"
    using assms by (auto simp: uvm_inv_def page_ok_def)
  have km: "kmem_inv s ps" using assms(1) by (simp add: uvm_inv_def vm_inv_def)
  define m where "m = store64 d (freelist s) (memset d 1 4096 (mem s))"
  define t where "t = s\<lparr>mem := m, freelist := d\<rparr>"
  note kf = kfree_ok [OF km d(1) d(4), folded m_def, folded t_def]
  have out: "m x = mem s x" if "x \<notin> page d" for x
  proof -
    have "x \<notin> rng d 8" using that rng8_page [of d] by blast
    then show ?thesis using that by (simp add: m_def store64_out memset_page mem_put_page_out)
  qed
  have pc: "pt_pages (tab (mem t)) r = pt_pages (tab (mem s)) r" "vmap (tab (mem t)) r = vmap (tab (mem s)) r"
      "ptr_ok (tab (mem t)) r = ptr_ok (tab (mem s)) r"
    using tree_off_page [OF d(2,3) out] by (simp_all add: t_def)
  have kp: "keeps_pages (- {d}) s t" using out d(2) by (auto simp: keeps_pages_def in_page_iff t_def)
  have "vm_inv t r (d # ps)"
    using assms(1) kf(2) pc(1,3) d by (auto simp: uvm_inv_def vm_inv_def t_def)
  then have "uvm_inv t r (D - {d}) (d # ps)"
    using assms(1) pc(1) by (auto simp: uvm_inv_def t_def)
  moreover have "mem t x = mem s x" if "PGROUNDDOWN x \<notin> all_pages s r D ps" for x
    using kp that assms(2) unfolding keeps_pages_def all_pages_def by auto
  ultimately have "uacct r s D ps t (D - {d}) (d # ps)"
    using pc(1) assms(2) by (auto simp: uacct_def all_pages_def t_def)
  then show thesis using that kf(1) kp pc by blast
qed

lemma kalloc_data:
  assumes "uvm_inv s r D (d # ps)"
  obtains t where "kalloc s = Ok d t" and "uacct r s D (d # ps) t (insert d D) ps"
    and "keeps_pages (- {d}) s t" and "vmap (tab (mem t)) r = vmap (tab (mem s)) r"
    and "pt_pages (tab (mem t)) r = pt_pages (tab (mem s)) r" and "d \<notin> D" and "d \<noteq> 0"
proof -
  have km: "kmem_inv s (d # ps)" using assms(1) by (simp add: uvm_inv_def vm_inv_def)
  have d: "pg_aligned d" "d \<notin> set (pt_pages (tab (mem s)) r)" "d \<notin> set ps" "d \<notin> D" "d \<noteq> 0" "page_ok (kernel_end s) d"
    using assms km by (auto simp: uvm_inv_def vm_inv_def kmem_inv_def page_ok_def)
  define m where "m = memset d 5 4096 (mem s)"
  define t where "t = s\<lparr>mem := m, freelist := load64 (mem s) d\<rparr>"
  note ka = kalloc_Cons [OF km, folded m_def, folded t_def]
  have out: "m x = mem s x" if "x \<notin> page d" for x
    using that by (auto simp: m_def memset_page mem_put_page_out)
  have pc: "pt_pages (tab (mem t)) r = pt_pages (tab (mem s)) r" "vmap (tab (mem t)) r = vmap (tab (mem s)) r"
      "ptr_ok (tab (mem t)) r = ptr_ok (tab (mem s)) r"
    using tree_off_page [OF d(1,2) out] by (simp_all add: t_def)
  have kp: "keeps_pages (- {d}) s t" using out d(1) by (auto simp: keeps_pages_def in_page_iff t_def)
  have "vm_inv t r ps"
    using assms(1) ka(2) pc(1,3) by (auto simp: uvm_inv_def vm_inv_def t_def)
  then have "uvm_inv t r (insert d D) ps"
    using assms(1) pc(1) d by (auto simp: uvm_inv_def t_def)
  moreover have "mem t x = mem s x" if "PGROUNDDOWN x \<notin> all_pages s r D (d # ps)" for x
    using kp that unfolding keeps_pages_def all_pages_def by auto
  ultimately have "uacct r s D (d # ps) t (insert d D) ps"
    using pc(1) by (auto simp: uacct_def all_pages_def t_def)
  then show thesis using that ka(1) kp pc d by blast
qed

subsection \<open>uvmunmap\<close>

definition leaf :: "u64 \<Rightarrow> bool" where
  "leaf e \<longleftrightarrow> valid e \<and> PTE_FLAGS e \<noteq> PTE_V"

lemma root_aligned: "vm_inv s r ps \<Longrightarrow> pg_aligned r"
  using pt_pages_mem(1) [of r] by (auto simp: vm_inv_def page_ok_def)

text \<open>Looking up the entry of a mapped page.\<close>

lemma walk_leaf:
  assumes "vm_inv s r ps" and "va < MAXVA" and "valid (vmap (tab (mem s)) r va)"
  obtains p i where "walk r va False s = Ok (p + 8 * of_nat i) s" and "p + 8 * of_nat i \<noteq> 0"
    and "walkT (tab (mem s)) r va = Some (p, i)"
    and "load64 (mem s) (p + 8 * of_nat i) = vmap (tab (mem s)) r va"
proof -
  obtain p i where pi: "walkT (tab (mem s)) r va = Some (p, i)"
    using assms(3) by (cases "walkT (tab (mem s)) r va") (auto simp: vmap_def)
  note w = walkT_tree [OF pi]
  have "p + 8 * of_nat i \<noteq> 0"
    using w assms(1) by (intro ent_nz [of "kernel_end s"]) (auto simp: vm_inv_def kmem_inv_def)
  moreover have "load64 (mem s) (p + 8 * of_nat i) = vmap (tab (mem s)) r va"
    using w pi by (simp add: vmap_def tab_def)
  moreover have "walk r va False s = Ok (p + 8 * of_nat i) s"
    using walk_lookup [OF root_aligned [OF assms(1)] assms(2), of s] pi by simp
  ultimately show thesis using that pi by blast
qed

lemma unmap_page_free:
  assumes "uvm_inv s r D ps" and "pg_aligned a" and "a < MAXVA" and "leaf (vmap (tab (mem s)) r a)"
    and "PTE2PA (vmap (tab (mem s)) r a) = d" and "d \<in> D"
  obtains t where "unmap_page r True a s = Ok () t" and "uacct r s D ps t (D - {d}) (d # ps)"
    and "keeps_pages (D - {d}) s t" and "pt_pages (tab (mem t)) r = pt_pages (tab (mem s)) r"
    and "\<And>va. va < MAXVA \<Longrightarrow> vmap (tab (mem t)) r va = (if PGROUNDDOWN va = a then 0 else vmap (tab (mem s)) r va)"
proof -
  have vi: "vm_inv s r ps" using assms(1) by (rule uvm_vm_inv)
  have v: "valid (vmap (tab (mem s)) r a)" using assms(4) by (simp add: leaf_def)
  obtain p i where w: "walk r a False s = Ok (p + 8 * of_nat i) s" "p + 8 * of_nat i \<noteq> 0"
      "walkT (tab (mem s)) r a = Some (p, i)" "load64 (mem s) (p + 8 * of_nat i) = vmap (tab (mem s)) r a"
    using walk_leaf [OF vi assms(3) v] by blast
  obtain u where u: "kfree d s = Ok () u" "uacct r s D ps u (D - {d}) (d # ps)"
      "keeps_pages (- {d}) s u" "vmap (tab (mem u)) r = vmap (tab (mem s)) r"
      "pt_pages (tab (mem u)) r = pt_pages (tab (mem s)) r"
    using kfree_data [OF assms(1,6)] by blast
  have ui: "uvm_inv u r (D - {d}) (d # ps)" using u(2) by (rule uacct_inv)
  have tabs: "tab (mem u) x = tab (mem s) x" if "x \<in> set (pt_pages (tab (mem s)) r)" for x
  proof -
    have "pg_aligned x" "x \<noteq> d" using that assms(1,6) by (auto simp: uvm_inv_def vm_inv_def page_ok_def)
    then show ?thesis using u(3) by (intro tab_cong) (auto simp: keeps_pages_def in_page_iff)
  qed
  have "walkT (tab (mem u)) r = walkT (tab (mem s)) r" using tabs by (rule pt_pages_cong(2))
  with w(3) have wu: "walkT (tab (mem u)) r a = Some (p, i)" by simp
  define t where "t = u\<lparr>mem := store64 (p + 8 * of_nat i) 0 (mem u)\<rparr>"
  note sl = set_leaf [where e = 0, OF uvm_vm_inv [OF ui] wu, folded t_def]
  note ac = acct_uacct [OF ui sl(1)]
  have "unmap_page r True a s = Ok () t"
    using w v assms(4,5) u(1)
    by (simp add: unmap_page_def run_simps get_pte_def set_pte_def upd_mem_def leaf_def t_def)
  moreover have "uacct r s D ps t (D - {d}) (d # ps)" using u(2) ac(1) by (rule uacct_trans)
  moreover have "keeps_pages (D - {d}) s t" using u(3) ac(2) by (rule keeps_pages_trans) auto
  moreover have "vmap (tab (mem t)) r va = (if PGROUNDDOWN va = a then 0 else vmap (tab (mem s)) r va)"
    if "va < MAXVA" for va
    using sl(3) [OF assms(3) that] assms(2) u(4) by simp
  moreover have "pt_pages (tab (mem t)) r = pt_pages (tab (mem s)) r" using sl(2) u(5) by simp
  ultimately show thesis using that by blast
qed

text \<open>\<open>user_leaf f D as\<close>: the pages \<open>as\<close> are mapped by \<open>f\<close>, each to a data page of its own.\<close>

definition dpages :: "(u64 \<Rightarrow> u64) \<Rightarrow> u64 list \<Rightarrow> u64 list" where
  "dpages f as = map (\<lambda>a. PTE2PA (f a)) as"

definition user_leaf :: "(u64 \<Rightarrow> u64) \<Rightarrow> u64 set \<Rightarrow> u64 list \<Rightarrow> bool" where
  "user_leaf f D as \<longleftrightarrow> distinct as \<and> distinct (dpages f as) \<and> set (dpages f as) \<subseteq> D
     \<and> (\<forall>a\<in>set as. pg_aligned a \<and> a < MAXVA \<and> leaf (f a))"

lemma dpages_simps [simp]: "dpages f [] = []" "dpages f (a # as) = PTE2PA (f a) # dpages f as"
  by (simp_all add: dpages_def)

lemma dpages_cong: "(\<And>a. a \<in> set as \<Longrightarrow> f a = g a) \<Longrightarrow> dpages f as = dpages g as"
  by (simp add: dpages_def)

lemma user_leaf_cong: "(\<And>a. a \<in> set as \<Longrightarrow> f a = g a) \<Longrightarrow> user_leaf f D as = user_leaf g D as"
  using dpages_cong [of as f g] by (auto simp: user_leaf_def)

lemma unmap_pages_free:
  assumes "uvm_inv s r D ps" and "user_leaf (vmap (tab (mem s)) r) D as"
  shows "\<exists>t. forM as (unmap_page r True) s = Ok () t
    \<and> uacct r s D ps t (D - set (dpages (vmap (tab (mem s)) r) as)) (rev (dpages (vmap (tab (mem s)) r) as) @ ps)
    \<and> keeps_pages (D - set (dpages (vmap (tab (mem s)) r) as)) s t
    \<and> pt_pages (tab (mem t)) r = pt_pages (tab (mem s)) r
    \<and> (\<forall>va<MAXVA. vmap (tab (mem t)) r va = (if PGROUNDDOWN va \<in> set as then 0 else vmap (tab (mem s)) r va))"
  using assms
proof (induction as arbitrary: s D ps)
  case Nil
  then show ?case by (auto simp: run_simps uacct_refl)
next
  case (Cons a as)
  let ?f = "vmap (tab (mem s)) r"
  let ?d = "PTE2PA (?f a)" and ?ds = "dpages ?f as"
  have a: "pg_aligned a" "a < MAXVA" "leaf (?f a)" "?d \<in> D" "a \<notin> set as"
    using Cons.prems(2) by (auto simp: user_leaf_def)
  obtain t where t: "unmap_page r True a s = Ok () t" "uacct r s D ps t (D - {?d}) (?d # ps)"
      "keeps_pages (D - {?d}) s t" "pt_pages (tab (mem t)) r = pt_pages (tab (mem s)) r"
      "\<And>va. va < MAXVA \<Longrightarrow> vmap (tab (mem t)) r va = (if PGROUNDDOWN va = a then 0 else ?f va)"
    using unmap_page_free [OF Cons.prems(1) a(1-3) refl a(4)] by blast
  have same: "vmap (tab (mem t)) r b = ?f b" if "b \<in> set as" for b
    using t(5) [of b] that a(5) Cons.prems(2) by (auto simp: user_leaf_def)
  have "user_leaf ?f (D - {?d}) as" using Cons.prems(2) by (auto simp: user_leaf_def)
  then have ul: "user_leaf (vmap (tab (mem t)) r) (D - {?d}) as" using user_leaf_cong [OF same] by simp
  have ds: "dpages (vmap (tab (mem t)) r) as = ?ds" using same by (rule dpages_cong)
  obtain u where u: "forM as (unmap_page r True) t = Ok () u"
      "uacct r t (D - {?d}) (?d # ps) u (D - {?d} - set ?ds) (rev ?ds @ ?d # ps)"
      "keeps_pages (D - {?d} - set ?ds) t u"
      "pt_pages (tab (mem u)) r = pt_pages (tab (mem t)) r"
      "\<forall>va<MAXVA. vmap (tab (mem u)) r va = (if PGROUNDDOWN va \<in> set as then 0 else vmap (tab (mem t)) r va)"
    using Cons.IH [OF uacct_inv [OF t(2)] ul] unfolding ds by blast
  have D: "D - {?d} - set ?ds = D - set (dpages ?f (a # as))" by auto
  have "uacct r s D ps u (D - set (dpages ?f (a # as))) (rev (dpages ?f (a # as)) @ ps)"
    using uacct_trans [OF t(2) u(2)] unfolding D by simp
  moreover have "keeps_pages (D - set (dpages ?f (a # as))) s u"
    using t(3) u(3) by (rule keeps_pages_trans) auto
  moreover have "forM (a # as) (unmap_page r True) s = Ok () u" using t(1) u(1) by (simp add: run_simps)
  moreover have "\<forall>va<MAXVA. vmap (tab (mem u)) r va = (if PGROUNDDOWN va \<in> set (a # as) then 0 else ?f va)"
    using t(5) u(5) by auto
  moreover have "pt_pages (tab (mem u)) r = pt_pages (tab (mem s)) r" using t(4) u(4) by simp
  ultimately show ?case by blast
qed

subsection \<open>Growing and shrinking\<close>

lemma or_lt_1024: "x < 1024 \<Longrightarrow> y < 1024 \<Longrightarrow> (x :: u64) OR y < 1024"
  using OR_upper [of "uint x" 10 "uint y"] by (simp add: word_less_def uint_or)

lemma perm_entry:
  assumes "pg_aligned d" and "perm < 1024"
  shows "valid (PA2PTE d OR perm OR PTE_V)" and "PTE2PA (PA2PTE d OR perm OR PTE_V) = d"
    and "PTE_FLAGS (PA2PTE d OR perm OR PTE_V) = perm OR PTE_V"
proof -
  have lt: "perm OR PTE_V < 1024" using assms(2) by (intro or_lt_1024) simp_all
  show "valid (PA2PTE d OR perm OR PTE_V)" by (simp add: and_one_eq mod_2_eq_odd even_or_iff)
  show "PTE2PA (PA2PTE d OR perm OR PTE_V) = d"
    using PTE2PA_PA2PTE [OF _ lt, of d] assms(1) by (simp add: pg_aligned_def or.assoc)
  show "PTE_FLAGS (PA2PTE d OR perm OR PTE_V) = perm OR PTE_V"
    using PTE_FLAGS_PA2PTE [OF lt, of d] by (simp add: or.assoc)
qed

lemma user_perm_leaf:
  assumes "pg_aligned d" and "xperm < 1024"
  shows "leaf (PA2PTE d OR (PTE_R OR PTE_U OR xperm) OR PTE_V)"
    and "PTE2PA (PA2PTE d OR (PTE_R OR PTE_U OR xperm) OR PTE_V) = d"
proof -
  have lt: "PTE_R OR PTE_U OR xperm < 1024" using assms(2) by (intro or_lt_1024) simp_all
  have "bit ((PTE_R OR PTE_U OR xperm) OR PTE_V) 1" by (simp add: bit_or_iff bit_2_iff)
  then have "(PTE_R OR PTE_U OR xperm) OR PTE_V \<noteq> PTE_V" by (metis bit_1_iff zero_neq_one)
  then show "leaf (PA2PTE d OR (PTE_R OR PTE_U OR xperm) OR PTE_V)"
    unfolding leaf_def using perm_entry [OF assms(1) lt] by simp
  show "PTE2PA (PA2PTE d OR (PTE_R OR PTE_U OR xperm) OR PTE_V) = d" using perm_entry [OF assms(1) lt] by simp
qed

lemma for_pages_seq:
  assumes "unat a + n * 4096 < 2 ^ 64"
  shows "for_pages a (a + of_nat n * PGSIZE) = map (\<lambda>i. a + of_nat i * PGSIZE) [0..<n]"
proof -
  have "(unat a + n * 4096 - unat a + 4095) div 4096 = n" by simp
  then show ?thesis by (simp only: for_pages_def unat_page_add [OF assms])
qed

lemma page_diff:
  assumes "pg_aligned lo" and "pg_aligned hi" and "lo \<le> hi"
  shows "\<exists>n. hi = lo + of_nat n * PGSIZE \<and> unat hi = unat lo + n * 4096 \<and> (hi - lo) div PGSIZE = of_nat n"
proof -
  obtain a b where a: "unat lo = 4096 * a" and b: "unat hi = 4096 * b"
    using assms(1,2) unfolding pg_aligned_unat mod_eq_0_iff_dvd by (auto elim!: dvdE)
  have ab: "a \<le> b" using assms(3) a b by (simp add: word_le_nat_alt)
  have d: "unat (hi - lo) = (b - a) * 4096" using assms(3) a b by (simp add: unat_sub diff_mult_distrib2 mult.commute)
  have lt: "(b - a) * 4096 < 2 ^ 64" using d unsigned_less [of "hi - lo", where 'a = nat] by simp
  have "hi - lo = of_nat ((b - a) * 4096)" by (metis d of_nat_unat ucast_id)
  then have "hi - lo = of_nat (b - a) * PGSIZE" by (simp only: of_nat_mult of_nat_numeral)
  then have 1: "hi = lo + of_nat (b - a) * PGSIZE" by (metis add.commute diff_add_cancel)
  have "unat ((hi - lo) div PGSIZE) = b - a" unfolding unat_div_pages d by simp
  then have 2: "(hi - lo) div PGSIZE = of_nat (b - a)" by (metis of_nat_unat ucast_id)
  have 3: "unat hi = unat lo + (b - a) * 4096" using a b ab by (simp add: diff_mult_distrib)
  show ?thesis using 1 2 3 by blast
qed

lemma int_npages: "n < 2 ^ 31 \<Longrightarrow> (scast (ucast (of_nat n :: u64) :: u32) :: u64) = of_nat n"
proof -
  assume n: "n < 2 ^ 31"
  have "(ucast (of_nat n :: u64) :: u32) = of_nat n"
    using n by (simp add: unsigned_of_nat take_bit_nat_eq_self)
  moreover have "sint (of_nat n :: u32) = int n"
    using n by (simp add: signed_of_nat signed_take_bit_int_eq_self)
  ultimately show ?thesis by (metis of_int_of_nat_eq of_int_sint)
qed

lemma uvmunmap_free:
  assumes "uvm_inv s r D ps" and "pg_aligned lo" and "pg_aligned hi" and "lo \<le> hi"
    and "user_leaf (vmap (tab (mem s)) r) D (for_pages lo hi)"
    and "n = (hi - lo) div PGSIZE"
  shows "\<exists>t. uvmunmap r lo n True s = Ok () t
    \<and> uacct r s D ps t (D - set (dpages (vmap (tab (mem s)) r) (for_pages lo hi)))
        (rev (dpages (vmap (tab (mem s)) r) (for_pages lo hi)) @ ps)
    \<and> keeps_pages (D - set (dpages (vmap (tab (mem s)) r) (for_pages lo hi))) s t
    \<and> pt_pages (tab (mem t)) r = pt_pages (tab (mem s)) r
    \<and> (\<forall>va<MAXVA. vmap (tab (mem t)) r va =
        (if PGROUNDDOWN va \<in> set (for_pages lo hi) then 0 else vmap (tab (mem s)) r va))"
proof -
  obtain k where k: "hi = lo + of_nat k * PGSIZE" "(hi - lo) div PGSIZE = of_nat k"
    using page_diff [OF assms(2-4)] by blast
  have "uvmunmap r lo n True s = forM (for_pages lo hi) (unmap_page r True) s"
    using assms(2) k by (simp add: uvmunmap_def assms(6))
  with unmap_pages_free [OF assms(1,5)] show ?thesis by simp
qed

lemma pgup_aligned [simp]:
  assumes "pg_aligned a" and "unat a \<le> 2 ^ 64 - 4096"
  shows "PGROUNDUP a = a"
proof -
  obtain q where q: "unat a = 4096 * q" using assms(1) by (auto simp: pg_aligned_unat elim!: dvdE)
  have "unat (PGROUNDUP a) = (unat a + 4095) div 4096 * 4096" using assms(2) by (rule unat_pgup)
  also have "\<dots> = unat a" unfolding q by simp
  finally show ?thesis by (simp add: word_unat_eq_iff)
qed

lemma pgup_is_aligned:
  assumes "unat a \<le> 2 ^ 64 - 4096"
  shows "pg_aligned (PGROUNDUP a)" and "a \<le> PGROUNDUP a" and "unat (PGROUNDUP a) < unat a + 4096"
  using unat_pgup [OF assms] by (auto simp: pg_aligned_unat word_le_nat_alt)

lemma pgdown_pg [simp]: "pg_aligned (PGROUNDDOWN va)"
  by (simp add: pg_aligned_unat unat_pgdown)

lemma vmap_down: "vmap T r (PGROUNDDOWN va) = vmap T r va"
  by (rule vmap_pgdown) simp

lemma uvmdealloc_free:
  assumes "uvm_inv s r D ps" and "new < old" and "unat old \<le> 2 ^ 38"
    and "user_leaf (vmap (tab (mem s)) r) D (for_pages (PGROUNDUP new) (PGROUNDUP old))"
  shows "\<exists>t. uvmdealloc r old new s = Ok new t
    \<and> uacct r s D ps t (D - set (dpages (vmap (tab (mem s)) r) (for_pages (PGROUNDUP new) (PGROUNDUP old))))
        (rev (dpages (vmap (tab (mem s)) r) (for_pages (PGROUNDUP new) (PGROUNDUP old))) @ ps)
    \<and> keeps_pages (D - set (dpages (vmap (tab (mem s)) r) (for_pages (PGROUNDUP new) (PGROUNDUP old)))) s t
    \<and> pt_pages (tab (mem t)) r = pt_pages (tab (mem s)) r
    \<and> (\<forall>va<MAXVA. vmap (tab (mem t)) r va =
        (if PGROUNDDOWN va \<in> set (for_pages (PGROUNDUP new) (PGROUNDUP old)) then 0 else vmap (tab (mem s)) r va))"
proof -
  have lt: "unat new < unat old" using assms(2) by (simp add: word_less_nat_alt)
  have ub: "unat new \<le> 2 ^ 64 - 4096" "unat old \<le> 2 ^ 64 - 4096" using lt assms(3) by simp_all
  note al = pgup_is_aligned [OF ub(1)] pgup_is_aligned [OF ub(2)]
  show ?thesis
  proof (cases "PGROUNDUP new < PGROUNDUP old")
    case True
    then have le: "PGROUNDUP new \<le> PGROUNDUP old" by simp
    obtain n where n: "unat (PGROUNDUP old) = unat (PGROUNDUP new) + n * 4096"
        "(PGROUNDUP old - PGROUNDUP new) div PGSIZE = of_nat n"
      using page_diff [OF al(1,4) le] by blast
    have "n < 2 ^ 31" using n(1) al(6) assms(3) by simp
    then have np: "(scast (ucast ((PGROUNDUP old - PGROUNDUP new) div PGSIZE) :: u32) :: u64)
        = (PGROUNDUP old - PGROUNDUP new) div PGSIZE"
      unfolding n(2) by (rule int_npages)
    obtain t where t: "uvmunmap r (PGROUNDUP new) ((PGROUNDUP old - PGROUNDUP new) div PGSIZE) True s = Ok () t"
      "uacct r s D ps t (D - set (dpages (vmap (tab (mem s)) r) (for_pages (PGROUNDUP new) (PGROUNDUP old))))
        (rev (dpages (vmap (tab (mem s)) r) (for_pages (PGROUNDUP new) (PGROUNDUP old))) @ ps)
      \<and> keeps_pages (D - set (dpages (vmap (tab (mem s)) r) (for_pages (PGROUNDUP new) (PGROUNDUP old)))) s t
      \<and> pt_pages (tab (mem t)) r = pt_pages (tab (mem s)) r
      \<and> (\<forall>va<MAXVA. vmap (tab (mem t)) r va =
        (if PGROUNDDOWN va \<in> set (for_pages (PGROUNDUP new) (PGROUNDUP old)) then 0 else vmap (tab (mem s)) r va))"
      using uvmunmap_free [OF assms(1) al(1,4) le assms(4) refl] by blast
    have "uvmdealloc r old new s = Ok new t"
      using assms(2) True t(1) by (simp add: uvmdealloc_def run_simps Let_def np not_le [symmetric] del: not_le)
    with t(2) show ?thesis by blast
  next
    case False
    then have nil: "for_pages (PGROUNDUP new) (PGROUNDUP old) = []" by (rule for_pages_Nil)
    have "uvmdealloc r old new s = Ok new s"
      using assms(2) False by (simp add: uvmdealloc_def run_simps not_le [symmetric] del: not_le)
    then show ?thesis unfolding nil using uacct_refl [OF assms(1)] by simp
  qed
qed

text \<open>
  The progress of \<open>uvmalloc\<close>: from \<open>s0\<close> to \<open>s\<close> the pages \<open>bs\<close> were mapped to the fresh zeroed data
  pages \<open>N\<close>, and nothing else was.
\<close>

definition user_pte :: "u64 \<Rightarrow> u64 \<Rightarrow> u64" where
  "user_pte xperm d = PA2PTE d OR (PTE_R OR PTE_U OR xperm) OR PTE_V"

definition ugrown :: "u64 \<Rightarrow> u64 \<Rightarrow> u64 set \<Rightarrow> 'z kmem_scheme \<Rightarrow> u64 list \<Rightarrow> u64 list \<Rightarrow> 'z kmem_scheme \<Rightarrow> u64 list \<Rightarrow> u64 set \<Rightarrow> bool" where
  "ugrown r xperm D s0 ps0 bs s ps N \<longleftrightarrow> uacct r s0 D ps0 s (D \<union> N) ps \<and> N \<inter> D = {} \<and> keeps_pages D s0 s
     \<and> user_leaf (vmap (tab (mem s)) r) N bs \<and> set (dpages (vmap (tab (mem s)) r) bs) = N
     \<and> (\<forall>a\<in>set bs. vmap (tab (mem s)) r a \<in> user_pte xperm ` N)
     \<and> (\<forall>va<MAXVA. PGROUNDDOWN va \<notin> set bs \<longrightarrow> vmap (tab (mem s)) r va = vmap (tab (mem s0)) r va)
     \<and> (\<forall>x. PGROUNDDOWN x \<in> N \<longrightarrow> mem s x = 0)"

lemma uvmalloc_rollback:
  assumes "ugrown r xperm D s0 ps0 (for_pages lo a) s ps N" and "pg_aligned lo" and "pg_aligned a"
    and "lo \<le> a" and "unat a \<le> 2 ^ 38" and "\<forall>b\<in>set (for_pages lo a). vmap (tab (mem s0)) r b = 0"
  shows "\<exists>t ps'. uvmdealloc r a lo s = Ok lo t \<and> uacct r s0 D ps0 t D ps' \<and> keeps_pages D s0 t
    \<and> same_map (vmap (tab (mem t)) r) (vmap (tab (mem s0)) r)"
proof -
  let ?f = "vmap (tab (mem s)) r"
  have g: "uacct r s0 D ps0 s (D \<union> N) ps" "N \<inter> D = {}" "keeps_pages D s0 s" "user_leaf ?f N (for_pages lo a)"
      "set (dpages ?f (for_pages lo a)) = N"
      "\<And>va. va < MAXVA \<Longrightarrow> PGROUNDDOWN va \<notin> set (for_pages lo a) \<Longrightarrow> ?f va = vmap (tab (mem s0)) r va"
    using assms(1) by (auto simp: ugrown_def)
  show ?thesis
  proof (cases "lo < a")
    case True
    have ub: "unat lo \<le> 2 ^ 64 - 4096" "unat a \<le> 2 ^ 64 - 4096"
      using True assms(5) by (simp_all add: word_less_nat_alt)
    have up: "PGROUNDUP lo = lo" "PGROUNDUP a = a" using assms(2,3) ub by simp_all
    have ul: "user_leaf ?f (D \<union> N) (for_pages (PGROUNDUP lo) (PGROUNDUP a))"
      unfolding up using g(4) by (auto simp: user_leaf_def)
    have DN: "D \<union> N - N = D" using g(2) by auto
    obtain t where t: "uvmdealloc r a lo s = Ok lo t" "uacct r s (D \<union> N) ps t D (rev (dpages ?f (for_pages lo a)) @ ps)"
        "keeps_pages D s t" 
        "\<forall>va<MAXVA. vmap (tab (mem t)) r va = (if PGROUNDDOWN va \<in> set (for_pages lo a) then 0 else ?f va)"
      using uvmdealloc_free [OF uacct_inv [OF g(1)] True assms(5) ul] unfolding up g(5) DN by blast
    have "vmap (tab (mem s0)) r va = 0" if "PGROUNDDOWN va \<in> set (for_pages lo a)" for va
      using that assms(6) by (metis vmap_down)
    then have "same_map (vmap (tab (mem t)) r) (vmap (tab (mem s0)) r)"
      using t(4) g(6) by (auto simp: same_map_def)
    with t show ?thesis using uacct_trans [OF g(1) t(2)] keeps_pages_trans [OF g(3) t(3)] by blast
  next
    case False
    then have a: "a = lo" using assms(4) by simp
    then have nil: "for_pages lo a = []" by (simp add: for_pages_Nil)
    then have "N = {}" using g(5) by simp
    moreover have "uvmdealloc r a lo s = Ok lo s" using a by (simp add: uvmdealloc_def run_simps)
    moreover have "same_map ?f (vmap (tab (mem s0)) r)" using g(6) nil by (simp add: same_map_def)
    ultimately show ?thesis using g(1,3) by auto
  qed
qed

lemma memset0_page: "x \<in> page d \<Longrightarrow> memset d 0 4096 m x = 0"
  by (simp add: memset_page mem_put_def page_def rng_def)

lemma ugrown_same:
  assumes g: "ugrown r xperm D s0 ps0 bs s ps N" and "uacct r s (D \<union> N) ps t (D \<union> N) qs"
    and kp: "keeps_pages (D \<union> N) s t" and sm: "same_map (vmap (tab (mem t)) r) (vmap (tab (mem s)) r)"
  shows "ugrown r xperm D s0 ps0 bs t qs N"
proof -
  have eq: "vmap (tab (mem t)) r b = vmap (tab (mem s)) r b" if "b \<in> set bs" for b
  proof -
    have "b < MAXVA" using g that by (simp add: ugrown_def user_leaf_def)
    with sm show ?thesis by (rule same_mapD)
  qed
  have ac: "uacct r s0 D ps0 s (D \<union> N) ps" and k0: "keeps_pages D s0 s" using g by (simp_all add: ugrown_def)
  have "uacct r s0 D ps0 t (D \<union> N) qs" using ac assms(2) by (rule uacct_trans)
  moreover have "keeps_pages D s0 t" using k0 kp by (rule keeps_pages_trans) auto
  moreover have "\<forall>x. PGROUNDDOWN x \<in> N \<longrightarrow> mem t x = 0" using g kp by (simp add: ugrown_def keeps_pages_def)
  moreover have "\<forall>va<MAXVA. PGROUNDDOWN va \<notin> set bs \<longrightarrow> vmap (tab (mem t)) r va = vmap (tab (mem s0)) r va"
    using g same_mapD [OF sm] by (simp add: ugrown_def)
  moreover have "user_leaf (vmap (tab (mem t)) r) N bs = user_leaf (vmap (tab (mem s)) r) N bs"
    by (rule user_leaf_cong) (rule eq)
  moreover have "dpages (vmap (tab (mem t)) r) bs = dpages (vmap (tab (mem s)) r) bs"
    by (rule dpages_cong) (rule eq)
  ultimately show ?thesis using g eq by (simp add: ugrown_def)
qed

lemma ugrown_snoc:
  assumes g: "ugrown r xperm D s0 ps0 bs s ps N" and ac: "uacct r s (D \<union> N) ps t (insert d (D \<union> N)) qs"
    and kp: "keeps_pages (D \<union> N) s t" and d: "d \<notin> D \<union> N" "pg_aligned d" and x: "xperm < 1024"
    and zero: "\<And>x. PGROUNDDOWN x = d \<Longrightarrow> mem t x = 0"
    and a: "pg_aligned a" "a < MAXVA" "a \<notin> set bs"
    and vt: "\<And>va. va < MAXVA \<Longrightarrow> vmap (tab (mem t)) r va =
        (if PGROUNDDOWN va = a then user_pte xperm d else vmap (tab (mem s)) r va)"
  shows "ugrown r xperm D s0 ps0 (bs @ [a]) t qs (insert d N)"
proof -
  have G: "uacct r s0 D ps0 s (D \<union> N) ps" "N \<inter> D = {}" "keeps_pages D s0 s"
      "user_leaf (vmap (tab (mem s)) r) N bs" "set (dpages (vmap (tab (mem s)) r) bs) = N"
      "\<forall>b\<in>set bs. vmap (tab (mem s)) r b \<in> user_pte xperm ` N"
      "\<forall>va<MAXVA. PGROUNDDOWN va \<notin> set bs \<longrightarrow> vmap (tab (mem s)) r va = vmap (tab (mem s0)) r va"
      "\<forall>x. PGROUNDDOWN x \<in> N \<longrightarrow> mem s x = 0"
    using g by (simp_all add: ugrown_def)
  have bs: "pg_aligned b \<and> b < MAXVA \<and> b \<noteq> a" if "b \<in> set bs" for b
    using that G(4) a(3) by (auto simp: user_leaf_def)
  have eq: "vmap (tab (mem t)) r b = vmap (tab (mem s)) r b" if "b \<in> set bs" for b
    using vt [of b] bs [OF that] by auto
  have ea: "vmap (tab (mem t)) r a = user_pte xperm d" using vt [OF a(2)] a(1) by simp
  note leaf_d = user_perm_leaf [OF d(2) x, folded user_pte_def]
  have dp: "dpages (vmap (tab (mem t)) r) (bs @ [a]) = dpages (vmap (tab (mem s)) r) bs @ [d]"
    using dpages_cong [OF eq] ea leaf_d by (simp add: dpages_def)
  have "user_leaf (vmap (tab (mem t)) r) (insert d N) (bs @ [a])"
    using G(4,5) d a eq ea leaf_d(1) unfolding user_leaf_def dp by auto
  moreover have "uacct r s0 D ps0 t (D \<union> insert d N) qs" using uacct_trans [OF G(1) ac] by simp
  moreover have "keeps_pages D s0 t" using G(3) kp by (rule keeps_pages_trans) auto
  moreover have "\<forall>x. PGROUNDDOWN x \<in> insert d N \<longrightarrow> mem t x = 0"
    using zero kp G(8) by (auto simp: keeps_pages_def)
  moreover have "\<forall>b\<in>set (bs @ [a]). vmap (tab (mem t)) r b \<in> user_pte xperm ` insert d N"
    using G(6) eq ea by auto
  moreover have "\<forall>va<MAXVA. PGROUNDDOWN va \<notin> set (bs @ [a]) \<longrightarrow> vmap (tab (mem t)) r va = vmap (tab (mem s0)) r va"
    using vt G(7) by auto
  moreover have "set (dpages (vmap (tab (mem t)) r) (bs @ [a])) = insert d N" unfolding dp using G(5) by simp
  moreover have "insert d N \<inter> D = {}" using G(2) d by auto
  ultimately show ?thesis by (simp add: ugrown_def)
qed

text \<open>A fresh zeroed data page, as \<open>uvmalloc\<close> makes it.\<close>

lemma fresh_zero_page:
  assumes "uvm_inv s r E (d # qs)"
  obtains t1 t where "kalloc s = Ok d t1" and "upd_mem (memset d 0 (unat PGSIZE)) t1 = Ok () t" and "d \<noteq> 0"
    and "uacct r s E (d # qs) t (insert d E) qs" and "keeps_pages E s t" and "d \<notin> E" and "pg_aligned d"
    and "vmap (tab (mem t)) r = vmap (tab (mem s)) r" and "\<And>x. PGROUNDDOWN x = d \<Longrightarrow> mem t x = 0"
proof -
  obtain t1 where t1: "kalloc s = Ok d t1" "uacct r s E (d # qs) t1 (insert d E) qs"
      "keeps_pages (- {d}) s t1" "vmap (tab (mem t1)) r = vmap (tab (mem s)) r" "d \<notin> E" "d \<noteq> 0"
    using kalloc_data [OF assms] by blast
  have dal: "pg_aligned d" using uacct_inv [OF t1(2)] by (auto simp: uvm_inv_def page_ok_def)
  define t where "t = t1\<lparr>mem := memset d 0 4096 (mem t1)\<rparr>"
  have w: "uacct r t1 (insert d E) qs t (insert d E) qs" "keeps_pages (- {d}) t1 t"
      "vmap (tab (mem t)) r = vmap (tab (mem t1)) r"
    using write_data [OF uacct_inv [OF t1(2)], of d "memset d 0 4096 (mem t1)"]
    unfolding t_def by (auto simp: memset_page mem_put_page_out)
  have zero: "mem t x = 0" if "PGROUNDDOWN x = d" for x
    using that dal by (simp add: t_def memset0_page in_page_iff)
  have "keeps_pages E s t" using t1(3) w(2) by (rule keeps_pages_trans) (use t1(5) in auto)
  moreover have "upd_mem (memset d 0 (unat PGSIZE)) t1 = Ok () t" by (simp add: upd_mem_def run_simps t_def)
  ultimately show thesis
    using that t1 w(3) dal zero uacct_trans [OF t1(2) w(1)] by simp
qed

text \<open>One iteration of the loop of \<open>uvmalloc\<close>: it maps one more page, or starts to roll back.\<close>

lemma uvmalloc_step:
  assumes g: "ugrown r xperm D s0 ps0 bs s ps N" and a: "pg_aligned a" "a < MAXVA" "a \<notin> set bs"
    and un: "vmap (tab (mem s0)) r a = 0" and x: "xperm < 1024"
  shows "(\<exists>t ps' N'. uvmalloc_loop (a # as) r lo new xperm s = uvmalloc_loop as r lo new xperm t
      \<and> ugrown r xperm D s0 ps0 (bs @ [a]) t ps' N')
    \<or> (\<exists>u ps'. uvmalloc_loop (a # as) r lo new xperm s = sq (uvmdealloc r a lo) (ret 0) u
      \<and> ugrown r xperm D s0 ps0 bs u ps' N)"
proof (cases ps)
  case Nil
  have "kmem_inv s []" using g Nil by (simp add: ugrown_def uacct_def uvm_inv_def vm_inv_def)
  then have "uvmalloc_loop (a # as) r lo new xperm s = sq (uvmdealloc r a lo) (ret 0) s"
    by (simp add: run_simps kalloc_empty)
  with g show ?thesis by blast
next
  case (Cons d qs)
  have ui: "uvm_inv s r (D \<union> N) (d # qs)" using g Cons by (simp add: ugrown_def uacct_def)
  obtain t1 t2 where t: "kalloc s = Ok d t1" "upd_mem (memset d 0 (unat PGSIZE)) t1 = Ok () t2" "d \<noteq> 0"
      "uacct r s (D \<union> N) (d # qs) t2 (insert d (D \<union> N)) qs" "keeps_pages (D \<union> N) s t2" "d \<notin> D \<union> N"
      "pg_aligned d" "vmap (tab (mem t2)) r = vmap (tab (mem s)) r" "\<And>x. PGROUNDDOWN x = d \<Longrightarrow> mem t2 x = 0"
    using fresh_zero_page [OF ui] by metis
  have va2: "\<not> valid (vmap (tab (mem t2)) r a)" using g a un t(8) by (simp add: ugrown_def)
  have step: "uvmalloc_loop (a # as) r lo new xperm s =
      bnd (mappages r a PGSIZE d (PTE_R OR PTE_U OR xperm)) (\<lambda>k.
        if k \<noteq> 0 then sq (kfree d) (sq (uvmdealloc r a lo) (ret 0)) else uvmalloc_loop as r lo new xperm) t2"
    using t(1-3) by (simp add: run_simps)
  have vi2: "vm_inv t2 r qs" using uacct_inv [OF t(4)] by (rule uvm_vm_inv)
  show ?thesis
  proof (cases rule: mappages_one [OF vi2 a(1,2) va2, of d "PTE_R OR PTE_U OR xperm"])
    case (1 u ps')
    note ac = acct_uacct [OF uacct_inv [OF t(4)] 1(2)]
    have "ugrown r xperm D s0 ps0 (bs @ [a]) u ps' (insert d N)"
    proof (rule ugrown_snoc [OF g _ _ t(6,7) x _ a])
      show "uacct r s (D \<union> N) ps u (insert d (D \<union> N)) ps'" using uacct_trans [OF t(4) ac(1)] Cons by simp
      show "keeps_pages (D \<union> N) s u" using t(5) ac(2) by (rule keeps_pages_trans) auto
      show "mem u x = 0" if "PGROUNDDOWN x = d" for x using ac(2) t(9) [OF that] that by (simp add: keeps_pages_def)
    qed (use 1(3) t(8) in \<open>simp add: user_pte_def\<close>)
    moreover have "uvmalloc_loop (a # as) r lo new xperm s = uvmalloc_loop as r lo new xperm u"
      unfolding step by (simp add: run_simps 1(1))
    ultimately show ?thesis by blast
  next
    case (2 u)
    note ac = acct_uacct [OF uacct_inv [OF t(4)] 2(2)]
    obtain v where v: "kfree d u = Ok () v" "uacct r u (insert d (D \<union> N)) [] v (insert d (D \<union> N) - {d}) [d]"
        "keeps_pages (- {d}) u v" "vmap (tab (mem v)) r = vmap (tab (mem u)) r"
      using kfree_data [OF uacct_inv [OF ac(1)]] by blast
    have DN: "insert d (D \<union> N) - {d} = D \<union> N" using t(6) by auto
    have "uvmalloc_loop (a # as) r lo new xperm s = sq (uvmdealloc r a lo) (ret 0) v"
      unfolding step by (simp add: run_simps 2(1) v(1))
    moreover have "ugrown r xperm D s0 ps0 bs v [d] N"
    proof (rule ugrown_same [OF g])
      show "uacct r s (D \<union> N) ps v (D \<union> N) [d]"
        using uacct_trans [OF uacct_trans [OF t(4) ac(1)] v(2)] unfolding DN Cons .
      have "keeps_pages (D \<union> N) s u" using t(5) ac(2) by (rule keeps_pages_trans) auto
      then show "keeps_pages (D \<union> N) s v" using v(3) by (rule keeps_pages_trans) (use t(6) in auto)
      show "same_map (vmap (tab (mem v)) r) (vmap (tab (mem s)) r)" using 2(3) v(4) t(8) by simp
    qed
    ultimately show ?thesis by blast
  qed
qed

lemma for_pages_split:
  assumes "for_pages lo e = bs @ a # as" and "pg_aligned lo" and "unat e \<le> 2 ^ 38"
  shows "bs = for_pages lo a" and "lo \<le> a" and "pg_aligned a" and "a < e"
proof -
  define n where "n = (unat e - unat lo + 4095) div 4096"
  have P: "map (\<lambda>i. lo + of_nat i * PGSIZE) [0..<n] = bs @ a # as"
    using assms(1) by (simp add: for_pages_def n_def)
  define k where "k = length bs"
  have kn: "k < n" using arg_cong [OF P, of length] by (simp add: k_def)
  have a: "a = lo + of_nat k * PGSIZE"
    using arg_cong [OF P, of "\<lambda>xs. xs ! k"] kn by (simp add: k_def nth_append)
  have bs: "bs = map (\<lambda>i. lo + of_nat i * PGSIZE) [0..<k]"
    using arg_cong [OF P, of "take k"] kn by (simp add: k_def take_map take_upt)
  have "k * 4096 < unat e - unat lo"
  proof -
    have "Suc k * 4096 \<le> n * 4096" using kn by simp
    also have "\<dots> \<le> unat e - unat lo + 4095" unfolding n_def by (rule div_times_less_eq_dividend)
    finally show ?thesis by simp
  qed
  then have lim: "unat lo + k * 4096 < unat e" by simp
  then have small: "unat lo + k * 4096 < 2 ^ 64" using assms(3) by simp
  have ua: "unat a = unat lo + k * 4096" unfolding a using small by (rule unat_page_add)
  show "bs = for_pages lo a" unfolding bs a using for_pages_seq [OF small] by simp
  show "lo \<le> a" using ua by (simp add: word_le_nat_alt)
  show "pg_aligned a" unfolding a using assms(2) small by (rule pg_aligned_add)
  show "a < e" using ua lim by (simp add: word_less_nat_alt)
qed

lemma uvmalloc_loop_ok:
  fixes s0 :: "'z kmem_scheme"
  assumes "ugrown r xperm D s0 ps0 bs s ps N" and "for_pages lo new = bs @ as"
    and "pg_aligned lo" and "unat new < 2 ^ 38" and "xperm < 1024"
    and "\<forall>b\<in>set (for_pages lo new). vmap (tab (mem s0)) r b = 0"
  shows "\<exists>res t. uvmalloc_loop as r lo new xperm s = Ok res t \<and>
    ((res = new \<and> (\<exists>ps' N'. ugrown r xperm D s0 ps0 (for_pages lo new) t ps' N'))
     \<or> (res = 0 \<and> (\<exists>ps'. uacct r s0 D ps0 t D ps' \<and> keeps_pages D s0 t
          \<and> same_map (vmap (tab (mem t)) r) (vmap (tab (mem s0)) r))))"
  using assms(1,2)
proof (induction as arbitrary: bs s ps N)
  case Nil
  then show ?case by (auto simp: run_simps)
next
  case (Cons a as)
  have un: "unat new \<le> 2 ^ 38" using assms(4) by simp
  note sp = for_pages_split [OF Cons.prems(2) assms(3) un]
  have lt: "a < MAXVA" using sp(4) assms(4) by (simp add: word_less_nat_alt MAXVA_eq)
  have "a \<notin> set (for_pages lo a)"
  proof
    assume "a \<in> set (for_pages lo a)"
    then obtain xs ys where "for_pages lo a = xs @ a # ys" by (meson split_list)
    moreover have "unat a \<le> 2 ^ 38" using lt by (simp add: word_less_nat_alt MAXVA_eq)
    ultimately have "a < a" using assms(3) for_pages_split(4) by blast
    then show False by simp
  qed
  then have nin: "a \<notin> set bs" using sp(1) by simp
  have z: "vmap (tab (mem s0)) r a = 0" using assms(6) Cons.prems(2) by simp
  from uvmalloc_step [OF Cons.prems(1) sp(3) lt nin z assms(5), of as lo new] show ?case
  proof (elim disjE exE conjE)
    fix t :: "'z kmem_scheme" and ps' N'
    assume "uvmalloc_loop (a # as) r lo new xperm s = uvmalloc_loop as r lo new xperm t"
      and "ugrown r xperm D s0 ps0 (bs @ [a]) t ps' N'"
    then show ?thesis using Cons.IH [of "bs @ [a]" t ps' N'] Cons.prems(2) by simp
  next
    fix u :: "'z kmem_scheme" and ps'
    assume u: "uvmalloc_loop (a # as) r lo new xperm s = sq (uvmdealloc r a lo) (ret 0) u"
      "ugrown r xperm D s0 ps0 bs u ps' N"
    have "unat a \<le> 2 ^ 38" using lt by (simp add: word_less_nat_alt MAXVA_eq)
    moreover have "\<forall>b\<in>set (for_pages lo a). vmap (tab (mem s0)) r b = 0"
      using assms(6) Cons.prems(2) sp(1) by simp
    ultimately obtain t qs where "uvmdealloc r a lo u = Ok lo t" "uacct r s0 D ps0 t D qs" "keeps_pages D s0 t"
        "same_map (vmap (tab (mem t)) r) (vmap (tab (mem s0)) r)"
      using uvmalloc_rollback [OF u(2) [unfolded sp(1)] assms(3) sp(3,2)] by blast
    then show ?thesis using u(1) by (auto simp: run_simps)
  qed
qed

text \<open>
  C11: \<open>uvmalloc\<close> is all or nothing. It returns the new size, and then every page between the old and
  the new size is mapped, readable by the user, to a fresh page of zeroes, a different one each; or
  it returns 0 and has undone its work: the map is as before and every data page is where it was, although
  empty page-table pages that it allocated may stay.
  Either way no page is lost, the existing data pages keep their contents, and no memory other than
  the tables, the data pages and the free pages is touched.
\<close>

theorem uvmalloc_all_or_nothing:
  assumes "uvm_inv s r D ps" and "old \<le> new" and "unat new < 2 ^ 38" and "xperm < 1024"
    and "\<forall>b\<in>set (for_pages (PGROUNDUP old) new). vmap (tab (mem s)) r b = 0"
  shows "\<exists>res t. uvmalloc r old new xperm s = Ok res t \<and>
    ((res = new \<and> (\<exists>ps' N. ugrown r xperm D s ps (for_pages (PGROUNDUP old) new) t ps' N))
     \<or> (res = 0 \<and> (\<exists>ps'. uacct r s D ps t D ps' \<and> keeps_pages D s t
          \<and> same_map (vmap (tab (mem t)) r) (vmap (tab (mem s)) r))))"
proof -
  have "unat old \<le> 2 ^ 64 - 4096" using assms(2,3) by (simp add: word_le_nat_alt)
  then have al: "pg_aligned (PGROUNDUP old)" by (rule pgup_is_aligned)
  have "ugrown r xperm D s ps [] s ps {}"
    using assms(1) by (simp add: ugrown_def uacct_refl user_leaf_def)
  from uvmalloc_loop_ok [OF this _ al assms(3,4,5), of "for_pages (PGROUNDUP old) new"]
  moreover have "\<not> new < old" using assms(2) by (simp only: not_less)
  ultimately show ?thesis by (simp add: uvmalloc_def)
qed

subsection \<open>A concrete machine\<close>

text \<open>Memory that is zero but for a free list through the pages \<open>ps\<close>; any other page is an empty page table.\<close>

fun chain :: "u64 list \<Rightarrow> memory" where
  "chain [] = (\<lambda>_. 0)"
| "chain (p # ps) = store64 p (case ps of [] \<Rightarrow> 0 | q # _ \<Rightarrow> q) (chain ps)"

definition chain_kmem :: "u64 list \<Rightarrow> kmem" where
  "chain_kmem ps = (zero_kmem (case ps of [] \<Rightarrow> 0 | q # _ \<Rightarrow> q))\<lparr>mem := chain ps\<rparr>"

lemma chain_out: "(\<And>p. p \<in> set ps \<Longrightarrow> x \<notin> page p) \<Longrightarrow> chain ps x = 0"
proof (induction ps)
  case (Cons p ps)
  have "x \<notin> rng p 8" using Cons.prems [of p] rng8_page by auto
  with Cons show ?case by (simp add: store64_out)
qed simp

lemma chain_flist:
  assumes "distinct ps" and "\<And>p. p \<in> set ps \<Longrightarrow> pg_aligned p \<and> p \<noteq> 0"
  shows "flist (chain ps) (case ps of [] \<Rightarrow> 0 | q # _ \<Rightarrow> q) ps"
  using assms
proof (induction ps)
  case (Cons p ps)
  have "flist (chain (p # ps)) (case ps of [] \<Rightarrow> 0 | q # _ \<Rightarrow> q) ps
      = flist (chain ps) (case ps of [] \<Rightarrow> 0 | q # _ \<Rightarrow> q) ps"
  proof (rule flist_cong)
    fix q x assume q: "q \<in> set ps" "x \<in> page q"
    then have "q \<noteq> p" "pg_aligned q" "pg_aligned p" using Cons.prems by auto
    then have "x \<notin> page p" using q pages_disjoint [of p q] by blast
    then have "x \<notin> rng p 8" using rng8_page by blast
    then show "chain (p # ps) x = chain ps x" by (simp add: store64_out)
  qed
  with Cons show ?case by simp
qed simp

lemma chain_vm_inv:
  assumes "distinct (r # ps)" and "\<forall>p\<in>set (r # ps). page_ok 0x80021d48 p"
  shows "vm_inv (chain_kmem ps) r ps" and "vmap (tab (mem (chain_kmem ps))) r va = 0"
    and "pt_pages (tab (mem (chain_kmem ps))) r = [r]"
proof -
  have al: "pg_aligned p" "p \<noteq> 0" if "p \<in> set (r # ps)" for p
    using assms(2) that by (auto simp: page_ok_def)
  have "chain ps x = 0" if "x \<in> page r" for x
  proof (rule chain_out)
    fix p assume "p \<in> set ps"
    then show "x \<notin> page p" using assms(1) al that pages_disjoint [of r p] by auto
  qed
  then have "tab (chain ps) r = tab (\<lambda>_. 0) r" by (intro tab_cong) simp
  then have T: "tab (mem (chain_kmem ps)) r = (\<lambda>_. 0)" by (simp add: chain_kmem_def tab_def fun_eq_iff)
  then show pp: "pt_pages (tab (mem (chain_kmem ps))) r = [r]" by (simp add: pt_pages_def)
  show "vmap (tab (mem (chain_kmem ps))) r va = 0" using T by (simp add: vmap_def walkT_def)
  have "mach_ok (chain_kmem ps)" "lock_free (chain_kmem ps) KmemLock"
    by (simp_all add: chain_kmem_def zero_kmem_ok)
  moreover have "flist (chain ps) (case ps of [] \<Rightarrow> 0 | q # _ \<Rightarrow> q) ps"
    using assms(1) al by (intro chain_flist) auto
  ultimately have "kmem_inv (chain_kmem ps) ps"
    using assms by (simp add: kmem_inv_def chain_kmem_def zero_kmem_def)
  moreover have "ptr_ok (tab (mem (chain_kmem ps))) r" using T by (simp add: ptr_ok_def)
  ultimately show "vm_inv (chain_kmem ps) r ps"
    using assms pp by (simp add: vm_inv_def chain_kmem_def zero_kmem_def)
qed

definition some_pages :: "u64 list" where
  "some_pages = [0x87001000, 0x87002000, 0x87003000, 0x87004000, 0x87005000]"

lemma some_pages_ok:
  "distinct (0x87000000 # some_pages)" "\<forall>p\<in>set (0x87000000 # some_pages). page_ok 0x80021d48 p"
  by (auto simp: some_pages_def page_ok_def PHYSTOP_def pg_aligned_unat)

lemmas some_vm = chain_vm_inv [OF some_pages_ok]

theorem mappages_correct_witness:
  "\<exists>res t ps'. mappages 0x87000000 0x1000 PGSIZE 0x87006000 PTE_R (chain_kmem some_pages) = Ok res t
    \<and> acct 0x87000000 (chain_kmem some_pages) some_pages t ps'
    \<and> (res = 0 \<and> same_map (vmap (tab (mem t)) 0x87000000)
         (map_range (unat (PGSIZE :: u64) div 4096) 0x1000 0x87006000 PTE_R
           (vmap (tab (mem (chain_kmem some_pages))) 0x87000000))
       \<or> res = -1 \<and> ps' = [])"
  by (rule mappages_correct [OF some_vm(1)]) (simp_all add: pg_aligned_unat some_vm(2))

theorem uvmalloc_all_or_nothing_witness:
  "\<exists>res t. uvmalloc 0x87000000 0 0x1800 PTE_W (chain_kmem some_pages) = Ok res t \<and>
    ((res = 0x1800 \<and> (\<exists>ps' N. ugrown 0x87000000 PTE_W {} (chain_kmem some_pages) some_pages
         (for_pages (PGROUNDUP 0) 0x1800) t ps' N))
     \<or> (res = 0 \<and> (\<exists>ps'. uacct 0x87000000 (chain_kmem some_pages) {} some_pages t {} ps'
          \<and> keeps_pages {} (chain_kmem some_pages) t
          \<and> same_map (vmap (tab (mem t)) 0x87000000) (vmap (tab (mem (chain_kmem some_pages))) 0x87000000))))"
proof (rule uvmalloc_all_or_nothing)
  show "uvm_inv (chain_kmem some_pages) 0x87000000 {} some_pages" using some_vm(1) by (simp add: uvm_inv_def)
qed (simp_all add: some_vm(2))

end
