(* ===== verification/Ucopy.thy ===== *)
theory Ucopy
  imports Uvm
begin

text \<open>
  \<open>copyin\<close>, \<open>copyinstr\<close> and \<open>copyout\<close> against the memory a user program sees: \<open>ubyte s r va\<close> is the
  byte at virtual address \<open>va\<close>, if the page table \<open>r\<close> maps it for the user.
\<close>

unbundle bit_operations_syntax

subsection \<open>User memory\<close>

definition upa :: "'z kmem_scheme \<Rightarrow> u64 \<Rightarrow> u64 \<Rightarrow> u64" where
  "upa s r va = (let e = vmap (tab (mem s)) r va in
     if va \<ge> MAXVA \<or> \<not> valid e \<or> e AND PTE_U = 0 then 0 else PTE2PA e)"

definition ubyte :: "'z kmem_scheme \<Rightarrow> u64 \<Rightarrow> u64 \<Rightarrow> u8 option" where
  "ubyte s r va = (if upa s r va = 0 then None else Some (mem s (upa s r va + (va - PGROUNDDOWN va))))"

text \<open>The longest readable prefix of the \<open>n\<close> bytes from \<open>va\<close> on.\<close>

definition addrs :: "u64 \<Rightarrow> nat \<Rightarrow> u64 list" where
  "addrs va n = map (\<lambda>i. va + of_nat i) [0..<n]"

definition uprefix :: "'z kmem_scheme \<Rightarrow> u64 \<Rightarrow> u64 \<Rightarrow> nat \<Rightarrow> bytes" where
  "uprefix s r va n = map (\<lambda>a. the (ubyte s r a)) (takeWhile (\<lambda>a. upa s r a \<noteq> 0) (addrs va n))"

lemma addrs_0 [simp]: "addrs va 0 = []"
  by (simp add: addrs_def)

lemma addrs_length [simp]: "length (addrs va n) = n"
  by (simp add: addrs_def)

lemma addrs_append: "addrs va (m + n) = addrs va m @ addrs (va + of_nat m) n"
proof -
  have "[m..<m + n] = map (\<lambda>i. i + m) [0..<n]" by (simp add: map_add_upt add.commute)
  then show ?thesis by (simp add: addrs_def upt_add_eq_append [of 0 m n] comp_def algebra_simps)
qed

lemma pgdown_split: "va = PGROUNDDOWN va + of_nat (unat va mod 4096)"
proof -
  have "va - PGROUNDDOWN va = of_nat (unat va mod 4096)" by (metis of_nat_unat pgoff ucast_id)
  then show ?thesis by (metis add.commute diff_add_cancel)
qed

lemma pgdown_same_page:
  assumes "k < 4096 - unat va mod 4096"
  shows "PGROUNDDOWN (va + of_nat k) = PGROUNDDOWN va"
proof -
  have "va + of_nat k = PGROUNDDOWN va + of_nat (unat va mod 4096 + k)"
    by (subst pgdown_split [of va]) (simp only: of_nat_add add.assoc)
  also have "\<dots> \<in> page (PGROUNDDOWN va)"
    unfolding page_def using assms by (intro in_rng) auto
  finally show ?thesis using in_page_iff [OF pgdown_pg] by blast
qed

lemma pgdown_lt_MAXVA: "PGROUNDDOWN va < MAXVA \<longleftrightarrow> va < MAXVA"
proof -
  have "unat va div 4096 * 4096 < 2 ^ 38 \<longleftrightarrow> unat va < 2 ^ 38"
  proof
    assume "unat va div 4096 * 4096 < 2 ^ 38"
    then have "unat va div 4096 < 2 ^ 26" by simp
    then have "unat va < 2 ^ 26 * 4096" by (simp only: div_less_iff_less_mult zero_less_numeral)
    then show "unat va < 2 ^ 38" by simp
  next
    assume "unat va < 2 ^ 38"
    moreover have "unat va div 4096 * 4096 \<le> unat va" by (rule div_times_less_eq_dividend)
    ultimately show "unat va div 4096 * 4096 < 2 ^ 38" by (rule le_less_trans [rotated])
  qed
  then show ?thesis by (simp only: word_less_nat_alt MAXVA_eq unat_pgdown) simp
qed

lemma upa_down: "upa s r (PGROUNDDOWN va) = upa s r va"
  using pgdown_lt_MAXVA [of va] unfolding upa_def vmap_down not_less [symmetric] by simp

lemma walkaddr_upa: "vm_inv s r ps \<Longrightarrow> walkaddr r va s = Ok (upa s r va) s"
  by (simp add: walkaddr_vmap upa_def)

lemma ubyte_page:
  assumes "k < 4096 - unat va mod 4096"
  shows "ubyte s r (va + of_nat k) =
    (if upa s r va = 0 then None else Some (mem s (upa s r va + (va - PGROUNDDOWN va) + of_nat k)))"
proof -
  note p = pgdown_same_page [OF assms]
  have "upa s r (va + of_nat k) = upa s r va" by (metis p upa_down)
  moreover have "upa s r va + (va + of_nat k - PGROUNDDOWN va) = upa s r va + (va - PGROUNDDOWN va) + of_nat k"
    by (simp add: algebra_simps)
  ultimately show ?thesis by (simp only: ubyte_def p)
qed

lemma uprefix_0 [simp]: "uprefix s r va 0 = []"
  by (simp add: uprefix_def)

text \<open>A property of pages splits a transfer at the page boundary, as \<open>chunk\<close> does.\<close>

lemma chunk_le: "chunk va len \<le> len"
  by (simp add: word_le_nat_alt unat_chunk)

lemma unat_rest: "unat (len - chunk va len) = unat len - unat (chunk va len)"
  using chunk_le by (simp add: unat_sub)

lemma chunk_next:
  assumes "unat (chunk va len) < unat len"
  shows "va + chunk va len = PGROUNDDOWN va + PGSIZE"
proof -
  have n: "unat (chunk va len) = 4096 - unat va mod 4096"
    using assms by (auto simp: unat_chunk min_def split: if_splits)
  then have n4: "unat va mod 4096 + unat (chunk va len) = 4096" by (simp add: less_imp_le)
  have "va + of_nat (unat (chunk va len)) = PGROUNDDOWN va + of_nat (unat va mod 4096 + unat (chunk va len))"
    by (subst pgdown_split [of va]) (simp only: of_nat_add add.assoc)
  then show ?thesis unfolding n4 by simp
qed

lemma takeWhile_chunk:
  assumes "\<And>a. P (PGROUNDDOWN a) = P a" and "len \<noteq> 0"
  shows "takeWhile P (addrs va (unat len)) =
    (if P va then addrs va (unat (chunk va len)) @ takeWhile P (addrs (PGROUNDDOWN va + PGSIZE) (unat (len - chunk va len)))
     else [])"
proof -
  define n where "n = unat (chunk va len)"
  have n: "n \<le> unat len" "n \<le> 4096 - unat va mod 4096" "0 < n"
    using assms(2) by (simp_all add: n_def unat_chunk unat_gt_0)
  have same: "P a = P va" if mem: "a \<in> set (addrs va n)" for a
  proof -
    obtain k where k: "a = va + of_nat k" "k < n" using mem by (auto simp: addrs_def)
    from k(2) n(2) have "k < 4096 - unat va mod 4096" by (rule less_le_trans)
    with k(1) have "PGROUNDDOWN a = PGROUNDDOWN va" using pgdown_same_page [of k va] by simp
    then show ?thesis using assms(1) by metis
  qed
  have split: "addrs va (unat len) = addrs va n @ addrs (va + of_nat n) (unat len - n)"
    using addrs_append [of va n "unat len - n"] n(1) by simp
  have next_: "addrs (va + of_nat n) (unat len - n) = addrs (PGROUNDDOWN va + PGSIZE) (unat len - n)"
    using chunk_next [of va len] n(1) by (cases "n = unat len") (simp_all add: n_def)
  show ?thesis
  proof (cases "P va")
    case True
    then show ?thesis unfolding split next_ unat_rest n_def [symmetric]
      using same by (simp add: takeWhile_append2)
  next
    case False
    obtain x xs where xs: "addrs va n = x # xs" using n(3) by (cases "addrs va n") (auto dest: arg_cong [of _ _ length])
    then have "\<not> P x" using same [of x] False by simp
    then show ?thesis unfolding split xs using False by simp
  qed
qed

lemma uprefix_chunk:
  assumes "len \<noteq> 0"
  shows "uprefix s r va (unat len) =
    (if upa s r va = 0 then []
     else mem_bytes (mem s) (upa s r va + (va - PGROUNDDOWN va)) (unat (chunk va len))
       @ uprefix s r (PGROUNDDOWN va + PGSIZE) (unat (len - chunk va len)))"
proof -
  have "map (\<lambda>a. the (ubyte s r a)) (addrs va (unat (chunk va len))) =
      mem_bytes (mem s) (upa s r va + (va - PGROUNDDOWN va)) (unat (chunk va len))" if "upa s r va \<noteq> 0"
    unfolding addrs_def mem_bytes_def using that by (auto simp: ubyte_page unat_chunk)
  then show ?thesis
    unfolding uprefix_def takeWhile_chunk [where P = "\<lambda>a. upa s r a \<noteq> 0", unfolded upa_down, OF refl assms]
    by simp
qed

lemma uprefix_length: "length (uprefix s r va n) \<le> n"
  using length_takeWhile_le [of _ "addrs va n"] by (simp add: uprefix_def)

subsection \<open>copyin and copyinstr\<close>

lemma copyin_acc_eq:
  assumes "vm_inv s r ps"
  shows "copyin_acc r dst va len s =
    Ok (if length (uprefix s r va (unat len)) = unat len then 0 else -1, dst @ uprefix s r va (unat len)) s"
  using assms
proof (induction r dst va len rule: copyin_acc.induct)
  case (1 r dst va len)
  show ?case
  proof (cases "len = 0")
    case True
    then show ?thesis by (subst copyin_acc.simps) (simp add: run_simps)
  next
    case False
    note w = walkaddr_upa [OF 1(2)]
    define n where "n = unat (chunk va len)"
    show ?thesis
    proof (cases "upa s r va = 0")
      case True
      then have "copyin_acc r dst va len s = Ok (-1, dst) s"
        using False by (subst copyin_acc.simps) (simp add: run_simps Let_def w upa_down)
      moreover have "unat len \<noteq> 0" using False by (simp add: unat_eq_0)
      ultimately show ?thesis using True by (simp add: uprefix_chunk [OF False])
    next
      case upa: False
      define bs where "bs = mem_bytes (mem s) (upa s r va + (va - PGROUNDDOWN va)) n"
      let ?p = "uprefix s r (PGROUNDDOWN va + PGSIZE) (unat (len - chunk va len))"
      have step: "copyin_acc r dst va len s = copyin_acc r (dst @ bs) (PGROUNDDOWN va + PGSIZE) (len - chunk va len) s"
        using False upa by (subst copyin_acc.simps) (simp add: run_simps Let_def w upa_down bs_def n_def)
      have p: "uprefix s r va (unat len) = bs @ ?p"
        using upa by (simp add: uprefix_chunk [OF False] bs_def n_def)
      have "n \<le> unat len" by (simp add: n_def unat_chunk)
      moreover have "unat (len - chunk va len) = unat len - n" by (simp add: unat_rest n_def)
      ultimately have "length ?p = unat (len - chunk va len) \<longleftrightarrow> length (bs @ ?p) = unat len"
        using uprefix_length [of s r "PGROUNDDOWN va + PGSIZE" "unat (len - chunk va len)"]
        by (auto simp: bs_def)
      then show ?thesis unfolding step p
        using 1(1) [OF False refl upa refl 1(2), of bs] by simp
    qed
  qed
qed

lemma copystr_page_eq:
  "copystr_page bs = (if 0 \<in> set bs then (takeWhile (\<lambda>b. b \<noteq> 0) bs @ [0], True) else (bs, False))"
  by (induction bs) auto

lemma copyinstr_acc_eq:
  assumes "vm_inv s r ps"
  shows "copyinstr_acc r dst va mx s =
    (let p = uprefix s r va (unat mx) in
     if 0 \<in> set p then Ok (0, dst @ takeWhile (\<lambda>b. b \<noteq> 0) p @ [0]) s else Ok (-1, dst @ p) s)"
  using assms
proof (induction r dst va mx rule: copyinstr_acc.induct)
  case (1 r dst va mx)
  show ?case
  proof (cases "mx = 0")
    case True
    then show ?thesis by (subst copyinstr_acc.simps) (simp add: run_simps)
  next
    case False
    note w = walkaddr_upa [OF 1(2)]
    show ?thesis
    proof (cases "upa s r va = 0")
      case True
      then have "copyinstr_acc r dst va mx s = Ok (-1, dst) s"
        using False by (subst copyinstr_acc.simps) (simp add: run_simps Let_def w upa_down)
      then show ?thesis using True by (simp add: uprefix_chunk [OF False])
    next
      case upa: False
      define bs where "bs = mem_bytes (mem s) (upa s r va + (va - PGROUNDDOWN va)) (unat (chunk va mx))"
      have p: "uprefix s r va (unat mx) = bs @ uprefix s r (PGROUNDDOWN va + PGSIZE) (unat (mx - chunk va mx))"
        using upa by (simp add: uprefix_chunk [OF False] bs_def)
      have step: "copyinstr_acc r dst va mx s =
          (if 0 \<in> set bs then Ok (0, dst @ takeWhile (\<lambda>b. b \<noteq> 0) bs @ [0]) s
           else copyinstr_acc r (dst @ bs) (PGROUNDDOWN va + PGSIZE) (mx - chunk va mx) s)"
        using False upa
        by (subst copyinstr_acc.simps) (simp add: run_simps Let_def w upa_down bs_def copystr_page_eq)
      show ?thesis
      proof (cases "0 \<in> set bs")
        case True
        then show ?thesis unfolding step p by (simp add: Let_def takeWhile_append1)
      next
        case no: False
        then have page: "(bs, False) = copystr_page bs" by (simp add: copystr_page_eq)
        have "copyinstr_acc r (dst @ bs) (PGROUNDDOWN va + PGSIZE) (mx - chunk va mx) s =
            (let p = uprefix s r (PGROUNDDOWN va + PGSIZE) (unat (mx - chunk va mx)) in
             if 0 \<in> set p then Ok (0, (dst @ bs) @ takeWhile (\<lambda>b. b \<noteq> 0) p @ [0]) s else Ok (-1, (dst @ bs) @ p) s)"
          using 1(1) [OF False refl upa refl page refl _ 1(2)] by simp
        moreover have "takeWhile (\<lambda>b. b \<noteq> 0) (bs @ p) = bs @ takeWhile (\<lambda>b. b \<noteq> 0) p" for p
          using no by (intro takeWhile_append2) auto
        ultimately show ?thesis unfolding step p using no by (simp add: Let_def)
      qed
    qed
  qed
qed

text \<open>
  C12: \<open>copyin\<close> returns 0 exactly when all \<open>len\<close> bytes of user memory at \<open>srcva\<close> are mapped for the
  user, and it has then copied those bytes; otherwise it returns -1 and has copied the bytes before
  the first one that is not. It changes no state.
\<close>

theorem copyin_correct:
  assumes "vm_inv s r ps"
  shows "copyin r srcva len s =
    (let bs = uprefix s r srcva (unat len) in Ok (if length bs = unat len then 0 else -1, bs) s)"
  using copyin_acc_eq [OF assms, of "[]" srcva len] by (simp add: copyin_def Let_def)

text \<open>
  C13: \<open>copyinstr\<close> returns 0 exactly when there is a 0 byte among the first \<open>max\<close> bytes of user memory
  at \<open>srcva\<close> with no unmapped byte before it, and it has then copied the string up to and including
  that byte; otherwise it returns -1.
\<close>

theorem copyinstr_correct:
  assumes "vm_inv s r ps"
  shows "copyinstr r srcva mx s =
    (let bs = uprefix s r srcva (unat mx) in
     Ok (if 0 \<in> set bs then (0, takeWhile (\<lambda>b. b \<noteq> 0) bs @ [0]) else (-1, bs)) s)"
  using copyinstr_acc_eq [OF assms, of "[]" srcva mx] by (simp add: copyinstr_def Let_def)

subsection \<open>copyout\<close>

definition writable :: "'z kmem_scheme \<Rightarrow> u64 \<Rightarrow> u64 \<Rightarrow> bool" where
  "writable s r va \<longleftrightarrow> va < MAXVA \<and> (let e = vmap (tab (mem s)) r va in
     valid e \<and> e AND PTE_U \<noteq> 0 \<and> e AND PTE_W \<noteq> 0)"

definition wlen :: "'z kmem_scheme \<Rightarrow> u64 \<Rightarrow> u64 \<Rightarrow> nat \<Rightarrow> nat" where
  "wlen s r va n = length (takeWhile (writable s r) (addrs va n))"

text \<open>\<open>uspace s r D\<close>: the user pages of \<open>r\<close> are mapped to data pages in \<open>D\<close>, no two to the same one.\<close>

definition uspace :: "'z kmem_scheme \<Rightarrow> u64 \<Rightarrow> u64 set \<Rightarrow> bool" where
  "uspace s r D \<longleftrightarrow> (\<forall>va. upa s r va \<noteq> 0 \<longrightarrow> upa s r va \<in> D)
     \<and> (\<forall>va. writable s r va \<longrightarrow> upa s r va \<noteq> 0)
     \<and> (\<forall>va va'. upa s r va = upa s r va' \<and> upa s r va \<noteq> 0 \<longrightarrow> PGROUNDDOWN va = PGROUNDDOWN va')"

lemma writable_down: "writable s r (PGROUNDDOWN va) = writable s r va"
  by (simp add: writable_def pgdown_lt_MAXVA vmap_down)

lemma writable_upa: "writable s r va \<Longrightarrow> upa s r va = PTE2PA (vmap (tab (mem s)) r va)"
  unfolding writable_def upa_def Let_def not_less [symmetric] by simp

lemma wlen_0 [simp]: "wlen s r va 0 = 0"
  by (simp add: wlen_def)

lemma wlen_le: "wlen s r va n \<le> n"
  using length_takeWhile_le [of _ "addrs va n"] by (simp add: wlen_def)

lemma wlen_chunk:
  "len \<noteq> 0 \<Longrightarrow> wlen s r va (unat len) =
    (if writable s r va then unat (chunk va len) + wlen s r (PGROUNDDOWN va + PGSIZE) (unat (len - chunk va len)) else 0)"
  by (simp add: wlen_def takeWhile_chunk [where P = "writable s r"] writable_down)

lemma wlen_bound:
  assumes "j < wlen s r va n"
  shows "unat va + j < 2 ^ 38"
proof -
  have w: "writable s r (va + of_nat i)" if "i < wlen s r va n" for i
  proof -
    have "takeWhile (writable s r) (addrs va n) ! i \<in> set (takeWhile (writable s r) (addrs va n))"
      using that by (simp add: wlen_def)
    moreover have "takeWhile (writable s r) (addrs va n) ! i = addrs va n ! i"
      using that by (simp add: wlen_def takeWhile_nth)
    moreover have "addrs va n ! i = va + of_nat i" using that wlen_le [of s r va n] by (simp add: addrs_def)
    ultimately show ?thesis using set_takeWhileD by metis
  qed
  show ?thesis using assms
  proof (induction j)
    case 0
    then show ?case using w [of 0] by (simp add: writable_def word_less_nat_alt MAXVA_eq)
  next
    case (Suc j)
    then have "unat va + j < 2 ^ 38" by simp
    then have "unat (va + of_nat (Suc j)) = unat va + Suc j"
      using unat_of_nat_64 [of "Suc j"] by (simp add: unat_word_ariths)
    moreover have "unat (va + of_nat (Suc j)) < 2 ^ 38"
      using w [OF Suc.prems] by (simp add: writable_def word_less_nat_alt MAXVA_eq)
    ultimately show ?case by simp
  qed
qed

text \<open>What one iteration writes.\<close>

lemma put_chunk:
  assumes inv: "uvm_inv s r D ps" and sp: "uspace s r D" and w: "writable s r dst"
    and n: "n \<le> 4096 - unat dst mod 4096" and len: "length bs = n"
  defines "t \<equiv> s\<lparr>mem := mem_put (upa s r dst + (dst - PGROUNDDOWN dst)) bs (mem s)\<rparr>"
  shows "uacct r s D ps t D ps" and "vmap (tab (mem t)) r = vmap (tab (mem s)) r"
    and "ubyte t r va = (if unat (va - dst) < n then Some (bs ! unat (va - dst)) else ubyte s r va)"
proof -
  let ?p = "upa s r dst" and ?o = "dst - PGROUNDDOWN dst"
  have nz: "?p \<noteq> 0" using sp w by (auto simp: uspace_def)
  then have pD: "?p \<in> D" using sp by (auto simp: uspace_def)
  then have al: "pg_aligned ?p" using inv by (auto simp: uvm_inv_def page_ok_def)
  have o: "?o = of_nat (unat dst mod 4096)" by (metis of_nat_unat pgoff ucast_id)
  have sub: "rng (?p + ?o) n \<subseteq> page ?p" unfolding o using n by (intro rng_sub_page) auto
  have out: "mem t x = mem s x" if "x \<notin> page ?p" for x
    using that sub len unfolding t_def by (simp, intro mem_put_out) auto
  note wd = write_data [OF inv pD, of "mem t"]
  have t: "s\<lparr>mem := mem t\<rparr> = t" by (simp add: t_def)
  show "uacct r s D ps t D ps" and vm: "vmap (tab (mem t)) r = vmap (tab (mem s)) r"
    using wd out unfolding t by blast+
  have up: "upa t r x = upa s r x" for x using vm by (simp add: upa_def)
  show "ubyte t r va = (if unat (va - dst) < n then Some (bs ! unat (va - dst)) else ubyte s r va)"
  proof (cases "PGROUNDDOWN va = PGROUNDDOWN dst")
    case True
    then have p: "upa s r va = ?p" by (metis upa_down)
    have "?p + (va - PGROUNDDOWN va) - (?p + ?o) = va - dst" unfolding True by simp
    then have "mem t (?p + (va - PGROUNDDOWN va)) =
        (if unat (va - dst) < n then bs ! unat (va - dst) else mem s (?p + (va - PGROUNDDOWN va)))"
      unfolding t_def by (simp add: mem_put_def len)
    then show ?thesis using nz by (simp add: ubyte_def up p)
  next
    case False
    have "\<not> unat (va - dst) < n"
    proof
      assume lt: "unat (va - dst) < n"
      obtain k where k: "va = dst + of_nat k" "k = unat (va - dst)" using add_diff_of_nat by blast
      then have "k < 4096 - unat dst mod 4096" using lt n by simp
      then show False using pgdown_same_page [of k dst] k(1) False by simp
    qed
    moreover have "ubyte t r va = ubyte s r va"
    proof (cases "upa s r va = 0")
      case False
      then have "upa s r va \<noteq> ?p" "upa s r va \<in> D"
        using sp \<open>PGROUNDDOWN va \<noteq> PGROUNDDOWN dst\<close> unfolding uspace_def by blast+
      then have al': "pg_aligned (upa s r va)" using inv by (auto simp: uvm_inv_def page_ok_def)
      have "va - PGROUNDDOWN va = of_nat (unat va mod 4096)" by (metis of_nat_unat pgoff ucast_id)
      then have "upa s r va + (va - PGROUNDDOWN va) \<in> page (upa s r va)"
        by (simp add: page_def in_rng)
      then have "upa s r va + (va - PGROUNDDOWN va) \<notin> page ?p"
        using pages_disjoint [OF al al'] \<open>upa s r va \<noteq> ?p\<close> by auto
      then show ?thesis using out False by (simp add: ubyte_def up)
    qed (simp add: ubyte_def up)
    ultimately show ?thesis by simp
  qed
qed

lemma writable_walk:
  assumes "vm_inv s r ps" and "len \<noteq> 0"
  shows "copyout r dst src len s =
    (if writable s r dst then
       copyout r (PGROUNDDOWN dst + PGSIZE) (\<lambda>k. src (unat (chunk dst len) + k)) (len - chunk dst len)
         (s\<lparr>mem := mem_put (upa s r dst + (dst - PGROUNDDOWN dst)) (map src [0..<unat (chunk dst len)]) (mem s)\<rparr>)
     else Ok (-1) s)"
proof (cases "dst < MAXVA")
  case lt: True
  then have lt': "PGROUNDDOWN dst < MAXVA" "\<not> MAXVA \<le> PGROUNDDOWN dst"
    using pgdown_lt_MAXVA by (simp_all only: not_le)
  let ?e = "vmap (tab (mem s)) r dst"
  show ?thesis
  proof (cases "valid ?e")
    case True
    then have "valid (vmap (tab (mem s)) r (PGROUNDDOWN dst))" by (simp add: vmap_down)
    from walk_leaf [OF assms(1) lt'(1) this] obtain p i where
      w: "walk r (PGROUNDDOWN dst) False s = Ok (p + 8 * of_nat i) s" "p + 8 * of_nat i \<noteq> 0"
        "load64 (mem s) (p + 8 * of_nat i) = ?e"
      by (metis vmap_down)
    have wr: "writable s r dst \<longleftrightarrow> ?e AND PTE_U \<noteq> 0 \<and> ?e AND PTE_W \<noteq> 0"
      using lt True by (simp add: writable_def Let_def)
    show ?thesis
    proof (cases "writable s r dst")
      case True
      then show ?thesis using assms(2) lt' w wr writable_upa [OF True]
        by (subst copyout.simps) (simp add: run_simps Let_def get_pte_def upd_mem_def \<open>valid ?e\<close>)
    next
      case False
      then show ?thesis using assms(2) lt' w wr
        by (subst copyout.simps) (auto simp: run_simps Let_def get_pte_def)
    qed
  next
    case False
    have al: "pg_aligned r" using assms(1) by (rule root_aligned)
    have nv: "\<not> writable s r dst" using False by (simp add: writable_def Let_def)
    show ?thesis
    proof (cases "walkT (tab (mem s)) r (PGROUNDDOWN dst)")
      case None
      then show ?thesis using assms(2) lt' nv walk_lookup [OF al lt'(1), of s]
        by (subst copyout.simps) (simp add: run_simps Let_def)
    next
      case (Some pi)
      then obtain p i where pi: "walkT (tab (mem s)) r (PGROUNDDOWN dst) = Some (p, i)" by (cases pi) auto
      then have "load64 (mem s) (p + 8 * of_nat i) = ?e"
        using walkT_tree [OF pi] vmap_down [of "tab (mem s)" r dst] by (simp add: vmap_def tab_def)
      then show ?thesis using assms(2) lt' nv False walk_lookup [OF al lt'(1), of s] pi
        by (subst copyout.simps) (simp add: run_simps Let_def get_pte_def)
    qed
  qed
next
  case False
  then have "MAXVA \<le> PGROUNDDOWN dst" using pgdown_lt_MAXVA [of dst] by (metis not_less)
  moreover have "\<not> writable s r dst" using False by (simp add: writable_def)
  ultimately show ?thesis using assms(2) by (subst copyout.simps) (simp add: run_simps Let_def)
qed

lemma glue:
  assumes "k \<noteq> 0 \<Longrightarrow> dst' = dst + of_nat n" and "k \<le> 2 ^ 38" and "n \<le> 4096"
  shows "(if unat (va - dst') < k then Some (f (n + unat (va - dst')))
      else if unat (va - dst :: u64) < n then Some (f (unat (va - dst))) else y) =
    (if unat (va - dst) < n + k then Some (f (unat (va - dst))) else y)"
proof (cases "unat (va - dst') < k")
  case True
  define j where "j = unat (va - dst')"
  have "va = dst' + of_nat j" unfolding j_def using add_diff_of_nat [of va dst'] by auto
  then have d: "va - dst = of_nat (n + j)" using assms(1) True by simp
  have "n + j < 2 ^ 64" using True assms(2,3) by (simp add: j_def)
  then have "unat (va - dst) = n + j" unfolding d by (rule unat_of_nat_64)
  then show ?thesis using True by (simp add: j_def)
next
  case False
  show ?thesis
  proof (cases "n \<le> unat (va - dst) \<and> k \<noteq> 0")
    case True
    define m where "m = unat (va - dst) - n"
    have "va = dst + of_nat (n + m)" unfolding m_def using add_diff_of_nat [of va dst] True by auto
    then have "va - dst' = of_nat m" using assms(1) True by simp
    moreover have "m < 2 ^ 64"
      unfolding m_def using unsigned_less [of "va - dst", where 'a = nat] by (simp add: less_imp_diff_less)
    ultimately have "unat (va - dst') = m" by (simp add: unat_of_nat_64)
    with False True show ?thesis by (auto simp: m_def)
  qed (use False in auto)
qed

lemma copyout_ok:
  assumes "uvm_inv s r D ps" and "uspace s r D"
  shows "\<exists>t. copyout r dst src len s = Ok (if wlen s r dst (unat len) = unat len then 0 else -1) t
    \<and> uacct r s D ps t D ps \<and> vmap (tab (mem t)) r = vmap (tab (mem s)) r
    \<and> (\<forall>va. ubyte t r va = (if unat (va - dst) < wlen s r dst (unat len)
              then Some (src (unat (va - dst))) else ubyte s r va))"
  using assms
proof (induction r dst src len arbitrary: s rule: copyout.induct)
  case (1 r dst src len)
  have vi: "vm_inv s r ps" using 1(2) by (rule uvm_vm_inv)
  show ?case
  proof (cases "len = 0")
    case True
    then show ?thesis using 1(2) by (subst copyout.simps) (simp add: run_simps uacct_refl)
  next
    case ne: False
    show ?thesis
    proof (cases "writable s r dst")
      case False
      moreover have "unat len \<noteq> 0" using ne by (simp add: unat_eq_0)
      ultimately show ?thesis
        using 1(2) by (simp add: writable_walk [OF vi ne] wlen_chunk [OF ne] uacct_refl)
    next
      case w: True
      define n where "n = unat (chunk dst len)"
      define t where "t = s\<lparr>mem := mem_put (upa s r dst + (dst - PGROUNDDOWN dst)) (map src [0..<n]) (mem s)\<rparr>"
      define dst' where "dst' = PGROUNDDOWN dst + PGSIZE"
      define len' where "len' = len - chunk dst len"
      define k where "k = wlen s r dst' (unat len')"
      have n: "n \<le> 4096 - unat dst mod 4096" "n \<le> unat len" by (simp_all add: n_def unat_chunk)
      have len: "length (map src [0..<n]) = n" by simp
      note pc = put_chunk [OF 1(2,3) w n(1) len, folded t_def]
      have up: "upa t r x = upa s r x" "writable t r x = writable s r x" for x
        unfolding upa_def writable_def pc(2) by simp_all
      have sp: "uspace t r D" using 1(3) unfolding uspace_def up .
      have wl: "wlen t r x j = wlen s r x j" for x j
      proof -
        have "writable t r = writable s r" using up(2) by (intro ext)
        then show ?thesis by (simp add: wlen_def)
      qed
      have step: "copyout r dst src len s = copyout r dst' (\<lambda>j. src (n + j)) len' t"
        using w by (simp add: writable_walk [OF vi ne] t_def n_def dst'_def len'_def)
      obtain u where u: "copyout r dst' (\<lambda>j. src (n + j)) len' t = Ok (if k = unat len' then 0 else -1) u"
          "uacct r t D ps u D ps" "vmap (tab (mem u)) r = vmap (tab (mem t)) r"
          "\<And>va. ubyte u r va = (if unat (va - dst') < k then Some (src (n + unat (va - dst'))) else ubyte t r va)"
      proof -
        have "dst < MAXVA" using w by (simp add: writable_def)
        then have 1: "\<not> MAXVA \<le> PGROUNDDOWN dst" using pgdown_lt_MAXVA [of dst] by (simp only: not_le)
        have 2: "\<not> (vmap (tab (mem s)) r dst AND 1 = 0 \<or> vmap (tab (mem s)) r dst AND 16 = 0 \<or> vmap (tab (mem s)) r dst AND 4 = 0)"
          using w by (simp add: writable_def Let_def)
        show thesis
          using that "1.IH" [OF ne refl 1 one_neq_zero 2 refl uacct_inv [OF pc(1)] sp]
          unfolding wl n_def dst'_def len'_def k_def by blast
      qed
      have kk: "wlen s r dst (unat len) = n + k"
        using w by (simp add: wlen_chunk [OF ne] n_def k_def dst'_def len'_def)
      have "ubyte u r va = (if unat (va - dst) < n + k then Some (src (unat (va - dst))) else ubyte s r va)" for va
      proof -
        have 1: "k \<noteq> 0 \<Longrightarrow> dst' = dst + of_nat n"
          using chunk_next [of dst len] wlen_le [of s r dst' "unat len'"] n(2)
          by (auto simp: k_def dst'_def len'_def n_def unat_rest)
        have 2: "k \<le> 2 ^ 38" using wlen_bound [of "k - 1" s r dst' "unat len'"] by (cases k) (auto simp: k_def)
        have 3: "n \<le> 4096" using n(1) by simp
        have tb: "ubyte t r va = (if unat (va - dst) < n then Some (src (unat (va - dst))) else ubyte s r va)"
          using pc(3) [of va] by simp
        show ?thesis unfolding u(4) [of va] tb using 1 2 3 by (rule glue)
      qed
      moreover have "n + k = unat len \<longleftrightarrow> k = unat len'" using n(2) by (auto simp: len'_def unat_rest n_def)
      ultimately show ?thesis
        using step u(1,3) pc(2) uacct_trans [OF pc(1) u(2)] unfolding kk by auto
    qed
  qed
qed

text \<open>
  C3: \<open>copyout\<close> returns 0 exactly when every page of the destination is mapped writable for the user;
  then the user sees the \<open>len\<close> bytes at \<open>dstva\<close> and every other byte of the address space as before.
  Otherwise it returns -1, and only the bytes before the first page that is not writable were
  written. The page table does not change, and no memory but the data pages of this address space does.
\<close>

theorem copyout_correct:
  assumes "uvm_inv s r D ps" and "uspace s r D"
  shows "\<exists>t. copyout r dst src len s = Ok (if wlen s r dst (unat len) = unat len then 0 else -1) t
    \<and> uacct r s D ps t D ps \<and> vmap (tab (mem t)) r = vmap (tab (mem s)) r
    \<and> (\<forall>va. ubyte t r va = (if unat (va - dst) < wlen s r dst (unat len)
              then Some (src (unat (va - dst))) else ubyte s r va))"
  by (rule copyout_ok) (rule assms)+

text \<open>
  C14: what \<open>copyout\<close> has written \<open>copyin\<close> reads back: after a successful \<open>copyout\<close> of \<open>len\<close> bytes a
  \<open>copyin\<close> of \<open>len\<close> bytes from the same address succeeds and returns exactly those bytes.
\<close>

theorem copyout_copyin:
  assumes "uvm_inv s r D ps" and "uspace s r D" and "copyout r va src len s = Ok 0 t"
  shows "copyin r va len t = Ok (0, map src [0..<unat len]) t"
proof -
  have all: "wlen s r va (unat len) = unat len"
    and ac: "uacct r s D ps t D ps" and vm: "vmap (tab (mem t)) r = vmap (tab (mem s)) r"
    and ub: "\<And>x. ubyte t r x = (if unat (x - va) < unat len then Some (src (unat (x - va))) else ubyte s r x)"
    using copyout_ok [OF assms(1,2), of va src len] assms(3) by (auto split: if_splits)
  have s: "ubyte t r (va + of_nat i) = Some (src i)" if "i < unat len" for i
    using ub [of "va + of_nat i"] that unsigned_less [of len, where 'a = nat] by (simp add: unat_of_nat_64)
  then have "map (\<lambda>a. the (ubyte t r a)) (addrs va (unat len)) = map src [0..<unat len]"
    by (auto simp: addrs_def)
  moreover have "upa t r (va + of_nat i) \<noteq> 0" if "i < unat len" for i
    using s [OF that] by (auto simp: ubyte_def)
  then have "\<forall>a\<in>set (addrs va (unat len)). upa t r a \<noteq> 0" by (auto simp: addrs_def)
  ultimately have "uprefix t r va (unat len) = map src [0..<unat len]"
    by (simp add: uprefix_def takeWhile_eq_all_conv [THEN iffD2])
  then show ?thesis
    using copyin_acc_eq [OF uvm_vm_inv [OF uacct_inv [OF ac]], of "[]" va len] by (simp add: copyin_def)
qed

subsection \<open>A concrete address space\<close>

text \<open>One user page at address 0: root, one table per level, and the data page behind a writable entry.\<close>

definition user_kmem :: kmem where
  "user_kmem = (zero_kmem 0)\<lparr>mem := store64 0x87000000 (PA2PTE 0x87001000 OR PTE_V)
     (store64 0x87001000 (PA2PTE 0x87002000 OR PTE_V)
     (store64 0x87002000 (PA2PTE 0x87003000 OR 0x17) (\<lambda>_. 0)))\<rparr>"

lemma kids_single:
  assumes "T p = (\<lambda>_. 0)(i := e)" and "valid e" and "i < 512"
  shows "kids T p = [PTE2PA e]"
proof -
  have "mset (kids T p) = add_mset (PTE2PA e) (mset (kids (\<lambda>_ _. 0) p))"
    by (rule mset_kids_insert [where i = i]) (use assms in simp_all)
  then show ?thesis by simp
qed

lemma user_tab:
  "tab (mem user_kmem) = (\<lambda>_ _. 0)(0x87002000 := (\<lambda>_. 0)(0 := PA2PTE 0x87003000 OR 0x17),
     0x87001000 := (\<lambda>_. 0)(0 := PA2PTE 0x87002000 OR PTE_V),
     0x87000000 := (\<lambda>_. 0)(0 := PA2PTE 0x87001000 OR PTE_V))"
proof -
  have "tab (\<lambda>_. 0) = (\<lambda>_ _. 0)" by (simp add: tab_def fun_eq_iff)
  moreover have "tab (store64 p v m) = (tab m)(p := (tab m p)(0 := v))" if "pg_aligned p" for p v m
    using tab_store [OF that, of 0 v m] by simp
  moreover have "pg_aligned 0x87002000" "pg_aligned 0x87001000" "pg_aligned 0x87000000"
    by (simp_all add: pg_aligned_unat)
  ultimately show ?thesis by (simp add: user_kmem_def)
qed

lemma user_pte_facts:
  "valid (PA2PTE 0x87003000 OR 0x17)" "PTE2PA (PA2PTE 0x87003000 OR 0x17) = 0x87003000"
  "(PA2PTE 0x87003000 OR 0x17) AND PTE_U \<noteq> 0" "(PA2PTE 0x87003000 OR 0x17) AND PTE_W \<noteq> 0"
  "PTE2PA (PA2PTE 0x87002000 OR 1) = 0x87002000" "PTE2PA (PA2PTE 0x87001000 OR 1) = 0x87001000"
  by (simp_all add: PA2PTE_def PTE2PA_def)

lemma user_vmap:
  "vmap (tab (mem user_kmem)) 0x87000000 va =
    (if px 2 va = 0 \<and> px 1 va = 0 \<and> px 0 va = 0 then PA2PTE 0x87003000 OR 0x17 else 0)"
  unfolding user_tab vmap_def walkT_def Let_def by (auto simp: user_pte_facts)

lemma user_pt_pages: "pt_pages (tab (mem user_kmem)) 0x87000000 = [0x87000000, 0x87001000, 0x87002000]"
proof -
  have "kids (tab (mem user_kmem)) 0x87000000 = [0x87001000]"
    by (subst kids_single [where i = 0 and e = "PA2PTE 0x87001000 OR PTE_V"]) (simp_all add: user_tab user_pte_facts)
  moreover have "kids (tab (mem user_kmem)) 0x87001000 = [0x87002000]"
    by (subst kids_single [where i = 0 and e = "PA2PTE 0x87002000 OR PTE_V"]) (simp_all add: user_tab user_pte_facts)
  ultimately show ?thesis by (simp add: pt_pages_def)
qed

lemma user_inv: "uvm_inv user_kmem 0x87000000 {0x87003000} []"
proof -
  have "kids (tab (mem user_kmem)) 0x87000000 = [0x87001000]"
    by (subst kids_single [where i = 0 and e = "PA2PTE 0x87001000 OR PTE_V"]) (simp_all add: user_tab user_pte_facts)
  then have "ptr_ok (tab (mem user_kmem)) 0x87000000"
    by (auto simp: ptr_ok_def user_tab pte_ptr_perm14)
  moreover have "kmem_inv user_kmem []"
    using zero_kmem_ok [of 0] by (simp add: user_kmem_def kmem_inv_def) (simp add: zero_kmem_def)
  moreover have "kernel_end user_kmem = 0x80021d48" by (simp add: user_kmem_def zero_kmem_def)
  ultimately show ?thesis
    by (simp add: uvm_inv_def vm_inv_def user_pt_pages page_ok_def pg_aligned_unat PHYSTOP_def)
qed

lemma user_space: "uspace user_kmem 0x87000000 {0x87003000}"
proof -
  have up: "upa user_kmem 0x87000000 va = (if va < MAXVA \<and> px 2 va = 0 \<and> px 1 va = 0 \<and> px 0 va = 0 then 0x87003000 else 0)" for va
    unfolding upa_def user_vmap Let_def not_less [symmetric] using user_pte_facts by simp
  have "PGROUNDDOWN va = PGROUNDDOWN va'"
    if "upa user_kmem 0x87000000 va = upa user_kmem 0x87000000 va'" "upa user_kmem 0x87000000 va \<noteq> 0" for va va'
    using that unfolding up by (intro PX_inject) (auto simp: px_def unat_eq_0 split: if_splits)
  moreover have "upa user_kmem 0x87000000 va \<noteq> 0" if "writable user_kmem 0x87000000 va" for va
  proof -
    have "valid (vmap (tab (mem user_kmem)) 0x87000000 va)" using that by (simp add: writable_def Let_def)
    then have "vmap (tab (mem user_kmem)) 0x87000000 va = PA2PTE 0x87003000 OR 0x17"
      by (metis and_zero_eq user_vmap zero_and_eq)
    then show ?thesis using writable_upa [OF that] user_pte_facts(2) by simp
  qed
  moreover have "upa user_kmem 0x87000000 va \<in> {0x87003000}" if "upa user_kmem 0x87000000 va \<noteq> 0" for va
    using that by (simp add: up split: if_splits)
  ultimately show ?thesis unfolding uspace_def by blast
qed

lemma user_writable: "k < 4096 \<Longrightarrow> writable user_kmem 0x87000000 (of_nat k)"
proof -
  assume k: "k < 4096"
  then have "PGROUNDDOWN (of_nat k) = PGROUNDDOWN 0" using pgdown_same_page [of k 0] by simp
  moreover have "writable user_kmem 0x87000000 0"
    unfolding writable_def user_vmap using user_pte_facts by (simp add: px_def PX_def MAXVA_def)
  ultimately show ?thesis by (metis writable_down)
qed

lemma user_wlen: "n \<le> 4096 \<Longrightarrow> wlen user_kmem 0x87000000 0 n = n"
proof -
  assume n: "n \<le> 4096"
  then have "takeWhile (writable user_kmem 0x87000000) (addrs 0 n) = addrs 0 n"
    using user_writable by (auto simp: addrs_def)
  then show ?thesis unfolding wlen_def by (simp only: addrs_length)
qed

theorem copyin_correct_witness:
  "copyin 0x87000000 0xffe 10 user_kmem =
    (let bs = uprefix user_kmem 0x87000000 0xffe (unat (10 :: u64)) in
     Ok (if length bs = unat (10 :: u64) then 0 else -1, bs) user_kmem)"
  by (rule copyin_correct [OF uvm_vm_inv [OF user_inv]])

theorem copyinstr_correct_witness:
  "copyinstr 0x87000000 0xffe 10 user_kmem =
    (let bs = uprefix user_kmem 0x87000000 0xffe (unat (10 :: u64)) in
     Ok (if 0 \<in> set bs then (0, takeWhile (\<lambda>b. b \<noteq> 0) bs @ [0]) else (-1, bs)) user_kmem)"
  by (rule copyinstr_correct [OF uvm_vm_inv [OF user_inv]])

theorem copyout_correct_witness:
  "\<exists>t. copyout 0x87000000 0 (\<lambda>k. of_nat k) 5 user_kmem = Ok 0 t
    \<and> vmap (tab (mem t)) 0x87000000 = vmap (tab (mem user_kmem)) 0x87000000
    \<and> ubyte t 0x87000000 3 = Some 3"
proof -
  from copyout_correct [OF user_inv user_space, of 0 "\<lambda>k. of_nat k" 5] user_wlen [of 5]
  obtain t where "copyout 0x87000000 0 (\<lambda>k. of_nat k) 5 user_kmem = Ok 0 t"
    "vmap (tab (mem t)) 0x87000000 = vmap (tab (mem user_kmem)) 0x87000000"
    "ubyte t 0x87000000 3 = (if unat (3 - 0 :: u64) < 5 then Some (of_nat (unat (3 - 0 :: u64))) else ubyte user_kmem 0x87000000 3)"
    by auto
  then show ?thesis by auto
qed

theorem copyout_copyin_witness:
  "\<exists>t. copyout 0x87000000 0 (\<lambda>k. of_nat k) 5 user_kmem = Ok 0 t
    \<and> copyin 0x87000000 0 5 t = Ok (0, map (\<lambda>k. of_nat k) [0..<unat (5 :: u64)]) t"
proof -
  obtain t where t: "copyout 0x87000000 0 (\<lambda>k. of_nat k) 5 user_kmem = Ok 0 t"
    using copyout_ok [OF user_inv user_space, of 0 "\<lambda>k. of_nat k" 5] user_wlen [of 5] by auto
  with copyout_copyin [OF user_inv user_space t] show ?thesis by blast
qed

end
