(* ===== verification/Proc.thy ===== *)
theory Proc
  imports Ucopy
begin

text \<open>
  \<open>kernel/proc.c\<close> without the functions that use the file system (those are in \<open>Exec\<close>), and
  \<open>kernel/sleeplock.c\<close>. The process table is an array indexed by slot; a \<open>struct proc *\<close> is a slot
  number, a null pointer is \<open>None\<close>. The saved registers of a thread that has called \<open>swtch\<close> are
  the continuation in the outcome \<open>Switched\<close>; \<open>context\<close> only records where a new thread starts.
\<close>

unbundle bit_operations_syntax

datatype procstate = UNUSED | USED | SLEEPING | RUNNABLE | RUNNING | ZOMBIE

text \<open>Wait channels: the kernel objects whose addresses are passed to \<open>sleep\<close> and \<open>wakeup\<close>.\<close>

datatype chan =
    ChanProc nat
  | ChanSleep sleepid
  | ChanLog
  | ChanNread u64
  | ChanNwrite u64
  | ChanTicks
  | ChanConsR
  | ChanUartTx
  | ChanDiskFree
  | ChanBuf nat

record ctx =
  ctx_ra :: u64
  ctx_sp :: u64
  ctx_s :: "nat \<Rightarrow> u64"

record proc =
  p_state :: procstate
  p_chan :: "chan option"
  p_killed :: bool
  p_xstate :: int
  p_pid :: int
  p_parent :: "nat option"
  p_kstack :: u64
  p_sz :: u64
  p_pagetable :: u64
  p_trapframe :: u64
  p_context :: ctx
  p_ofile :: "nat \<Rightarrow> nat option"
  p_cwd :: "nat option"
  p_name :: chars

record sleeplock =
  sl_locked :: bool
  sl_name :: string
  sl_pid :: int

record pstate = vmstate +
  proc :: "nat \<Rightarrow> proc"
  initproc :: "nat option"
  nextpid :: int
  forkret_addr :: u64
  sleeplocks :: "sleepid \<Rightarrow> sleeplock"

definition upd_proc :: "nat \<Rightarrow> (proc \<Rightarrow> proc) \<Rightarrow> (unit, 'z pstate_scheme) kern" where
  "upd_proc i f = modify (\<lambda>s. s\<lparr>proc := (proc s)(i := f (proc s i))\<rparr>)"

definition getp :: "nat \<Rightarrow> (proc \<Rightarrow> 'a) \<Rightarrow> ('a, 'z pstate_scheme) kern" where
  "getp i f = gets (\<lambda>s. f (proc s i))"

subsection \<open>Offsets of struct trapframe\<close>

definition tf_kernel_satp :: u64 where "tf_kernel_satp = 0"
definition tf_kernel_sp :: u64 where "tf_kernel_sp = 8"
definition tf_kernel_trap :: u64 where "tf_kernel_trap = 16"
definition tf_epc :: u64 where "tf_epc = 24"
definition tf_kernel_hartid :: u64 where "tf_kernel_hartid = 32"
definition tf_sp :: u64 where "tf_sp = 48"
definition tf_a :: "nat \<Rightarrow> u64" where "tf_a n = 112 + 8 * of_nat n"

text \<open>The size of \<open>struct trapframe\<close>.\<close>

definition tf_size :: nat where "tf_size = 288"

definition tf_get :: "nat \<Rightarrow> u64 \<Rightarrow> (u64, 'z pstate_scheme) kern" where
  "tf_get i off = gets (\<lambda>s. load64 (mem s) (p_trapframe (proc s i) + off))"

definition tf_set :: "nat \<Rightarrow> u64 \<Rightarrow> u64 \<Rightarrow> (unit, 'z pstate_scheme) kern" where
  "tf_set i off v = modify (\<lambda>s. s\<lparr>mem := store64 (p_trapframe (proc s i) + off) v (mem s)\<rparr>)"

subsection \<open>The table\<close>

definition procinit :: "(unit, 'z pstate_scheme) kern" where
  "procinit =
     sq (initlock PidLock ''nextpid'') (
     sq (initlock WaitLock ''wait_lock'') (
     forM [0..<NPROC] (\<lambda>i.
       sq (initlock (ProcLock i) ''proc'') (
       sq (upd_proc i (\<lambda>p. p\<lparr>p_state := UNUSED\<rparr>))
          (upd_proc i (\<lambda>p. p\<lparr>p_kstack := KSTACK i\<rparr>))))))"

definition myproc :: "(nat option, 'z pstate_scheme) kern" where
  "myproc =
     sq push_off (
     bnd mycpu (\<lambda>c.
     bnd (gets (\<lambda>s. cpu_proc (cpus s c))) (\<lambda>p.
     sq pop_off (ret p))))"

text \<open>\<open>myproc()\<close> where the result is dereferenced at once.\<close>

definition curproc :: "(nat, 'z pstate_scheme) kern" where
  "curproc = bnd myproc (\<lambda>p. case p of None \<Rightarrow> fault | Some i \<Rightarrow> ret i)"

definition allocpid :: "(int, 'z pstate_scheme) kern" where
  "allocpid =
     sq (acquire PidLock) (
     bnd (gets nextpid) (\<lambda>pid.
     sq (guardM (pid < 2147483647)) (
     sq (modify (\<lambda>s. s\<lparr>nextpid := nextpid s + 1\<rparr>)) (
     sq (release PidLock) (
     ret pid)))))"

definition proc_pagetable :: "nat \<Rightarrow> (u64, 'z pstate_scheme) kern" where
  "proc_pagetable i =
     bnd uvmcreate (\<lambda>pagetable.
     if pagetable = 0 then ret 0
     else bnd (gets trampoline) (\<lambda>tr.
     bnd (mappages pagetable TRAMPOLINE PGSIZE tr (PTE_R OR PTE_X)) (\<lambda>r.
     if r < 0 then sq (uvmfree pagetable 0) (ret 0)
     else bnd (getp i p_trapframe) (\<lambda>tf.
     bnd (mappages pagetable TRAPFRAME PGSIZE tf (PTE_R OR PTE_W)) (\<lambda>r.
     if r < 0 then sq (uvmunmap pagetable TRAMPOLINE 1 False) (sq (uvmfree pagetable 0) (ret 0))
     else ret pagetable)))))"

definition proc_freepagetable :: "u64 \<Rightarrow> u64 \<Rightarrow> (unit, 'z pstate_scheme) kern" where
  "proc_freepagetable pagetable sz =
     sq (uvmunmap pagetable TRAMPOLINE 1 False) (
     sq (uvmunmap pagetable TRAPFRAME 1 False) (
     uvmfree pagetable sz))"

definition freeproc :: "nat \<Rightarrow> (unit, 'z pstate_scheme) kern" where
  "freeproc i =
     bnd (getp i p_trapframe) (\<lambda>tf.
     sq (whenM (tf \<noteq> 0) (kfree tf)) (
     sq (upd_proc i (\<lambda>p. p\<lparr>p_trapframe := 0\<rparr>)) (
     bnd (getp i p_pagetable) (\<lambda>pt.
     bnd (getp i p_sz) (\<lambda>sz.
     sq (whenM (pt \<noteq> 0) (proc_freepagetable pt sz)) (
     upd_proc i (\<lambda>p. p\<lparr>p_pagetable := 0, p_sz := 0, p_pid := 0, p_parent := None,
       p_name := (p_name p)(0 := 0), p_chan := None, p_killed := False, p_xstate := 0,
       p_state := UNUSED\<rparr>)))))))"

text \<open>The part of \<open>allocproc\<close> after the label \<open>found\<close>.\<close>

definition allocproc_found :: "nat \<Rightarrow> (nat option, 'z pstate_scheme) kern" where
  "allocproc_found i =
     bnd allocpid (\<lambda>pid.
     sq (upd_proc i (\<lambda>p. p\<lparr>p_pid := pid, p_state := USED\<rparr>)) (
     bnd kalloc (\<lambda>tf.
     sq (upd_proc i (\<lambda>p. p\<lparr>p_trapframe := tf\<rparr>)) (
     if tf = 0 then sq (freeproc i) (sq (release (ProcLock i)) (ret None))
     else bnd (proc_pagetable i) (\<lambda>pt.
     sq (upd_proc i (\<lambda>p. p\<lparr>p_pagetable := pt\<rparr>)) (
     if pt = 0 then sq (freeproc i) (sq (release (ProcLock i)) (ret None))
     else bnd (gets forkret_addr) (\<lambda>fr.
     sq (upd_proc i (\<lambda>p. p\<lparr>p_context :=
       \<lparr>ctx_ra = fr, ctx_sp = p_kstack p + PGSIZE, ctx_s = (\<lambda>_. 0)\<rparr>\<rparr>)) (
     ret (Some i)))))))))"

fun allocproc_scan :: "nat list \<Rightarrow> (nat option, 'z pstate_scheme) kern" where
  "allocproc_scan [] = ret None"
| "allocproc_scan (i # is) =
     sq (acquire (ProcLock i)) (
     bnd (getp i p_state) (\<lambda>st.
     if st = UNUSED then allocproc_found i
     else sq (release (ProcLock i)) (allocproc_scan is)))"

definition allocproc :: "(nat option, 'z pstate_scheme) kern" where
  "allocproc = allocproc_scan [0..<NPROC]"

definition growproc :: "int \<Rightarrow> (int, 'z pstate_scheme) kern" where
  "growproc n =
     bnd curproc (\<lambda>i.
     bnd (getp i p_sz) (\<lambda>sz.
     bnd (getp i p_pagetable) (\<lambda>pt.
     if n > 0 then bnd (uvmalloc pt sz (sz + word_of_int n) PTE_W) (\<lambda>sz.
       if sz = 0 then ret (-1) else sq (upd_proc i (\<lambda>p. p\<lparr>p_sz := sz\<rparr>)) (ret 0))
     else if n < 0 then bnd (uvmdealloc pt sz (sz + word_of_int n)) (\<lambda>sz.
       sq (upd_proc i (\<lambda>p. p\<lparr>p_sz := sz\<rparr>)) (ret 0))
     else sq (upd_proc i (\<lambda>p. p\<lparr>p_sz := sz\<rparr>)) (ret 0))))"

subsection \<open>Scheduling\<close>

definition swtch :: "(unit, 'z pstate_scheme) kern" where
  "swtch = (\<lambda>s. Switched s (\<lambda>t. Ok () t))"

definition sched :: "(unit, 'z pstate_scheme) kern" where
  "sched =
     bnd curproc (\<lambda>i.
     bnd (holding (ProcLock i)) (\<lambda>h.
     if \<not> h then panic ''sched p->lock''
     else bnd mycpu (\<lambda>c.
     bnd (gets (\<lambda>s. noff (cpus s c))) (\<lambda>n.
     if n \<noteq> 1 then panic ''sched locks''
     else bnd (getp i p_state) (\<lambda>st.
     if st = RUNNING then panic ''sched running''
     else bnd intr_get (\<lambda>on.
     if on then panic ''sched interruptible''
     else bnd (gets (\<lambda>s. intena (cpus s c))) (\<lambda>ien.
     sq swtch (
     bnd mycpu (\<lambda>c. upd_cpu c (\<lambda>k. k\<lparr>intena := ien\<rparr>))))))))))"

definition yield :: "(unit, 'z pstate_scheme) kern" where
  "yield =
     bnd curproc (\<lambda>i.
     sq (acquire (ProcLock i)) (
     sq (upd_proc i (\<lambda>p. p\<lparr>p_state := RUNNABLE\<rparr>)) (
     sq sched (
     release (ProcLock i)))))"

definition sleep :: "chan option \<Rightarrow> lockid \<Rightarrow> (unit, 'z pstate_scheme) kern" where
  "sleep ch lk =
     bnd curproc (\<lambda>i.
     sq (acquire (ProcLock i)) (
     sq (release lk) (
     sq (upd_proc i (\<lambda>p. p\<lparr>p_chan := ch\<rparr>)) (
     sq (upd_proc i (\<lambda>p. p\<lparr>p_state := SLEEPING\<rparr>)) (
     sq sched (
     sq (upd_proc i (\<lambda>p. p\<lparr>p_chan := None\<rparr>)) (
     sq (release (ProcLock i)) (
     acquire lk))))))))"

text \<open>The body of the loop of \<open>wakeup\<close>.\<close>

definition wakeup_at :: "chan option \<Rightarrow> nat \<Rightarrow> (unit, 'z pstate_scheme) kern" where
  "wakeup_at ch i =
     bnd myproc (\<lambda>me.
     whenM (Some i \<noteq> me) (
       sq (acquire (ProcLock i)) (
       bnd (gets (\<lambda>s. proc s i)) (\<lambda>p.
       sq (whenM (p_state p = SLEEPING \<and> p_chan p = ch) (upd_proc i (\<lambda>p. p\<lparr>p_state := RUNNABLE\<rparr>)))
          (release (ProcLock i))))))"

definition wakeup :: "chan option \<Rightarrow> (unit, 'z pstate_scheme) kern" where
  "wakeup ch = forM [0..<NPROC] (wakeup_at ch)"

text \<open>
  One pass of the scheduler over the table; the result is whether it found a process to run. The
  instruction \<open>wfi\<close> waits for an interrupt.
\<close>

definition wfi :: "(unit, 'z pstate_scheme) kern" where
  "wfi = (\<lambda>s. Spin s (\<lambda>t. Ok () t))"

fun sched_pass :: "nat \<Rightarrow> nat list \<Rightarrow> bool \<Rightarrow> (bool, 'z pstate_scheme) kern" where
  "sched_pass c [] found = ret found"
| "sched_pass c (i # is) found =
     sq (acquire (ProcLock i)) (
     bnd (getp i p_state) (\<lambda>st.
     if st = RUNNABLE then
       sq (upd_proc i (\<lambda>p. p\<lparr>p_state := RUNNING\<rparr>)) (
       sq (upd_cpu c (\<lambda>k. k\<lparr>cpu_proc := Some i\<rparr>)) (
       sq swtch (
       sq (upd_cpu c (\<lambda>k. k\<lparr>cpu_proc := None\<rparr>)) (
       sq (release (ProcLock i)) (sched_pass c is True)))))
     else sq (release (ProcLock i)) (sched_pass c is found)))"

definition scheduler :: "(unit, 'z pstate_scheme) kern" where
  "scheduler =
     bnd mycpu (\<lambda>c.
     sq (upd_cpu c (\<lambda>k. k\<lparr>cpu_proc := None\<rparr>)) (
     again (
       sq intr_on (
       bnd (sched_pass c [0..<NPROC] False) (\<lambda>found.
       sq (whenM (\<not> found) (sq intr_on wfi)) (
       ret (Inr ())))))))"

subsection \<open>Killing and waiting\<close>

fun kill_scan :: "int \<Rightarrow> nat list \<Rightarrow> (int, 'z pstate_scheme) kern" where
  "kill_scan pid [] = ret (-1)"
| "kill_scan pid (i # is) =
     sq (acquire (ProcLock i)) (
     bnd (gets (\<lambda>s. proc s i)) (\<lambda>p.
     if p_pid p = pid then
       sq (upd_proc i (\<lambda>p. p\<lparr>p_killed := True\<rparr>)) (
       sq (whenM (p_state p = SLEEPING) (upd_proc i (\<lambda>p. p\<lparr>p_state := RUNNABLE\<rparr>))) (
       sq (release (ProcLock i)) (ret 0)))
     else sq (release (ProcLock i)) (kill_scan pid is)))"

definition kill :: "int \<Rightarrow> (int, 'z pstate_scheme) kern" where
  "kill pid = kill_scan pid [0..<NPROC]"

definition setkilled :: "nat \<Rightarrow> (unit, 'z pstate_scheme) kern" where
  "setkilled i =
     sq (acquire (ProcLock i)) (
     sq (upd_proc i (\<lambda>p. p\<lparr>p_killed := True\<rparr>))
        (release (ProcLock i)))"

definition killed :: "nat \<Rightarrow> (bool, 'z pstate_scheme) kern" where
  "killed i =
     sq (acquire (ProcLock i)) (
     bnd (getp i p_killed) (\<lambda>k.
     sq (release (ProcLock i)) (ret k)))"

definition reparent :: "nat \<Rightarrow> (unit, 'z pstate_scheme) kern" where
  "reparent p = forM [0..<NPROC] (\<lambda>pp.
     bnd (getp pp p_parent) (\<lambda>par.
     whenM (par = Some p) (
       bnd (gets initproc) (\<lambda>ip.
       sq (upd_proc pp (\<lambda>q. q\<lparr>p_parent := ip\<rparr>))
          (wakeup (map_option ChanProc ip))))))"

text \<open>
  The scan of \<open>wait\<close> over the table: \<open>Inl r\<close> when \<open>wait\<close> returns \<open>r\<close> (the locks are then released),
  \<open>Inr havekids\<close> when the scan found no exited child.
\<close>

definition xstate_chars :: "int \<Rightarrow> chars" where
  "xstate_chars x = (\<lambda>k. le_bytes 4 (word_of_int x :: u32) ! k)"

fun wait_scan :: "u64 \<Rightarrow> nat \<Rightarrow> nat list \<Rightarrow> bool \<Rightarrow> (int + bool, 'z pstate_scheme) kern" where
  "wait_scan addr p [] havekids = ret (Inr havekids)"
| "wait_scan addr p (pp # pps) havekids =
     bnd (getp pp p_parent) (\<lambda>par.
     if par = Some p then
       sq (acquire (ProcLock pp)) (
       bnd (getp pp p_state) (\<lambda>st.
       if st = ZOMBIE then
         bnd (getp pp p_pid) (\<lambda>pid.
         bnd (getp pp p_xstate) (\<lambda>xs.
         bnd (getp p p_pagetable) (\<lambda>pt.
         bnd (if addr \<noteq> 0 then copyout pt addr (xstate_chars xs) 4 else ret 0) (\<lambda>r.
         if r < 0 then sq (release (ProcLock pp)) (sq (release WaitLock) (ret (Inl (-1))))
         else sq (freeproc pp) (
           sq (release (ProcLock pp)) (
           sq (release WaitLock) (ret (Inl pid))))))))
       else sq (release (ProcLock pp)) (wait_scan addr p pps True)))
     else wait_scan addr p pps havekids)"

definition wait :: "u64 \<Rightarrow> (int, 'z pstate_scheme) kern" where
  "wait addr =
     bnd curproc (\<lambda>p.
     sq (acquire WaitLock) (
     again (
       bnd (wait_scan addr p [0..<NPROC] False) (\<lambda>r.
       case r of
         Inl v \<Rightarrow> ret (Inl v)
       | Inr havekids \<Rightarrow>
           bnd (if \<not> havekids then ret True else killed p) (\<lambda>stop.
           if stop then sq (release WaitLock) (ret (Inl (-1)))
           else sq (sleep (Some (ChanProc p)) WaitLock) (ret (Inr ())))))))"

subsection \<open>Copying to and from a user or a kernel address\<close>

text \<open>
  The destination of \<open>either_copyout\<close>: a user address, a physical address in the kernel's direct map,
  or a C object of the caller, which takes the copied characters from the caller's result.
\<close>

datatype dest = UserDst u64 | MemDst u64 | ObjDst

datatype source = UserSrc u64 | ObjSrc chars

definition either_copyout :: "dest \<Rightarrow> chars \<Rightarrow> u64 \<Rightarrow> (int, 'z pstate_scheme) kern" where
  "either_copyout d src len =
     bnd myproc (\<lambda>me.
     case d of
       UserDst va \<Rightarrow> (case me of None \<Rightarrow> fault
         | Some i \<Rightarrow> bnd (getp i p_pagetable) (\<lambda>pt. copyout pt va src len))
     | MemDst a \<Rightarrow> sq (upd_mem (mem_put a (map src [0..<unat len]))) (ret 0)
     | ObjDst \<Rightarrow> ret 0)"

definition either_copyin :: "source \<Rightarrow> u64 \<Rightarrow> (int \<times> bytes, 'z pstate_scheme) kern" where
  "either_copyin d len =
     bnd myproc (\<lambda>me.
     case d of
       UserSrc va \<Rightarrow> (case me of None \<Rightarrow> fault
         | Some i \<Rightarrow> bnd (getp i p_pagetable) (\<lambda>pt. copyin pt va len))
     | ObjSrc src \<Rightarrow> ret (0, map src [0..<unat len]))"

subsection \<open>Sleep locks\<close>

definition upd_sleeplock :: "sleepid \<Rightarrow> (sleeplock \<Rightarrow> sleeplock) \<Rightarrow> (unit, 'z pstate_scheme) kern" where
  "upd_sleeplock l f = modify (\<lambda>s. s\<lparr>sleeplocks := (sleeplocks s)(l := f (sleeplocks s l))\<rparr>)"

definition initsleeplock :: "sleepid \<Rightarrow> string \<Rightarrow> (unit, 'z pstate_scheme) kern" where
  "initsleeplock l nm =
     sq (initlock (SleepSpin l) ''sleep lock'')
        (upd_sleeplock l (\<lambda>_. \<lparr>sl_locked = False, sl_name = nm, sl_pid = 0\<rparr>))"

definition acquiresleep :: "sleepid \<Rightarrow> (unit, 'z pstate_scheme) kern" where
  "acquiresleep l =
     sq (acquire (SleepSpin l)) (
     sq (again (
       bnd (gets (\<lambda>s. sl_locked (sleeplocks s l))) (\<lambda>b.
       if b then sq (sleep (Some (ChanSleep l)) (SleepSpin l)) (ret (Inr ()))
       else ret (Inl ())))) (
     sq (upd_sleeplock l (\<lambda>k. k\<lparr>sl_locked := True\<rparr>)) (
     bnd curproc (\<lambda>i.
     bnd (getp i p_pid) (\<lambda>pid.
     sq (upd_sleeplock l (\<lambda>k. k\<lparr>sl_pid := pid\<rparr>))
        (release (SleepSpin l)))))))"

definition releasesleep :: "sleepid \<Rightarrow> (unit, 'z pstate_scheme) kern" where
  "releasesleep l =
     sq (acquire (SleepSpin l)) (
     sq (upd_sleeplock l (\<lambda>k. k\<lparr>sl_locked := False\<rparr>)) (
     sq (upd_sleeplock l (\<lambda>k. k\<lparr>sl_pid := 0\<rparr>)) (
     sq (wakeup (Some (ChanSleep l))) (
     release (SleepSpin l)))))"

definition holdingsleep :: "sleepid \<Rightarrow> (bool, 'z pstate_scheme) kern" where
  "holdingsleep l =
     sq (acquire (SleepSpin l)) (
     bnd (gets (\<lambda>s. sleeplocks s l)) (\<lambda>k.
     bnd (if sl_locked k then bnd curproc (\<lambda>i. bnd (getp i p_pid) (\<lambda>pid. ret (sl_pid k = pid))) else ret False) (\<lambda>r.
     sq (release (SleepSpin l)) (ret r))))"

lemmas proc_ops =
  upd_proc_def getp_def tf_get_def tf_set_def upd_sleeplock_def

subsection \<open>Frame lemmas\<close>

lemma pstate_acq [simp]:
  "proc (acq l s) = proc s" "nextpid (acq l s) = nextpid s" "initproc (acq l s) = initproc s"
  "forkret_addr (acq l s) = forkret_addr s" "sleeplocks (acq l s) = sleeplocks s"
  by (simp_all add: acq_def)

lemma pstate_upd_acq [simp]:
  "proc_update f (acq l s) = acq l (proc_update f s)"
  "nextpid_update g (acq l s) = acq l (nextpid_update g s)"
  "sleeplocks_update h (acq l s) = acq l (sleeplocks_update h s)"
  by (simp_all add: acq_def)

lemma pstate_upd_mach [simp]:
  "mach_ok (proc_update f s) = mach_ok s" "lock_free (proc_update f s) l = lock_free s l"
  "mach_ok (nextpid_update g s) = mach_ok s" "lock_free (nextpid_update g s) l = lock_free s l"
  "mach_ok (sleeplocks_update h s) = mach_ok s" "lock_free (sleeplocks_update h s) l = lock_free s l"
  by (simp_all add: mach_ok_def lock_free_def ie_def)

definition proc_free :: "('z pstate_scheme \<Rightarrow> bool) \<Rightarrow> bool" where
  "proc_free F \<longleftrightarrow> mach_free F \<and> (\<forall>s f. F s \<longrightarrow> F (proc_update f s))"

lemma proc_freeD:
  "proc_free F \<Longrightarrow> mach_free F"
  "proc_free F \<Longrightarrow> F s \<Longrightarrow> F (proc_update f s)"
  by (auto simp: proc_free_def)

lemma keeps_getp [keeps_intros]: "keeps F (getp i f)"
  by (simp add: getp_def keeps_gets)

lemma keeps_upd_proc [keeps_intros]: "proc_free F \<Longrightarrow> keeps F (upd_proc i f)"
  by (auto simp: upd_proc_def proc_free_def intro!: keeps_modify)

lemma keeps_swtch [keeps_intros]: "keeps F swtch"
  by (simp add: swtch_def spec_def)

lemma keeps_myproc [keeps_intros]:
  assumes "mach_free F"
  shows "keeps F myproc" "keeps F curproc"
  unfolding curproc_def myproc_def by (intro keeps_intros assms)+

lemma keeps_sleep [keeps_intros]:
  assumes "proc_free F"
  shows "keeps F sched" "keeps F yield" "keeps F (sleep ch lk)" "keeps F (wakeup ch)" "keeps F (killed i)"
    "keeps F (setkilled i)" "keeps F (reparent i)"
  unfolding yield_def sleep_def sched_def wakeup_def wakeup_at_def killed_def setkilled_def reparent_def
  by (intro keeps_intros proc_freeD [OF assms] assms)+

text \<open>The process running on this CPU.\<close>

definition running :: "'z mach_scheme \<Rightarrow> nat option" where
  "running s = cpu_proc (cpus s (tp s))"

lemma running_simps [simp]:
  "running (acq l s) = running s" "running (proc_update f s) = running s"
  "running (sleeplocks_update h s) = running s" "running (nextpid_update g s) = running s"
  by (simp_all add: running_def)

lemma myproc_run [run_simps]:
  assumes "mach_ok s"
  shows "myproc s = Ok (running s) s"
  using push_off_pushed [OF assms, of 0] pop_off_pushed [OF assms, of 0]
  by (simp add: myproc_def run_simps mycpu_def cpuid_def pushed_def running_def)

lemma curproc_run [run_simps]: "mach_ok s \<Longrightarrow> running s = Some i \<Longrightarrow> curproc s = Ok i s"
  by (simp add: curproc_def run_simps)

subsection \<open>Wakeup, kill\<close>

text \<open>What \<open>wakeup(ch)\<close>, called by \<open>me\<close>, does to the processes in slots \<open>A\<close>.\<close>

definition woken :: "chan option \<Rightarrow> nat option \<Rightarrow> nat set \<Rightarrow> (nat \<Rightarrow> proc) \<Rightarrow> nat \<Rightarrow> proc" where
  "woken ch me A ps = (\<lambda>i. if i \<in> A \<and> Some i \<noteq> me \<and> p_state (ps i) = SLEEPING \<and> p_chan (ps i) = ch
     then (ps i)\<lparr>p_state := RUNNABLE\<rparr> else ps i)"

lemma woken_empty [simp]: "woken ch me {} ps = ps"
  by (simp add: woken_def)

lemma woken_insert:
  "woken ch me A (woken ch me {i} ps) = woken ch me (insert i A) ps"
  by (auto simp: woken_def fun_eq_iff)

lemma wakeup_one:
  assumes "mach_ok s" and "lock_free s (ProcLock i)"
  shows "wakeup_at ch i s = Ok () (s\<lparr>proc := woken ch (running s) {i} (proc s)\<rparr>)"
proof -
  have "woken ch (running s) {i} (proc s) = (if Some i \<noteq> running s \<and> p_state (proc s i) = SLEEPING \<and> p_chan (proc s i) = ch
      then (proc s)(i := (proc s i)\<lparr>p_state := RUNNABLE\<rparr>) else proc s)"
    by (auto simp: woken_def fun_eq_iff)
  then show ?thesis using assms by (auto simp: wakeup_at_def run_simps proc_ops)
qed

lemma wakeup_run:
  assumes "mach_ok s" and "\<And>i. i < NPROC \<Longrightarrow> lock_free s (ProcLock i)"
  shows "wakeup ch s = Ok () (s\<lparr>proc := woken ch (running s) {..<NPROC} (proc s)\<rparr>)"
proof -
  have "forM is (wakeup_at ch) s = Ok () (s\<lparr>proc := woken ch (running s) (set is) (proc s)\<rparr>)"
    if "mach_ok s" "set is \<subseteq> {..<NPROC}" "\<And>i. i < NPROC \<Longrightarrow> lock_free s (ProcLock i)" for "is" and s :: "'a pstate_scheme"
    using that
  proof (induction "is" arbitrary: s)
    case Nil
    then show ?case by (simp add: run_simps)
  next
    case (Cons i "is")
    have "lock_free s (ProcLock i)" using Cons.prems by simp
    note one = wakeup_one [OF Cons.prems(1) this, of ch]
    show ?case unfolding forM.simps
      by (rule sq_OkI [where m = "wakeup_at ch i", OF one]) (use Cons in \<open>simp add: woken_insert\<close>)
  qed
  from this [OF assms(1) _ assms(2), of "[0..<NPROC]"] show ?thesis
    unfolding wakeup_def by (simp add: atLeast0LessThan)
qed

lemma kill_scan_run:
  assumes "mach_ok s" and "\<And>i. i \<in> set is \<Longrightarrow> lock_free s (ProcLock i)"
  shows "kill_scan pid is s = (case find (\<lambda>i. p_pid (proc s i) = pid) is of
      None \<Rightarrow> Ok (-1) s
    | Some i \<Rightarrow> Ok 0 (s\<lparr>proc := (proc s)(i := (proc s i)\<lparr>p_killed := True,
        p_state := (if p_state (proc s i) = SLEEPING then RUNNABLE else p_state (proc s i))\<rparr>)\<rparr>))"
  using assms
proof (induction "is")
  case (Cons i "is")
  then have "lock_free s (ProcLock i)" by simp
  with Cons show ?case by (auto simp: run_simps proc_ops)
qed (simp add: run_simps)

end
