(* ===== verification/Sched.thy ===== *)
theory Sched
  imports Proc
begin

text \<open>
  Scheduling: how a process gives up the CPU in \<open>sched\<close>, \<open>sleep\<close> and \<open>yield\<close>, what the scheduler
  needs of it, why no wakeup is lost, and sleep locks.
\<close>

unbundle bit_operations_syntax

subsection \<open>Giving up the CPU\<close>

definition set_intena :: "bool \<Rightarrow> 'z mach_scheme \<Rightarrow> 'z mach_scheme" where
  "set_intena b s = s\<lparr>cpus := (cpus s)(tp s := (cpus s (tp s))\<lparr>intena := b\<rparr>)\<rparr>"

lemma swtch_run [run_simps]: "swtch s = Switched s (Ok ())"
  by (simp add: swtch_def)

lemma sched_run:
  assumes "mach_ok s" and "running s = Some i" and "lk_holding (locks s (ProcLock i)) (tp s)"
    and "noff (cpus s (tp s)) = 1" and "p_state (proc s i) \<noteq> RUNNING"
  shows "sched s = Switched s (\<lambda>u. Ok () (set_intena (intena (cpus s (tp s))) u))"
proof -
  have "\<not> ie s" using assms by (simp add: mach_ok_def)
  with assms show ?thesis
    by (simp add: sched_def run_simps proc_ops holding_def mycpu_def cpuid_def intr_get_def r_sstatus_def
        ie_def upd_cpu_def set_intena_def)
qed

text \<open>\<open>set_ie b s\<close>: the state \<open>s\<close> outside every critical section, with interrupts enabled or not.\<close>

definition set_ie :: "bool \<Rightarrow> 'z mach_scheme \<Rightarrow> 'z mach_scheme" where
  "set_ie b s = (set_intena b s)\<lparr>sstatus := (sstatus s)(tp s :=
     if b then sstatus s (tp s) OR SSTATUS_SIE else sstatus s (tp s) AND NOT SSTATUS_SIE)\<rparr>"

lemma sie_neq_0 [simp]: "SSTATUS_SIE \<noteq> 0"
  by (simp add: SSTATUS_SIE_def)

lemma set_ie_simps [simp]:
  "tp (set_ie b s) = tp s" "locks (set_ie b s) = locks s" "ie (set_ie b s) = b"
  "noff (cpus (set_ie b s) (tp s)) = noff (cpus s (tp s))"
  "lock_free (set_ie b s) l = lock_free s l"
  by (simp_all add: set_ie_def set_intena_def ie_def lock_free_def)

lemma mach_ok_set_ie: "noff (cpus s (tp s)) = 0 \<Longrightarrow> mach_ok (set_ie b s)"
  by (simp add: mach_ok_def) (simp add: set_ie_def set_intena_def)

lemma proc_set_ie [simp]: "proc (set_ie b s) = proc s"
  by (simp add: set_ie_def set_intena_def)

lemma set_intena_acq: "set_intena b (acq l s) = acq l (set_intena b s)"
  by (auto simp: set_intena_def acq_def intro!: mach.equality cpu.equality
      arg_cong [where f = "fun_upd (cpus s) (tp s)"])

lemma pstate_set_intena [simp]:
  "proc (set_intena b s) = proc s" "tp (set_intena b s) = tp s" "locks (set_intena b s) = locks s"
  "proc_update f (set_intena b s) = set_intena b (proc_update f s)"
  "proc_update f (set_ie b s) = set_ie b (proc_update f s)"
  by (simp_all add: set_intena_def set_ie_def)

text \<open>Releasing the last lock restores the interrupt state that \<open>intena\<close> records.\<close>

lemma release_last:
  assumes "noff (cpus s (tp s)) = 0" and "lock_free s l"
  shows "release l (acq l (set_intena b s)) = Ok () (set_ie b s)"
proof -
  have "locks s = (locks s)(l := (locks s l)\<lparr>lk_locked := 0, lk_cpu := None\<rparr>)"
    using assms(2) by (simp add: lock_free_def fun_eq_iff)
  with assms show ?thesis
    by (auto simp: spinlock_ops run_simps lk_holding_def lock_free_def acq_def set_intena_def set_ie_def
        sie_bit bit_simps split: if_splits intro!: mach.equality bit_word_eqI)
qed

text \<open>The state in which \<open>sleep\<close> called by process \<open>i\<close> gives up the CPU.\<close>

definition asleep :: "nat \<Rightarrow> chan option \<Rightarrow> 'z pstate_scheme \<Rightarrow> 'z pstate_scheme" where
  "asleep i ch s = s\<lparr>proc := (proc s)(i := (proc s i)\<lparr>p_chan := ch, p_state := SLEEPING\<rparr>)\<rparr>"

lemma asleep_simps [simp]:
  "mach_ok (asleep i ch s) = mach_ok s" "lock_free (asleep i ch s) l = lock_free s l"
  "running (asleep i ch s) = running s" "tp (asleep i ch s) = tp s" "cpus (asleep i ch s) = cpus s"
  "locks (asleep i ch s) = locks s"
  by (simp_all add: asleep_def)

lemma sleep_run:
  assumes "mach_ok s" and "running s = Some i" and "noff (cpus s (tp s)) = 0"
    and "lock_free s lk" and "lock_free s (ProcLock i)" and "lk \<noteq> ProcLock i"
  shows "\<exists>k. sleep ch lk (acq lk s) = Switched (acq (ProcLock i) (asleep i ch s)) k \<and>
    (\<forall>u. noff (cpus u (tp u)) = 0 \<longrightarrow> lock_free u (ProcLock i) \<longrightarrow> lock_free u lk \<longrightarrow>
      k (acq (ProcLock i) u) = Ok () (acq lk (set_ie (intena (cpus s (tp s)))
        (u\<lparr>proc := (proc u)(i := (proc u i)\<lparr>p_chan := None\<rparr>)\<rparr>))))"
proof (rule exI, rule conjI)
  let ?t = "acq (ProcLock i) (asleep i ch s)"
  let ?k = "\<lambda>u. andthen (Ok () (set_intena (intena (cpus s (tp s))) u)) (\<lambda>_.
     sq (upd_proc i (\<lambda>p. p\<lparr>p_chan := None\<rparr>)) (sq (release (ProcLock i)) (acquire lk)))"
  have sched: "sched ?t = Switched ?t (\<lambda>u. Ok () (set_intena (intena (cpus s (tp s))) u))"
    using sched_run [of ?t i] assms by (simp add: asleep_def lk_holding_def)
  have "release lk (acq (ProcLock i) (acq lk s)) = Ok () (acq (ProcLock i) s)"
    using assms release_acq [of "acq (ProcLock i) s" lk] by (simp add: acq_commute [of lk])
  moreover have "s\<lparr>proc := ((proc s)(i := (proc s i)\<lparr>p_chan := ch\<rparr>))(i := (proc s i)\<lparr>p_chan := ch, p_state := SLEEPING\<rparr>)\<rparr>
      = asleep i ch s"
    by (simp add: asleep_def)
  ultimately show "sleep ch lk (acq lk s) = Switched ?t ?k"
    using assms sched by (simp add: sleep_def run_simps proc_ops)
  show "\<forall>u. noff (cpus u (tp u)) = 0 \<longrightarrow> lock_free u (ProcLock i) \<longrightarrow> lock_free u lk \<longrightarrow>
      ?k (acq (ProcLock i) u) = Ok () (acq lk (set_ie (intena (cpus s (tp s)))
        (u\<lparr>proc := (proc u)(i := (proc u i)\<lparr>p_chan := None\<rparr>)\<rparr>)))"
    by (auto simp: set_intena_acq run_simps proc_ops release_last mach_ok_set_ie)
qed

subsection \<open>Locks held by a CPU\<close>

definition held :: "'z mach_scheme \<Rightarrow> lockid set" where
  "held s = {l. lk_holding (locks s l) (tp s)}"

text \<open>
  \<open>on c p n H s\<close>: CPU \<open>c\<close> runs process \<open>p\<close> at interrupt nesting depth \<open>n\<close> and holds exactly the locks
  \<open>H\<close>.
\<close>

definition on :: "nat \<Rightarrow> nat option \<Rightarrow> int \<Rightarrow> lockid set \<Rightarrow> 'z mach_scheme \<Rightarrow> bool" where
  "on c p n H s \<longleftrightarrow> tp s = c \<and> running s = p \<and> noff (cpus s c) = n \<and> held s = H \<and> 0 \<le> n \<and> (0 < n \<longrightarrow> \<not> ie s)"

text \<open>What other CPUs leave alone of this one.\<close>

definition cpu_stable :: "'z mach_scheme \<Rightarrow> 'z mach_scheme \<Rightarrow> bool" where
  "cpu_stable t u \<longleftrightarrow> tp u = tp t \<and> cpus u (tp t) = cpus t (tp t) \<and> sstatus u (tp t) = sstatus t (tp t) \<and> held u = held t"

lemma on_stable: "on c p n H t \<Longrightarrow> cpu_stable t u \<Longrightarrow> on c p n H u"
  by (auto simp: on_def cpu_stable_def running_def ie_def)

lemma push_off_on:
  "on c p n H s \<Longrightarrow> \<exists>t. push_off s = Ok () t \<and> on c p (n + 1) H t"
  by (auto simp: spinlock_ops run_simps on_def held_def running_def ie_def)

lemma spin_swap_on:
  assumes "\<And>t u. R Busy t u \<Longrightarrow> cpu_stable t u" and "\<And>t. on c p n H t \<Longrightarrow> G Busy t"
    and "on c p n H s" and "l \<notin> H"
  shows "meets R G E (\<lambda>_ t. tp t = c \<and> running t = p \<and> noff (cpus t c) = n \<and> lk_locked (locks t l) = 1
    \<and> (\<forall>l'. l' \<noteq> l \<longrightarrow> lk_holding (locks t l') c = (l' \<in> H)) \<and> 0 \<le> n \<and> (0 < n \<longrightarrow> \<not> ie t)) (spin_swap l s)"
  using assms(3)
proof (coinduction arbitrary: s rule: meets.coinduct)
  case (meets s)
  then have c: "tp s = c" and H: "lk_holding (locks s l') c = (l' \<in> H)" for l' by (auto simp: on_def held_def)
  show ?case
  proof (cases "lk_locked (locks s l) = 0")
    case True
    then show ?thesis using meets H
      by (auto simp: spin_swap_run swap_locked_def lk_swap_def on_def running_def ie_def)
  next
    case False
    have "held (swap_locked l s) = held s"
      using False by (auto simp: held_def swap_locked_def lk_swap_def lk_holding_def)
    then have "on c p n H (swap_locked l s)"
      using meets by (auto simp: on_def swap_locked_def lk_swap_def running_def ie_def)
    then show ?thesis using False assms(1,2) by (auto simp: spin_swap_run intro: on_stable)
  qed
qed

lemma spec_acquire:
  assumes "\<And>t u. R Busy t u \<Longrightarrow> cpu_stable t u" and "\<And>t. on c p (n + 1) H t \<Longrightarrow> G Busy t" and "l \<notin> H"
  shows "spec R G E (on c p n H) (acquire l) (\<lambda>_. on c p (n + 1) (insert l H))"
  unfolding spec_def
proof (intro allI impI)
  fix s :: "'a mach_scheme" assume s: "on c p n H s"
  from push_off_on [OF s] obtain t where t: "push_off s = Ok () t" "on c p (n + 1) H t" by blast
  then have "\<not> lk_holding (locks t l) c" and c: "tp t = c" using assms(3) by (auto simp: on_def held_def)
  then have "acquire l s = sq (spin_swap l) (bnd mycpu (\<lambda>c. upd_lock l (\<lambda>k. k\<lparr>lk_cpu := Some c\<rparr>))) t"
    unfolding acquire_def by (simp add: sq_run [of push_off] t(1) bnd_run holding_def mycpu_def cpuid_def gets_run)
  moreover have "meets R G E (\<lambda>_. on c p (n + 1) (insert l H)) \<dots>"
    by (rule meets_sq, rule meets_conseq [OF spin_swap_on
          [where R = R and G = G and c = c and p = p and n = "n + 1" and H = H, OF assms(1,2) t(2) assms(3)]])
      (auto simp: run_simps mycpu_def cpuid_def upd_lock_def on_def held_def lk_holding_def running_def ie_def)
  ultimately show "meets R G E (\<lambda>_. on c p (n + 1) (insert l H)) (acquire l s)" by simp
qed

lemma spec_release:
  assumes "l \<in> H" and "0 \<le> n"
  shows "spec R G E (on c p (n + 1) H) (release l) (\<lambda>_ s. on c p n (H - {l}) s)"
  unfolding spec_def using assms
  by (auto simp: spinlock_ops run_simps on_def held_def running_def ie_def lk_holding_def)

lemma spec_pre: "spec R G E P m Q \<Longrightarrow> (\<And>s. P' s \<Longrightarrow> P s) \<Longrightarrow> spec R G E P' m Q"
  by (auto simp: spec_def)

subsection \<open>The scheduler\<close>

text \<open>
  The hand-over between the scheduler of CPU \<open>c\<close> and process \<open>i\<close>, in either direction: \<open>i\<close> is the
  CPU's current process, its lock is the only lock the CPU holds, and interrupts are off.
\<close>

abbreviation parked :: "nat \<Rightarrow> nat \<Rightarrow> 'z mach_scheme \<Rightarrow> bool" where
  "parked c i \<equiv> on c (Some i) 1 {ProcLock i}"

definition sched_rely :: "nat \<Rightarrow> wait \<Rightarrow> 'z pstate_scheme \<Rightarrow> 'z pstate_scheme \<Rightarrow> bool" where
  "sched_rely c w t u \<longleftrightarrow> (case w of
       Busy \<Rightarrow> cpu_stable t u
     | Swtch \<Rightarrow> (\<forall>i. parked c i t \<longrightarrow> parked c i u))"

definition sched_guar :: "nat \<Rightarrow> wait \<Rightarrow> 'z pstate_scheme \<Rightarrow> bool" where
  "sched_guar c w t \<longleftrightarrow> (case w of
       Busy \<Rightarrow> True
     | Swtch \<Rightarrow> (\<exists>i<NPROC. parked c i t \<and> p_state (proc t i) = RUNNING))"

abbreviation sched_spec :: "nat \<Rightarrow> ('z pstate_scheme \<Rightarrow> bool) \<Rightarrow> ('a, 'z pstate_scheme) kern \<Rightarrow>
    ('a \<Rightarrow> 'z pstate_scheme \<Rightarrow> bool) \<Rightarrow> bool" where
  "sched_spec c \<equiv> spec (sched_rely c) (sched_guar c) (\<lambda>_. False)"

lemma sched_acquire: "l \<notin> H \<Longrightarrow> sched_spec c (on c p n H) (acquire l) (\<lambda>_. on c p (n + 1) (insert l H))"
  by (rule spec_acquire) (auto simp: sched_rely_def sched_guar_def)

lemma sched_switch:
  assumes "i < NPROC" and that: "sched_spec c (on c None 1 {ProcLock i}) m Q"
  shows "sched_spec c (\<lambda>s. on c None 1 {ProcLock i} s \<and> p_state (proc s i) = RUNNABLE)
    (sq (upd_proc i (\<lambda>p. p\<lparr>p_state := RUNNING\<rparr>)) (
     sq (upd_cpu c (\<lambda>k. k\<lparr>cpu_proc := Some i\<rparr>)) (
     sq swtch (
     sq (upd_cpu c (\<lambda>k. k\<lparr>cpu_proc := None\<rparr>))
     m)))) Q"
proof -
  have 1: "parked c i (s\<lparr>proc := (proc s)(i := p), cpus := (cpus s)(c := (cpus s c)\<lparr>cpu_proc := Some i\<rparr>)\<rparr>)"
    if "on c None 1 {ProcLock i} s" for s :: "'a pstate_scheme" and p
    using that by (auto simp: on_def held_def running_def ie_def)
  have 2: "on c None 1 {ProcLock i} (s\<lparr>cpus := (cpus s)(c := (cpus s c)\<lparr>cpu_proc := None\<rparr>)\<rparr>)"
    if "parked c i s" for s :: "'a pstate_scheme"
    using that by (auto simp: on_def held_def running_def ie_def)
  show ?thesis
    unfolding spec_def
  proof (intro allI impI)
    fix s :: "'a pstate_scheme" assume "on c None 1 {ProcLock i} s \<and> p_state (proc s i) = RUNNABLE"
    then have "parked c i (s\<lparr>proc := (proc s)(i := (proc s i)\<lparr>p_state := RUNNING\<rparr>),
        cpus := (cpus s)(c := (cpus s c)\<lparr>cpu_proc := Some i\<rparr>)\<rparr>)" using 1 by blast
    with that assms 2 show "meets (sched_rely c) (sched_guar c) (\<lambda>_. False) Q ((sq (upd_proc i (\<lambda>p. p\<lparr>p_state := RUNNING\<rparr>)) (
     sq (upd_cpu c (\<lambda>k. k\<lparr>cpu_proc := Some i\<rparr>)) (
     sq swtch (
     sq (upd_cpu c (\<lambda>k. k\<lparr>cpu_proc := None\<rparr>)) m)))) s)"
      by (auto simp: run_simps proc_ops upd_cpu_def sched_rely_def sched_guar_def spec_def)
  qed
qed

lemma sched_pass_spec:
  "set is \<subseteq> {..<NPROC} \<Longrightarrow> sched_spec c (on c None 0 {}) (sched_pass c is found :: (bool, 'z pstate_scheme) kern)
    (\<lambda>_. on c None 0 {})"
proof (induction "is" arbitrary: found)
  case Nil
  then show ?case by (simp add: spec_def run_simps)
next
  case (Cons i "is")
  have rel: "sched_spec c (on c None 1 {ProcLock i})
      (sq (release (ProcLock i)) (sched_pass c is b) :: (bool, 'z pstate_scheme) kern) (\<lambda>_. on c None 0 {})" for b
    using spec_release [of "ProcLock i" "{ProcLock i}" 0] Cons by (auto intro!: spec_sq)
  have acq: "sched_spec c (on c None 0 {}) (acquire (ProcLock i)) (\<lambda>_. on c None 1 {ProcLock i})"
    using sched_acquire [of "ProcLock i" "{}" c None 0] by simp
  have "sched_spec c (on c None 1 {ProcLock i}) (bnd (getp i p_state) f) (\<lambda>_. on c None 0 {})"
    if "sched_spec c (\<lambda>s. on c None 1 {ProcLock i} s \<and> p_state (proc s i) = RUNNABLE) (f RUNNABLE) (\<lambda>_. on c None 0 {})"
      and "\<And>st. st \<noteq> RUNNABLE \<Longrightarrow> sched_spec c (on c None 1 {ProcLock i}) (f st) (\<lambda>_. on c None 0 {})"
    for f :: "procstate \<Rightarrow> (bool, 'z pstate_scheme) kern"
    unfolding spec_def
  proof (intro allI impI)
    fix s :: "'z pstate_scheme" assume "on c None 1 {ProcLock i} s"
    with that show "meets (sched_rely c) (sched_guar c) (\<lambda>_. False) (\<lambda>_. on c None 0 {}) (bnd (getp i p_state) f s)"
      by (cases "p_state (proc s i) = RUNNABLE") (simp_all add: spec_def bnd_run getp_def gets_run)
  qed
  with rel sched_switch [of i c _ _, OF _ rel [of True]] Cons.prems show ?case
    unfolding sched_pass.simps by (intro spec_sq [OF acq]) auto
qed

lemma intr_on_on: "on c p 0 H s \<Longrightarrow> \<exists>t. intr_on s = Ok () t \<and> on c p 0 H t"
  by (auto simp: spinlock_ops run_simps on_def held_def running_def)

lemma scheduler_spec:
  "sched_spec c (\<lambda>s. tp s = c \<and> noff (cpus s c) = 0 \<and> held s = {})
    (scheduler :: (unit, 'z pstate_scheme) kern) (\<lambda>_ _. False)"
proof -
  have intr: "sched_spec c (on c None 0 {}) intr_on (\<lambda>_. on c None 0 {})"
    unfolding spec_def using intr_on_on by fastforce
  have wfi: "sched_spec c (on c None 0 {}) wfi (\<lambda>_. on c None 0 {})"
    by (auto simp: spec_def wfi_def sched_rely_def sched_guar_def intro: on_stable)
  have tail: "sched_spec c (on c None 0 {}) (sq (whenM (\<not> found) (sq intr_on wfi)) (ret (Inr ())))
      (\<lambda>x t. case x of Inl a \<Rightarrow> False | Inr _ \<Rightarrow> on c None 0 {} t)" for found
    by (rule spec_sq [where M = "on c None 0 {}"]) (use spec_sq [OF intr wfi] in \<open>auto simp: spec_def run_simps\<close>)
  have loop: "sched_spec c (on c None 0 {}) (again (
       sq intr_on (
       bnd (sched_pass c [0..<NPROC] False) (\<lambda>found.
       sq (whenM (\<not> found) (sq intr_on wfi)) (ret (Inr ()))))) :: (unit, 'z pstate_scheme) kern) (\<lambda>_ _. False)"
    by (rule spec_again, rule spec_sq [OF intr], rule spec_bnd [OF sched_pass_spec tail])
      (auto simp: sched_rely_def sched_guar_def intro: on_stable)
  show ?thesis unfolding spec_def
  proof (intro allI impI)
    fix s :: "'z pstate_scheme" assume s: "tp s = c \<and> noff (cpus s c) = 0 \<and> held s = {}"
    then have "on c None 0 {} (s\<lparr>cpus := (cpus s)(c := (cpus s c)\<lparr>cpu_proc := None\<rparr>)\<rparr>)"
      by (auto simp: on_def held_def running_def)
    moreover have "scheduler s = again (
       sq intr_on (
       bnd (sched_pass c [0..<NPROC] False) (\<lambda>found.
       sq (whenM (\<not> found) (sq intr_on wfi)) (ret (Inr ())))))
      (s\<lparr>cpus := (cpus s)(c := (cpus s c)\<lparr>cpu_proc := None\<rparr>)\<rparr>)"
      using s by (simp add: scheduler_def bnd_run sq_run [of "modify _"] mycpu_def cpuid_def upd_cpu_def gets_run modify_run)
    ultimately show "meets (sched_rely c) (sched_guar c) (\<lambda>_. False) (\<lambda>_ _. False) (scheduler s)"
      using loop by (simp add: spec_def)
  qed
qed

subsection \<open>Processes\<close>

text \<open>
  What process \<open>i\<close> relies on when it waits, and what it guarantees: other CPUs leave its CPU alone,
  and a scheduler that it has handed its lock to gives it back, possibly on another CPU.
\<close>

definition proc_rely :: "nat \<Rightarrow> wait \<Rightarrow> 'z pstate_scheme \<Rightarrow> 'z pstate_scheme \<Rightarrow> bool" where
  "proc_rely i w t u \<longleftrightarrow> (case w of
       Busy \<Rightarrow> cpu_stable t u
     | Swtch \<Rightarrow> (\<forall>c. parked c i t \<longrightarrow> (\<exists>c'. parked c' i u)))"

definition proc_guar :: "nat \<Rightarrow> wait \<Rightarrow> 'z pstate_scheme \<Rightarrow> bool" where
  "proc_guar i w t \<longleftrightarrow> (case w of
       Busy \<Rightarrow> True
     | Swtch \<Rightarrow> (\<exists>c. parked c i t) \<and> p_state (proc t i) \<noteq> RUNNING)"

abbreviation proc_spec :: "nat \<Rightarrow> ('z pstate_scheme \<Rightarrow> bool) \<Rightarrow> ('a, 'z pstate_scheme) kern \<Rightarrow>
    ('a \<Rightarrow> 'z pstate_scheme \<Rightarrow> bool) \<Rightarrow> bool" where
  "proc_spec i \<equiv> spec (proc_rely i) (proc_guar i) (\<lambda>_. False)"

text \<open>Process \<open>i\<close> runs on some CPU and holds exactly the locks \<open>H\<close>.\<close>

definition runs :: "nat \<Rightarrow> lockid set \<Rightarrow> 'z mach_scheme \<Rightarrow> bool" where
  "runs i H s \<longleftrightarrow> finite H \<and> (\<exists>c. on c (Some i) (int (card H)) H s)"

lemma runsI: "on c (Some i) (int (card H)) H s \<Longrightarrow> finite H \<Longrightarrow> runs i H s"
  by (auto simp: runs_def)

lemma parked_runs: "runs i {ProcLock i} s \<longleftrightarrow> (\<exists>c. parked c i s)"
  by (simp add: runs_def)

lemma on_mach_ok: "on c p n H s \<Longrightarrow> 0 < n \<Longrightarrow> mach_ok s"
  by (auto simp: on_def mach_ok_def)

lemma runs_mach_ok: "runs i H s \<Longrightarrow> H \<noteq> {} \<Longrightarrow> mach_ok s"
  unfolding runs_def by (metis card_gt_0_iff of_nat_0_less_iff on_mach_ok)

lemma runs_running: "runs i H s \<Longrightarrow> running s = Some i"
  by (auto simp: runs_def on_def)

text \<open>\<open>runs\<close> only depends on the machine part of the state.\<close>

lemma on_upd [simp]:
  "on c p n H (proc_update f s) = on c p n H s" "on c p n H (sleeplocks_update g s) = on c p n H s"
  "on c p n H (mem_update h s) = on c p n H s" "on c p n H (freelist_update j s) = on c p n H s"
  "on c p n H (set_intena b s) = on c p n H s"
  by (auto simp: on_def held_def running_def ie_def set_intena_def)

lemma runs_upd [simp]:
  "runs i H (proc_update f s) = runs i H s" "runs i H (sleeplocks_update g s) = runs i H s"
  "runs i H (mem_update h s) = runs i H s" "runs i H (freelist_update j s) = runs i H s"
  "runs i H (set_intena b s) = runs i H s"
  by (simp_all add: runs_def)

lemma proc_acquire:
  assumes "l \<notin> H"
  shows "proc_spec i (runs i H) (acquire l) (\<lambda>_. runs i (insert l H))"
proof (cases "finite H")
  case True
  then have c: "int (card (insert l H)) = int (card H) + 1" using assms by simp
  have "proc_spec i (on c (Some i) (int (card H)) H) (acquire l) (\<lambda>_. on c (Some i) (int (card H) + 1) (insert l H))" for c
    by (rule spec_acquire) (use assms in \<open>auto simp: proc_rely_def proc_guar_def\<close>)
  then have "proc_spec i (on c (Some i) (int (card H)) H) (acquire l) (\<lambda>_. runs i (insert l H))" for c
    by (rule spec_conseq) (use True c in \<open>auto simp: runs_def\<close>)
  then show ?thesis unfolding runs_def [of i H] by (auto simp: spec_def)
qed (auto simp: spec_def runs_def)

lemma proc_release:
  assumes "l \<in> H"
  shows "proc_spec i (runs i H) (release l) (\<lambda>_. runs i (H - {l}))"
proof (cases "finite H")
  case True
  then have c: "int (card H) = int (card (H - {l})) + 1"
    using card_Suc_Diff1 [OF True assms] by linarith
  have "proc_spec i (on c (Some i) (int (card H)) H) (release l) (\<lambda>_. on c (Some i) (int (card (H - {l}))) (H - {l}))" for c
    unfolding c by (rule spec_release) (use assms in auto)
  then have "proc_spec i (on c (Some i) (int (card H)) H) (release l) (\<lambda>_. runs i (H - {l}))" for c
    by (rule spec_conseq) (use True in \<open>auto simp: runs_def\<close>)
  then show ?thesis unfolding runs_def [of i H] by (auto simp: spec_def)
qed (auto simp: spec_def runs_def)

lemma proc_release_insert: "l \<notin> H \<Longrightarrow> proc_spec i (runs i (insert l H)) (release l) (\<lambda>_. runs i H)"
  using proc_release [of l "insert l H" i] by simp

lemma curproc_runs: "runs i H s \<Longrightarrow> H \<noteq> {} \<Longrightarrow> curproc s = Ok i s"
  by (simp add: curproc_run runs_mach_ok runs_running)

lemma proc_sched:
  "proc_spec i (\<lambda>s. runs i {ProcLock i} s \<and> p_state (proc s i) \<noteq> RUNNING) sched (\<lambda>_. runs i {ProcLock i})"
  unfolding spec_def
proof (intro allI impI)
  fix s :: "'a pstate_scheme" assume s: "runs i {ProcLock i} s \<and> p_state (proc s i) \<noteq> RUNNING"
  then obtain c where c: "parked c i s" by (auto simp: parked_runs)
  then have "sched s = Switched s (\<lambda>u. Ok () (set_intena (intena (cpus s (tp s))) u))"
    using s on_mach_ok [OF c] by (intro sched_run) (auto simp: on_def held_def)
  with s c show "meets (proc_rely i) (proc_guar i) (\<lambda>_. False) (\<lambda>_. runs i {ProcLock i}) (sched s)"
    by (auto simp: proc_guar_def proc_rely_def parked_runs)
qed

lemma spec_upd_proc:
  "(\<And>s. P s \<Longrightarrow> Q () (s\<lparr>proc := (proc s)(i := f (proc s i))\<rparr>)) \<Longrightarrow> spec R G E P (upd_proc i f) Q"
  by (simp add: spec_def upd_proc_def run_simps)

lemma spec_upd_sleeplock:
  "(\<And>s. P s \<Longrightarrow> Q () (s\<lparr>sleeplocks := (sleeplocks s)(l := f (sleeplocks s l))\<rparr>)) \<Longrightarrow> spec R G E P (upd_sleeplock l f) Q"
  by (simp add: spec_def upd_sleeplock_def run_simps)

lemma spec_ret: "(\<And>s. P s \<Longrightarrow> Q a s) \<Longrightarrow> spec R G E P (ret a) Q"
  by (simp add: spec_def run_simps)

lemma spec_gets: "(\<And>s. P s \<Longrightarrow> Q (f s) s) \<Longrightarrow> spec R G E P (gets f) Q"
  by (simp add: spec_def run_simps)

lemma proc_myproc: "proc_spec i (runs i H) myproc (\<lambda>a s. a = Some i \<and> runs i H s)"
proof -
  have "proc_spec i (on c (Some i) n H) myproc (\<lambda>a s. a = Some i \<and> on c (Some i) n H s)" for c n
    by (auto simp: spec_def myproc_def spinlock_ops run_simps on_def held_def running_def ie_def)
  then show ?thesis by (fastforce simp: spec_def runs_def elim!: meets_conseq)
qed

lemma proc_curproc:
  assumes "proc_spec i (runs i H) (f i) Q"
  shows "proc_spec i (runs i H) (bnd curproc f) Q"
proof -
  have "proc_spec i (runs i H) curproc (\<lambda>a s. a = i \<and> runs i H s)"
    unfolding curproc_def by (rule spec_bnd [OF proc_myproc]) (auto simp: spec_def run_simps)
  then show ?thesis by (rule spec_bnd) (use assms in \<open>auto simp: spec_def\<close>)
qed

lemma proc_sleep:
  assumes "lk \<noteq> ProcLock i"
  shows "proc_spec i (runs i {lk}) (sleep ch lk) (\<lambda>_. runs i {lk})"
proof -
  have rel: "proc_spec i (runs i (insert (ProcLock i) {lk})) (release lk) (\<lambda>_. runs i {ProcLock i})"
    using proc_release_insert [of lk "{ProcLock i}" i] assms by (simp add: insert_commute)
  have rel2: "proc_spec i (runs i {ProcLock i}) (release (ProcLock i)) (\<lambda>_. runs i {})"
    by (rule proc_release_insert) simp
  have acq: "proc_spec i (runs i {}) (acquire lk) (\<lambda>_. runs i {lk})"
    by (rule proc_acquire) simp
  have upd: "proc_spec i (runs i H) (upd_proc j f) (\<lambda>_. runs i H)" for H j f
    by (simp add: spec_upd_proc)
  have zz: "proc_spec i (runs i {ProcLock i}) (upd_proc i (\<lambda>p. p\<lparr>p_state := SLEEPING\<rparr>))
      (\<lambda>_ s. runs i {ProcLock i} s \<and> p_state (proc s i) \<noteq> RUNNING)"
    by (simp add: spec_upd_proc)
  have "ProcLock i \<notin> {lk}" using assms by simp
  then show ?thesis unfolding sleep_def
    by (intro proc_curproc spec_sq [OF proc_acquire] spec_sq [OF rel] spec_sq [OF zz] spec_sq [OF proc_sched]
        spec_sq [OF rel2] acq spec_sq [OF upd])
qed

named_theorems proc_specs \<open>specifications of kernel functions called by a process\<close>

lemma spec_forM: "(\<And>j. j \<in> set js \<Longrightarrow> spec R G E P (f j) (\<lambda>_. P)) \<Longrightarrow> spec R G E P (forM js f) (\<lambda>_. P)"
  by (induction js) (auto intro: spec_ret spec_sq)

lemma spec_whenM: "(b \<Longrightarrow> spec R G E P m (\<lambda>_. P)) \<Longrightarrow> spec R G E P (whenM b m) (\<lambda>_. P)"
  by (auto simp: whenM_def intro: spec_ret)

lemma spec_getp: "(\<And>s. P s \<Longrightarrow> Q (f (proc s j)) s) \<Longrightarrow> spec R G E P (getp j f) Q"
  by (simp add: spec_def getp_def run_simps)

lemma spec_gets_keep: "spec R G E P (gets f) (\<lambda>_. P)"
  by (rule spec_gets)

lemma spec_getp_keep: "spec R G E P (getp j f) (\<lambda>_. P)"
  by (rule spec_getp)

lemma proc_upd: "proc_spec i (runs i H) (upd_proc j f) (\<lambda>_. runs i H)"
  by (simp add: spec_upd_proc)

lemma proc_upd_sleeplock: "proc_spec i (runs i H) (upd_sleeplock l f) (\<lambda>_. runs i H)"
  by (simp add: spec_upd_sleeplock)

lemma proc_wakeup [proc_specs]:
  assumes "\<And>j. ProcLock j \<notin> H"
  shows "proc_spec i (runs i H) (wakeup ch) (\<lambda>_. runs i H)"
  unfolding wakeup_def
proof (rule spec_forM)
  fix j
  have "proc_spec i (runs i H) (sq (acquire (ProcLock j)) (bnd (gets (\<lambda>s. proc s j)) (\<lambda>p.
       sq (whenM (p_state p = SLEEPING \<and> p_chan p = ch) (upd_proc j (\<lambda>p. p\<lparr>p_state := RUNNABLE\<rparr>)))
          (release (ProcLock j))))) (\<lambda>_. runs i H)"
    by (intro spec_sq [OF proc_acquire] spec_bnd [OF spec_gets_keep] spec_sq [OF spec_whenM] proc_upd
        proc_release_insert assms)
  then show "proc_spec i (runs i H) (wakeup_at ch j) (\<lambda>_. runs i H)"
    unfolding wakeup_at_def by (intro spec_bnd [OF proc_myproc]) (auto simp: spec_def run_simps)
qed

lemma proc_killed [proc_specs]:
  assumes "ProcLock j \<notin> H"
  shows "proc_spec i (runs i H) (killed j) (\<lambda>_. runs i H)"
  unfolding killed_def
  by (intro spec_sq [OF proc_acquire] spec_bnd [OF spec_getp_keep] spec_sq [OF proc_release_insert] spec_ret assms)

lemma proc_yield [proc_specs]: "proc_spec i (runs i {}) yield (\<lambda>_. runs i {})"
proof -
  have ready: "proc_spec i (runs i {ProcLock i}) (upd_proc i (\<lambda>p. p\<lparr>p_state := RUNNABLE\<rparr>))
      (\<lambda>_ s. runs i {ProcLock i} s \<and> p_state (proc s i) \<noteq> RUNNING)"
    by (simp add: spec_upd_proc)
  show ?thesis unfolding yield_def
    by (intro proc_curproc spec_sq [OF proc_acquire] spec_sq [OF ready] spec_sq [OF proc_sched]
        proc_release_insert) simp_all
qed

lemma proc_acquiresleep [proc_specs]: "proc_spec i (runs i {}) (acquiresleep l) (\<lambda>_. runs i {})"
proof -
  let ?L = "SleepSpin l"
  have body: "proc_spec i (runs i {?L}) (bnd (gets (\<lambda>s. sl_locked (sleeplocks s l))) (\<lambda>b.
       if b then sq (sleep (Some (ChanSleep l)) ?L) (ret (Inr ())) else ret (Inl ())))
      (\<lambda>x t. case x of Inl a \<Rightarrow> runs i {?L} t | Inr _ \<Rightarrow> runs i {?L} t)"
    by (rule spec_bnd [OF spec_gets_keep]) (auto intro!: spec_sq [OF proc_sleep] spec_ret)
  have loop: "proc_spec i (runs i {?L}) (again (bnd (gets (\<lambda>s. sl_locked (sleeplocks s l))) (\<lambda>b.
       if b then sq (sleep (Some (ChanSleep l)) ?L) (ret (Inr ())) else ret (Inl ())))) (\<lambda>_. runs i {?L})"
    by (rule spec_again [OF body]) (auto simp: proc_guar_def proc_rely_def runs_def intro: on_stable)
  show ?thesis unfolding acquiresleep_def
    by (intro spec_sq [OF proc_acquire] spec_sq [OF loop] spec_sq [OF proc_upd_sleeplock] proc_curproc
        spec_bnd [OF spec_getp_keep] proc_release_insert) simp_all
qed

lemma proc_releasesleep [proc_specs]: "proc_spec i (runs i {}) (releasesleep l) (\<lambda>_. runs i {})"
  unfolding releasesleep_def
  by (intro spec_sq [OF proc_acquire] spec_sq [OF proc_upd_sleeplock] spec_sq [OF proc_wakeup]
      proc_release_insert) simp_all

lemma proc_holdingsleep [proc_specs]: "proc_spec i (runs i {}) (holdingsleep l) (\<lambda>_. runs i {})"
  unfolding holdingsleep_def
  by (intro spec_sq [OF proc_acquire] spec_bnd [OF spec_gets_keep] spec_bnd [where M = "\<lambda>_. runs i {SleepSpin l}"]
      spec_sq [OF proc_release_insert] spec_ret) (auto intro!: proc_curproc spec_bnd [OF spec_getp_keep] spec_ret)

subsection \<open>Mutual exclusion of sleep locks\<close>

lemma acquiresleep_held:
  assumes "sl_locked k"
  shows "spec (\<lambda>w t u. proc_rely i w t u \<and> sleeplocks u l = sleeplocks t l)
    (\<lambda>w t. proc_guar i w t \<and> sleeplocks t l = k) (\<lambda>_. False)
    (\<lambda>s. runs i {} s \<and> sleeplocks s l = k) (acquiresleep l) (\<lambda>_ _. False)"
proof -
  let ?R = "\<lambda>w t u. proc_rely i w t u \<and> sleeplocks u l = sleeplocks t l"
  let ?F = "\<lambda>s. sleeplocks s l = k"
  let ?L = "SleepSpin l"
  have free: "proc_free ?F" by (simp add: proc_free_def mach_free_def)
  have lift: "spec ?R (\<lambda>w t. proc_guar i w t \<and> ?F t) (\<lambda>_. False) (\<lambda>s. P s \<and> ?F s) m (\<lambda>a s. Q a s \<and> ?F s)"
    if "proc_spec i P m Q" "keeps ?F m" for P m Q
    by (rule spec_keeps [OF _ that(2)]) (use that(1) in \<open>auto simp: spec_def elim!: meets_conseq\<close>)
  have acq: "spec ?R (\<lambda>w t. proc_guar i w t \<and> ?F t) (\<lambda>_. False) (\<lambda>s. runs i {} s \<and> ?F s) (acquire ?L)
      (\<lambda>_ s. runs i {?L} s \<and> ?F s)"
    by (intro lift proc_acquire keeps_intros proc_freeD [OF free]) simp
  have slp: "spec ?R (\<lambda>w t. proc_guar i w t \<and> ?F t) (\<lambda>_. False) (\<lambda>s. runs i {?L} s \<and> ?F s) (sleep ch ?L)
      (\<lambda>_ s. runs i {?L} s \<and> ?F s)" for ch
    by (intro lift proc_sleep keeps_intros free) simp
  have body: "spec ?R (\<lambda>w t. proc_guar i w t \<and> ?F t) (\<lambda>_. False) (\<lambda>s. runs i {?L} s \<and> ?F s)
     (bnd (gets (\<lambda>s. sl_locked (sleeplocks s l))) (\<lambda>b.
       if b then sq (sleep (Some (ChanSleep l)) ?L) (ret (Inr ())) else ret (Inl ())))
     (\<lambda>x s. case x of Inl _ \<Rightarrow> False | Inr _ \<Rightarrow> runs i {?L} s \<and> ?F s)"
    by (rule spec_bnd [where M = "\<lambda>b s. b \<and> runs i {?L} s \<and> ?F s"], rule spec_gets)
      (use assms spec_sq [OF slp spec_ret, of "\<lambda>x s. case x of Inl _ \<Rightarrow> False | Inr _ \<Rightarrow> runs i {?L} s \<and> ?F s" "Inr ()"]
       in \<open>auto simp: spec_def\<close>)
  have loop: "spec ?R (\<lambda>w t. proc_guar i w t \<and> ?F t) (\<lambda>_. False) (\<lambda>s. runs i {?L} s \<and> ?F s)
     (again (bnd (gets (\<lambda>s. sl_locked (sleeplocks s l))) (\<lambda>b.
       if b then sq (sleep (Some (ChanSleep l)) ?L) (ret (Inr ())) else ret (Inl ())))) (\<lambda>_ _. False)"
    by (rule spec_again [OF body]) (auto simp: proc_guar_def proc_rely_def runs_def intro: on_stable)
  show ?thesis unfolding acquiresleep_def
    by (rule spec_sq [OF acq], rule spec_sq [OF loop]) (simp add: spec_def)
qed

lemma acquiresleep_free:
  assumes "mach_ok s" and "running s = Some i" and "lock_free s (SleepSpin l)" and "\<not> sl_locked (sleeplocks s l)"
  shows "acquiresleep l s = Ok () (s\<lparr>sleeplocks := (sleeplocks s)(l := (sleeplocks s l)\<lparr>sl_locked := True,
    sl_pid := p_pid (proc s i)\<rparr>)\<rparr>)"
  using assms by (simp add: acquiresleep_def run_simps proc_ops)

lemma releasesleep_run:
  assumes "mach_ok s" and "lock_free s (SleepSpin l)" and "\<And>j. j < NPROC \<Longrightarrow> lock_free s (ProcLock j)"
  shows "releasesleep l s = Ok () (s\<lparr>sleeplocks := (sleeplocks s)(l := (sleeplocks s l)\<lparr>sl_locked := False, sl_pid := 0\<rparr>),
    proc := woken (Some (ChanSleep l)) (running s) {..<NPROC} (proc s)\<rparr>)"
  using assms by (simp add: releasesleep_def run_simps proc_ops wakeup_run)

subsection \<open>No wakeup is lost\<close>

text \<open>
  One process runs \<open>while(!cond) sleep(ch, lk)\<close> while any number of others run
  \<open>acquire(lk); cond = 1; wakeup(ch); release(lk)\<close>, another process may consume the condition under
  \<open>lk\<close>, and \<open>kill\<close> may make the sleeper runnable. A step is one access of the source; the program
  counter of the sleeper names the next statement of \<open>sleep\<close>:
  \<^item> \<open>STest\<close>: the test of the condition, \<open>lk\<close> is held;
  \<^item> \<open>SLock\<close>, \<open>SUnlk\<close>, \<open>SChan\<close>, \<open>SState\<close>, \<open>SSched\<close>: the statements \<open>acquire(&p->lock)\<close>, \<open>release(lk)\<close>,
    \<open>p->chan = chan\<close>, \<open>p->state = SLEEPING\<close> and \<open>sched()\<close>, after which the scheduler releases \<open>p->lock\<close>;
  \<^item> \<open>SAway\<close>: switched away, until a scheduler finds it \<open>RUNNABLE\<close>;
  \<^item> \<open>STidy\<close>, \<open>SUnlock\<close>, \<open>SRelk\<close>: the statements after \<open>sched()\<close>;
  \<^item> \<open>SOut\<close>: past the loop.

  That of a waker: \<open>WOut\<close>, \<open>WCond\<close> (holding \<open>lk\<close>, sets the condition), \<open>WLock\<close>, \<open>WCheck\<close>, \<open>WUnlock\<close> (the
  body of the loop of \<open>wakeup\<close> at the sleeper's slot) and \<open>WUnlk\<close>.
\<close>

datatype spc = STest | SLock | SUnlk | SChan | SState | SSched | SAway | STidy | SUnlock | SRelk | SOut

datatype wpc = WOut | WCond | WLock | WCheck | WUnlock | WUnlk

datatype agent = Sleeper | Waker nat

record lwsys =
  lw_cond :: bool
  lw_lk :: "agent option"
  lw_pl :: "agent option"
  lw_proc :: proc
  lw_spc :: spc
  lw_wpc :: "nat \<Rightarrow> wpc"

definition lw_start :: "proc \<Rightarrow> lwsys" where
  "lw_start p = \<lparr>lw_cond = False, lw_lk = Some Sleeper, lw_pl = None, lw_proc = p\<lparr>p_state := RUNNING\<rparr>,
     lw_spc = STest, lw_wpc = (\<lambda>_. WOut)\<rparr>"

inductive lw_step :: "chan \<Rightarrow> lwsys \<Rightarrow> lwsys \<Rightarrow> bool" for ch where
  s_leave: "lw_spc s = STest \<Longrightarrow> lw_cond s \<Longrightarrow> lw_step ch s (s\<lparr>lw_lk := None, lw_spc := SOut\<rparr>)"
| s_sleep: "lw_spc s = STest \<Longrightarrow> \<not> lw_cond s \<Longrightarrow> lw_step ch s (s\<lparr>lw_spc := SLock\<rparr>)"
| s_lock: "lw_spc s = SLock \<Longrightarrow> lw_pl s = None \<Longrightarrow>
    lw_step ch s (s\<lparr>lw_pl := Some Sleeper, lw_spc := SUnlk\<rparr>)"
| s_unlk: "lw_spc s = SUnlk \<Longrightarrow> lw_step ch s (s\<lparr>lw_lk := None, lw_spc := SChan\<rparr>)"
| s_chan: "lw_spc s = SChan \<Longrightarrow>
    lw_step ch s (s\<lparr>lw_proc := (lw_proc s)\<lparr>p_chan := Some ch\<rparr>, lw_spc := SState\<rparr>)"
| s_state: "lw_spc s = SState \<Longrightarrow>
    lw_step ch s (s\<lparr>lw_proc := (lw_proc s)\<lparr>p_state := SLEEPING\<rparr>, lw_spc := SSched\<rparr>)"
| s_sched: "lw_spc s = SSched \<Longrightarrow> lw_step ch s (s\<lparr>lw_pl := None, lw_spc := SAway\<rparr>)"
| s_resume: "lw_spc s = SAway \<Longrightarrow> lw_pl s = None \<Longrightarrow> p_state (lw_proc s) = RUNNABLE \<Longrightarrow>
    lw_step ch s (s\<lparr>lw_pl := Some Sleeper, lw_proc := (lw_proc s)\<lparr>p_state := RUNNING\<rparr>, lw_spc := STidy\<rparr>)"
| s_tidy: "lw_spc s = STidy \<Longrightarrow>
    lw_step ch s (s\<lparr>lw_proc := (lw_proc s)\<lparr>p_chan := None\<rparr>, lw_spc := SUnlock\<rparr>)"
| s_unlock: "lw_spc s = SUnlock \<Longrightarrow> lw_step ch s (s\<lparr>lw_pl := None, lw_spc := SRelk\<rparr>)"
| s_relk: "lw_spc s = SRelk \<Longrightarrow> lw_lk s = None \<Longrightarrow>
    lw_step ch s (s\<lparr>lw_lk := Some Sleeper, lw_spc := STest\<rparr>)"
| w_lk: "lw_wpc s j = WOut \<Longrightarrow> lw_lk s = None \<Longrightarrow>
    lw_step ch s (s\<lparr>lw_lk := Some (Waker j), lw_wpc := (lw_wpc s)(j := WCond)\<rparr>)"
| w_cond: "lw_wpc s j = WCond \<Longrightarrow> lw_step ch s (s\<lparr>lw_cond := True, lw_wpc := (lw_wpc s)(j := WLock)\<rparr>)"
| w_lock: "lw_wpc s j = WLock \<Longrightarrow> lw_pl s = None \<Longrightarrow>
    lw_step ch s (s\<lparr>lw_pl := Some (Waker j), lw_wpc := (lw_wpc s)(j := WCheck)\<rparr>)"
| w_check: "lw_wpc s j = WCheck \<Longrightarrow>
    lw_step ch s (s\<lparr>lw_proc := woken (Some ch) None {0} (\<lambda>_. lw_proc s) 0, lw_wpc := (lw_wpc s)(j := WUnlock)\<rparr>)"
| w_unlock: "lw_wpc s j = WUnlock \<Longrightarrow> lw_step ch s (s\<lparr>lw_pl := None, lw_wpc := (lw_wpc s)(j := WUnlk)\<rparr>)"
| w_unlk: "lw_wpc s j = WUnlk \<Longrightarrow> lw_step ch s (s\<lparr>lw_lk := None, lw_wpc := (lw_wpc s)(j := WOut)\<rparr>)"
| consume: "lw_lk s = None \<Longrightarrow> lw_step ch s (s\<lparr>lw_cond := False\<rparr>)"
| killed: "lw_pl s = None \<Longrightarrow> p_state (lw_proc s) = SLEEPING \<Longrightarrow>
    lw_step ch s (s\<lparr>lw_proc := (lw_proc s)\<lparr>p_state := RUNNABLE\<rparr>\<rparr>)"

definition lw_reachable :: "chan \<Rightarrow> proc \<Rightarrow> lwsys \<Rightarrow> bool" where
  "lw_reachable ch p s \<longleftrightarrow> (lw_step ch)\<^sup>*\<^sup>* (lw_start p) s"

definition lw_inv :: "chan \<Rightarrow> lwsys \<Rightarrow> bool" where
  "lw_inv ch s \<longleftrightarrow>
     (lw_spc s \<in> {STest, SLock, SUnlk} \<longrightarrow> lw_lk s = Some Sleeper)
   \<and> (\<forall>j. lw_wpc s j \<noteq> WOut \<longrightarrow> lw_lk s = Some (Waker j))
   \<and> (lw_spc s \<in> {SUnlk, SChan, SState, SSched, STidy, SUnlock} \<longrightarrow> lw_pl s = Some Sleeper)
   \<and> (\<forall>j. lw_wpc s j \<in> {WCheck, WUnlock} \<longrightarrow> lw_pl s = Some (Waker j))
   \<and> (lw_spc s \<in> {SLock, SUnlk} \<longrightarrow> \<not> lw_cond s)
   \<and> (lw_spc s \<in> {SState, SSched, SAway} \<longrightarrow> p_chan (lw_proc s) = Some ch)
   \<and> (lw_cond s \<longrightarrow> lw_spc s \<in> {SChan, SState, SSched} \<or> lw_spc s = SAway \<and> p_state (lw_proc s) = SLEEPING \<longrightarrow>
       (\<exists>j. lw_wpc s j \<in> {WLock, WCheck}))"

lemma lw_inv_start: "lw_inv ch (lw_start p)"
  by (simp add: lw_inv_def lw_start_def)

lemma lw_step_inv: "lw_step ch s t \<Longrightarrow> lw_inv ch s \<Longrightarrow> lw_inv ch t"
  unfolding lw_inv_def
  by (induction rule: lw_step.induct; intro conjI impI allI; (simp add: woken_def split: if_splits)?;
      metis (no_types, lifting) option.distinct(1) option.inject agent.distinct(1) agent.inject wpc.distinct spc.distinct)

lemma lw_reachable_inv: "lw_reachable ch p s \<Longrightarrow> lw_inv ch s"
  unfolding lw_reachable_def
  by (induction rule: rtranclp_induct) (auto intro: lw_inv_start lw_step_inv)

subsection \<open>The properties\<close>

text \<open>
  A machine with two processes: process 0 runs on CPU 0 and process 1 sleeps on \<open>ticks\<close>.
\<close>

definition a_proc :: proc where
  "a_proc = \<lparr>p_state = UNUSED, p_chan = None, p_killed = False, p_xstate = 0, p_pid = 0, p_parent = None,
     p_kstack = 0, p_sz = 0, p_pagetable = 0, p_trapframe = 0,
     p_context = \<lparr>ctx_ra = 0, ctx_sp = 0, ctx_s = (\<lambda>_. 0)\<rparr>, p_ofile = (\<lambda>_. None), p_cwd = None, p_name = (\<lambda>_. 0)\<rparr>"

definition two_procs :: pstate where
  "two_procs = \<lparr>locks = (\<lambda>_. init_spinlock ''''),
     cpus = (\<lambda>_. \<lparr>cpu_proc = None, noff = 0, intena = True\<rparr>)(0 := \<lparr>cpu_proc = Some 0, noff = 0, intena = True\<rparr>),
     sstatus = (\<lambda>_. 2), tp = 0, mem = (\<lambda>_. 0), freelist = 0, kernel_end = 0x80020000,
     kernel_pagetable = 0, satp = (\<lambda>_. 0), etext = 0x80008000, trampoline = 0x80007000,
     proc = (\<lambda>_. a_proc)(0 := a_proc\<lparr>p_state := RUNNING, p_pid := 1\<rparr>,
       1 := a_proc\<lparr>p_state := SLEEPING, p_chan := Some ChanTicks, p_pid := 2\<rparr>),
     initproc = Some 0, nextpid = 3, forkret_addr = 0x80001000,
     sleeplocks = (\<lambda>_. \<lparr>sl_locked = False, sl_name = ''inode'', sl_pid = 0\<rparr>)\<rparr>"

lemma two_procs_ok:
  "mach_ok two_procs" "running two_procs = Some 0" "noff (cpus two_procs (tp two_procs)) = 0"
  "lock_free two_procs l" "held two_procs = {}"
  by (simp_all add: two_procs_def mach_ok_def running_def lock_free_def ie_def SSTATUS_SIE_def init_spinlock_def
      held_def lk_holding_def)

text \<open>
  C18: \<open>wakeup(ch)\<close> makes exactly the processes that sleep on \<open>ch\<close>, other than the caller, \<open>RUNNABLE\<close>,
  and changes nothing else; it returns with every lock as it found it.
\<close>

theorem wakeup_exact:
  assumes "mach_ok s" and "\<And>i. i < NPROC \<Longrightarrow> lock_free s (ProcLock i)"
  shows "wakeup ch s = Ok () (s\<lparr>proc := \<lambda>i.
    if i < NPROC \<and> Some i \<noteq> running s \<and> p_state (proc s i) = SLEEPING \<and> p_chan (proc s i) = ch
    then (proc s i)\<lparr>p_state := RUNNABLE\<rparr> else proc s i\<rparr>)"
  using wakeup_run [OF assms] by (simp add: woken_def)

theorem wakeup_exact_witness:
  "wakeup (Some ChanTicks) two_procs = Ok () (two_procs\<lparr>proc := \<lambda>i.
    if i < NPROC \<and> Some i \<noteq> running two_procs \<and> p_state (proc two_procs i) = SLEEPING \<and> p_chan (proc two_procs i) = Some ChanTicks
    then (proc two_procs i)\<lparr>p_state := RUNNABLE\<rparr> else proc two_procs i\<rparr>)"
  by (rule wakeup_exact) (simp_all add: two_procs_ok)

text \<open>
  \<open>spins_until R B S r\<close>: before it first gives up the CPU, \<open>r\<close> only spins, in states in \<open>B\<close>, while other CPUs act
  according to \<open>R\<close>; it neither returns nor stops, and it gives up the CPU in a state and with a rest in \<open>S\<close>.
\<close>

coinductive spins_until :: "('s \<Rightarrow> 's \<Rightarrow> bool) \<Rightarrow> ('s \<Rightarrow> bool) \<Rightarrow> ('s \<Rightarrow> ('s \<Rightarrow> ('a, 's) outcome) \<Rightarrow> bool) \<Rightarrow> ('a, 's) outcome \<Rightarrow> bool"
  for R B S where
  su_spin: "B t \<Longrightarrow> (\<And>u. R t u \<Longrightarrow> spins_until R B S (k u)) \<Longrightarrow> spins_until R B S (Spin t k)"
| su_switch: "S t k \<Longrightarrow> spins_until R B S (Switched t k)"

inductive_simps spins_until_simps [simp]:
  "spins_until R B S (Ok a t)" "spins_until R B S (Wait w t k)" "spins_until R B S (Stop e)"

lemma spins_until_andthen:
  assumes "meets (\<lambda>_. R) (\<lambda>w t. w = Busy \<and> B t) (\<lambda>_. False) (\<lambda>a t. spins_until R B S (f a t)) r"
  shows "spins_until R B S (andthen r f)"
proof -
  have "(\<exists>r. x = andthen r f \<and> meets (\<lambda>_. R) (\<lambda>w t. w = Busy \<and> B t) (\<lambda>_. False) (\<lambda>a t. spins_until R B S (f a t)) r) \<or> spins_until R B S x
      \<Longrightarrow> spins_until R B S x" for x
  proof (coinduction arbitrary: x rule: spins_until.coinduct)
    case (spins_until x)
    then show ?case
    proof (elim disjE exE conjE)
      fix r assume r: "x = andthen r f" "meets (\<lambda>_. R) (\<lambda>w t. w = Busy \<and> B t) (\<lambda>_. False) (\<lambda>a t. spins_until R B S (f a t)) r"
      show ?thesis
      proof (cases r)
        case (Ok a t)
        then have "spins_until R B S x" using r by simp
        then show ?thesis by (cases x) (auto elim: spins_until.cases)
      qed (use r in auto)
    next
      assume "spins_until R B S x"
      then show ?thesis by (auto elim: spins_until.cases)
    qed
  qed
  then show ?thesis using assms by blast
qed

text \<open>Inside a critical section, taking a further lock does not change what \<open>intena\<close> records.\<close>

definition nested :: "nat \<Rightarrow> bool \<Rightarrow> 'z mach_scheme \<Rightarrow> bool" where
  "nested c b s \<longleftrightarrow> tp s = c \<and> 0 < noff (cpus s c) \<and> intena (cpus s c) = b"

lemma keeps_nested_spin: "keeps (nested c b) (spin_swap l)"
proof -
  have "nested c b s \<Longrightarrow> meets (\<lambda>_ _ u. nested c b u) (\<lambda>_. nested c b) (\<lambda>_. True) (\<lambda>_. nested c b) (spin_swap l s)" for s :: "'a mach_scheme"
  proof (coinduction arbitrary: s rule: meets.coinduct)
    case (meets s)
    then have "nested c b (swap_locked l s)" by (simp add: nested_def swap_locked_def lk_swap_def)
    then show ?case by (cases "lk_locked (locks s l) = 0") (auto simp: spin_swap_run)
  qed
  then show ?thesis by (simp add: spec_def)
qed

lemma keeps_nested_acquire: "keeps (nested c b) (acquire l)"
proof -
  have "keeps (nested c b) push_off" "keeps (nested c b) (holding l)" "keeps (nested c b) mycpu" "keeps (nested c b) (upd_lock l f)" for f
    by (auto simp: spec_def spinlock_ops run_simps nested_def split: if_splits)
  then show ?thesis unfolding acquire_def by (intro keeps_sq keeps_bnd keeps_if keeps_panic keeps_nested_spin)
qed

text \<open>The acquisition of the first lock records the interrupt state in \<open>intena\<close>.\<close>

lemma nested_stable: "nested c b t \<Longrightarrow> cpu_stable t u \<Longrightarrow> nested c b u"
  by (simp add: nested_def cpu_stable_def)

lemma acquire_first:
  assumes "on c p 0 {} s" and "\<And>w t u. R w t u \<Longrightarrow> cpu_stable t u" and "\<And>t. on c p 1 {} t \<Longrightarrow> G Busy t"
  shows "meets R G E (\<lambda>_ t. on c p 1 {l} t \<and> intena (cpus t c) = ie s) (acquire l s)"
proof -
  define rest where "rest = bnd (holding l) (\<lambda>h. if h then panic ''acquire'' else sq (spin_swap l)
    (bnd mycpu (\<lambda>c. upd_lock l (\<lambda>k. k\<lparr>lk_cpu := Some c\<rparr>)) :: (unit, 'a mach_scheme) kern))"
  obtain t where t: "push_off s = Ok () t" "nested c (ie s) t"
    using assms(1) by (auto simp: nested_def on_def spinlock_ops run_simps ie_def split: if_splits)
  then have run: "acquire l s = rest t" by (simp add: acquire_def rest_def run_simps)
  have "spec R G E (on c p 0 {}) (acquire l) (\<lambda>_. on c p (0 + 1) (insert l {}))"
    by (rule spec_acquire) (use assms(2,3) in auto)
  then have "spec R G E (\<lambda>x. x = t) rest (\<lambda>_. on c p 1 {l})"
    using assms(1) unfolding spec_def run [symmetric] by (auto simp: run)
  moreover have "keeps (nested c (ie s)) (holding l)" "keeps (nested c (ie s)) mycpu" "keeps (nested c (ie s)) (upd_lock l f)" for f
    by (auto simp: spec_def spinlock_ops run_simps nested_def)
  then have "keeps (nested c (ie s)) rest" unfolding rest_def by (intro keeps_sq keeps_bnd keeps_if keeps_panic keeps_nested_spin)
  ultimately have "spec R (\<lambda>w t. G w t \<and> nested c (ie s) t) E (\<lambda>x. x = t \<and> nested c (ie s) x) rest
      (\<lambda>_ t. on c p 1 {l} t \<and> nested c (ie s) t)"
    by (rule spec_keeps) (use assms(2) nested_stable in blast)
  then have "meets R (\<lambda>w t. G w t \<and> nested c (ie s) t) E (\<lambda>_ t. on c p 1 {l} t \<and> nested c (ie s) t) (rest t)"
    using t(2) by (simp add: spec_def)
  then show ?thesis unfolding run by (rule meets_conseq) (auto simp: nested_def)
qed

lemma release_on:
  assumes "on c p (n + 1) H s" and "l \<in> H" and "0 \<le> n"
  shows "\<exists>t. release l s = Ok () t \<and> on c p n (H - {l}) t \<and> intena (cpus t c) = intena (cpus s c) \<and>
    (n = 0 \<longrightarrow> ie t = intena (cpus s c)) \<and> proc t = proc (s :: 'a pstate_scheme)"
proof -
  have "lk_locked (locks s l) \<noteq> 0 \<and> lk_cpu (locks s l) = Some c" "tp s = c"
    using assms by (auto simp: on_def held_def lk_holding_def)
  then show ?thesis using assms
    by (auto simp: spinlock_ops run_simps on_def held_def running_def ie_def lk_holding_def)
qed

text \<open>What \<open>sleep\<close> does when a scheduler resumes it.\<close>

lemma sleep_resume:
  assumes "parked c i u"
  shows "meets (\<lambda>_ t u. cpu_stable t u \<and> p_chan (proc u i) = p_chan (proc t i))
      (\<lambda>w t. w = Busy \<and> on c (Some i) 1 {} t \<and> p_chan (proc t i) = None) (\<lambda>_. False)
      (\<lambda>_ t. on c (Some i) 1 {lk} t \<and> p_chan (proc t i) = None \<and> intena (cpus t c) = b)
    (sq (upd_proc i (\<lambda>p. p\<lparr>p_chan := None\<rparr>)) (sq (release (ProcLock i)) (acquire lk)) (set_intena b u))"
    (is "meets ?R ?G _ _ _")
proof -
  let ?v = "(set_intena b u)\<lparr>proc := (proc u)(i := (proc u i)\<lparr>p_chan := None\<rparr>)\<rparr>"
  have v: "parked c i ?v" using assms by simp
  have b: "intena (cpus ?v c) = b" using assms by (simp add: on_def set_intena_def)
  obtain t where t: "release (ProcLock i) ?v = Ok () t" "on c (Some i) 0 {} t" "ie t = b" "p_chan (proc t i) = None"
    using release_on [of c "Some i" 0 "{ProcLock i}" ?v "ProcLock i"] v b by auto
  let ?F = "\<lambda>s :: 'a pstate_scheme. p_chan (proc s i) = None"
  have "meets ?R (\<lambda>w t. w = Busy \<and> on c (Some i) 1 {} t) (\<lambda>_. False)
      (\<lambda>_ x. on c (Some i) 1 {lk} x \<and> intena (cpus x c) = ie t) (acquire lk t)"
    by (rule acquire_first [OF t(2)]) auto
  then have "spec ?R (\<lambda>w t. w = Busy \<and> on c (Some i) 1 {} t) (\<lambda>_. False) (\<lambda>x. x = t) (acquire lk)
      (\<lambda>_ x. on c (Some i) 1 {lk} x \<and> intena (cpus x c) = b)" by (auto simp: spec_def t(3))
  moreover have "keeps ?F (acquire lk)" by (intro keeps_intros) (simp add: mach_free_def)
  ultimately have "spec ?R (\<lambda>w t. (w = Busy \<and> on c (Some i) 1 {} t) \<and> ?F t) (\<lambda>_. False) (\<lambda>x. x = t \<and> ?F x) (acquire lk)
      (\<lambda>_ x. (on c (Some i) 1 {lk} x \<and> intena (cpus x c) = b) \<and> ?F x)"
    by (rule spec_keeps) auto
  then have "meets ?R ?G (\<lambda>_. False) (\<lambda>_ x. on c (Some i) 1 {lk} x \<and> ?F x \<and> intena (cpus x c) = b) (acquire lk t)"
    using t(4) by (auto simp: spec_def elim!: meets_conseq)
  then show ?thesis using t(1) by (simp add: run_simps upd_proc_def)
qed

text \<open>With both locks held, \<open>sleep\<close> gives up the CPU without a further wait.\<close>

lemma sleep_switch:
  assumes "on c (Some i) 2 {ProcLock i, lk} s" and "lk \<noteq> ProcLock i"
  shows "\<exists>t. sq (release lk) (sq (upd_proc i (\<lambda>p. p\<lparr>p_chan := ch\<rparr>)) (sq (upd_proc i (\<lambda>p. p\<lparr>p_state := SLEEPING\<rparr>)) (sq sched m))) s
      = Switched t (\<lambda>u. m (set_intena (intena (cpus s c)) u)) \<and>
    parked c i t \<and> p_chan (proc t i) = ch \<and> p_state (proc t i) = SLEEPING"
proof -
  obtain r where r: "release lk s = Ok () r" "parked c i r" "intena (cpus r c) = intena (cpus s c)"
    using release_on [of c "Some i" 1 "{ProcLock i, lk}" s lk] assms
    by (metis (no_types, lifting) Diff_insert_absorb insert_commute insert_iff one_add_one singletonD zero_le_one)
  define t where "t = r\<lparr>proc := (proc r)(i := (proc r i)\<lparr>p_chan := ch, p_state := SLEEPING\<rparr>)\<rparr>"
  have t: "parked c i t" "p_chan (proc t i) = ch" "p_state (proc t i) = SLEEPING" "intena (cpus t c) = intena (cpus s c)"
    using r by (simp_all add: t_def)
  have c: "tp t = c" "running t = Some i" "lk_holding (locks t (ProcLock i)) (tp t)" "noff (cpus t (tp t)) = 1"
    using t(1) by (auto simp: on_def held_def)
  then have "sched t = Switched t (\<lambda>u. Ok () (set_intena (intena (cpus s c)) u))"
    using sched_run [of t i] t on_mach_ok [OF t(1)] by simp
  moreover have "sq (release lk) (sq (upd_proc i (\<lambda>p. p\<lparr>p_chan := ch\<rparr>)) (sq (upd_proc i (\<lambda>p. p\<lparr>p_state := SLEEPING\<rparr>)) (sq sched m))) s
      = sq sched m t" using r(1) by (simp add: run_simps upd_proc_def t_def)
  ultimately show ?thesis using t(1-3) by (simp add: run_simps)
qed

text \<open>
  C4: \<open>sleep(ch, lk)\<close> goes to sleep atomically with respect to a \<open>wakeup\<close> under \<open>lk\<close>. Called by process \<open>i\<close>
  with only \<open>lk\<close> held, it holds \<open>lk\<close> whenever it spins for its process lock, which a \<open>wakeup\<close> may be holding; it
  gives up \<open>lk\<close> only with the process lock held, and gives up the CPU with only the process lock held, \<open>SLEEPING\<close>
  on \<open>ch\<close>. Resumed by a scheduler, on any CPU, it clears the channel, spins only for \<open>lk\<close> and without holding
  a lock, and returns with only \<open>lk\<close> held and the interrupt state that was saved when it was called. It never
  panics.
\<close>

theorem sleep_atomic:
  assumes "on c (Some i) 1 {lk} s" and "lk \<noteq> ProcLock i"
  shows "spins_until cpu_stable (on c (Some i) 2 {lk})
    (\<lambda>t k. parked c i t \<and> p_chan (proc t i) = ch \<and> p_state (proc t i) = SLEEPING \<and> (\<forall>c' u. parked c' i u \<longrightarrow>
      meets (\<lambda>_ t u. cpu_stable t u \<and> p_chan (proc u i) = p_chan (proc t i))
        (\<lambda>w t. w = Busy \<and> on c' (Some i) 1 {} t \<and> p_chan (proc t i) = None) (\<lambda>_. False)
        (\<lambda>_ t. on c' (Some i) 1 {lk} t \<and> p_chan (proc t i) = None \<and> intena (cpus t c') = intena (cpus s c)) (k u)))
    (sleep ch lk s)"
proof -
  let ?S = "\<lambda>t k. parked c i t \<and> p_chan (proc t i) = ch \<and> p_state (proc t i) = SLEEPING \<and> (\<forall>c' u. parked c' i u \<longrightarrow>
      meets (\<lambda>_ t u. cpu_stable t u \<and> p_chan (proc u i) = p_chan (proc t i))
        (\<lambda>w t. w = Busy \<and> on c' (Some i) 1 {} t \<and> p_chan (proc t i) = None) (\<lambda>_. False)
        (\<lambda>_ t. on c' (Some i) 1 {lk} t \<and> p_chan (proc t i) = None \<and> intena (cpus t c') = intena (cpus s c)) (k u))"
  let ?rest = "sq (upd_proc i (\<lambda>p. p\<lparr>p_chan := None\<rparr>)) (sq (release (ProcLock i)) (acquire lk))"
  let ?m = "sq (release lk) (sq (upd_proc i (\<lambda>p. p\<lparr>p_chan := ch\<rparr>)) (sq (upd_proc i (\<lambda>p. p\<lparr>p_state := SLEEPING\<rparr>)) (sq sched ?rest)))"
  have go: "spins_until cpu_stable (on c (Some i) 2 {lk}) ?S (?m t)"
    if t: "on c (Some i) 2 {ProcLock i, lk} t" "nested c (intena (cpus s c)) t" for t
  proof -
    from sleep_switch [OF t(1) assms(2), of ch ?rest] obtain v where "?m t = Switched v (\<lambda>u. ?rest (set_intena (intena (cpus s c)) u))"
      "parked c i v" "p_chan (proc v i) = ch" "p_state (proc v i) = SLEEPING" using t(2) by (auto simp: nested_def)
    then show ?thesis by (simp, intro allI impI sleep_resume)
  qed
  have "spec (\<lambda>_. cpu_stable) (\<lambda>w t. w = Busy \<and> on c (Some i) 2 {lk} t) (\<lambda>_. False) (on c (Some i) 1 {lk}) (acquire (ProcLock i))
      (\<lambda>_. on c (Some i) (1 + 1) (insert (ProcLock i) {lk}))"
    by (rule spec_acquire) (use assms(2) in auto)
  then have "spec (\<lambda>_. cpu_stable) (\<lambda>w t. (w = Busy \<and> on c (Some i) 2 {lk} t) \<and> nested c (intena (cpus s c)) t) (\<lambda>_. False)
      (\<lambda>t. on c (Some i) 1 {lk} t \<and> nested c (intena (cpus s c)) t) (acquire (ProcLock i))
      (\<lambda>_ t. on c (Some i) (1 + 1) (insert (ProcLock i) {lk}) t \<and> nested c (intena (cpus s c)) t)"
    by (rule spec_keeps [OF _ keeps_nested_acquire nested_stable])
  moreover have "nested c (intena (cpus s c)) s" using assms(1) by (simp add: on_def nested_def)
  ultimately have "meets (\<lambda>_. cpu_stable) (\<lambda>w t. (w = Busy \<and> on c (Some i) 2 {lk} t) \<and> nested c (intena (cpus s c)) t) (\<lambda>_. False)
      (\<lambda>_ t. on c (Some i) 2 {ProcLock i, lk} t \<and> nested c (intena (cpus s c)) t) (acquire (ProcLock i) s)"
    using assms(1) by (auto simp: spec_def)
  then have "meets (\<lambda>_. cpu_stable) (\<lambda>w t. w = Busy \<and> on c (Some i) 2 {lk} t) (\<lambda>_. False)
      (\<lambda>_ t. spins_until cpu_stable (on c (Some i) 2 {lk}) ?S (?m t)) (acquire (ProcLock i) s)"
    by (rule meets_conseq) (use go in auto)
  moreover have "sleep ch lk s = andthen (acquire (ProcLock i) s) (\<lambda>_. ?m)"
    using curproc_run [of s i] on_mach_ok [OF assms(1)] assms(1) by (simp add: sleep_def bnd_def sq_def on_def)
  ultimately show ?thesis by (simp add: spins_until_andthen)
qed

theorem sleep_atomic_witness:
  "\<exists>t k. sleep (Some ChanTicks) TicksLock (acq TicksLock two_procs) = Switched t k \<and>
    parked 0 0 t \<and> p_chan (proc t 0) = Some ChanTicks \<and> p_state (proc t 0) = SLEEPING \<and>
    meets (\<lambda>_ t u. cpu_stable t u \<and> p_chan (proc u 0) = p_chan (proc t 0))
      (\<lambda>w t. w = Busy \<and> on 0 (Some 0) 1 {} t \<and> p_chan (proc t 0) = None) (\<lambda>_. False)
      (\<lambda>_ t. on 0 (Some 0) 1 {TicksLock} t \<and> p_chan (proc t 0) = None \<and> intena (cpus t 0) = intena (cpus (acq TicksLock two_procs) 0))
      (k (acq (ProcLock 0) two_procs))"
proof -
  have on: "on 0 (Some 0) 1 {l} (acq l two_procs)" for l
    by (auto simp: on_def two_procs_def acq_def running_def held_def lk_holding_def init_spinlock_def ie_def bit_simps SSTATUS_SIE_def)
  obtain t k where run: "sleep (Some ChanTicks) TicksLock (acq TicksLock two_procs) = Switched t k"
    using sleep_run [OF two_procs_ok(1,2,3) two_procs_ok(4) two_procs_ok(4), of TicksLock "Some ChanTicks"] by blast
  with sleep_atomic [OF on, of TicksLock "Some ChanTicks"] on [of "ProcLock 0"] show ?thesis by simp
qed

text \<open>
  C5: No wakeup is lost. In every interleaving of a process that sleeps until a condition holds with
  wakers that set the condition, whenever the condition holds and the process is asleep, a waker
  that set the condition has yet to look at the process in \<open>wakeup\<close>.
\<close>

theorem no_lost_wakeup:
  assumes "lw_reachable ch p s" and "lw_cond s" and "lw_spc s = SAway" and "p_state (lw_proc s) = SLEEPING"
  shows "\<exists>j. lw_wpc s j \<in> {WLock, WCheck} \<and> lw_lk s = Some (Waker j)"
  using lw_reachable_inv [OF assms(1)] assms(2-) unfolding lw_inv_def by (metis insertCI insertE singletonD wpc.distinct(3,5))

definition lw_asleep :: lwsys where
  "lw_asleep = (lw_start a_proc)\<lparr>lw_cond := True, lw_lk := Some (Waker 0), lw_pl := None,
     lw_proc := a_proc\<lparr>p_state := SLEEPING, p_chan := Some ChanTicks\<rparr>, lw_spc := SAway,
     lw_wpc := (\<lambda>_. WOut)(0 := WLock)\<rparr>"

lemma lw_asleep_reachable: "lw_reachable ChanTicks a_proc lw_asleep"
proof -
  let ?p = "a_proc\<lparr>p_state := RUNNING\<rparr>"
  let ?s = "\<lambda>c lk pl p pc w. \<lparr>lw_cond = c, lw_lk = lk, lw_pl = pl, lw_proc = p, lw_spc = pc, lw_wpc = w\<rparr>"
  let ?o = "\<lambda>_. WOut"
  note s = lw_step.intros [where ch = ChanTicks]
  have "lw_step ChanTicks (?s False (Some Sleeper) None ?p STest ?o) (?s False (Some Sleeper) None ?p SLock ?o)"
    using s(2) [of "?s False (Some Sleeper) None ?p STest ?o"] by simp
  moreover have "lw_step ChanTicks (?s False (Some Sleeper) None ?p SLock ?o) (?s False (Some Sleeper) (Some Sleeper) ?p SUnlk ?o)"
    using s(3) [of "?s False (Some Sleeper) None ?p SLock ?o"] by simp
  moreover have "lw_step ChanTicks (?s False (Some Sleeper) (Some Sleeper) ?p SUnlk ?o) (?s False None (Some Sleeper) ?p SChan ?o)"
    using s(4) [of "?s False (Some Sleeper) (Some Sleeper) ?p SUnlk ?o"] by simp
  moreover have "lw_step ChanTicks (?s False None (Some Sleeper) ?p SChan ?o)
      (?s False None (Some Sleeper) (?p\<lparr>p_chan := Some ChanTicks\<rparr>) SState ?o)"
    using s(5) [of "?s False None (Some Sleeper) ?p SChan ?o"] by simp
  moreover have "lw_step ChanTicks (?s False None (Some Sleeper) (?p\<lparr>p_chan := Some ChanTicks\<rparr>) SState ?o)
      (?s False None (Some Sleeper) (?p\<lparr>p_chan := Some ChanTicks, p_state := SLEEPING\<rparr>) SSched ?o)"
    using s(6) [of "?s False None (Some Sleeper) (?p\<lparr>p_chan := Some ChanTicks\<rparr>) SState ?o"] by simp
  moreover have "lw_step ChanTicks (?s False None (Some Sleeper) (?p\<lparr>p_chan := Some ChanTicks, p_state := SLEEPING\<rparr>) SSched ?o)
      (?s False None None (?p\<lparr>p_chan := Some ChanTicks, p_state := SLEEPING\<rparr>) SAway ?o)"
    using s(7) [of "?s False None (Some Sleeper) (?p\<lparr>p_chan := Some ChanTicks, p_state := SLEEPING\<rparr>) SSched ?o"] by simp
  moreover have "lw_step ChanTicks (?s False None None (?p\<lparr>p_chan := Some ChanTicks, p_state := SLEEPING\<rparr>) SAway ?o)
      (?s False (Some (Waker 0)) None (?p\<lparr>p_chan := Some ChanTicks, p_state := SLEEPING\<rparr>) SAway (?o(0 := WCond)))"
    using s(12) [of "?s False None None (?p\<lparr>p_chan := Some ChanTicks, p_state := SLEEPING\<rparr>) SAway ?o" 0] by simp
  moreover have "lw_step ChanTicks
      (?s False (Some (Waker 0)) None (?p\<lparr>p_chan := Some ChanTicks, p_state := SLEEPING\<rparr>) SAway (?o(0 := WCond)))
      (?s True (Some (Waker 0)) None (?p\<lparr>p_chan := Some ChanTicks, p_state := SLEEPING\<rparr>) SAway (?o(0 := WLock)))"
    using s(13) [of "?s False (Some (Waker 0)) None (?p\<lparr>p_chan := Some ChanTicks, p_state := SLEEPING\<rparr>) SAway (?o(0 := WCond))" 0] by simp
  moreover have "?s False (Some Sleeper) None ?p STest ?o = lw_start a_proc"
    and "?s True (Some (Waker 0)) None (?p\<lparr>p_chan := Some ChanTicks, p_state := SLEEPING\<rparr>) SAway (?o(0 := WLock)) = lw_asleep"
    by (simp_all add: lw_start_def lw_asleep_def a_proc_def)
  ultimately show ?thesis unfolding lw_reachable_def by (metis (no_types, lifting) converse_rtranclp_into_rtranclp rtranclp.rtrancl_refl)
qed

theorem no_lost_wakeup_witness:
  "\<exists>j. lw_wpc lw_asleep j \<in> {WLock, WCheck} \<and> lw_lk lw_asleep = Some (Waker j)"
  by (rule no_lost_wakeup [OF lw_asleep_reachable]) (simp_all add: lw_asleep_def a_proc_def)

lemma sched_hands_over:
  assumes "mach_ok s" and "finite (held s)" and "int (card (held s)) \<le> noff (cpus s (tp s))"
  shows "meets R (\<lambda>_ t. \<exists>i. parked (tp s) i t \<and> p_state (proc t i) \<noteq> RUNNING) (\<lambda>_. True) (\<lambda>_ _. True) (sched s)"
proof (cases "running s")
  case None
  then show ?thesis using assms(1) by (simp add: sched_def curproc_def run_simps)
next
  case (Some i)
  show ?thesis
  proof (cases "ProcLock i \<in> held s \<and> noff (cpus s (tp s)) = 1 \<and> p_state (proc s i) \<noteq> RUNNING")
    case True
    then have "card (held s) = 1" using assms(2,3) card_gt_0_iff [of "held s"] by auto
    with True have "held s = {ProcLock i}" by (metis card_1_singletonE singletonD)
    then have "parked (tp s) i s" using True assms(1) Some by (auto simp: on_def mach_ok_def)
    then show ?thesis using True assms(1) Some by (subst sched_run) (auto simp: held_def)
  next
    case False
    then show ?thesis using assms(1) Some
      by (auto simp: sched_def run_simps proc_ops holding_def mycpu_def cpuid_def held_def)
  qed
qed

text \<open>
  C17: The scheduler and the processes agree on how the CPU changes hands. The scheduler never returns and
  never panics: each time it switches to a process, that process is \<open>RUNNING\<close>, its lock is the only
  lock held, the CPU records it as the current process and interrupts are off, provided that the CPU
  comes back from the process with that lock as the only one held. And that is how a process gives
  it up: whenever \<open>sched\<close> switches away, the current process's lock is the only lock its CPU holds,
  interrupts are off, and the process is no longer \<open>RUNNING\<close>; otherwise \<open>sched\<close> panics.
\<close>

theorem scheduler_handover:
  "spec (sched_rely c) (sched_guar c) (\<lambda>_. False) (\<lambda>s. tp s = c \<and> noff (cpus s c) = 0 \<and> held s = {})
     (scheduler :: (unit, 'z pstate_scheme) kern) (\<lambda>_ _. False)
   \<and> (mach_ok (s :: 'z pstate_scheme) \<and> finite (held s) \<and> int (card (held s)) \<le> noff (cpus s (tp s)) \<longrightarrow>
     meets R (\<lambda>_ t. \<exists>i. parked (tp s) i t \<and> p_state (proc t i) \<noteq> RUNNING) (\<lambda>_. True) (\<lambda>_ _. True) (sched s))"
  using scheduler_spec sched_hands_over by blast

theorem scheduler_handover_witness:
  "meets (sched_rely 0) (sched_guar 0) (\<lambda>_. False) (\<lambda>_ _. False) (scheduler two_procs)
   \<and> meets (\<lambda>_ _ _. True) (\<lambda>_ t. \<exists>i. parked 0 i t \<and> p_state (proc t i) \<noteq> RUNNING) (\<lambda>_. True) (\<lambda>_ _. True)
      (sched (acq (ProcLock 0) two_procs))"
proof -
  have h: "held (acq (ProcLock 0) two_procs) = {ProcLock 0}"
    by (auto simp: held_def lk_holding_def two_procs_def init_spinlock_def)
  have "tp two_procs = 0" "noff (cpus two_procs 0) = 0" by (simp_all add: two_procs_def)
  with scheduler_handover [of 0 two_procs "\<lambda>_ _ _. True"] scheduler_handover [of 0 "acq (ProcLock 0) two_procs" "\<lambda>_ _ _. True"]
    two_procs_ok h show ?thesis by (simp add: spec_def)
qed

text \<open>
  C16: Sleep locks exclude each other. As long as another process holds the lock, \<open>acquiresleep\<close> does not
  return, does not change the lock and does not panic, however often it is woken; every time it waits
  it has given up the CPU properly.
\<close>

theorem sleeplock_exclusive:
  assumes "sl_locked k"
  shows "spec (\<lambda>w t u. proc_rely i w t u \<and> sleeplocks u l = sleeplocks t l)
    (\<lambda>w t. proc_guar i w t \<and> sleeplocks t l = k) (\<lambda>_. False)
    (\<lambda>s. runs i {} s \<and> sleeplocks s l = k) (acquiresleep l) (\<lambda>_ _. False)"
  using assms by (rule acquiresleep_held)

theorem sleeplock_exclusive_witness:
  "\<exists>s :: pstate. runs 0 {} s \<and> meets (\<lambda>w t u. proc_rely 0 w t u \<and> sleeplocks u (BufSleep 3) = sleeplocks t (BufSleep 3))
    (\<lambda>w t. proc_guar 0 w t \<and> sleeplocks t (BufSleep 3) = \<lparr>sl_locked = True, sl_name = ''buffer'', sl_pid = 2\<rparr>) (\<lambda>_. False)
    (\<lambda>_ _. False) (acquiresleep (BufSleep 3) s)"
proof -
  let ?k = "\<lparr>sl_locked = True, sl_name = ''buffer'', sl_pid = 2\<rparr>"
  let ?s = "two_procs\<lparr>sleeplocks := (\<lambda>_. ?k)\<rparr>"
  have "runs 0 {} two_procs" using two_procs_ok by (auto simp: runs_def on_def)
  then have "runs 0 {} ?s" by simp
  with sleeplock_exclusive [where 'a = unit, of ?k 0 "BufSleep 3"] show ?thesis
    unfolding spec_def by (intro exI [of _ ?s]) simp
qed

end
