(* ===== verification/Guarantee.thy ===== *)
theory Guarantee
  imports Sched
begin

text \<open>
  Rely-guarantee reasoning about pairs of states. The code of a process between two waits is a segment; what other
  CPUs need of it relates the state in which the segment ends to the one in which it began. The instance
  here is the discipline of a spin lock: a segment that begins while another CPU holds the lock leaves the lock, and
  the data that it protects, alone.
\<close>

subsection \<open>Segments\<close>

text \<open>
  \<open>obeys R G E Q s r\<close>, for the outcome \<open>r\<close> of a segment that began in \<open>s\<close>: when it waits in a state \<open>t\<close>, the
  guarantee \<open>G w s t\<close> holds of the segment, and from every state in which the rest of the system may resume it
  according to \<open>R\<close> a new segment begins, which obeys the same; when it returns \<open>a\<close> in \<open>t\<close>, \<open>Q a s t\<close> holds of the last
  segment; it stops only in ways that \<open>E\<close> allows.
\<close>

coinductive obeys :: "(wait \<Rightarrow> 's \<Rightarrow> 's \<Rightarrow> bool) \<Rightarrow> (wait \<Rightarrow> 's \<Rightarrow> 's \<Rightarrow> bool) \<Rightarrow> (stop \<Rightarrow> bool) \<Rightarrow>
    ('a \<Rightarrow> 's \<Rightarrow> 's \<Rightarrow> bool) \<Rightarrow> 's \<Rightarrow> ('a, 's) outcome \<Rightarrow> bool" for R G E Q where
  obeys_Ok: "Q a s t \<Longrightarrow> obeys R G E Q s (Ok a t)"
| obeys_Wait: "G w s t \<Longrightarrow> (\<And>u. R w t u \<Longrightarrow> obeys R G E Q u (k u)) \<Longrightarrow> obeys R G E Q s (Wait w t k)"
| obeys_Stop: "E e \<Longrightarrow> obeys R G E Q s (Stop e)"

inductive_simps obeys_simps [simp]:
  "obeys R G E Q s (Ok a t)"
  "obeys R G E Q s (Wait w t k)"
  "obeys R G E Q s (Stop e)"

lemma obeys_conseq:
  assumes "obeys R G E Q s r"
    and "\<And>a s t. Q a s t \<Longrightarrow> Q' a s t" and "\<And>w s t. G w s t \<Longrightarrow> G' w s t" and "\<And>e. E e \<Longrightarrow> E' e"
    and "\<And>w t u. R' w t u \<Longrightarrow> R w t u"
  shows "obeys R' G' E' Q' s r"
  using assms(1)
proof (coinduction arbitrary: s r rule: obeys.coinduct)
  case (obeys s r)
  then show ?case using assms(2-) by (cases r) auto
qed

lemma obeys_andthen:
  assumes "obeys R G E (\<lambda>a s t. obeys R G E Q s (f a t)) s r"
  shows "obeys R G E Q s (andthen r f)"
proof -
  have "(\<exists>r. x = andthen r f \<and> obeys R G E (\<lambda>a s t. obeys R G E Q s (f a t)) s r) \<or> obeys R G E Q s x \<Longrightarrow> obeys R G E Q s x" for s x
  proof (coinduction arbitrary: s x rule: obeys.coinduct)
    case (obeys s x)
    show ?case
    proof (cases "obeys R G E Q s x")
      case True
      then show ?thesis by (cases x) auto
    next
      case False
      with obeys obtain r where r: "x = andthen r f" "obeys R G E (\<lambda>a s t. obeys R G E Q s (f a t)) s r" by blast
      show ?thesis
      proof (cases r)
        case (Ok a t)
        then have "obeys R G E Q s x" using r by simp
        with False show ?thesis by simp
      qed (use r in auto)
    qed
  qed
  then show ?thesis using assms by blast
qed

text \<open>What holds of the states at the ends of segments, and what relates them to their beginnings, may be shown separately.\<close>

lemma obeys_meets:
  assumes "meets R G E Q r" and "obeys R' G' E' Q' s r" and "\<And>w t u. R w t u \<Longrightarrow> R' w t u"
  shows "obeys R (\<lambda>w s t. G w t \<and> G' w s t) (\<lambda>e. E e \<and> E' e) (\<lambda>a s t. Q a t \<and> Q' a s t) s r"
  using assms(1,2)
proof (coinduction arbitrary: s r rule: obeys.coinduct)
  case (obeys s r)
  then show ?case using assms(3) by (cases r) auto
qed

subsection \<open>Relations that hold along every segment\<close>

text \<open>\<open>rkeeps X m\<close>: if \<open>X\<close> relates the beginning of the segment to the state in which \<open>m\<close> is called, it does so at the end
  of this segment and of every later one.\<close>

definition rkeeps :: "('s \<Rightarrow> 's \<Rightarrow> bool) \<Rightarrow> ('a, 's) kern \<Rightarrow> bool" where
  "rkeeps X m \<longleftrightarrow> (\<forall>s0 s. X s0 s \<longrightarrow> obeys (\<lambda>_ _ _. True) (\<lambda>_. X) (\<lambda>_. True) (\<lambda>_. X) s0 (m s))"

named_theorems rkeeps_intros \<open>relations kept along segments, one rule per combinator and operation\<close>

lemma rkeeps_prim [rkeeps_intros]:
  "rkeeps X (ret a)" "rkeeps X (panic e)" "rkeeps X fault" "rkeeps X (gets f)" "rkeeps X (guardM b)"
  by (auto simp: rkeeps_def run_simps)

lemma rkeeps_modify: "(\<And>s0 s. X s0 s \<Longrightarrow> X s0 (f s)) \<Longrightarrow> rkeeps X (modify f)"
  by (simp add: rkeeps_def run_simps)

lemma rkeeps_bnd [rkeeps_intros]: "rkeeps X m \<Longrightarrow> (\<And>a. rkeeps X (f a)) \<Longrightarrow> rkeeps X (bnd m f)"
  unfolding rkeeps_def bnd_def
  by (intro allI impI obeys_andthen) (rule obeys_conseq [where Q = "\<lambda>_. X"], auto)

lemma rkeeps_sq [rkeeps_intros]: "rkeeps X m \<Longrightarrow> rkeeps X n \<Longrightarrow> rkeeps X (sq m n)"
  unfolding sq_def by (rule rkeeps_bnd)

lemma rkeeps_if [rkeeps_intros]: "(b \<Longrightarrow> rkeeps X m) \<Longrightarrow> (\<not> b \<Longrightarrow> rkeeps X n) \<Longrightarrow> rkeeps X (if b then m else n)"
  by simp

lemma rkeeps_whenM [rkeeps_intros]: "rkeeps X m \<Longrightarrow> rkeeps X (whenM b m)"
  by (simp add: whenM_def rkeeps_prim)

lemma rkeeps_forM [rkeeps_intros]: "(\<And>i. rkeeps X (f i)) \<Longrightarrow> rkeeps X (forM is f)"
  by (induction "is") (simp_all add: rkeeps_prim rkeeps_sq)

lemma rkeeps_option [rkeeps_intros]:
  "rkeeps X m \<Longrightarrow> (\<And>a. rkeeps X (f a)) \<Longrightarrow> rkeeps X (case x of None \<Rightarrow> m | Some a \<Rightarrow> f a)"
  by (cases x) auto

subsection \<open>Data protected by a lock\<close>

text \<open>
  \<open>guarded l v w s t\<close>: if another CPU held the lock \<open>l\<close> at the beginning \<open>s\<close> of the segment, it still holds it at the end \<open>t\<close>,
  and the data \<open>v\<close> is the same. The data \<open>w\<close> is the same in any case.
\<close>

definition guarded :: "lockid \<Rightarrow> ('z mach_scheme \<Rightarrow> 'v) \<Rightarrow> ('z mach_scheme \<Rightarrow> 'w) \<Rightarrow> 'z mach_scheme \<Rightarrow> 'z mach_scheme \<Rightarrow> bool" where
  "guarded l v w s t \<longleftrightarrow> tp t = tp s \<and> w t = w s \<and>
     (\<forall>c. c \<noteq> tp s \<longrightarrow> lk_holding (locks s l) c \<longrightarrow> lk_holding (locks t l) c \<and> v t = v s)"

lemma guarded_refl [simp]: "guarded l v w s s"
  by (simp add: guarded_def)

text \<open>A CPU that holds the lock may do with the data what it likes.\<close>

lemma guarded_own:
  assumes "guarded l v w s0 s" and "l \<in> held s" and "tp t = tp s" and "w t = w s"
  shows "guarded l v w s0 t"
  using assms by (auto simp: guarded_def held_def lk_holding_def)

definition blind :: "('z pstate_scheme \<Rightarrow> 'v) \<Rightarrow> bool" where
  "blind v \<longleftrightarrow> (\<forall>s f g h j k m. v (locks_update f s) = v s \<and> v (cpus_update g s) = v s \<and> v (sstatus_update h s) = v s \<and>
     v (proc_update j s) = v s \<and> v (mem_update k s) = v s \<and> v (freelist_update m s) = v s)"

lemma blindD: "blind v \<Longrightarrow> v (locks_update f s) = v s" "blind v \<Longrightarrow> v (cpus_update g s) = v s"
  "blind v \<Longrightarrow> v (sstatus_update h s) = v s" "blind v \<Longrightarrow> v (proc_update j s) = v s"
  "blind v \<Longrightarrow> v (mem_update k s) = v s" "blind v \<Longrightarrow> v (freelist_update m s) = v s"
  by (simp_all add: blind_def)

lemma rkeeps_data [rkeeps_intros]:
  assumes "blind v" and "blind w"
  shows "rkeeps (guarded l v w) (upd_cpu c f)" "rkeeps (guarded l v w) (w_sstatus x)" "rkeeps (guarded l v w) (upd_proc i g)"
    "rkeeps (guarded l v w) (upd_mem h)" "rkeeps (guarded l v w) (modify (\<lambda>s. s\<lparr>freelist := p\<rparr>))"
  unfolding upd_cpu_def w_sstatus_def upd_proc_def upd_mem_def
  by (rule rkeeps_modify, simp add: guarded_def blindD [OF assms(1)] blindD [OF assms(2)])+

lemma rkeeps_reads [rkeeps_intros]:
  "rkeeps X r_sstatus" "rkeeps X cpuid" "rkeeps X mycpu" "rkeeps X intr_get" "rkeeps X (holding l)" "rkeeps X (getp i f)"
  unfolding r_sstatus_def cpuid_def mycpu_def intr_get_def holding_def getp_def by (intro rkeeps_intros)+

lemma rkeeps_interrupts [rkeeps_intros]:
  assumes "blind v" and "blind w"
  shows "rkeeps (guarded l v w) intr_on" "rkeeps (guarded l v w) intr_off" "rkeeps (guarded l v w) push_off" "rkeeps (guarded l v w) pop_off"
  unfolding intr_on_def intr_off_def push_off_def pop_off_def by (intro rkeeps_intros assms)+

lemma rkeeps_swtch [rkeeps_intros]: "rkeeps (guarded l v w) swtch"
  by (simp add: rkeeps_def swtch_run)

lemma spin_swap_guarded:
  assumes "blind v" and "blind w" and "guarded l v w s0 s"
  shows "obeys (\<lambda>_ _ _. True) (\<lambda>_. guarded l v w) (\<lambda>_. True)
    (\<lambda>_ s0 t. guarded l v w s0 t \<and> (l' = l \<longrightarrow> (\<forall>c. c \<noteq> tp s0 \<longrightarrow> \<not> lk_holding (locks s0 l) c))) s0 (spin_swap l' s)"
proof -
  have "\<exists>s. r = spin_swap l' s \<and> guarded l v w s0 s \<Longrightarrow> obeys (\<lambda>_ _ _. True) (\<lambda>_. guarded l v w) (\<lambda>_. True)
    (\<lambda>_ s0 t. guarded l v w s0 t \<and> (l' = l \<longrightarrow> (\<forall>c. c \<noteq> tp s0 \<longrightarrow> \<not> lk_holding (locks s0 l) c))) s0 r" for s0 r
  proof (coinduction arbitrary: s0 r rule: obeys.coinduct)
    case (obeys s0 r)
    then obtain s where r: "r = spin_swap l' s" and s: "guarded l v w s0 s" by blast
    have swap: "guarded l v w s0 (swap_locked l' s)"
      using s by (auto simp: guarded_def swap_locked_def lk_swap_def lk_holding_def blindD [OF assms(1)] blindD [OF assms(2)])
    show ?case
    proof (cases "lk_locked (locks s l') = 0")
      case True
      then have "l' = l \<longrightarrow> (\<forall>c. c \<noteq> tp s0 \<longrightarrow> \<not> lk_holding (locks s0 l) c)" using s by (auto simp: guarded_def lk_holding_def)
      then show ?thesis using True swap by (simp add: r spin_swap_run)
    next
      case False
      then show ?thesis using swap by (auto simp: r spin_swap_run)
    qed
  qed
  then show ?thesis using assms(3) by blast
qed

lemma rkeeps_acquire [rkeeps_intros]:
  assumes "blind v" and "blind w"
  shows "rkeeps (guarded l v w) (acquire l')"
proof -
  have "rkeeps (guarded l v w) (sq (spin_swap l') (bnd mycpu (\<lambda>c. upd_lock l' (\<lambda>k. k\<lparr>lk_cpu := Some c\<rparr>))))"
    unfolding rkeeps_def sq_def bnd_def
    by (intro allI impI obeys_andthen, rule obeys_conseq [OF spin_swap_guarded [OF assms]])
      (auto simp: mycpu_def cpuid_def upd_lock_def run_simps guarded_def blindD [OF assms(1)] blindD [OF assms(2)])
  then show ?thesis unfolding acquire_def
    by (intro rkeeps_sq [of _ push_off] rkeeps_bnd rkeeps_if rkeeps_reads rkeeps_prim rkeeps_interrupts assms)
qed

lemma rkeeps_release [rkeeps_intros]:
  assumes "blind v" and "blind w"
  shows "rkeeps (guarded l v w) (release l')"
  unfolding rkeeps_def
proof (intro allI impI)
  fix s0 s :: "'a pstate_scheme" assume s: "guarded l v w s0 s"
  let ?X = "\<lambda>_. guarded l v w"
  show "obeys (\<lambda>_ _ _. True) ?X (\<lambda>_. True) ?X s0 (release l' s)"
  proof (cases "lk_holding (locks s l') (tp s)")
    case True
    let ?t = "s\<lparr>locks := (locks s)(l' := (locks s l')\<lparr>lk_cpu := None, lk_locked := 0\<rparr>)\<rparr>"
    have "guarded l v w s0 ?t"
    proof (cases "l' = l")
      case True
      then show ?thesis using s \<open>lk_holding (locks s l') (tp s)\<close> by (intro guarded_own [OF s]) (auto simp: held_def blindD [OF assms(2)])
    next
      case False
      then show ?thesis using s by (auto simp: guarded_def blindD [OF assms(1)] blindD [OF assms(2)])
    qed
    moreover have "release l' s = pop_off ?t"
      using True by (simp add: release_def holding_def mycpu_def cpuid_def upd_lock_def run_simps)
    ultimately show ?thesis using rkeeps_interrupts(4) [OF assms, of l] by (simp add: rkeeps_def)
  qed (simp add: release_def holding_def mycpu_def cpuid_def run_simps)
qed

lemma rkeeps_procs [rkeeps_intros]:
  assumes "blind v" and "blind w"
  shows "rkeeps (guarded l v w) myproc" "rkeeps (guarded l v w) curproc" "rkeeps (guarded l v w) sched"
    "rkeeps (guarded l v w) (sleep ch lk)" "rkeeps (guarded l v w) (wakeup ch)" "rkeeps (guarded l v w) (killed i)"
    "rkeeps (guarded l v w) (kfree pa)"
proof -
  show p: "rkeeps (guarded l v w) myproc" unfolding myproc_def by (intro rkeeps_intros assms)
  then show "rkeeps (guarded l v w) curproc" unfolding curproc_def by (intro rkeeps_intros assms)
  then show "rkeeps (guarded l v w) sched" unfolding sched_def by (intro rkeeps_intros assms)
  then show "rkeeps (guarded l v w) (sleep ch lk)" using \<open>rkeeps (guarded l v w) curproc\<close>
    unfolding sleep_def by (intro rkeeps_intros assms)
  show "rkeeps (guarded l v w) (wakeup ch)" unfolding wakeup_def wakeup_at_def using p by (intro rkeeps_intros assms)
  show "rkeeps (guarded l v w) (killed i)" unfolding killed_def by (intro rkeeps_intros assms)
  show "rkeeps (guarded l v w) (kfree pa)" unfolding kfree_def by (intro rkeeps_intros assms)
qed

subsection \<open>Specifications of processes with a guarantee\<close>

text \<open>
  \<open>guar_spec i E X P m Q\<close>: as \<open>proc_spec\<close>, and the relation \<open>X\<close> holds along every segment.
\<close>

definition guar_spec :: "nat \<Rightarrow> (stop \<Rightarrow> bool) \<Rightarrow> ('z pstate_scheme \<Rightarrow> 'z pstate_scheme \<Rightarrow> bool) \<Rightarrow> ('z pstate_scheme \<Rightarrow> bool) \<Rightarrow>
    ('a, 'z pstate_scheme) kern \<Rightarrow> ('a \<Rightarrow> 'z pstate_scheme \<Rightarrow> bool) \<Rightarrow> bool" where
  "guar_spec i E X P m Q \<longleftrightarrow> (\<forall>s0 s. X s0 s \<longrightarrow> P s \<longrightarrow>
     obeys (proc_rely i) (\<lambda>w s t. proc_guar i w t \<and> X s t) E (\<lambda>a s t. Q a t \<and> X s t) s0 (m s))"

lemma guar_op:
  assumes "spec (proc_rely i) (proc_guar i) E P m Q" and "rkeeps X m"
  shows "guar_spec i E X P m Q"
  unfolding guar_spec_def
proof (intro allI impI)
  fix s0 s :: "'a pstate_scheme" assume "X s0 s" "P s"
  with assms have "meets (proc_rely i) (proc_guar i) E Q (m s)" "obeys (\<lambda>_ _ _. True) (\<lambda>_. X) (\<lambda>_. True) (\<lambda>_. X) s0 (m s)"
    by (simp_all add: spec_def rkeeps_def)
  from obeys_meets [OF this] show "obeys (proc_rely i) (\<lambda>w s t. proc_guar i w t \<and> X s t) E (\<lambda>a s t. Q a t \<and> X s t) s0 (m s)"
    by (rule obeys_conseq) auto
qed

lemma guar_proc: "proc_spec i P m Q \<Longrightarrow> rkeeps X m \<Longrightarrow> guar_spec i E X P m Q"
  by (rule guar_op) (auto simp: spec_def elim!: meets_conseq)

lemma guar_modify:
  "(\<And>s. P s \<Longrightarrow> Q () (f s)) \<Longrightarrow> (\<And>s0 s. P s \<Longrightarrow> X s0 s \<Longrightarrow> X s0 (f s)) \<Longrightarrow> guar_spec i E X P (modify f) Q"
  by (simp add: guar_spec_def run_simps)

lemma guar_bnd:
  assumes "guar_spec i E X P m M" and "\<And>a. guar_spec i E X (M a) (f a) Q"
  shows "guar_spec i E X P (bnd m f) Q"
  unfolding guar_spec_def bnd_def
proof (intro allI impI obeys_andthen)
  fix s0 s :: "'a pstate_scheme" assume "X s0 s" "P s"
  with assms(1) have "obeys (proc_rely i) (\<lambda>w s t. proc_guar i w t \<and> X s t) E (\<lambda>a s t. M a t \<and> X s t) s0 (m s)"
    by (simp add: guar_spec_def)
  then show "obeys (proc_rely i) (\<lambda>w s t. proc_guar i w t \<and> X s t) E
      (\<lambda>a s t. obeys (proc_rely i) (\<lambda>w s t. proc_guar i w t \<and> X s t) E (\<lambda>a s t. Q a t \<and> X s t) s (f a t)) s0 (m s)"
    by (rule obeys_conseq) (use assms(2) in \<open>auto simp: guar_spec_def\<close>)
qed

lemma guar_curproc:
  assumes "guar_spec i E X (runs i H) (f i) Q" and "rkeeps X curproc"
  shows "guar_spec i E X (runs i H) (bnd curproc f) Q"
proof -
  have "proc_spec i (runs i H) curproc (\<lambda>a s. a = i \<and> runs i H s)"
    unfolding curproc_def by (rule spec_bnd [OF proc_myproc]) (auto simp: spec_def run_simps)
  then have "guar_spec i E X (runs i H) curproc (\<lambda>a s. a = i \<and> runs i H s)" by (rule guar_proc [OF _ assms(2)])
  then show ?thesis by (rule guar_bnd) (use assms(1) in \<open>auto simp: guar_spec_def\<close>)
qed

lemma guar_sq: "guar_spec i E X P m (\<lambda>_. M) \<Longrightarrow> guar_spec i E X M n Q \<Longrightarrow> guar_spec i E X P (sq m n) Q"
  unfolding sq_def by (rule guar_bnd)

lemma guar_if:
  "(b \<Longrightarrow> guar_spec i E X P m Q) \<Longrightarrow> (\<not> b \<Longrightarrow> guar_spec i E X P n Q) \<Longrightarrow> guar_spec i E X P (if b then m else n) Q"
  by simp

lemma guar_ret: "(\<And>s. P s \<Longrightarrow> Q a s) \<Longrightarrow> guar_spec i E X P (ret a) Q"
  by (simp add: guar_spec_def run_simps)

lemma guar_gets: "(\<And>s. P s \<Longrightarrow> Q (f s) s) \<Longrightarrow> guar_spec i E X P (gets f) Q"
  by (simp add: guar_spec_def run_simps)

lemma proc_busy: "proc_guar i Busy t" "proc_rely i Busy t u = cpu_stable t u"
  by (simp_all add: proc_guar_def proc_rely_def)

lemma guar_again:
  assumes body: "guar_spec i E X J b (\<lambda>x t. case x of Inl a \<Rightarrow> Q a t | Inr _ \<Rightarrow> J t)"
    and stable: "\<And>t u. J t \<Longrightarrow> cpu_stable t u \<Longrightarrow> J u" and refl: "\<And>s. X s s"
  shows "guar_spec i E X J (again b) Q"
proof -
  let ?B = "\<lambda>x s t. (case x of Inl a \<Rightarrow> Q a t | Inr _ \<Rightarrow> J t) \<and> X s t" and ?G = "\<lambda>w s t. proc_guar i w t \<and> X s t"
  have b: "obeys (proc_rely i) ?G E ?B s0 (b s)" if "J s" "X s0 s" for s0 s using body that by (simp add: guar_spec_def)
  have "(\<exists>r. x = again_from b r \<and> obeys (proc_rely i) ?G E ?B s r) \<Longrightarrow> obeys (proc_rely i) ?G E (\<lambda>a s t. Q a t \<and> X s t) s x" for s x
  proof (coinduction arbitrary: s x rule: obeys.coinduct)
    case (obeys s x)
    then obtain r where x: "x = again_from b r" and r: "obeys (proc_rely i) ?G E ?B s r" by blast
    show ?case
    proof (cases r)
      case (Ok y t)
      show ?thesis
      proof (cases y)
        case (Inl a)
        then show ?thesis using Ok x r by (simp add: again_from_simps)
      next
        case (Inr z)
        then have J: "J t" "X s t" using Ok r by simp_all
        show ?thesis
        proof (cases "b t")
          case (Ok y' v)
          then show ?thesis using \<open>r = Ok y t\<close> Inr x b [OF J] stable refl
            by (cases y') (auto simp: again_from_simps proc_busy intro!: exI [of _ "b _"] b)
        qed (use \<open>r = Ok y t\<close> Inr x b [OF J] in \<open>auto simp: again_from_simps\<close>)
      qed
    qed (use x r in \<open>auto simp: again_from_simps\<close>)
  qed
  then show ?thesis unfolding guar_spec_def again_def using b by blast
qed

end
