(* ===== verification/Quiet.thy ===== *)
theory Quiet
  imports Sched
begin

text \<open>
  Total correctness in a quiet system: one process runs, no other CPU holds a spin lock, and while the
  process sleeps only what it waits for happens. \<open>does D C i L m N a L' N'\<close> says that \<open>m\<close>, run by
  process \<open>i\<close> with the spin locks \<open>L\<close> held and data state \<open>N\<close>, always returns \<open>a\<close> with the locks \<open>L'\<close> held and
  data state \<open>N'\<close>, neither panics nor spins, and that \<open>C\<close> holds of the data whenever it sleeps. \<open>D\<close> is what
  a sleep does to the data.
\<close>

subsection \<open>Data states\<close>

text \<open>\<open>norm s\<close> forgets which CPU runs what, the locks' state and which processes are runnable.\<close>

definition norm :: "'z pstate_scheme \<Rightarrow> 'z pstate_scheme" where
  "norm s = s\<lparr>locks := (\<lambda>_. init_spinlock ''''), cpus := (\<lambda>_. \<lparr>cpu_proc = None, noff = 0, intena = False\<rparr>),
     sstatus := (\<lambda>_. 0), tp := 0, proc := (\<lambda>j. (proc s j)\<lparr>p_state := UNUSED, p_chan := None\<rparr>)\<rparr>"

primrec acqs :: "lockid list \<Rightarrow> 'z mach_scheme \<Rightarrow> 'z mach_scheme" where
  "acqs [] s = s"
| "acqs (l # ls) s = acq l (acqs ls s)"

text \<open>Process \<open>i\<close> runs outside every critical section and all spin locks are free.\<close>

definition awake :: "nat \<Rightarrow> 'z mach_scheme \<Rightarrow> bool" where
  "awake i s \<longleftrightarrow> running s = Some i \<and> noff (cpus s (tp s)) = 0 \<and> (\<forall>l. lock_free s l)"

definition quiet :: "nat \<Rightarrow> lockid list \<Rightarrow> 'z mach_scheme \<Rightarrow> bool" where
  "quiet i L s \<longleftrightarrow> distinct L \<and> (\<exists>s0. s = acqs L s0 \<and> mach_ok s0 \<and> awake i s0)"

lemma norm_data [simp]:
  "mem (norm s) = mem s" "freelist (norm s) = freelist s" "kernel_end (norm s) = kernel_end s"
  "kernel_pagetable (norm s) = kernel_pagetable s" "trampoline (norm s) = trampoline s"
  "initproc (norm s) = initproc s" "nextpid (norm s) = nextpid s" "sleeplocks (norm s) = sleeplocks s"
  "forkret_addr (norm s) = forkret_addr s"
  "proc (norm s) j = (proc s j)\<lparr>p_state := UNUSED, p_chan := None\<rparr>"
  by (simp_all add: norm_def)

lemma norm_mach [simp]:
  "norm (locks_update f s) = norm s" "norm (cpus_update g s) = norm s" "norm (sstatus_update h s) = norm s"
  "norm (tp_update k s) = norm s" "norm (acq l s) = norm s"
  by (simp_all add: norm_def acq_def)

lemma norm_acqs [simp]: "norm (acqs L s) = norm s"
  by (induction L) simp_all

lemma norm_upd [simp]:
  "norm (mem_update f s) = mem_update f (norm s)" "norm (freelist_update g s) = freelist_update g (norm s)"
  "norm (sleeplocks_update h s) = sleeplocks_update h (norm s)" "norm (initproc_update k s) = initproc_update k (norm s)"
  "norm (nextpid_update n s) = nextpid_update n (norm s)"
  by (simp_all add: norm_def)

lemma norm_idem [simp]: "norm (norm s) = norm s"
  by (simp add: norm_def)

lemma norm_sched [simp]:
  "norm (s\<lparr>proc := (proc s)(i := (proc s i)\<lparr>p_state := st\<rparr>)\<rparr>) = norm s"
  "norm (s\<lparr>proc := (proc s)(i := (proc s i)\<lparr>p_chan := ch\<rparr>)\<rparr>) = norm s"
  "norm (asleep i ch s) = norm s" "norm (set_ie b s) = norm s"
  "norm (s\<lparr>proc := woken ch me A (proc s)\<rparr>) = norm s"
  by (auto simp: norm_def asleep_def set_ie_def set_intena_def woken_def fun_eq_iff)

lemma quiet_mach_ok: "quiet i L s \<Longrightarrow> mach_ok s"
proof -
  have "mach_ok (acqs L s0)" if "mach_ok s0" for s0 :: "'a mach_scheme" using that by (induction L) simp_all
  then show "quiet i L s \<Longrightarrow> mach_ok s" by (auto simp: quiet_def)
qed

lemma lock_free_acqs [simp]: "lock_free (acqs L s) l \<longleftrightarrow> l \<notin> set L \<and> lock_free s l"
  by (induction L) auto

lemma running_acqs [simp]: "running (acqs L s) = running s"
  by (induction L) (simp_all add: running_def)

lemma quiet_running: "quiet i L s \<Longrightarrow> running s = Some i"
  by (auto simp: quiet_def awake_def)

lemma quiet_free: "quiet i L s \<Longrightarrow> lock_free s l \<longleftrightarrow> l \<notin> set L"
  by (auto simp: quiet_def awake_def)

lemma quiet_acq: "quiet i L s \<Longrightarrow> l \<notin> set L \<Longrightarrow> quiet i (l # L) (acq l s)"
  by (auto simp: quiet_def)

lemma quiet_acqD:
  assumes "quiet i (l # L) s"
  shows "\<exists>s0. s = acq l s0 \<and> quiet i L s0 \<and> l \<notin> set L"
  using assms by (auto simp: quiet_def)

lemma quiet_NilD: "quiet i [] s \<Longrightarrow> mach_ok s \<and> awake i s"
  by (simp add: quiet_def)

text \<open>Only the machine part of the state matters for \<open>quiet\<close>.\<close>

lemma acqs_upd:
  "acqs L (proc_update f s) = proc_update f (acqs L s)"
  "acqs L (mem_update g s') = mem_update g (acqs L s')"
  "acqs L (freelist_update h s') = freelist_update h (acqs L s')"
  "acqs L (sleeplocks_update k s) = sleeplocks_update k (acqs L s)"
  by (induction L) simp_all

lemma awake_upd [simp]:
  "awake i (proc_update f s) = awake i s" "awake i (mem_update g s') = awake i s'"
  "awake i (freelist_update h s') = awake i s'" "awake i (sleeplocks_update k s) = awake i s"
  by (simp_all add: awake_def running_def)

lemma quiet_upd [simp]:
  "quiet i L s \<Longrightarrow> quiet i L (proc_update f s)" "quiet i L s' \<Longrightarrow> quiet i L (mem_update g s')"
  "quiet i L s' \<Longrightarrow> quiet i L (freelist_update h s')" "quiet i L s \<Longrightarrow> quiet i L (sleeplocks_update k s)"
  unfolding quiet_def by (metis acqs_upd awake_upd pstate_upd_mach kmem_upd_mach)+

subsection \<open>Big-step execution\<close>

definition env :: "('z pstate_scheme \<Rightarrow> 'z pstate_scheme option) \<Rightarrow> nat \<Rightarrow> wait \<Rightarrow> 'z pstate_scheme \<Rightarrow> 'z pstate_scheme \<Rightarrow> bool" where
  "env D i w t u \<longleftrightarrow> w = Swtch \<and> (\<exists>ch s u0. t = acq (ProcLock i) (asleep i ch s) \<and> mach_ok s \<and> awake i s
     \<and> u = acq (ProcLock i) u0 \<and> awake i u0 \<and> D (norm s) = Some (norm u0))"

definition does :: "('z pstate_scheme \<Rightarrow> 'z pstate_scheme option) \<Rightarrow> ('z pstate_scheme \<Rightarrow> bool) \<Rightarrow> nat \<Rightarrow>
    lockid list \<Rightarrow> ('a, 'z pstate_scheme) kern \<Rightarrow> 'z pstate_scheme \<Rightarrow> 'a \<Rightarrow> lockid list \<Rightarrow> 'z pstate_scheme \<Rightarrow> bool" where
  "does D C i L m N a L' N' \<longleftrightarrow> (\<forall>s. quiet i L s \<and> norm s = N \<longrightarrow>
     achieves (env D i) (\<lambda>_ t. C (norm t)) (\<lambda>b t. b = a \<and> quiet i L' t \<and> norm t = N') (m s))"

lemma does_exact:
  "(\<And>s. quiet i L s \<Longrightarrow> norm s = N \<Longrightarrow> \<exists>t. m s = Ok a t \<and> quiet i L' t \<and> norm t = N') \<Longrightarrow> does D C i L m N a L' N'"
  unfolding does_def by fastforce

lemma does_bnd:
  assumes "does D C i L m N a L1 N1" and "does D C i L1 (f a) N1 b L2 N2"
  shows "does D C i L (bnd m f) N b L2 N2"
  unfolding does_def bnd_def
proof (intro allI impI)
  fix s :: "'a pstate_scheme" assume "quiet i L s \<and> norm s = N"
  with assms(1) have "achieves (env D i) (\<lambda>_ t. C (norm t)) (\<lambda>b t. b = a \<and> quiet i L1 t \<and> norm t = N1) (m s)"
    by (simp add: does_def)
  then show "achieves (env D i) (\<lambda>_ t. C (norm t)) (\<lambda>c t. c = b \<and> quiet i L2 t \<and> norm t = N2) (andthen (m s) f)"
    by (rule achieves_andthen) (use assms(2) in \<open>auto simp: does_def\<close>)
qed

lemma does_sq: "does D C i L m N a L1 N1 \<Longrightarrow> does D C i L1 n N1 b L2 N2 \<Longrightarrow> does D C i L (sq m n) N b L2 N2"
  unfolding sq_def by (rule does_bnd)

lemma does_ret: "does D C i L (ret a) N a L N"
  by (rule does_exact) (simp add: run_simps)

lemma does_gets: "(\<And>s. f (norm s) = f s) \<Longrightarrow> does D C i L (gets f) N (f N) L N"
  by (rule does_exact) (auto simp: run_simps)

lemma does_modify:
  "(\<And>s. norm (f s) = f (norm s)) \<Longrightarrow> (\<And>s. quiet i L s \<Longrightarrow> quiet i L (f s)) \<Longrightarrow> does D C i L (modify f) N () L (f N)"
  by (rule does_exact) (auto simp: run_simps)

lemma does_guardM: "b \<Longrightarrow> does D C i L (guardM b) N () L N"
  by (rule does_exact) (simp add: run_simps)

lemma does_acquire: "l \<notin> set L \<Longrightarrow> does D C i L (acquire l) N () (l # L) N"
  by (rule does_exact) (auto simp: acquire_acq quiet_mach_ok quiet_free quiet_acq)

lemma does_release: "does D C i (l # L) (release l) N () L N"
  by (rule does_exact) (auto dest!: quiet_acqD simp: release_acq quiet_mach_ok quiet_free)

lemma does_myproc: "does D C i L myproc N (Some i) L N"
  by (rule does_exact) (auto simp: myproc_run quiet_mach_ok quiet_running)

lemma does_curproc: "does D C i L curproc N i L N"
  by (rule does_exact) (auto simp: curproc_run quiet_mach_ok quiet_running)

lemma does_getp:
  "(\<And>p st ch. f (p\<lparr>p_state := st, p_chan := ch\<rparr>) = f p) \<Longrightarrow> does D C i L (getp j f) N (f (proc N j)) L N"
  unfolding getp_def by (rule does_gets) simp

lemma does_wakeup:
  assumes "\<And>j. ProcLock j \<notin> set L"
  shows "does D C i L (wakeup ch) N () L N"
  by (rule does_exact) (use assms in \<open>auto simp: wakeup_run quiet_mach_ok quiet_free\<close>)

lemma does_forM:
  "does D C i L (f x) N () L N1 \<Longrightarrow> does D C i L (forM xs f) N1 () L N2 \<Longrightarrow> does D C i L (forM (x # xs) f) N () L N2"
  by (simp add: does_sq)

lemma does_forM_Nil: "does D C i L (forM [] f) N () L N"
  by (simp add: does_ret)

text \<open>Sleeping: the data changes as the environment says, all else comes back as it was.\<close>

lemma does_sleep:
  assumes "D N = Some N'" and "norm N' = N'" and "C N" and "lk \<noteq> ProcLock i"
  shows "does D C i [lk] (sleep ch lk) N () [lk] N'"
  unfolding does_def
proof (intro allI impI, elim conjE)
  fix s :: "'a pstate_scheme" assume "quiet i [lk] s" and N: "norm s = N"
  then obtain s0 where s: "s = acq lk s0" and ok: "mach_ok s0" "awake i s0" by (auto simp: quiet_def)
  then have N0: "norm s0 = N" using N by simp
  have pre: "running s0 = Some i" "noff (cpus s0 (tp s0)) = 0" "lock_free s0 lk" "lock_free s0 (ProcLock i)"
    using ok by (auto simp: awake_def)
  obtain k where k: "sleep ch lk s = Switched (acq (ProcLock i) (asleep i ch s0)) k"
    and ku: "\<And>u. awake i u \<Longrightarrow> k (acq (ProcLock i) u) = Ok () (acq lk (set_ie (intena (cpus s0 (tp s0)))
        (u\<lparr>proc := (proc u)(i := (proc u i)\<lparr>p_chan := None\<rparr>)\<rparr>)))"
    using sleep_run [OF ok(1) pre assms(4), of ch] unfolding s awake_def by blast
  let ?u = "N'\<lparr>locks := locks s0, cpus := cpus s0, sstatus := sstatus s0, tp := tp s0\<rparr>"
  have aw: "awake i ?u" using ok by (simp add: awake_def running_def lock_free_def)
  have D: "D (norm s0) = Some (norm ?u)" using assms(1,2) N0 by simp
  have q: "quiet i [lk] (acq lk (set_ie b v))" if "awake i v" for b and v :: "'a pstate_scheme"
  proof -
    have "awake i (set_ie b v)" using that by (simp add: awake_def) (simp add: running_def set_ie_def set_intena_def)
    moreover have "mach_ok (set_ie b v)" using that by (simp add: awake_def mach_ok_set_ie)
    ultimately show ?thesis by (auto simp: quiet_def)
  qed
  show "achieves (env D i) (\<lambda>_ t. C (norm t)) (\<lambda>b t. b = () \<and> quiet i [lk] t \<and> norm t = N') (sleep ch lk s)"
    unfolding k
  proof (rule achieves_Wait)
    show "C (norm (acq (ProcLock i) (asleep i ch s0)))" using assms(3) N0 by simp
    show "env D i Swtch (acq (ProcLock i) (asleep i ch s0)) (acq (ProcLock i) ?u)"
      using ok aw D unfolding env_def by blast
    fix u assume "env D i Swtch (acq (ProcLock i) (asleep i ch s0)) u"
    then obtain ch' s1 u0 where u: "acq (ProcLock i) (asleep i ch s0) = acq (ProcLock i) (asleep i ch' s1)"
      "u = acq (ProcLock i) u0" "awake i u0" "D (norm s1) = Some (norm u0)" by (auto simp: env_def)
    from arg_cong [OF u(1), of norm] have "norm s1 = N" using N0 by simp
    then have "norm u0 = N'" using u(4) assms(1) by simp
    then show "achieves (env D i) (\<lambda>_ t. C (norm t)) (\<lambda>b t. b = () \<and> quiet i [lk] t \<and> norm t = N') (k u)"
      unfolding u(2) ku [OF u(3)] using u(3) by (simp add: q)
  qed
qed

text \<open>Waiting loops: the body leaves at once, or sleeps once and then leaves.\<close>

lemma achieves_again_from:
  assumes "achieves R G (\<lambda>x t. (\<exists>a. x = Inl a \<and> Q a t) \<or> (x = Inr () \<and> achieves R G (\<lambda>y u. \<exists>a. y = Inl a \<and> Q a u) (b t))) r"
  shows "achieves R G Q (again_from b r)"
proof -
  have leave: "achieves R G Q (again_from b r)" if "achieves R G (\<lambda>y u. \<exists>a. y = Inl a \<and> Q a u) r" for r
    using that by (induction rule: achieves.induct) (auto simp: again_from_simps)
  have round: "again_from b (Ok (Inr ()) t) = again_from b (b t)"
    if "achieves R G (\<lambda>y u. \<exists>a. y = Inl a \<and> Q a u) (b t)" for t
    using that by (cases "b t") (auto simp: again_from_simps)
  show ?thesis using assms
  proof (induction rule: achieves.induct)
    case (achieves_Ok x t)
    then show ?case
    proof (elim disjE conjE exE)
      fix a assume "x = Inl a" "Q a t"
      then show ?thesis by (simp add: again_from_simps)
    next
      assume "x = Inr ()" and b: "achieves R G (\<lambda>y u. \<exists>a. y = Inl a \<and> Q a u) (b t)"
      then show ?thesis using leave [OF b] round [OF b] by simp
    qed
  next
    case (achieves_Wait w t u0 k)
    then show ?case by (auto simp: again_from_simps)
  qed
qed

lemma does_again:
  assumes "does D C i L b N (Inr ()) L1 N1" and "does D C i L1 b N1 (Inl a) L2 N2"
  shows "does D C i L (again b) N a L2 N2"
  unfolding does_def again_def
proof (intro allI impI, rule achieves_again_from)
  fix s :: "'a pstate_scheme" assume "quiet i L s \<and> norm s = N"
  with assms(1) have "achieves (env D i) (\<lambda>_ t. C (norm t)) (\<lambda>x t. x = Inr () \<and> quiet i L1 t \<and> norm t = N1) (b s)"
    by (simp add: does_def)
  then show "achieves (env D i) (\<lambda>_ t. C (norm t)) (\<lambda>x t. (\<exists>c. x = Inl c \<and> c = a \<and> quiet i L2 t \<and> norm t = N2) \<or>
     (x = Inr () \<and> achieves (env D i) (\<lambda>_ t. C (norm t)) (\<lambda>y u. \<exists>c. y = Inl c \<and> c = a \<and> quiet i L2 u \<and> norm u = N2) (b t))) (b s)"
    by (rule achieves_conseq) (use assms(2) in \<open>auto simp: does_def elim!: achieves_conseq\<close>)
qed

lemma does_again_at_once:
  assumes "does D C i L b N (Inl a) L2 N2"
  shows "does D C i L (again b) N a L2 N2"
  unfolding does_def again_def
proof (intro allI impI, rule achieves_again_from)
  fix s :: "'a pstate_scheme" assume "quiet i L s \<and> norm s = N"
  with assms have "achieves (env D i) (\<lambda>_ t. C (norm t)) (\<lambda>x t. x = Inl a \<and> quiet i L2 t \<and> norm t = N2) (b s)"
    by (simp add: does_def)
  then show "achieves (env D i) (\<lambda>_ t. C (norm t)) (\<lambda>x t. (\<exists>c. x = Inl c \<and> c = a \<and> quiet i L2 t \<and> norm t = N2) \<or>
     (x = Inr () \<and> achieves (env D i) (\<lambda>_ t. C (norm t)) (\<lambda>y u. \<exists>c. y = Inl c \<and> c = a \<and> quiet i L2 u \<and> norm u = N2) (b t))) (b s)"
    by (rule achieves_conseq) auto
qed

lemma does_whenM: "does D C i L (if b then m else ret ()) N () L' N' \<Longrightarrow> does D C i L (whenM b m) N () L' N'"
  by (simp add: whenM_def)

subsection \<open>Sleep locks\<close>

definition sl_take :: "nat \<Rightarrow> sleepid \<Rightarrow> 'z pstate_scheme \<Rightarrow> 'z pstate_scheme" where
  "sl_take i l N = N\<lparr>sleeplocks := (sleeplocks N)(l := (sleeplocks N l)\<lparr>sl_locked := True, sl_pid := p_pid (proc N i)\<rparr>)\<rparr>"

definition sl_drop :: "sleepid \<Rightarrow> 'z pstate_scheme \<Rightarrow> 'z pstate_scheme" where
  "sl_drop l N = N\<lparr>sleeplocks := (sleeplocks N)(l := (sleeplocks N l)\<lparr>sl_locked := False, sl_pid := 0\<rparr>)\<rparr>"

definition sl_free :: "sleepid \<Rightarrow> 'z pstate_scheme \<Rightarrow> bool" where
  "sl_free l N \<longleftrightarrow> \<not> sl_locked (sleeplocks N l) \<and> sl_pid (sleeplocks N l) = 0"

definition sl_mine :: "nat \<Rightarrow> sleepid \<Rightarrow> 'z pstate_scheme \<Rightarrow> bool" where
  "sl_mine i l N \<longleftrightarrow> sl_locked (sleeplocks N l) \<and> sl_pid (sleeplocks N l) = p_pid (proc N i)"

lemma sl_take_drop [simp]:
  "sl_free l N \<Longrightarrow> sl_drop l (sl_take i l N) = N" "sl_mine i l (sl_take i l N)"
  by (auto simp: sl_free_def sl_take_def sl_drop_def sl_mine_def fun_eq_iff intro!: pstate.equality)

lemma norm_sl [simp]: "norm (sl_take i l N) = sl_take i l (norm N)" "norm (sl_drop l N) = sl_drop l (norm N)"
  by (simp_all add: sl_take_def sl_drop_def)

lemma does_acquiresleep: "sl_free l N \<Longrightarrow> does D C i [] (acquiresleep l) N () [] (sl_take i l N)"
proof (rule does_exact)
  fix s :: "'a pstate_scheme" assume f: "sl_free l N" and q: "quiet i [] s" and n: "norm s = N"
  have "\<not> sl_locked (sleeplocks s l)" using f n by (auto simp: sl_free_def)
  then have "acquiresleep l s = Ok () (s\<lparr>sleeplocks := (sleeplocks s)(l := (sleeplocks s l)\<lparr>sl_locked := True,
    sl_pid := p_pid (proc s i)\<rparr>)\<rparr>)"
    using q by (intro acquiresleep_free) (auto simp: quiet_mach_ok quiet_running quiet_free)
  then show "\<exists>t. acquiresleep l s = Ok () t \<and> quiet i [] t \<and> norm t = sl_take i l N"
    using q n by (auto simp: sl_take_def)
qed

lemma does_releasesleep: "does D C i [] (releasesleep l) N () [] (sl_drop l N)"
proof (rule does_exact)
  fix s :: "'a pstate_scheme" assume q: "quiet i [] s" and n: "norm s = N"
  let ?s = "s\<lparr>sleeplocks := (sleeplocks s)(l := (sleeplocks s l)\<lparr>sl_locked := False, sl_pid := 0\<rparr>)\<rparr>"
  have "releasesleep l s = Ok () (?s\<lparr>proc := woken (Some (ChanSleep l)) (running s) {..<NPROC} (proc ?s)\<rparr>)"
    using q by (subst releasesleep_run) (auto simp: quiet_mach_ok quiet_free)
  moreover have "norm (?s\<lparr>proc := woken (Some (ChanSleep l)) (running s) {..<NPROC} (proc ?s)\<rparr>) = sl_drop l N"
    using n by (subst norm_sched(5)) (auto simp: sl_drop_def)
  ultimately show "\<exists>t. releasesleep l s = Ok () t \<and> quiet i [] t \<and> norm t = sl_drop l N"
    using q by simp
qed

lemma does_holdingsleep: "sl_mine i l N \<Longrightarrow> does D C i [] (holdingsleep l) N True [] N"
proof (rule does_exact)
  fix s :: "'a pstate_scheme" assume f: "sl_mine i l N" and q: "quiet i [] s" and n: "norm s = N"
  then have "sl_locked (sleeplocks s l)" "sl_pid (sleeplocks s l) = p_pid (proc s i)" by (auto simp: sl_mine_def)
  with q n show "\<exists>t. holdingsleep l s = Ok True t \<and> quiet i [] t \<and> norm t = N"
    by (auto simp: holdingsleep_def run_simps proc_ops quiet_mach_ok quiet_running quiet_free)
qed

subsection \<open>Total correctness triples\<close>

definition total :: "('z pstate_scheme \<Rightarrow> 'z pstate_scheme option) \<Rightarrow> ('z pstate_scheme \<Rightarrow> bool) \<Rightarrow> nat \<Rightarrow>
    lockid list \<Rightarrow> ('z pstate_scheme \<Rightarrow> bool) \<Rightarrow> ('a, 'z pstate_scheme) kern \<Rightarrow> lockid list \<Rightarrow> ('a \<Rightarrow> 'z pstate_scheme \<Rightarrow> bool) \<Rightarrow> bool" where
  "total D C i L P m L' Q \<longleftrightarrow> (\<forall>s. quiet i L s \<and> P (norm s) \<longrightarrow>
     achieves (env D i) (\<lambda>_ t. C (norm t)) (\<lambda>a t. quiet i L' t \<and> Q a (norm t)) (m s))"

lemma total_does:
  assumes "\<And>N. P N \<Longrightarrow> norm N = N \<Longrightarrow> \<exists>a N'. does D C i L m N a L' N' \<and> Q a N'"
  shows "total D C i L P m L' Q"
  unfolding total_def
proof (intro allI impI, elim conjE)
  fix s :: "'a pstate_scheme" assume "quiet i L s" and "P (norm s)"
  with assms [of "norm s"] obtain a N' where "does D C i L m (norm s) a L' N'" "Q a N'" by auto
  with \<open>quiet i L s\<close> show "achieves (env D i) (\<lambda>_ t. C (norm t)) (\<lambda>a t. quiet i L' t \<and> Q a (norm t)) (m s)"
    unfolding does_def by (fastforce elim!: achieves_conseq)
qed

lemma total_bnd:
  assumes "total D C i L P m L1 M" and "\<And>a. total D C i L1 (M a) (f a) L2 Q"
  shows "total D C i L P (bnd m f) L2 Q"
  unfolding total_def bnd_def
proof (intro allI impI)
  fix s :: "'a pstate_scheme" assume "quiet i L s \<and> P (norm s)"
  with assms(1) have "achieves (env D i) (\<lambda>_ t. C (norm t)) (\<lambda>a t. quiet i L1 t \<and> M a (norm t)) (m s)"
    by (simp add: total_def)
  then show "achieves (env D i) (\<lambda>_ t. C (norm t)) (\<lambda>a t. quiet i L2 t \<and> Q a (norm t)) (andthen (m s) f)"
    by (rule achieves_andthen) (use assms(2) in \<open>auto simp: total_def\<close>)
qed

lemma total_sq:
  "total D C i L P m L1 (\<lambda>_. M) \<Longrightarrow> total D C i L1 M n L2 Q \<Longrightarrow> total D C i L P (sq m n) L2 Q"
  unfolding sq_def by (rule total_bnd)

lemma total_conseq:
  assumes "total D C i L P m L' Q" and "\<And>N. P' N \<Longrightarrow> P N" and "\<And>a N. Q a N \<Longrightarrow> Q' a N"
  shows "total D C i L P' m L' Q'"
  unfolding total_def
proof (intro allI impI)
  fix s :: "'a pstate_scheme" assume "quiet i L s \<and> P' (norm s)"
  with assms(1,2) have "achieves (env D i) (\<lambda>_ t. C (norm t)) (\<lambda>a t. quiet i L' t \<and> Q a (norm t)) (m s)"
    by (simp add: total_def)
  then show "achieves (env D i) (\<lambda>_ t. C (norm t)) (\<lambda>a t. quiet i L' t \<and> Q' a (norm t)) (m s)"
    by (rule achieves_conseq) (use assms(3) in auto)
qed

lemma total_pre: "(\<And>N. P N \<Longrightarrow> total D C i L (\<lambda>M. M = N) m L' Q) \<Longrightarrow> total D C i L P m L' Q"
  unfolding total_def by auto

lemma total_ret: "(\<And>N. P N \<Longrightarrow> Q a N) \<Longrightarrow> total D C i L P (ret a) L Q"
  by (auto simp: total_def run_simps)

lemma total_False: "total D C i L (\<lambda>_. False) m L' Q"
  by (simp add: total_def)

end
