(* ===== verification/Virtio.thy ===== *)
theory Virtio
  imports Quiet
begin

text \<open>
  \<open>kernel/buf.h\<close>, \<open>kernel/virtio.h\<close> and \<open>kernel/virtio_disk.c\<close>: the disk driver.

  The queues shared with the device (\<open>disk.desc\<close>, \<open>disk.avail\<close>, \<open>disk.used\<close>) are typed tables. An
  address that the driver stores in a descriptor names the object it is the address of. The
  device is not part of the kernel: \<open>vdev_read\<close> gives the value it returns for a register after
  the register writes made so far, \<open>platter\<close> is the content of the medium, which only the device
  accesses, and \<open>d_seen_idx\<close> records the available index at the time of the last notification.
\<close>

unbundle bit_operations_syntax

abbreviation (input) BSIZE :: nat where "BSIZE \<equiv> 1024"
abbreviation (input) NUM :: nat where "NUM \<equiv> 8"

record buf =
  b_valid :: bool
  b_disk :: bool
  b_dev :: u32
  b_blockno :: u32
  b_refcnt :: u32
  b_prev :: nat
  b_next :: nat
  b_data :: chars

datatype daddr = DNull | DOps nat | DData nat | DStatus nat

record virtq_desc =
  d_addr :: daddr
  d_len :: u32
  d_flags :: u16
  d_next :: u16

record virtio_blk_req =
  r_type :: u32
  r_reserved :: u32
  r_sector :: u64

record disk =
  d_desc_pg :: u64
  d_avail_pg :: u64
  d_used_pg :: u64
  d_desc :: "nat \<Rightarrow> virtq_desc"
  d_avail_idx :: u16
  d_avail_ring :: "nat \<Rightarrow> u16"
  d_used_idx_dev :: u16
  d_used_ring :: "nat \<Rightarrow> u32"
  d_seen_idx :: u16
  d_free :: "nat \<Rightarrow> bool"
  d_used_idx :: u16
  d_info_b :: "nat \<Rightarrow> nat option"
  d_info_status :: "nat \<Rightarrow> u8"
  d_ops :: "nat \<Rightarrow> virtio_blk_req"

record bstate = pstate +
  bufs :: "nat \<Rightarrow> buf"
  disk :: disk
  vdev_read :: "(u64 \<times> u32) list \<Rightarrow> u64 \<Rightarrow> u32"
  vdev_writes :: "(u64 \<times> u32) list"
  platter :: "nat \<Rightarrow> u8"

definition upd_buf :: "nat \<Rightarrow> (buf \<Rightarrow> buf) \<Rightarrow> (unit, 'z bstate_scheme) kern" where
  "upd_buf b f = modify (\<lambda>s. s\<lparr>bufs := (bufs s)(b := f (bufs s b))\<rparr>)"

definition getb :: "nat \<Rightarrow> (buf \<Rightarrow> 'a) \<Rightarrow> ('a, 'z bstate_scheme) kern" where
  "getb b f = gets (\<lambda>s. f (bufs s b))"

definition upd_disk :: "(disk \<Rightarrow> disk) \<Rightarrow> (unit, 'z bstate_scheme) kern" where
  "upd_disk f = modify (\<lambda>s. s\<lparr>disk := f (disk s)\<rparr>)"

definition getd :: "(disk \<Rightarrow> 'a) \<Rightarrow> ('a, 'z bstate_scheme) kern" where
  "getd f = gets (\<lambda>s. f (disk s))"

definition upd_desc :: "nat \<Rightarrow> (virtq_desc \<Rightarrow> virtq_desc) \<Rightarrow> (unit, 'z bstate_scheme) kern" where
  "upd_desc i f = upd_disk (\<lambda>d. d\<lparr>d_desc := (d_desc d)(i := f (d_desc d i))\<rparr>)"

subsection \<open>Device registers\<close>

definition R_MAGIC_VALUE :: u64 where "R_MAGIC_VALUE = 0x000"
definition R_VERSION :: u64 where "R_VERSION = 0x004"
definition R_DEVICE_ID :: u64 where "R_DEVICE_ID = 0x008"
definition R_VENDOR_ID :: u64 where "R_VENDOR_ID = 0x00c"
definition R_DEVICE_FEATURES :: u64 where "R_DEVICE_FEATURES = 0x010"
definition R_DRIVER_FEATURES :: u64 where "R_DRIVER_FEATURES = 0x020"
definition R_QUEUE_SEL :: u64 where "R_QUEUE_SEL = 0x030"
definition R_QUEUE_NUM_MAX :: u64 where "R_QUEUE_NUM_MAX = 0x034"
definition R_QUEUE_NUM :: u64 where "R_QUEUE_NUM = 0x038"
definition R_QUEUE_READY :: u64 where "R_QUEUE_READY = 0x044"
definition R_QUEUE_NOTIFY :: u64 where "R_QUEUE_NOTIFY = 0x050"
definition R_INTERRUPT_STATUS :: u64 where "R_INTERRUPT_STATUS = 0x060"
definition R_INTERRUPT_ACK :: u64 where "R_INTERRUPT_ACK = 0x064"
definition R_STATUS :: u64 where "R_STATUS = 0x070"
definition R_QUEUE_DESC_LOW :: u64 where "R_QUEUE_DESC_LOW = 0x080"
definition R_QUEUE_DESC_HIGH :: u64 where "R_QUEUE_DESC_HIGH = 0x084"
definition R_DRIVER_DESC_LOW :: u64 where "R_DRIVER_DESC_LOW = 0x090"
definition R_DRIVER_DESC_HIGH :: u64 where "R_DRIVER_DESC_HIGH = 0x094"
definition R_DEVICE_DESC_LOW :: u64 where "R_DEVICE_DESC_LOW = 0x0a0"
definition R_DEVICE_DESC_HIGH :: u64 where "R_DEVICE_DESC_HIGH = 0x0a4"

definition S_ACKNOWLEDGE :: u32 where "S_ACKNOWLEDGE = 1"
definition S_DRIVER :: u32 where "S_DRIVER = 2"
definition S_DRIVER_OK :: u32 where "S_DRIVER_OK = 4"
definition S_FEATURES_OK :: u32 where "S_FEATURES_OK = 8"

text \<open>
  The feature bits that the driver refuses: \<open>VIRTIO_BLK_F_RO\<close>, \<open>_SCSI\<close>, \<open>_CONFIG_WCE\<close>, \<open>_MQ\<close>,
  \<open>VIRTIO_F_ANY_LAYOUT\<close>, \<open>VIRTIO_RING_F_EVENT_IDX\<close> and \<open>_INDIRECT_DESC\<close>.
\<close>

definition refused_features :: "nat list" where
  "refused_features = [5, 7, 11, 12, 27, 29, 28]"

definition reg_read :: "u64 \<Rightarrow> (u32, 'z bstate_scheme) kern" where
  "reg_read r = gets (\<lambda>s. vdev_read s (vdev_writes s) r)"

text \<open>
  A register write is recorded; for a write of the queue number 0 to \<open>VIRTIO_MMIO_QUEUE_NOTIFY\<close> so is the available
  index at that time, which tells the requests that the device has been notified of from later ones.
\<close>

definition note_notify :: "u64 \<Rightarrow> u32 \<Rightarrow> disk \<Rightarrow> disk" where
  "note_notify r v d = (if r = R_QUEUE_NOTIFY \<and> v = 0 then d\<lparr>d_seen_idx := d_avail_idx d\<rparr> else d)"

definition reg_write :: "u64 \<Rightarrow> u32 \<Rightarrow> (unit, 'z bstate_scheme) kern" where
  "reg_write r v = modify (\<lambda>s. s\<lparr>vdev_writes := vdev_writes s @ [(r, v)], disk := note_notify r v (disk s)\<rparr>)"

abbreviation (input) VRING_DESC_F_NEXT :: u16 where "VRING_DESC_F_NEXT \<equiv> 1"
abbreviation (input) VRING_DESC_F_WRITE :: u16 where "VRING_DESC_F_WRITE \<equiv> 2"
abbreviation (input) VIRTIO_BLK_T_IN :: u32 where "VIRTIO_BLK_T_IN \<equiv> 0"
abbreviation (input) VIRTIO_BLK_T_OUT :: u32 where "VIRTIO_BLK_T_OUT \<equiv> 1"

definition null_desc :: virtq_desc where
  "null_desc = \<lparr>d_addr = DNull, d_len = 0, d_flags = 0, d_next = 0\<rparr>"

subsection \<open>The driver\<close>

definition virtio_disk_init :: "(unit, 'z bstate_scheme) kern" where
  "virtio_disk_init =
     sq (initlock VdiskLock ''virtio_disk'') (
     bnd (reg_read R_MAGIC_VALUE) (\<lambda>magic.
     bnd (reg_read R_VERSION) (\<lambda>version.
     bnd (reg_read R_DEVICE_ID) (\<lambda>device.
     bnd (reg_read R_VENDOR_ID) (\<lambda>vendor.
     if magic \<noteq> 0x74726976 \<or> version \<noteq> 2 \<or> device \<noteq> 2 \<or> vendor \<noteq> 0x554d4551
     then panic ''could not find virtio disk''
     else sq (reg_write R_STATUS 0) (
     sq (reg_write R_STATUS S_ACKNOWLEDGE) (
     sq (reg_write R_STATUS (S_ACKNOWLEDGE OR S_DRIVER)) (
     bnd (reg_read R_DEVICE_FEATURES) (\<lambda>features.
     sq (reg_write R_DRIVER_FEATURES (fold (\<lambda>n f. f AND NOT (push_bit n 1)) refused_features features)) (
     sq (reg_write R_STATUS (S_ACKNOWLEDGE OR S_DRIVER OR S_FEATURES_OK)) (
     bnd (reg_read R_STATUS) (\<lambda>status.
     if status AND S_FEATURES_OK = 0 then panic ''virtio disk FEATURES_OK unset''
     else sq (reg_write R_QUEUE_SEL 0) (
     bnd (reg_read R_QUEUE_READY) (\<lambda>ready.
     if ready \<noteq> 0 then panic ''virtio disk should not be ready''
     else bnd (reg_read R_QUEUE_NUM_MAX) (\<lambda>mx.
     if mx = 0 then panic ''virtio disk has no queue 0''
     else if mx < of_nat NUM then panic ''virtio disk max queue too short''
     else bnd kalloc (\<lambda>de.
     bnd kalloc (\<lambda>av.
     bnd kalloc (\<lambda>us.
     sq (upd_disk (\<lambda>d. d\<lparr>d_desc_pg := de, d_avail_pg := av, d_used_pg := us\<rparr>)) (
     if de = 0 \<or> av = 0 \<or> us = 0 then panic ''virtio disk kalloc''
     else sq (upd_mem (memset de 0 (unat PGSIZE))) (
     sq (upd_mem (memset av 0 (unat PGSIZE))) (
     sq (upd_mem (memset us 0 (unat PGSIZE))) (
     sq (upd_disk (\<lambda>d. d\<lparr>d_desc := (\<lambda>_. null_desc), d_avail_idx := 0, d_avail_ring := (\<lambda>_. 0),
       d_used_idx_dev := 0, d_used_ring := (\<lambda>_. 0)\<rparr>)) (
     sq (reg_write R_QUEUE_NUM (of_nat NUM)) (
     sq (reg_write R_QUEUE_DESC_LOW (ucast de)) (
     sq (reg_write R_QUEUE_DESC_HIGH (ucast (drop_bit 32 de))) (
     sq (reg_write R_DRIVER_DESC_LOW (ucast av)) (
     sq (reg_write R_DRIVER_DESC_HIGH (ucast (drop_bit 32 av))) (
     sq (reg_write R_DEVICE_DESC_LOW (ucast us)) (
     sq (reg_write R_DEVICE_DESC_HIGH (ucast (drop_bit 32 us))) (
     sq (reg_write R_QUEUE_READY 1) (
     sq (forM [0..<NUM] (\<lambda>i. upd_disk (\<lambda>d. d\<lparr>d_free := (d_free d)(i := True)\<rparr>))) (
     reg_write R_STATUS (status OR S_DRIVER_OK)))))))))))))))))))))))))))))))))"

fun alloc_desc_scan :: "nat list \<Rightarrow> (nat option, 'z bstate_scheme) kern" where
  "alloc_desc_scan [] = ret None"
| "alloc_desc_scan (i # is) =
     bnd (getd d_free) (\<lambda>fr.
     if fr i then sq (upd_disk (\<lambda>d. d\<lparr>d_free := (d_free d)(i := False)\<rparr>)) (ret (Some i))
     else alloc_desc_scan is)"

text \<open>A descriptor number, or \<open>None\<close> for -1.\<close>

definition alloc_desc :: "(nat option, 'z bstate_scheme) kern" where
  "alloc_desc = alloc_desc_scan [0..<NUM]"

definition free_desc :: "nat \<Rightarrow> (unit, 'z bstate_scheme) kern" where
  "free_desc i =
     (if i \<ge> NUM then panic ''free_desc 1''
      else bnd (getd d_free) (\<lambda>fr.
      if fr i then panic ''free_desc 2''
      else sq (upd_desc i (\<lambda>_. null_desc)) (
      sq (upd_disk (\<lambda>d. d\<lparr>d_free := (d_free d)(i := True)\<rparr>)) (
      wakeup (Some ChanDiskFree)))))"

text \<open>
  The loop of \<open>free_chain\<close>; \<open>free_desc\<close> panics on a descriptor that is free, so it goes round at most
  \<open>NUM\<close> times before it returns or panics, and the case 0 is not reached from \<open>free_chain\<close>.
\<close>

primrec free_chain_loop :: "nat \<Rightarrow> nat \<Rightarrow> (unit, 'z bstate_scheme) kern" where
  "free_chain_loop 0 i = fault"
| "free_chain_loop (Suc n) i =
     bnd (getd d_desc) (\<lambda>de.
     sq (free_desc i) (
     if d_flags (de i) AND VRING_DESC_F_NEXT \<noteq> 0 then free_chain_loop n (unat (d_next (de i)))
     else ret ()))"

definition free_chain :: "nat \<Rightarrow> (unit, 'z bstate_scheme) kern" where
  "free_chain i = free_chain_loop (Suc NUM) i"

primrec alloc3_loop :: "nat \<Rightarrow> nat list \<Rightarrow> (nat list option, 'z bstate_scheme) kern" where
  "alloc3_loop 0 idx = ret (Some idx)"
| "alloc3_loop (Suc n) idx =
     bnd alloc_desc (\<lambda>r. case r of
       None \<Rightarrow> sq (forM idx free_desc) (ret None)
     | Some i \<Rightarrow> alloc3_loop n (idx @ [i]))"

text \<open>The three descriptors \<open>idx\<close>, or \<open>None\<close> for -1.\<close>

definition alloc3_desc :: "(nat list option, 'z bstate_scheme) kern" where
  "alloc3_desc = alloc3_loop 3 []"

text \<open>The part of \<open>virtio_disk_rw\<close> that fills in the descriptors and hands the request to the device.\<close>

definition virtio_submit :: "nat \<Rightarrow> bool \<Rightarrow> u64 \<Rightarrow> nat \<Rightarrow> nat \<Rightarrow> nat \<Rightarrow> (unit, 'z bstate_scheme) kern" where
  "virtio_submit b wr sector i0 i1 i2 =
     sq (upd_disk (\<lambda>d. d\<lparr>d_ops := (d_ops d)(i0 :=
       \<lparr>r_type = (if wr then VIRTIO_BLK_T_OUT else VIRTIO_BLK_T_IN), r_reserved = 0, r_sector = sector\<rparr>)\<rparr>)) (
     sq (upd_desc i0 (\<lambda>_. \<lparr>d_addr = DOps i0, d_len = 16, d_flags = VRING_DESC_F_NEXT, d_next = of_nat i1\<rparr>)) (
     sq (upd_desc i1 (\<lambda>_. \<lparr>d_addr = DData b, d_len = of_nat BSIZE,
       d_flags = (if wr then 0 else VRING_DESC_F_WRITE) OR VRING_DESC_F_NEXT, d_next = of_nat i2\<rparr>)) (
     sq (upd_disk (\<lambda>d. d\<lparr>d_info_status := (d_info_status d)(i0 := 0xff)\<rparr>)) (
     sq (upd_desc i2 (\<lambda>_. \<lparr>d_addr = DStatus i0, d_len = 1, d_flags = VRING_DESC_F_WRITE, d_next = 0\<rparr>)) (
     sq (upd_buf b (\<lambda>bf. bf\<lparr>b_disk := True\<rparr>)) (
     sq (upd_disk (\<lambda>d. d\<lparr>d_info_b := (d_info_b d)(i0 := Some b)\<rparr>)) (
     sq (upd_disk (\<lambda>d. d\<lparr>d_avail_ring := (d_avail_ring d)(unat (d_avail_idx d mod of_nat NUM) := of_nat i0)\<rparr>)) (
     sq (upd_disk (\<lambda>d. d\<lparr>d_avail_idx := d_avail_idx d + 1\<rparr>)) (
     reg_write R_QUEUE_NOTIFY 0)))))))))"

definition virtio_disk_rw :: "nat \<Rightarrow> bool \<Rightarrow> (unit, 'z bstate_scheme) kern" where
  "virtio_disk_rw b wr =
     bnd (getb b (\<lambda>bf. ucast (b_blockno bf * of_nat (BSIZE div 512)))) (\<lambda>sector.
     sq (acquire VdiskLock) (
     bnd (again (
       bnd alloc3_desc (\<lambda>r. case r of
         Some idx \<Rightarrow> ret (Inl idx)
       | None \<Rightarrow> sq (sleep (Some ChanDiskFree) VdiskLock) (ret (Inr ()))))) (\<lambda>idx.
     sq (virtio_submit b wr sector (idx ! 0) (idx ! 1) (idx ! 2)) (
     sq (again (
       bnd (getb b b_disk) (\<lambda>pending.
       if pending then sq (sleep (Some (ChanBuf b)) VdiskLock) (ret (Inr ()))
       else ret (Inl ())))) (
     sq (upd_disk (\<lambda>d. d\<lparr>d_info_b := (d_info_b d)(idx ! 0 := None)\<rparr>)) (
     sq (free_chain (idx ! 0)) (
     release VdiskLock)))))))"

text \<open>
  The loop of \<open>virtio_disk_intr\<close>. The device adds an entry to the used ring only for a request in
  flight, of which there are at most \<open>NUM\<close>; the bound is the number of values of the 16-bit index.
\<close>

primrec intr_loop :: "nat \<Rightarrow> (unit, 'z bstate_scheme) kern" where
  "intr_loop 0 = fault"
| "intr_loop (Suc n) =
     bnd (gets disk) (\<lambda>d.
     if d_used_idx d \<noteq> d_used_idx_dev d then
       (let i = unat (d_used_ring d (unat (d_used_idx d mod of_nat NUM))) in
        sq (guardM (i < NUM)) (
        if d_info_status d i \<noteq> 0 then panic ''virtio_disk_intr status''
        else (case d_info_b d i of None \<Rightarrow> fault | Some b \<Rightarrow>
          sq (upd_buf b (\<lambda>bf. bf\<lparr>b_disk := False\<rparr>)) (
          sq (wakeup (Some (ChanBuf b))) (
          sq (upd_disk (\<lambda>d. d\<lparr>d_used_idx := d_used_idx d + 1\<rparr>)) (
          intr_loop n))))))
     else ret ())"

definition virtio_disk_intr :: "(unit, 'z bstate_scheme) kern" where
  "virtio_disk_intr =
     sq (acquire VdiskLock) (
     bnd (reg_read R_INTERRUPT_STATUS) (\<lambda>st.
     sq (reg_write R_INTERRUPT_ACK (st AND 3)) (
     sq (intr_loop 65536) (
     release VdiskLock))))"

lemmas virtio_ops = upd_buf_def getb_def upd_disk_def getd_def upd_desc_def reg_read_def reg_write_def

subsection \<open>Frame lemmas\<close>

lemma bstate_acq [simp]:
  "bufs (acq l s) = bufs s" "disk (acq l s) = disk s" "platter (acq l s) = platter s"
  "vdev_read (acq l s) = vdev_read s" "vdev_writes (acq l s) = vdev_writes s"
  by (simp_all add: acq_def)

lemma bstate_norm [simp]:
  "bufs (norm s) = bufs s" "disk (norm s) = disk s" "platter (norm s) = platter s"
  "vdev_read (norm s) = vdev_read s" "vdev_writes (norm s) = vdev_writes s"
  "norm (bufs_update f s) = bufs_update f (norm s)" "norm (disk_update g s) = disk_update g (norm s)"
  "norm (platter_update h s) = platter_update h (norm s)"
  "norm (vdev_writes_update k s) = vdev_writes_update k (norm s)"
  by (simp_all add: norm_def)

lemma bstate_upd_acq [simp]:
  "bufs_update f (acq l s) = acq l (bufs_update f s)" "disk_update g (acq l s) = acq l (disk_update g s)"
  "platter_update h (acq l s) = acq l (platter_update h s)"
  "vdev_writes_update k (acq l s) = acq l (vdev_writes_update k s)"
  by (simp_all add: acq_def)

lemma bstate_upd_mach [simp]:
  "mach_ok (bufs_update f s) = mach_ok s" "awake i (bufs_update f s) = awake i s"
  "mach_ok (disk_update g s) = mach_ok s" "awake i (disk_update g s) = awake i s"
  "mach_ok (platter_update h s) = mach_ok s" "awake i (platter_update h s) = awake i s"
  "mach_ok (vdev_writes_update k s) = mach_ok s" "awake i (vdev_writes_update k s) = awake i s"
  by (simp_all add: mach_ok_def ie_def awake_def running_def lock_free_def)

lemma acqs_bstate:
  "acqs L (bufs_update f s) = bufs_update f (acqs L s)" "acqs L (disk_update g s) = disk_update g (acqs L s)"
  "acqs L (platter_update h s) = platter_update h (acqs L s)"
  "acqs L (vdev_writes_update k s) = vdev_writes_update k (acqs L s)"
  by (induction L) simp_all

lemma quiet_bstate [simp]:
  "quiet i L s \<Longrightarrow> quiet i L (bufs_update f s)" "quiet i L s \<Longrightarrow> quiet i L (disk_update g s)"
  "quiet i L s \<Longrightarrow> quiet i L (platter_update h s)" "quiet i L s \<Longrightarrow> quiet i L (vdev_writes_update k s)"
  unfolding quiet_def by (metis acqs_bstate bstate_upd_mach)+

lemma does_upd_buf: "does D C i L (upd_buf b f) N () L (N\<lparr>bufs := (bufs N)(b := f (bufs N b))\<rparr>)"
  unfolding upd_buf_def by (rule does_modify) simp_all

lemma does_getb: "does D C i L (getb b f) N (f (bufs N b)) L N"
  unfolding getb_def by (rule does_gets) simp

lemma does_upd_disk: "does D C i L (upd_disk f) N () L (N\<lparr>disk := f (disk N)\<rparr>)"
  unfolding upd_disk_def by (rule does_modify) simp_all

lemma does_upd_desc: "does D C i L (upd_desc j f) N () L
    (N\<lparr>disk := (disk N)\<lparr>d_desc := (d_desc (disk N))(j := f (d_desc (disk N) j))\<rparr>\<rparr>)"
  unfolding upd_desc_def by (rule does_upd_disk)

lemma does_getd: "does D C i L (getd f) N (f (disk N)) L N"
  unfolding getd_def by (rule does_gets) simp

lemma does_reg_read: "does D C i L (reg_read r) N (vdev_read N (vdev_writes N) r) L N"
  unfolding reg_read_def by (rule does_gets) simp

lemma does_reg_write: "does D C i L (reg_write r v) N () L 
    (N\<lparr>vdev_writes := vdev_writes N @ [(r, v)], disk := note_notify r v (disk N)\<rparr>)"
  unfolding reg_write_def by (rule does_modify) simp_all

subsection \<open>The device\<close>

text \<open>
  What the virtio block device does with the next request of the available ring: it follows the chain of
  three descriptors, transfers the data between the buffer and the medium, stores the status, and
  appends the head of the chain to the used ring. The flags must say that the chain goes on after the first two
  descriptors and ends with the third, and that the device may write the data, for a read, and the status, and
  nothing else; a chain that is not formed like this is not served.
\<close>

definition chain_ok :: "bool \<Rightarrow> virtq_desc \<Rightarrow> virtq_desc \<Rightarrow> virtq_desc \<Rightarrow> bool" where
  "chain_ok rd de0 de1 de2 \<longleftrightarrow>
     d_flags de0 AND VRING_DESC_F_NEXT \<noteq> 0 \<and> d_flags de0 AND VRING_DESC_F_WRITE = 0 \<and> d_len de0 = 16 \<and>
     d_flags de1 AND VRING_DESC_F_NEXT \<noteq> 0 \<and> (d_flags de1 AND VRING_DESC_F_WRITE \<noteq> 0 \<longleftrightarrow> rd) \<and>
     d_flags de2 AND VRING_DESC_F_NEXT = 0 \<and> d_flags de2 AND VRING_DESC_F_WRITE \<noteq> 0 \<and> d_len de2 = 1"

definition dev_serve :: "'z bstate_scheme \<Rightarrow> 'z bstate_scheme option" where
  "dev_serve N = (let d = disk N;
     h = unat (d_avail_ring d (unat (d_used_idx_dev d mod 8)));
     i1 = unat (d_next (d_desc d h)); i2 = unat (d_next (d_desc d i1));
     finish = (\<lambda>j. d\<lparr>d_info_status := (d_info_status d)(j := 0),
       d_used_ring := (d_used_ring d)(unat (d_used_idx_dev d mod 8) := of_nat h), d_used_idx_dev := d_used_idx_dev d + 1\<rparr>) in
     case (d_addr (d_desc d h), d_addr (d_desc d i1), d_addr (d_desc d i2)) of
       (DOps k, DData b, DStatus j) \<Rightarrow>
         let off = 512 * unat (r_sector (d_ops d k)); n = unat (d_len (d_desc d i1)); rd = (r_type (d_ops d k) = VIRTIO_BLK_T_IN) in
         if \<not> chain_ok rd (d_desc d h) (d_desc d i1) (d_desc d i2) then None
         else if rd
         then Some (N\<lparr>bufs := (bufs N)(b := (bufs N b)\<lparr>b_data := (\<lambda>x. if x < n then platter N (off + x) else b_data (bufs N b) x)\<rparr>),
           disk := finish j\<rparr>)
         else if r_type (d_ops d k) = VIRTIO_BLK_T_OUT
         then Some (N\<lparr>platter := (\<lambda>x. if off \<le> x \<and> x < off + n then b_data (bufs N b) (x - off) else platter N x), disk := finish j\<rparr>)
         else None
     | _ \<Rightarrow> None)"

text \<open>What \<open>virtio_disk_intr\<close> does for one completed request (lemma \<open>does_virtio_disk_intr\<close>).\<close>

definition intr_data :: "'z bstate_scheme \<Rightarrow> 'z bstate_scheme" where
  "intr_data N = (let d = disk N; h = unat (d_used_ring d (unat (d_used_idx d mod 8))) in
     case d_info_b d h of None \<Rightarrow> N | Some b \<Rightarrow>
       N\<lparr>bufs := (bufs N)(b := (bufs N b)\<lparr>b_disk := False\<rparr>), disk := d\<lparr>d_used_idx := d_used_idx d + 1\<rparr>,
         vdev_writes := vdev_writes N @ [(R_INTERRUPT_ACK, vdev_read N (vdev_writes N) R_INTERRUPT_STATUS AND 3)]\<rparr>)"

text \<open>The device has been notified of one request that it has not served, and no completion is waiting for the driver.\<close>

definition one_pending :: "disk \<Rightarrow> bool" where
  "one_pending d \<longleftrightarrow> d_used_idx d = d_used_idx_dev d \<and> d_seen_idx d = d_used_idx_dev d + 1"

text \<open>
  The assumption on the device: while the process sleeps, a request that the device has been notified of is served
  and the interrupt is handled.
\<close>

definition disk_works :: "('z bstate_scheme \<Rightarrow> 'z bstate_scheme option) \<Rightarrow> bool" where
  "disk_works D \<longleftrightarrow> (\<forall>N M. norm N = N \<longrightarrow> one_pending (disk N) \<longrightarrow> dev_serve N = Some M \<longrightarrow> D N = Some (intr_data M))"

definition disk_idle :: "disk \<Rightarrow> bool" where
  "disk_idle d \<longleftrightarrow> (\<forall>i<NUM. d_free d i) \<and> d_used_idx d = d_used_idx_dev d \<and> d_avail_idx d = d_used_idx_dev d"

lemma does_virtio_disk_intr:
  assumes "d_used_idx_dev (disk N) = d_used_idx (disk N) + 1"
    and h: "h = unat (d_used_ring (disk N) (unat (d_used_idx (disk N) mod 8)))" "h < NUM"
    and "d_info_status (disk N) h = 0" and "d_info_b (disk N) h = Some b"
  shows "does D C i [] virtio_disk_intr N () [] (intr_data N)"
proof -
  let ?N1 = "N\<lparr>vdev_writes := vdev_writes N @ [(R_INTERRUPT_ACK, vdev_read N (vdev_writes N) R_INTERRUPT_STATUS AND 3)]\<rparr>"
  let ?N2 = "?N1\<lparr>bufs := (bufs ?N1)(b := (bufs ?N1 b)\<lparr>b_disk := False\<rparr>)\<rparr>"
  let ?N3 = "?N2\<lparr>disk := (disk ?N2)\<lparr>d_used_idx := d_used_idx (disk ?N2) + 1\<rparr>\<rparr>"
  have fin: "does D C i [VdiskLock] (intr_loop (Suc n)) ?N3 () [VdiskLock] ?N3" for n
    unfolding intr_loop.simps
    by (rule does_bnd [OF does_gets]) (use assms(1) in \<open>simp_all add: does_ret\<close>)
  have "does D C i [VdiskLock] (intr_loop (Suc (Suc n))) ?N1 () [VdiskLock] ?N3" for n
    unfolding intr_loop.simps(2) [of "Suc n"]
    by (rule does_bnd [OF does_gets], simp) (use assms in \<open>auto simp: Let_def intro!: does_sq [OF does_guardM]
        does_sq [OF does_upd_buf] does_sq [OF does_wakeup] does_sq [OF does_upd_disk] simp del: intr_loop.simps
        intro: fin [simplified]\<close>)
  then have loop: "does D C i [VdiskLock] (intr_loop 65536) ?N1 () [VdiskLock] ?N3"
    by (metis Suc_numeral semiring_norm(2,5,8))
  have "?N3 = intr_data N" unfolding intr_data_def Let_def h(1) [symmetric] by (simp add: assms(5))
  then have "does D C i [VdiskLock] (intr_loop 65536) ?N1 () [VdiskLock] (intr_data N)" using loop by (simp only:)
  then show ?thesis unfolding virtio_disk_intr_def
    by (intro does_sq [OF does_acquire] does_bnd [OF does_reg_read] does_sq [OF does_reg_write] does_sq [OF _ does_release])
      (simp_all add: note_notify_def R_QUEUE_NOTIFY_def R_INTERRUPT_ACK_def)
qed

subsection \<open>A transfer\<close>

lemma does_eq: "does D C i L m N a L' N1 \<Longrightarrow> N1 = N2 \<Longrightarrow> does D C i L m N a L' N2"
  by simp

definition disk_off :: "u32 \<Rightarrow> nat" where
  "disk_off n = 512 * unat (n * 2)"

text \<open>The data state when the process has handed its request to an idle device.\<close>

definition submitted :: "nat \<Rightarrow> bool \<Rightarrow> 'z bstate_scheme \<Rightarrow> 'z bstate_scheme" where
  "submitted b wr N = (let d = disk N in N\<lparr>
     disk := d\<lparr>
       d_free := (d_free d)(0 := False, 1 := False, 2 := False),
       d_ops := (d_ops d)(0 := \<lparr>r_type = (if wr then 1 else 0), r_reserved = 0, r_sector = ucast (b_blockno (bufs N b) * 2)\<rparr>),
       d_desc := (d_desc d)(0 := \<lparr>d_addr = DOps 0, d_len = 16, d_flags = 1, d_next = 1\<rparr>,
         1 := \<lparr>d_addr = DData b, d_len = 1024, d_flags = (if wr then 1 else 3), d_next = 2\<rparr>,
         2 := \<lparr>d_addr = DStatus 0, d_len = 1, d_flags = 2, d_next = 0\<rparr>),
       d_info_status := (d_info_status d)(0 := 0xff),
       d_info_b := (d_info_b d)(0 := Some b),
       d_avail_ring := (d_avail_ring d)(unat (d_avail_idx d mod 8) := 0),
       d_avail_idx := d_avail_idx d + 1,
       d_seen_idx := d_avail_idx d + 1\<rparr>,
     bufs := (bufs N)(b := (bufs N b)\<lparr>b_disk := True\<rparr>),
     vdev_writes := vdev_writes N @ [(R_QUEUE_NOTIFY, 0)]\<rparr>)"

lemma upt_8: "[0..<8] = [0, 1, 2, 3, 4, 5, 6, 7 :: nat]"
  by (simp add: upt_conv_Cons)

lemma alloc_desc_scan_run:
  "alloc_desc_scan is s = (case find (d_free (disk s)) is of None \<Rightarrow> Ok None s
    | Some i \<Rightarrow> Ok (Some i) (s\<lparr>disk := (disk s)\<lparr>d_free := (d_free (disk s))(i := False)\<rparr>\<rparr>))"
  by (induction "is") (simp_all add: run_simps virtio_ops)

lemma does_alloc_desc:
  assumes "find (d_free (disk N)) [0..<NUM] = Some j"
  shows "does D C i L alloc_desc N (Some j) L (N\<lparr>disk := (disk N)\<lparr>d_free := (d_free (disk N))(j := False)\<rparr>\<rparr>)"
  by (rule does_exact) (use assms in \<open>auto simp: alloc_desc_def alloc_desc_scan_run simp del: upt_rec_numeral\<close>)

lemma does_alloc3_loop:
  assumes "find (d_free (disk N)) [0..<NUM] = Some j"
    and "does D C i L (alloc3_loop n (idx @ [j])) (N\<lparr>disk := (disk N)\<lparr>d_free := (d_free (disk N))(j := False)\<rparr>\<rparr>) r L N'"
  shows "does D C i L (alloc3_loop (Suc n) idx) N r L N'"
  unfolding alloc3_loop.simps by (rule does_bnd [OF does_alloc_desc [OF assms(1)]]) (use assms(2) in simp)

lemma does_alloc3:
  assumes "disk_idle (disk N)"
  shows "does D C i L alloc3_desc N (Some [0, 1, 2]) L
    (N\<lparr>disk := (disk N)\<lparr>d_free := (d_free (disk N))(0 := False, 1 := False, 2 := False)\<rparr>\<rparr>)"
proof -
  have "d_free (disk N) 0" "d_free (disk N) 1" "d_free (disk N) 2" using assms by (auto simp: disk_idle_def)
  note free = this
  show ?thesis unfolding alloc3_desc_def numeral_3_eq_3
    by (rule does_alloc3_loop [where j = 0, OF _ does_alloc3_loop [where j = 1, OF _ does_alloc3_loop [where j = 2]]])
      (use free in \<open>simp_all add: upt_8 does_ret\<close>)
qed

lemma does_submit:
  "does D C i L (virtio_submit b wr (ucast (b_blockno (bufs N b) * 2)) 0 1 2)
     (N\<lparr>disk := (disk N)\<lparr>d_free := (d_free (disk N))(0 := False, 1 := False, 2 := False)\<rparr>\<rparr>) () L (submitted b wr N)"
proof (rule does_exact)
  let ?N = "N\<lparr>disk := (disk N)\<lparr>d_free := (d_free (disk N))(0 := False, 1 := False, 2 := False)\<rparr>\<rparr>"
  fix s :: "'a bstate_scheme" assume q: "quiet i L s" and n: "norm s = ?N"
  have "virtio_submit b wr (ucast (b_blockno (bufs N b) * 2)) 0 1 2 s = Ok () (submitted b wr s)"
    using arg_cong [OF n, of bufs] arg_cong [OF n, of disk]
    by (simp add: virtio_submit_def run_simps virtio_ops note_notify_def submitted_def Let_def fun_upd_twist)
  moreover have "norm (submitted b wr s) = submitted b wr ?N"
    unfolding n [symmetric] by (simp add: submitted_def Let_def)
  moreover have "submitted b wr ?N = submitted b wr N" by (simp add: submitted_def Let_def)
  ultimately show "\<exists>t. virtio_submit b wr (ucast (b_blockno (bufs N b) * 2)) 0 1 2 s = Ok () t \<and>
      quiet i L t \<and> norm t = submitted b wr N"
    using q by (auto simp: submitted_def Let_def)
qed

text \<open>The buffer and the medium after a transfer.\<close>

definition rw_buf :: "nat \<Rightarrow> bool \<Rightarrow> 'z bstate_scheme \<Rightarrow> buf" where
  "rw_buf b wr N = (bufs N b)\<lparr>b_disk := False, b_data := if wr then b_data (bufs N b)
     else (\<lambda>x. if x < BSIZE then platter N (disk_off (b_blockno (bufs N b)) + x) else b_data (bufs N b) x)\<rparr>"

definition rw_platter :: "nat \<Rightarrow> bool \<Rightarrow> 'z bstate_scheme \<Rightarrow> nat \<Rightarrow> u8" where
  "rw_platter b wr N = (if wr then (\<lambda>x. let off = disk_off (b_blockno (bufs N b)) in
       if off \<le> x \<and> x < off + BSIZE then b_data (bufs N b) (x - off) else platter N x) else platter N)"

lemma unat_ucast_32: "unat (ucast (x :: u32) :: u64) = unat x"
proof -
  have "unat x < 2 ^ 32" using unsigned_less [of x, where 'a = nat] by simp
  then show ?thesis by (simp add: unsigned_ucast_eq take_bit_nat_eq_self)
qed

lemma served:
  assumes "disk_idle (disk N)"
  shows "\<exists>M d w. dev_serve (submitted b wr N) = Some M \<and> intr_data M =
      N\<lparr>bufs := (bufs N)(b := rw_buf b wr N), platter := rw_platter b wr N, disk := d, vdev_writes := w\<rparr>
    \<and> d_free d = (d_free (disk N))(0 := False, 1 := False, 2 := False)
    \<and> d_desc d = d_desc (disk (submitted b wr N))
    \<and> d_used_idx d = d_used_idx_dev d \<and> d_avail_idx d = d_used_idx_dev d"
proof -
  have "d_used_idx (disk N) = d_avail_idx (disk N)" "d_used_idx_dev (disk N) = d_avail_idx (disk N)"
    using assms by (auto simp: disk_idle_def)
  note idx = this
  let ?S = "submitted b wr N"
  let ?d = "(disk ?S)\<lparr>d_info_status := (d_info_status (disk ?S))(0 := 0),
      d_used_ring := (d_used_ring (disk ?S))(unat (d_used_idx_dev (disk N) mod 8) := 0), d_used_idx_dev := d_used_idx_dev (disk N) + 1\<rparr>"
  have 1: "dev_serve ?S = Some (if wr then ?S\<lparr>platter := rw_platter b wr N, disk := ?d\<rparr>
      else ?S\<lparr>bufs := (bufs ?S)(b := (bufs ?S b)\<lparr>b_data := b_data (rw_buf b wr N)\<rparr>), disk := ?d\<rparr>)"
    using idx by (cases wr) (simp_all add: dev_serve_def chain_ok_def Let_def submitted_def rw_buf_def rw_platter_def disk_off_def unat_ucast_32 cong: if_cong)
  have 2: "rw_platter b False N = platter N" "b_data (rw_buf b True N) = b_data (bufs N b)"
    by (simp_all add: rw_platter_def rw_buf_def)
  obtain d0 w where S: "?S = N\<lparr>disk := d0, bufs := (bufs N)(b := (bufs N b)\<lparr>b_disk := True\<rparr>), vdev_writes := w\<rparr>"
    by (auto simp: submitted_def Let_def)
  let ?M = "N\<lparr>bufs := (bufs N)(b := (bufs N b)\<lparr>b_disk := True, b_data := b_data (rw_buf b wr N)\<rparr>),
      platter := rw_platter b wr N, disk := ?d, vdev_writes := w\<rparr>"
  have serve: "dev_serve ?S = Some ?M"
    using 2 unfolding 1 unfolding S by (cases wr) simp_all
  have d: "d_used_idx ?d = d_used_idx (disk N)" "d_info_b ?d 0 = Some b" "d_avail_idx ?d = d_avail_idx (disk N) + 1"
    "d_free ?d = (d_free (disk N))(0 := False, 1 := False, 2 := False)"
    by (simp_all add: submitted_def Let_def)
  have "(bufs N b)\<lparr>b_data := b_data (rw_buf b wr N), b_disk := False\<rparr> = rw_buf b wr N" by (simp add: rw_buf_def)
  then show ?thesis unfolding serve intr_data_def Let_def using d idx
    by (intro exI [of _ ?M] exI [of _ "?d\<lparr>d_used_idx := d_used_idx (disk N) + 1\<rparr>"]
        exI [of _ "w @ [(R_INTERRUPT_ACK, vdev_read N w R_INTERRUPT_STATUS AND 3)]"]) simp
qed

lemma does_free_desc:
  assumes "j < NUM" and "\<not> d_free (disk N) j" and "\<And>j. ProcLock j \<notin> set L"
  shows "does D C i L (free_desc j) N () L
    (N\<lparr>disk := (disk N)\<lparr>d_desc := (d_desc (disk N))(j := null_desc), d_free := (d_free (disk N))(j := True)\<rparr>\<rparr>)"
proof -
  have "does D C i L (bnd (getd d_free) (\<lambda>fr. if fr j then panic ''free_desc 2'' else sq (upd_desc j (\<lambda>_. null_desc)) (
      sq (upd_disk (\<lambda>d. d\<lparr>d_free := (d_free d)(j := True)\<rparr>)) (wakeup (Some ChanDiskFree))))) N () L
    (N\<lparr>disk := (disk N)\<lparr>d_desc := (d_desc (disk N))(j := null_desc), d_free := (d_free (disk N))(j := True)\<rparr>\<rparr>)"
    by (rule does_eq, rule does_bnd [OF does_getd], simp only: assms(2) if_False,
        rule does_sq [OF does_upd_desc does_sq [OF does_upd_disk does_wakeup [OF assms(3)]]]) simp
  then show ?thesis using assms(1) by (simp add: free_desc_def)
qed

lemma does_free_chain:
  assumes "d_desc (disk N) 0 = \<lparr>d_addr = a0, d_len = l0, d_flags = 1, d_next = 1\<rparr>"
    and "d_desc (disk N) 1 = \<lparr>d_addr = a1, d_len = l1, d_flags = f1, d_next = 2\<rparr>" "f1 AND 1 \<noteq> 0"
    and "d_desc (disk N) 2 = \<lparr>d_addr = a2, d_len = l2, d_flags = 2, d_next = 0\<rparr>"
    and "\<not> d_free (disk N) 0" "\<not> d_free (disk N) 1" "\<not> d_free (disk N) 2" and L: "\<And>j. ProcLock j \<notin> set L"
  shows "\<exists>d. does D C i L (free_chain 0) N () L (N\<lparr>disk := d\<rparr>) \<and> d_free d = (d_free (disk N))(0 := True, 1 := True, 2 := True)
    \<and> d_used_idx d = d_used_idx (disk N) \<and> d_used_idx_dev d = d_used_idx_dev (disk N) \<and> d_avail_idx d = d_avail_idx (disk N)"
proof -
  have step: "does D C i L (free_chain_loop (Suc n) j) M () L M'"
    if "j < NUM" "\<not> d_free (disk M) j" "if d_flags (d_desc (disk M) j) AND 1 \<noteq> 0
      then does D C i L (free_chain_loop n (unat (d_next (d_desc (disk M) j)))) (M\<lparr>disk := (disk M)\<lparr>d_desc := (d_desc (disk M))(j := null_desc), d_free := (d_free (disk M))(j := True)\<rparr>\<rparr>) () L M'
      else M' = M\<lparr>disk := (disk M)\<lparr>d_desc := (d_desc (disk M))(j := null_desc), d_free := (d_free (disk M))(j := True)\<rparr>\<rparr>" for n j M M'
    unfolding free_chain_loop.simps
    by (rule does_bnd [OF does_getd], rule does_sq [OF does_free_desc [OF that(1,2) L]]) (use that(3) in \<open>auto simp: does_ret split: if_splits\<close>)
  let ?f = "\<lambda>j M. M\<lparr>disk := (disk M)\<lparr>d_desc := (d_desc (disk M))(j := null_desc), d_free := (d_free (disk M))(j := True)\<rparr>\<rparr>"
  have "does D C i L (free_chain_loop (Suc n) 2) (?f 1 (?f 0 N)) () L (?f 2 (?f 1 (?f 0 N)))" for n
    by (rule step) (use assms in auto)
  then have "does D C i L (free_chain_loop (Suc (Suc n)) 1) (?f 0 N) () L (?f 2 (?f 1 (?f 0 N)))" for n
    using assms by (intro step) auto
  then have "does D C i L (free_chain_loop (Suc (Suc (Suc n))) 0) N () L (?f 2 (?f 1 (?f 0 N)))" for n
    using assms by (intro step) auto
  then have "does D C i L (free_chain 0) N () L (?f 2 (?f 1 (?f 0 N)))"
    unfolding free_chain_def by (metis Suc_numeral semiring_norm(2,5,8))
  then show ?thesis by (intro exI conjI, simp) simp_all
qed

text \<open>\<open>io_result b wr N N'\<close>: \<open>N'\<close> is \<open>N\<close> after the transfer between buffer \<open>b\<close> and the disk.\<close>

definition io_result :: "nat \<Rightarrow> bool \<Rightarrow> 'z bstate_scheme \<Rightarrow> 'z bstate_scheme \<Rightarrow> bool" where
  "io_result b wr N N' \<longleftrightarrow> disk_idle (disk N') \<and>
     (\<exists>d w. N' = N\<lparr>bufs := (bufs N)(b := rw_buf b wr N), platter := rw_platter b wr N, disk := d, vdev_writes := w\<rparr>)"

lemma does_wait_io:
  assumes "b_disk (bufs N b)" and "D N = Some N'" and "norm N' = N'" and "C N" and "\<not> b_disk (bufs N' b)"
  shows "does D C i [VdiskLock] (again (bnd (getb b b_disk) (\<lambda>pending.
       if pending then sq (sleep (Some (ChanBuf b)) VdiskLock) (ret (Inr ())) else ret (Inl ())))) N () [VdiskLock] N'"
proof (rule does_again)
  show "does D C i [VdiskLock] (bnd (getb b b_disk) (\<lambda>pending.
       if pending then sq (sleep (Some (ChanBuf b)) VdiskLock) (ret (Inr ())) else ret (Inl ()))) N (Inr ()) [VdiskLock] N'"
    by (rule does_bnd [OF does_getb]) (use assms in \<open>auto intro!: does_sq [OF does_sleep does_ret]\<close>)
  show "does D C i [VdiskLock] (bnd (getb b b_disk) (\<lambda>pending.
       if pending then sq (sleep (Some (ChanBuf b)) VdiskLock) (ret (Inr ())) else ret (Inl ()))) N' (Inl ()) [VdiskLock] N'"
    by (rule does_bnd [OF does_getb]) (use assms(5) in \<open>auto intro!: does_ret\<close>)
qed

lemma does_virtio_disk_rw:
  assumes "disk_idle (disk N)" and "disk_works D" and "norm N = N" and "CP (platter N)"
  shows "\<exists>N'. does D (\<lambda>M. CP (platter M)) i [] (virtio_disk_rw b wr) N () [] N' \<and> io_result b wr N N'"
proof -
  let ?C = "\<lambda>M. CP (platter M)" and ?S = "submitted b wr N"
  obtain M d w where serve: "dev_serve ?S = Some M" and M: "intr_data M =
      N\<lparr>bufs := (bufs N)(b := rw_buf b wr N), platter := rw_platter b wr N, disk := d, vdev_writes := w\<rparr>"
    and d: "d_free d = (d_free (disk N))(0 := False, 1 := False, 2 := False)" "d_desc d = d_desc (disk ?S)"
      "d_used_idx d = d_used_idx_dev d" "d_avail_idx d = d_used_idx_dev d"
    using served [OF assms(1), of b wr] by metis
  let ?M = "N\<lparr>bufs := (bufs N)(b := rw_buf b wr N), platter := rw_platter b wr N, disk := d, vdev_writes := w\<rparr>"
  let ?M1 = "?M\<lparr>disk := d\<lparr>d_info_b := (d_info_b d)(0 := None)\<rparr>\<rparr>"
  have "norm ?S = ?S" "one_pending (disk ?S)" "platter ?S = platter N" "b_disk (bufs ?S b)"
    using assms(1,3) by (simp_all add: submitted_def Let_def one_pending_def disk_idle_def)
  then have wait: "does D ?C i [VdiskLock] (again (bnd (getb b b_disk) (\<lambda>pending.
       if pending then sq (sleep (Some (ChanBuf b)) VdiskLock) (ret (Inr ())) else ret (Inl ())))) ?S () [VdiskLock] ?M"
    using assms(2,3,4) serve M by (intro does_wait_io) (auto simp: disk_works_def rw_buf_def)
  have desc: "d_desc d 0 = \<lparr>d_addr = DOps 0, d_len = 16, d_flags = 1, d_next = 1\<rparr>"
    "d_desc d 1 = \<lparr>d_addr = DData b, d_len = 1024, d_flags = (if wr then 1 else 3), d_next = 2\<rparr>"
    "d_desc d 2 = \<lparr>d_addr = DStatus 0, d_len = 1, d_flags = 2, d_next = 0\<rparr>"
    unfolding d(2) by (simp_all add: submitted_def Let_def)
  have flag: "(if wr then 1 else 3) AND 1 \<noteq> (0 :: u16)" by (cases wr) simp_all
  obtain d' where fre: "does D ?C i [VdiskLock] (free_chain 0) ?M1 () [VdiskLock] (?M1\<lparr>disk := d'\<rparr>)"
    and d': "d_free d' = (d_free d)(0 := True, 1 := True, 2 := True)" "d_used_idx d' = d_used_idx d"
      "d_used_idx_dev d' = d_used_idx_dev d" "d_avail_idx d' = d_avail_idx d"
    using does_free_chain [of ?M1 "DOps 0" 16 "DData b" 1024 "if wr then 1 else 3" "DStatus 0" 1 "[VdiskLock]" D ?C i] desc d(1) flag by auto
  have alloc: "does D ?C i [VdiskLock] (again (bnd alloc3_desc (\<lambda>r. case r of Some idx \<Rightarrow> ret (Inl idx)
       | None \<Rightarrow> sq (sleep (Some ChanDiskFree) VdiskLock) (ret (Inr ()))))) N [0, 1, 2] [VdiskLock]
      (N\<lparr>disk := (disk N)\<lparr>d_free := (d_free (disk N))(0 := False, 1 := False, 2 := False)\<rparr>\<rparr>)"
    by (rule does_again_at_once, rule does_bnd [OF does_alloc3 [OF assms(1)]]) (simp add: does_ret)
  have "does D ?C i [] (virtio_disk_rw b wr) N () [] (?M1\<lparr>disk := d'\<rparr>)"
    unfolding virtio_disk_rw_def
    by (rule does_bnd [OF does_getb], rule does_sq [OF does_acquire], simp, rule does_bnd [OF alloc])
      (use does_sq [OF does_submit does_sq [OF wait does_sq [OF does_upd_disk does_sq [OF _ does_release]]]] fre in simp)
  moreover have "disk_idle d'" using assms(1) d(3,4) d' d(1) by (auto simp: disk_idle_def)
  moreover have "?M1\<lparr>disk := d'\<rparr> = N\<lparr>bufs := (bufs N)(b := rw_buf b wr N), platter := rw_platter b wr N, disk := d', vdev_writes := w\<rparr>"
    by simp
  ultimately have "does D ?C i [] (virtio_disk_rw b wr) N () []
      (N\<lparr>bufs := (bufs N)(b := rw_buf b wr N), platter := rw_platter b wr N, disk := d', vdev_writes := w\<rparr>)"
    and "disk_idle d'" by (simp_all only:)
  then show ?thesis unfolding io_result_def
    by (intro exI [of _ "N\<lparr>bufs := (bufs N)(b := rw_buf b wr N), platter := rw_platter b wr N, disk := d', vdev_writes := w\<rparr>"]) auto
qed

lemma block_div: "x div 1024 = n \<longleftrightarrow> 1024 * n \<le> x \<and> x < 1024 * n + (1024 :: nat)"
proof
  assume "x div 1024 = n"
  then show "1024 * n \<le> x \<and> x < 1024 * n + 1024"
    using times_div_less_eq_dividend [of 1024 x] dividend_less_times_div [of 1024 x] by auto
next
  assume "1024 * n \<le> x \<and> x < 1024 * n + 1024"
  then show "x div 1024 = n" by (intro div_nat_eqI) auto
qed

lemma block_mod: "1024 * n \<le> x \<Longrightarrow> x < 1024 * n + 1024 \<Longrightarrow> x - 1024 * n = x mod (1024 :: nat)"
  using block_div [of x n] by (metis minus_mult_div_eq_mod)

subsection \<open>The property\<close>


text \<open>A device that meets the assumption, and a machine with an idle one.\<close>

definition blk_device :: "'z bstate_scheme \<Rightarrow> 'z bstate_scheme option" where
  "blk_device N = (if one_pending (disk N) then map_option intr_data (dev_serve N) else None)"

lemma blk_device_works: "disk_works blk_device"
  by (simp add: disk_works_def blk_device_def)

definition idle_disk :: disk where
  "idle_disk = \<lparr>d_desc_pg = 0, d_avail_pg = 0, d_used_pg = 0, d_desc = (\<lambda>_. null_desc), d_avail_idx = 0,
     d_avail_ring = (\<lambda>_. 0), d_used_idx_dev = 0, d_used_ring = (\<lambda>_. 0), d_seen_idx = 0, d_free = (\<lambda>_. True), d_used_idx = 0,
     d_info_b = (\<lambda>_. None), d_info_status = (\<lambda>_. 0), d_ops = (\<lambda>_. \<lparr>r_type = 0, r_reserved = 0, r_sector = 0\<rparr>)\<rparr>"

definition empty_buf :: buf where
  "empty_buf = \<lparr>b_valid = False, b_disk = False, b_dev = 0, b_blockno = 0, b_refcnt = 0, b_prev = 0, b_next = 0, b_data = (\<lambda>_. 0)\<rparr>"

definition disk_machine :: bstate where
  "disk_machine = pstate.extend two_procs \<lparr>bufs = (\<lambda>_. empty_buf), disk = idle_disk, vdev_read = (\<lambda>_ _. 0),
     vdev_writes = [], platter = (\<lambda>x. of_nat x)\<rparr>"

lemma disk_machine_ok: "quiet 0 [] disk_machine" "disk_idle (disk disk_machine)" "bufs disk_machine b = empty_buf"
  by (simp_all add: quiet_def awake_def disk_idle_def disk_machine_def two_procs_def pstate.extend_def idle_disk_def
      mach_ok_def running_def lock_free_def ie_def SSTATUS_SIE_def init_spinlock_def)


end
