(* ===== verification/Bio.thy ===== *)
theory Bio
  imports Virtio
begin

text \<open>
  \<open>kernel/bio.c\<close>: the buffer cache. The buffers and the list head are numbered: buffer \<open>b\<close> is
  \<open>bcache.buf[b]\<close>, and number \<open>NBUF\<close> is \<open>bcache.head\<close>; \<open>b_prev\<close> and \<open>b_next\<close> are the links.
\<close>

abbreviation (input) BHEAD :: nat where "BHEAD \<equiv> NBUF"

definition binit :: "(unit, 'z bstate_scheme) kern" where
  "binit =
     sq (initlock BcacheLock ''bcache'') (
     sq (upd_buf BHEAD (\<lambda>h. h\<lparr>b_prev := BHEAD\<rparr>)) (
     sq (upd_buf BHEAD (\<lambda>h. h\<lparr>b_next := BHEAD\<rparr>)) (
     forM [0..<NBUF] (\<lambda>b.
       bnd (getb BHEAD b_next) (\<lambda>n.
       sq (upd_buf b (\<lambda>bf. bf\<lparr>b_next := n\<rparr>)) (
       sq (upd_buf b (\<lambda>bf. bf\<lparr>b_prev := BHEAD\<rparr>)) (
       sq (initsleeplock (BufSleep b) ''buffer'') (
       bnd (getb BHEAD b_next) (\<lambda>n.
       sq (upd_buf n (\<lambda>bf. bf\<lparr>b_prev := b\<rparr>))
          (upd_buf BHEAD (\<lambda>h. h\<lparr>b_next := b\<rparr>))))))))))) "

text \<open>
  The two loops of \<open>bget\<close> follow the list until they return or come back to the head; the first
  argument bounds the number of steps, which is at most \<open>NBUF + 1\<close> on a list of \<open>NBUF\<close> buffers.
  \<open>None\<close> is falling out of the loop.
\<close>

primrec bget_cached :: "nat \<Rightarrow> nat \<Rightarrow> u32 \<Rightarrow> u32 \<Rightarrow> (nat option, 'z bstate_scheme) kern" where
  "bget_cached 0 b dev blockno = fault"
| "bget_cached (Suc n) b dev blockno =
     (if b = BHEAD then ret None
      else bnd (getb b (\<lambda>bf. bf)) (\<lambda>bf.
      if b_dev bf = dev \<and> b_blockno bf = blockno then
        sq (upd_buf b (\<lambda>bf. bf\<lparr>b_refcnt := b_refcnt bf + 1\<rparr>)) (
        sq (release BcacheLock) (
        sq (acquiresleep (BufSleep b)) (
        ret (Some b))))
      else bget_cached n (b_next bf) dev blockno))"

primrec bget_recycle :: "nat \<Rightarrow> nat \<Rightarrow> u32 \<Rightarrow> u32 \<Rightarrow> (nat option, 'z bstate_scheme) kern" where
  "bget_recycle 0 b dev blockno = fault"
| "bget_recycle (Suc n) b dev blockno =
     (if b = BHEAD then ret None
      else bnd (getb b (\<lambda>bf. bf)) (\<lambda>bf.
      if b_refcnt bf = 0 then
        sq (upd_buf b (\<lambda>bf. bf\<lparr>b_dev := dev, b_blockno := blockno, b_valid := False, b_refcnt := 1\<rparr>)) (
        sq (release BcacheLock) (
        sq (acquiresleep (BufSleep b)) (
        ret (Some b))))
      else bget_recycle n (b_prev bf) dev blockno))"

definition bget :: "u32 \<Rightarrow> u32 \<Rightarrow> (nat, 'z bstate_scheme) kern" where
  "bget dev blockno =
     sq (acquire BcacheLock) (
     bnd (getb BHEAD b_next) (\<lambda>first.
     bnd (bget_cached (Suc NBUF) first dev blockno) (\<lambda>r. case r of
       Some b \<Rightarrow> ret b
     | None \<Rightarrow>
         bnd (getb BHEAD b_prev) (\<lambda>lst.
         bnd (bget_recycle (Suc NBUF) lst dev blockno) (\<lambda>r. case r of
           Some b \<Rightarrow> ret b
         | None \<Rightarrow> panic ''bget: no buffers'')))))"

definition bread :: "u32 \<Rightarrow> u32 \<Rightarrow> (nat, 'z bstate_scheme) kern" where
  "bread dev blockno =
     bnd (bget dev blockno) (\<lambda>b.
     bnd (getb b b_valid) (\<lambda>v.
     sq (whenM (\<not> v) (
       sq (virtio_disk_rw b False)
          (upd_buf b (\<lambda>bf. bf\<lparr>b_valid := True\<rparr>)))) (
     ret b)))"

definition bwrite :: "nat \<Rightarrow> (unit, 'z bstate_scheme) kern" where
  "bwrite b =
     bnd (holdingsleep (BufSleep b)) (\<lambda>h.
     if \<not> h then panic ''bwrite'' else virtio_disk_rw b True)"

definition brelse :: "nat \<Rightarrow> (unit, 'z bstate_scheme) kern" where
  "brelse b =
     bnd (holdingsleep (BufSleep b)) (\<lambda>h.
     if \<not> h then panic ''brelse''
     else sq (releasesleep (BufSleep b)) (
     sq (acquire BcacheLock) (
     sq (upd_buf b (\<lambda>bf. bf\<lparr>b_refcnt := b_refcnt bf - 1\<rparr>)) (
     bnd (getb b b_refcnt) (\<lambda>r.
     sq (whenM (r = 0) (
       bnd (getb b b_next) (\<lambda>n. bnd (getb b b_prev) (\<lambda>p.
       sq (upd_buf n (\<lambda>bf. bf\<lparr>b_prev := p\<rparr>)) (
       bnd (getb b b_next) (\<lambda>n. bnd (getb b b_prev) (\<lambda>p.
       sq (upd_buf p (\<lambda>bf. bf\<lparr>b_next := n\<rparr>)) (
       bnd (getb BHEAD b_next) (\<lambda>f.
       sq (upd_buf b (\<lambda>bf. bf\<lparr>b_next := f\<rparr>)) (
       sq (upd_buf b (\<lambda>bf. bf\<lparr>b_prev := BHEAD\<rparr>)) (
       bnd (getb BHEAD b_next) (\<lambda>f.
       sq (upd_buf f (\<lambda>bf. bf\<lparr>b_prev := b\<rparr>))
          (upd_buf BHEAD (\<lambda>h. h\<lparr>b_next := b\<rparr>))))))))))))))
     (release BcacheLock))))))"

definition bpin :: "nat \<Rightarrow> (unit, 'z bstate_scheme) kern" where
  "bpin b =
     sq (acquire BcacheLock) (
     sq (upd_buf b (\<lambda>bf. bf\<lparr>b_refcnt := b_refcnt bf + 1\<rparr>))
        (release BcacheLock))"

definition bunpin :: "nat \<Rightarrow> (unit, 'z bstate_scheme) kern" where
  "bunpin b =
     sq (acquire BcacheLock) (
     sq (upd_buf b (\<lambda>bf. bf\<lparr>b_refcnt := b_refcnt bf - 1\<rparr>))
        (release BcacheLock))"

subsection \<open>Doubly linked rings\<close>

text \<open>\<open>ring n p h xs\<close>: starting at \<open>h\<close>, the links \<open>n\<close> visit \<open>xs\<close> and come back to \<open>h\<close>, and \<open>p\<close> the same backwards.\<close>

definition ring :: "(nat \<Rightarrow> nat) \<Rightarrow> (nat \<Rightarrow> nat) \<Rightarrow> nat \<Rightarrow> nat list \<Rightarrow> bool" where
  "ring n p h xs \<longleftrightarrow> distinct (h # xs) \<and> successively (\<lambda>u v. n u = v \<and> p v = u) (h # xs @ [h])"

lemma successively_upd:
  assumes "successively (\<lambda>u v. n u = v \<and> p v = u) xs"
    and "\<And>u. u \<in> set (butlast xs) \<Longrightarrow> n' u = n u" and "\<And>v. v \<in> set (tl xs) \<Longrightarrow> p' v = p v"
  shows "successively (\<lambda>u v. n' u = v \<and> p' v = u) xs"
  using assms
proof (induction xs rule: induct_list012)
  case (3 x y zs)
  have "n' u = n u" if "u \<in> set (butlast (y # zs))" for u using 3(4) that by auto
  moreover have "p' v = p v" if "v \<in> set (tl (y # zs))" for v using 3(5) that by auto
  ultimately show ?case using 3 by auto
qed auto

lemma ring_push:
  assumes "ring n p h xs" and "b \<notin> set (h # xs)"
  shows "ring (n(b := n h, h := b)) (p(b := h, n h := b)) h (b # xs)"
proof -
  obtain f r where fr: "xs @ [h] = f # r" by (cases "xs @ [h]") auto
  from assms have d: "distinct (h # xs)" and s: "successively (\<lambda>u v. n u = v \<and> p v = u) (h # f # r)"
    by (auto simp: ring_def fr)
  then have nh: "n h = f" by simp
  have but: "set (butlast (f # r)) = set xs" using fr by (metis butlast_snoc)
  have "distinct (f # r)" using d fr by (metis distinct1_rotate rotate1.simps(2))
  moreover have "b \<notin> set (f # r)" using assms(2) fr by (metis Un_iff list.set(1,2) insert_iff empty_iff set_append)
  ultimately have tl: "v \<noteq> f \<and> v \<noteq> b" if "v \<in> set r" for v using that by auto
  have "successively (\<lambda>u v. (n(b := n h, h := b)) u = v \<and> (p(b := h, n h := b)) v = u) (f # r)"
    by (rule successively_upd [of n p]) (use s d but tl nh assms(2) in auto)
  moreover have "f \<noteq> b" "b \<noteq> h" using \<open>b \<notin> set (f # r)\<close> assms(2) by auto
  ultimately show ?thesis using d assms(2) nh unfolding ring_def by (simp add: fr)
qed

lemma ring_unlink:
  assumes "ring n p h (xs @ b # ys)"
  shows "ring (n(p b := n b)) (p(n b := p b)) h (xs @ ys)"
proof -
  let ?adj = "\<lambda>u v. n u = v \<and> p v = u"
  obtain l A where A: "h # xs = A @ [l]" by (metis append_butlast_last_id list.distinct(1))
  obtain r B where B: "ys @ [h] = r # B" by (cases "ys @ [h]") auto
  have whole: "h # (xs @ b # ys) @ [h] = (A @ [l]) @ b # r # B" using A B by (metis append.assoc append_Cons)
  from assms have d: "distinct (h # xs @ b # ys)" and s: "successively ?adj ((A @ [l]) @ b # r # B)"
    unfolding ring_def whole by auto
  then have s1: "successively ?adj (A @ [l])" and lb: "n l = b" "p b = l" and br: "n b = r" "p r = b"
    and s2: "successively ?adj (r # B)"
    by (auto simp: successively_append_iff)
  have dA: "distinct (A @ [l])" using d A by (metis append.assoc append_Cons distinct_append)
  have "distinct (ys @ [h])" using d by auto
  then have dB: "distinct (r # B)" by (simp only: B)
  have l: "l \<in> set (h # xs)" by (simp add: A)
  have but: "set (butlast (r # B)) = set ys" using B by (metis butlast_snoc)
  have "successively (\<lambda>u v. (n(p b := n b)) u = v \<and> (p(n b := p b)) v = u) (A @ [l])"
  proof (rule successively_upd [OF s1])
    fix v assume v: "v \<in> set (tl (A @ [l]))"
    then have "v \<in> set xs" using A by (metis list.sel(3))
    then have "v \<noteq> r" using d B by (cases ys) auto
    then show "(p(n b := p b)) v = p v" using br by simp
  qed (use dA lb in auto)
  moreover have "successively (\<lambda>u v. (n(p b := n b)) u = v \<and> (p(n b := p b)) v = u) (r # B)"
  proof (rule successively_upd [OF s2])
    fix u assume "u \<in> set (butlast (r # B))"
    then have "u \<in> set ys" using but by simp
    then have "u \<noteq> l" using d l by auto
    then show "(n(p b := n b)) u = n u" using lb by simp
  qed (use dB br in auto)
  ultimately have "successively (\<lambda>u v. (n(p b := n b)) u = v \<and> (p(n b := p b)) v = u) ((A @ [l]) @ r # B)"
    using lb br by (subst successively_append_iff) auto
  moreover have "h # (xs @ ys) @ [h] = (A @ [l]) @ r # B" using A B by (metis append.assoc append_Cons)
  ultimately show ?thesis unfolding ring_def using d by auto
qed

subsection \<open>The list of buffers\<close>

definition lru :: "(nat \<Rightarrow> buf) \<Rightarrow> nat list \<Rightarrow> bool" where
  "lru f xs \<longleftrightarrow> ring (\<lambda>b. b_next (f b)) (\<lambda>b. b_prev (f b)) BHEAD xs \<and> set xs = {..<NBUF}"

lemma lru_length: "lru f xs \<Longrightarrow> length xs = NBUF"
  using distinct_card [of xs] by (auto simp: lru_def ring_def)

lemma lru_bound: "lru f xs \<Longrightarrow> b \<in> set xs \<Longrightarrow> b < NBUF"
  by (auto simp: lru_def)

text \<open>\<open>fwd f ys\<close>, \<open>bwd f ys\<close>: a walk along \<open>next\<close> (\<open>prev\<close>) that visits \<open>ys\<close> and then the head.\<close>

primrec fwd :: "(nat \<Rightarrow> nat) \<Rightarrow> nat \<Rightarrow> nat list \<Rightarrow> bool" where
  "fwd n b [] \<longleftrightarrow> b = BHEAD"
| "fwd n b (y # ys) \<longleftrightarrow> b = y \<and> y \<noteq> BHEAD \<and> fwd n (n y) ys"

lemma successively_fwd:
  "successively (\<lambda>u v. n u = v) (y # ys @ [BHEAD]) \<Longrightarrow> BHEAD \<notin> set ys \<Longrightarrow> fwd n (n y) ys"
  by (induction ys arbitrary: y) auto

lemma lru_fwd: "lru f xs \<Longrightarrow> fwd (\<lambda>b. b_next (f b)) (b_next (f BHEAD)) xs"
proof (rule successively_fwd)
  assume l: "lru f xs"
  then have "successively (\<lambda>u v. b_next (f u) = v \<and> b_prev (f v) = u) (BHEAD # xs @ [BHEAD])"
    by (auto simp: lru_def ring_def)
  then show "successively (\<lambda>u v. b_next (f u) = v) (BHEAD # xs @ [BHEAD])" by (rule successively_mono) simp
  show "BHEAD \<notin> set xs" using l by (auto simp: lru_def)
qed

lemma lru_bwd: "lru f xs \<Longrightarrow> fwd (\<lambda>b. b_prev (f b)) (b_prev (f BHEAD)) (rev xs)"
proof (rule successively_fwd)
  assume "lru f xs"
  then have "successively (\<lambda>u v. b_next (f u) = v \<and> b_prev (f v) = u) (BHEAD # xs @ [BHEAD])"
    by (auto simp: lru_def ring_def)
  then have "successively (\<lambda>u v. b_prev (f v) = u) (BHEAD # xs @ [BHEAD])" by (rule successively_mono) simp
  then have "successively (\<lambda>u v. b_prev (f u) = v) (rev (BHEAD # xs @ [BHEAD]))"
    by (simp only: successively_rev)
  then show "successively (\<lambda>u v. b_prev (f u) = v) (BHEAD # rev xs @ [BHEAD])" by simp
  show "BHEAD \<notin> set (rev xs)" using \<open>lru f xs\<close> by (auto simp: lru_def)
qed

lemma does_if: "does D C i L (if b then m else n) N a L' N'"
  if "b \<Longrightarrow> does D C i L m N a L' N'" "\<not> b \<Longrightarrow> does D C i L n N a L' N'"
  using that by simp

text \<open>The buffer the first loop finds, and the one the second loop recycles.\<close>

definition bmatch :: "(nat \<Rightarrow> buf) \<Rightarrow> u32 \<Rightarrow> u32 \<Rightarrow> nat \<Rightarrow> bool" where
  "bmatch f dev n b \<longleftrightarrow> b_dev (f b) = dev \<and> b_blockno (f b) = n"

lemma does_bget_cached_skip:
  assumes "b \<noteq> BHEAD" and "\<not> bmatch (bufs N) dev bn b"
    and "does D C i L (bget_cached n (b_next (bufs N b)) dev bn) N r L' N'"
  shows "does D C i L (bget_cached (Suc n) b dev bn) N r L' N'"
  unfolding bget_cached.simps(2)
  by (simp only: assms(1) if_False, rule does_bnd [OF does_getb]) (use assms(2,3) in \<open>auto simp: bmatch_def\<close>)

lemma does_bget_recycle_skip:
  assumes "b \<noteq> BHEAD" and "b_refcnt (bufs N b) \<noteq> 0"
    and "does D C i L (bget_recycle n (b_prev (bufs N b)) dev bn) N r L' N'"
  shows "does D C i L (bget_recycle (Suc n) b dev bn) N r L' N'"
  unfolding bget_recycle.simps(2)
  by (simp only: assms(1) if_False, rule does_bnd [OF does_getb]) (use assms(2,3) in simp)

lemma does_bget_take:
  assumes "sl_free (BufSleep b) N"
  shows "does D C i [BcacheLock] (sq (upd_buf b f) (sq (release BcacheLock) (sq (acquiresleep (BufSleep b)) (ret r)))) N r []
    (sl_take i (BufSleep b) (N\<lparr>bufs := (bufs N)(b := f (bufs N b))\<rparr>))"
proof -
  have "sl_free (BufSleep b) (N\<lparr>bufs := (bufs N)(b := f (bufs N b))\<rparr>)" using assms by (simp add: sl_free_def)
  then show ?thesis
    by (intro does_sq [OF does_upd_buf] does_sq [OF does_release] does_sq [OF does_acquiresleep] does_ret)
qed

lemma does_bget_cached_hit:
  assumes "b \<noteq> BHEAD" and "bmatch (bufs N) dev bn b" and "sl_free (BufSleep b) N"
  shows "does D C i [BcacheLock] (bget_cached (Suc n) b dev bn) N (Some b) []
    (sl_take i (BufSleep b) (N\<lparr>bufs := (bufs N)(b := (bufs N b)\<lparr>b_refcnt := b_refcnt (bufs N b) + 1\<rparr>)\<rparr>))"
  unfolding bget_cached.simps(2)
  by (simp only: assms(1) if_False, rule does_bnd [OF does_getb], rule does_if, rule does_bget_take [OF assms(3)])
    (use assms(2) in \<open>simp add: bmatch_def\<close>)

lemma does_bget_recycle_hit:
  assumes "b \<noteq> BHEAD" and "b_refcnt (bufs N b) = 0" and "sl_free (BufSleep b) N"
  shows "does D C i [BcacheLock] (bget_recycle (Suc n) b dev bn) N (Some b) []
    (sl_take i (BufSleep b) (N\<lparr>bufs := (bufs N)(b := (bufs N b)\<lparr>b_dev := dev, b_blockno := bn, b_valid := False, b_refcnt := 1\<rparr>)\<rparr>))"
  unfolding bget_recycle.simps(2)
  by (simp only: assms(1) if_False, rule does_bnd [OF does_getb], rule does_if, rule does_bget_take [OF assms(3)])
    (use assms(2) in simp)

lemma does_bget_cached_None:
  assumes "fwd (\<lambda>b. b_next (bufs N b)) b ys" and "length ys \<le> n" and "\<And>c. c \<in> set ys \<Longrightarrow> \<not> bmatch (bufs N) dev bn c"
  shows "does D C i L (bget_cached (Suc n) b dev bn) N None L N"
  using assms
proof (induction ys arbitrary: b n)
  case Nil
  then show ?case by (simp add: does_ret)
next
  case (Cons y ys)
  then obtain m where m: "n = Suc m" by (cases n) auto
  have "does D C i L (bget_cached (Suc m) (b_next (bufs N y)) dev bn) N None L N"
    using Cons.prems m by (intro Cons.IH) auto
  then show ?case using Cons.prems m by (auto intro: does_bget_cached_skip simp del: bget_cached.simps)
qed

lemma does_bget_recycle_None:
  assumes "fwd (\<lambda>b. b_prev (bufs N b)) b ys" and "length ys \<le> n" and "\<And>c. c \<in> set ys \<Longrightarrow> b_refcnt (bufs N c) \<noteq> 0"
  shows "does D C i L (bget_recycle (Suc n) b dev bn) N None L N"
  using assms
proof (induction ys arbitrary: b n)
  case Nil
  then show ?case by (simp add: does_ret)
next
  case (Cons y ys)
  then obtain m where m: "n = Suc m" by (cases n) auto
  have "does D C i L (bget_recycle (Suc m) (b_prev (bufs N y)) dev bn) N None L N"
    using Cons.prems m by (intro Cons.IH) auto
  then show ?case using Cons.prems m by (auto intro: does_bget_recycle_skip simp del: bget_recycle.simps)
qed

lemma does_bget_cached_Some:
  assumes "fwd (\<lambda>b. b_next (bufs N b)) a (ys @ b # zs)" and "length (ys @ b # zs) \<le> n"
    and "\<And>c. c \<in> set ys \<Longrightarrow> \<not> bmatch (bufs N) dev bn c" and "bmatch (bufs N) dev bn b" and "sl_free (BufSleep b) N"
  shows "does D C i [BcacheLock] (bget_cached (Suc n) a dev bn) N (Some b) []
    (sl_take i (BufSleep b) (N\<lparr>bufs := (bufs N)(b := (bufs N b)\<lparr>b_refcnt := b_refcnt (bufs N b) + 1\<rparr>)\<rparr>))" (is "does _ _ _ _ _ _ _ _ ?N'")
  using assms(1-3)
proof (induction ys arbitrary: a n)
  case Nil
  then have "a = b" "b \<noteq> BHEAD" by auto
  then show ?case by (blast intro: does_bget_cached_hit [OF _ assms(4,5)])
next
  case (Cons y ys)
  then obtain m where m: "n = Suc m" by (cases n) auto
  have "does D C i [BcacheLock] (bget_cached (Suc m) (b_next (bufs N y)) dev bn) N (Some b) [] ?N'"
    by (rule Cons.IH) (use Cons.prems m in auto)
  moreover have "a = y" "y \<noteq> BHEAD" "\<not> bmatch (bufs N) dev bn y" using Cons.prems by auto
  ultimately show ?case unfolding m by (blast intro: does_bget_cached_skip)
qed

lemma does_bget_recycle_Some:
  assumes "fwd (\<lambda>b. b_prev (bufs N b)) a (ys @ b # zs)" and "length (ys @ b # zs) \<le> n"
    and "\<And>c. c \<in> set ys \<Longrightarrow> b_refcnt (bufs N c) \<noteq> 0" and "b_refcnt (bufs N b) = 0" and "sl_free (BufSleep b) N"
  shows "does D C i [BcacheLock] (bget_recycle (Suc n) a dev bn) N (Some b) []
    (sl_take i (BufSleep b) (N\<lparr>bufs := (bufs N)(b := (bufs N b)\<lparr>b_dev := dev, b_blockno := bn, b_valid := False, b_refcnt := 1\<rparr>)\<rparr>))" (is "does _ _ _ _ _ _ _ _ ?N'")
  using assms(1-3)
proof (induction ys arbitrary: a n)
  case Nil
  then have "a = b" "b \<noteq> BHEAD" by auto
  then show ?case by (blast intro: does_bget_recycle_hit [OF _ assms(4,5)])
next
  case (Cons y ys)
  then obtain m where m: "n = Suc m" by (cases n) auto
  have "does D C i [BcacheLock] (bget_recycle (Suc m) (b_prev (bufs N y)) dev bn) N (Some b) [] ?N'"
    by (rule Cons.IH) (use Cons.prems m in auto)
  moreover have "a = y" "y \<noteq> BHEAD" "b_refcnt (bufs N y) \<noteq> 0" using Cons.prems by auto
  ultimately show ?case unfolding m by (blast intro: does_bget_recycle_skip)
qed

subsection \<open>The cache as a store of blocks\<close>

definition bdata :: "'z bstate_scheme \<Rightarrow> nat \<Rightarrow> bytes" where
  "bdata N b = map (b_data (bufs N b)) [0..<BSIZE]"

text \<open>Block \<open>n\<close> of the disk.\<close>

definition pblk :: "(nat \<Rightarrow> u8) \<Rightarrow> u32 \<Rightarrow> bytes" where
  "pblk p n = map (\<lambda>k. p (disk_off n + k)) [0..<BSIZE]"

definition holds :: "'z bstate_scheme \<Rightarrow> nat \<Rightarrow> u32 \<Rightarrow> bool" where
  "holds N b n \<longleftrightarrow> b < NBUF \<and> bmatch (bufs N) 1 n b \<and> b_valid (bufs N b)"

text \<open>Block \<open>n\<close> as the file system sees it: from the cache if it is there, else from the disk.\<close>

definition blk :: "'z bstate_scheme \<Rightarrow> u32 \<Rightarrow> bytes" where
  "blk N n = (case find (\<lambda>b. holds N b n) [0..<NBUF] of Some b \<Rightarrow> bdata N b | None \<Rightarrow> pblk (platter N) n)"

text \<open>
  The cache invariant: process \<open>i\<close> holds the buffers \<open>H\<close> locked and the buffers \<open>P\<close> are pinned. The list
  links all buffers; the reference count of a buffer counts its holder and its pin; no two buffers are for
  the same block; and a buffer nobody refers to has the content of the disk.
\<close>

definition bc :: "nat \<Rightarrow> nat set \<Rightarrow> nat set \<Rightarrow> 'z bstate_scheme \<Rightarrow> bool" where
  "bc i H P N \<longleftrightarrow> (\<exists>xs. lru (bufs N) xs) \<and> disk_idle (disk N) \<and> H \<subseteq> {..<NBUF} \<and> P \<subseteq> {..<NBUF}
   \<and> (\<forall>b<NBUF. \<not> b_disk (bufs N b) \<and> unat (b_refcnt (bufs N b)) = of_bool (b \<in> H) + of_bool (b \<in> P)
        \<and> (if b \<in> H then sl_mine i (BufSleep b) N else sl_free (BufSleep b) N))
   \<and> (\<forall>b \<in> H \<union> P. b_valid (bufs N b) \<and> b_dev (bufs N b) = 1)
   \<and> (\<forall>b<NBUF. b_dev (bufs N b) = 1 \<longrightarrow> b_blockno (bufs N b) < 2 ^ 31)
   \<and> (\<forall>b<NBUF. \<forall>c<NBUF. b_dev (bufs N b) = 1 \<and> b_dev (bufs N c) = 1 \<and> b_blockno (bufs N b) = b_blockno (bufs N c) \<longrightarrow> b = c)
   \<and> (\<forall>b<NBUF. b \<notin> H \<union> P \<and> b_valid (bufs N b) \<and> b_dev (bufs N b) = 1 \<longrightarrow> bdata N b = pblk (platter N) (b_blockno (bufs N b)))"

lemma bcD:
  assumes "bc i H P N"
  shows "\<exists>xs. lru (bufs N) xs" "disk_idle (disk N)" "H \<subseteq> {..<NBUF}" "P \<subseteq> {..<NBUF}"
    "\<And>b. b < NBUF \<Longrightarrow> \<not> b_disk (bufs N b)"
    "\<And>b. b < NBUF \<Longrightarrow> unat (b_refcnt (bufs N b)) = of_bool (b \<in> H) + of_bool (b \<in> P)"
    "\<And>b. b \<in> H \<Longrightarrow> sl_mine i (BufSleep b) N" "\<And>b. b < NBUF \<Longrightarrow> b \<notin> H \<Longrightarrow> sl_free (BufSleep b) N"
    "\<And>b. b \<in> H \<union> P \<Longrightarrow> b_valid (bufs N b) \<and> b_dev (bufs N b) = 1"
    "\<And>b c. b < NBUF \<Longrightarrow> c < NBUF \<Longrightarrow> bmatch (bufs N) 1 n b \<Longrightarrow> bmatch (bufs N) 1 n c \<Longrightarrow> b = c"
    "\<And>b. b < NBUF \<Longrightarrow> b \<notin> H \<union> P \<Longrightarrow> b_valid (bufs N b) \<Longrightarrow> b_dev (bufs N b) = 1 \<Longrightarrow>
       bdata N b = pblk (platter N) (b_blockno (bufs N b))"
    "\<And>b. b < NBUF \<Longrightarrow> b_dev (bufs N b) = 1 \<Longrightarrow> b_blockno (bufs N b) < 2 ^ 31"
  using assms unfolding bc_def bmatch_def by (blast, blast, blast, blast, blast, blast, metis lessThan_iff subsetD, meson, blast, metis, blast, blast)

lemma blk_holds:
  assumes "bc i H P N" and "holds N b n"
  shows "blk N n = bdata N b"
proof -
  have "\<exists>c\<in>set [0..<NBUF]. holds N c n" using assms(2) by (auto simp: holds_def)
  then obtain c where c: "find (\<lambda>b. holds N b n) [0..<NBUF] = Some c" "holds N c n"
    by (metis (mono_tags, lifting) find_None_iff find_Some_iff not_None_eq)
  then have "c = b" using assms(2) bcD(10) [OF assms(1)] by (auto simp: holds_def)
  with c show ?thesis by (simp add: blk_def)
qed

lemma blk_not_held: "(\<And>b. \<not> holds N b n) \<Longrightarrow> blk N n = pblk (platter N) n"
  unfolding blk_def by (metis (mono_tags, lifting) find_None_iff option.simps(4))

lemma does_bget:
  assumes "bc i H P N" and "\<forall>b\<in>H. b_blockno (bufs N b) \<noteq> n" and "H \<union> P \<noteq> {..<NBUF} \<or> (\<exists>b\<in>P. b_blockno (bufs N b) = n)"
  shows "\<exists>b f. b < NBUF \<and> b \<notin> H
    \<and> does D C i [] (bget 1 n) N b [] (sl_take i (BufSleep b) (N\<lparr>bufs := (bufs N)(b := f (bufs N b))\<rparr>))
    \<and> (bmatch (bufs N) 1 n b \<and> f = (\<lambda>bf. bf\<lparr>b_refcnt := b_refcnt bf + 1\<rparr>)
       \<or> (\<forall>c<NBUF. \<not> bmatch (bufs N) 1 n c) \<and> b \<notin> P \<and> f = (\<lambda>bf. bf\<lparr>b_dev := 1, b_blockno := n, b_valid := False, b_refcnt := 1\<rparr>))"
proof -
  obtain xs where xs: "lru (bufs N) xs" using bcD(1) [OF assms(1)] by blast
  note len = lru_length [OF xs] and sxs = xs [unfolded lru_def, THEN conjunct2]
  have free: "sl_free (BufSleep b) N" if "b < NBUF" "b \<notin> H" for b using bcD(8) [OF assms(1)] that by blast
  have start: "does D C i [] (bget 1 n) N b [] N'" if "does D C i [BcacheLock] (bnd (bget_cached (Suc NBUF) (b_next (bufs N BHEAD)) 1 n) (\<lambda>r. case r of
       Some b \<Rightarrow> ret b
     | None \<Rightarrow> bnd (getb BHEAD b_prev) (\<lambda>lst. bnd (bget_recycle (Suc NBUF) lst 1 n) (\<lambda>r. case r of
           Some b \<Rightarrow> ret b | None \<Rightarrow> panic ''bget: no buffers'')))) N b [] N'" for b N'
    unfolding bget_def by (rule does_sq [OF does_acquire], simp, rule does_bnd [OF does_getb]) (rule that)
  show ?thesis
  proof (cases "\<exists>c\<in>set xs. bmatch (bufs N) 1 n c")
    case True
    then obtain ys b zs where s: "xs = ys @ b # zs" "bmatch (bufs N) 1 n b" "\<And>c. c \<in> set ys \<Longrightarrow> \<not> bmatch (bufs N) 1 n c"
      using split_list_first_prop [of xs "bmatch (bufs N) 1 n"] by blast
    have b: "b < NBUF" using s sxs by auto
    moreover have nb: "b \<notin> H" using assms(2) s(2) by (auto simp: bmatch_def)
    moreover have "does D C i [] (bget 1 n) N b [] (sl_take i (BufSleep b) (N\<lparr>bufs := (bufs N)(b := (bufs N b)\<lparr>b_refcnt := b_refcnt (bufs N b) + 1\<rparr>)\<rparr>))"
      by (rule start, rule does_bnd [OF does_bget_cached_Some [OF _ _ s(3,2) free [OF b nb]]])
        (use lru_fwd [OF xs] s(1) len in \<open>auto simp: does_ret simp del: fun_upd_apply\<close>)
    ultimately show ?thesis using s(2) by (intro exI [of _ b] exI [of _ "\<lambda>bf. bf\<lparr>b_refcnt := b_refcnt bf + 1\<rparr>"]) simp
  next
    case False
    have "\<exists>c\<in>set (rev xs). b_refcnt (bufs N c) = 0"
    proof -
      have "\<not> (\<exists>b\<in>P. b_blockno (bufs N b) = n)" using False sxs bcD(4,9) [OF assms(1)] by (auto simp: bmatch_def)
      then obtain c where "c < NBUF" "c \<notin> H \<union> P" using assms(3) bcD(3,4) [OF assms(1)] by blast
      then have "b_refcnt (bufs N c) = 0" using bcD(6) [OF assms(1), of c] by (simp add: unat_eq_0)
      then show ?thesis using sxs \<open>c < NBUF\<close> by auto
    qed
    then obtain ys b zs where s: "rev xs = ys @ b # zs" "b_refcnt (bufs N b) = 0" "\<And>c. c \<in> set ys \<Longrightarrow> b_refcnt (bufs N c) \<noteq> 0"
      using split_list_first_prop [of "rev xs" "\<lambda>c. b_refcnt (bufs N c) = 0"] by blast
    have b: "b < NBUF" using s sxs by (metis in_set_conv_decomp lessThan_iff set_rev)
    moreover have nb: "b \<notin> H \<union> P" using bcD(6) [OF assms(1) b] s(2) by (auto split: if_splits)
    moreover have "does D C i [] (bget 1 n) N b [] (sl_take i (BufSleep b) (N\<lparr>bufs := (bufs N)(b := (bufs N b)\<lparr>b_dev := 1, b_blockno := n, b_valid := False, b_refcnt := 1\<rparr>)\<rparr>))"
    proof (rule start, rule does_bnd [OF does_bget_cached_None [OF lru_fwd [OF xs]]])
      have "b \<notin> H" using nb by simp
      have "length (ys @ b # zs) \<le> NBUF" using s(1) len by (metis length_rev order_refl)
      moreover have "fwd (\<lambda>b. b_prev (bufs N b)) (b_prev (bufs N BHEAD)) (ys @ b # zs)" using lru_bwd [OF xs] s(1) by simp
      ultimately show "does D C i [BcacheLock] (case None of Some b \<Rightarrow> ret b
         | None \<Rightarrow> bnd (getb BHEAD b_prev) (\<lambda>lst. bnd (bget_recycle (Suc NBUF) lst 1 n) (\<lambda>r. case r of
           Some b \<Rightarrow> ret b | None \<Rightarrow> panic ''bget: no buffers''))) N b []
         (sl_take i (BufSleep b) (N\<lparr>bufs := (bufs N)(b := (bufs N b)\<lparr>b_dev := 1, b_blockno := n, b_valid := False, b_refcnt := 1\<rparr>)\<rparr>))"
        unfolding option.case
        by (intro does_bnd [OF does_getb] does_bnd [OF does_bget_recycle_Some [OF _ _ s(3,2) free [OF b \<open>b \<notin> H\<close>]]]) (auto simp: does_ret simp del: fun_upd_apply)
    qed (use len False in auto)
    moreover have "\<forall>c<NBUF. \<not> bmatch (bufs N) 1 n c" using False sxs by auto
    ultimately show ?thesis
      by (intro exI [of _ b] exI [of _ "\<lambda>bf. bf\<lparr>b_dev := 1, b_blockno := n, b_valid := False, b_refcnt := 1\<rparr>"]) simp
  qed
qed

text \<open>
  \<open>brd i N b n N'\<close>: \<open>N'\<close> is \<open>N\<close> after process \<open>i\<close> has got buffer \<open>b\<close> for block \<open>n\<close>; nothing else has changed but
  the state of the disk driver.
\<close>

definition brd :: "nat \<Rightarrow> 'z bstate_scheme \<Rightarrow> nat \<Rightarrow> u32 \<Rightarrow> 'z bstate_scheme \<Rightarrow> bool" where
  "brd i N b n N' \<longleftrightarrow> (\<exists>bf d w. N' = (sl_take i (BufSleep b) N)\<lparr>bufs := (bufs N)(b := bf), disk := d, vdev_writes := w\<rparr> \<and> disk_idle d
     \<and> b < NBUF \<and> \<not> b_disk bf \<and> b_valid bf \<and> b_dev bf = 1 \<and> b_blockno bf = n
     \<and> b_next bf = b_next (bufs N b) \<and> b_prev bf = b_prev (bufs N b)
     \<and> (if holds N b n then b_data bf = b_data (bufs N b) \<and> unat (b_refcnt bf) = unat (b_refcnt (bufs N b)) + 1
        else map (b_data bf) [0..<BSIZE] = pblk (platter N) n \<and> unat (b_refcnt bf) = 1 \<and> b_refcnt (bufs N b) = 0)
     \<and> (\<forall>c<NBUF. c \<noteq> b \<longrightarrow> \<not> bmatch (bufs N) 1 n c))"

lemma does_bread:
  assumes "bc i H P N" and "\<forall>b\<in>H. b_blockno (bufs N b) \<noteq> n" and "H \<union> P \<noteq> {..<NBUF} \<or> (\<exists>b\<in>P. b_blockno (bufs N b) = n)"
    and "disk_works D" and "norm N = N" and "CP (platter N)"
  shows "\<exists>b N'. does D (\<lambda>M. CP (platter M)) i [] (bread 1 n) N b [] N' \<and> b \<notin> H \<and> brd i N b n N'"
proof -
  let ?C = "\<lambda>M. CP (platter M)"
  obtain b f where b: "b < NBUF" "b \<notin> H"
    and get: "does D ?C i [] (bget 1 n) N b [] (sl_take i (BufSleep b) (N\<lparr>bufs := (bufs N)(b := f (bufs N b))\<rparr>))"
    and f: "bmatch (bufs N) 1 n b \<and> f = (\<lambda>bf. bf\<lparr>b_refcnt := b_refcnt bf + 1\<rparr>)
       \<or> (\<forall>c<NBUF. \<not> bmatch (bufs N) 1 n c) \<and> b \<notin> P \<and> f = (\<lambda>bf. bf\<lparr>b_dev := 1, b_blockno := n, b_valid := False, b_refcnt := 1\<rparr>)"
    using does_bget [OF assms(1-3), of D ?C] by (elim exE conjE) (rule that)
  let ?N1 = "sl_take i (BufSleep b) (N\<lparr>bufs := (bufs N)(b := f (bufs N b))\<rparr>)"
  have ref: "unat (b_refcnt (bufs N b)) = of_bool (b \<in> P)" using bcD(6) [OF assms(1) b(1)] b(2) by simp
  then have ref1: "unat (b_refcnt (bufs N b) + 1) = unat (b_refcnt (bufs N b)) + 1"
    by (simp add: unat_word_ariths)
  have uniq: "\<forall>c<NBUF. c \<noteq> b \<longrightarrow> \<not> bmatch (bufs N) 1 n c" using f bcD(10) [OF assms(1)] b(1) by blast
  have fb: "b_dev (f (bufs N b)) = 1" "b_blockno (f (bufs N b)) = n" "\<not> b_disk (f (bufs N b))"
    "b_next (f (bufs N b)) = b_next (bufs N b)" "b_prev (f (bufs N b)) = b_prev (bufs N b)"
    using f bcD(5) [OF assms(1) b(1)] by (auto simp: bmatch_def)
  show ?thesis
  proof (cases "b_valid (f (bufs N b))")
    case True
    then have hit: "holds N b n" "f = (\<lambda>bf. bf\<lparr>b_refcnt := b_refcnt bf + 1\<rparr>)" using f b(1) by (auto simp: holds_def)
    have "does D ?C i [] (bread 1 n) N b [] ?N1" unfolding bread_def
      by (rule does_bnd [OF get], rule does_bnd [OF does_getb]) (use True in \<open>simp add: sl_take_def whenM_def does_ret\<close>)
    moreover have "?N1 = (sl_take i (BufSleep b) N)\<lparr>bufs := (bufs N)(b := f (bufs N b)), disk := disk N, vdev_writes := vdev_writes N\<rparr>"
      by (simp add: sl_take_def)
    ultimately show ?thesis
      using True hit ref1 fb uniq b bcD(2) [OF assms(1)] unfolding brd_def
      by (intro exI [of _ b] exI [of _ ?N1] conjI, simp, simp,
          intro exI [of _ "f (bufs N b)"] exI [of _ "disk N"] exI [of _ "vdev_writes N"]) auto
  next
    case False
    have nh: "\<not> holds N b n" using False f by (auto simp: holds_def)
    have r0: "b_refcnt (bufs N b) = 0 \<and> unat (b_refcnt (f (bufs N b))) = 1"
    proof (cases "b \<in> P")
      case True
      then have "b_valid (bufs N b)" using bcD(9) [OF assms(1)] by blast
      then show ?thesis using False f True by auto
    next
      case nP: False
      then have "b_refcnt (bufs N b) = 0" using ref by (simp add: unat_eq_0)
      then show ?thesis using f by auto
    qed
    have N1: "bufs ?N1 = (bufs N)(b := f (bufs N b))" "disk ?N1 = disk N" "platter ?N1 = platter N"
      by (simp_all add: sl_take_def)
    have nN1: "norm ?N1 = ?N1" using assms(5) by simp
    obtain N2 where rw: "does D ?C i [] (virtio_disk_rw b False) ?N1 () [] N2" and res: "io_result b False ?N1 N2"
      using does_virtio_disk_rw [of ?N1 D CP i b False] assms(4,6) N1 nN1 bcD(2) [OF assms(1)] by (metis (no_types, lifting))
    let ?bf = "(rw_buf b False ?N1)\<lparr>b_valid := True\<rparr>"
    obtain d w where N2: "N2 = ?N1\<lparr>bufs := (bufs ?N1)(b := rw_buf b False ?N1), platter := rw_platter b False ?N1, disk := d, vdev_writes := w\<rparr>"
      "disk_idle d" using res by (auto simp: io_result_def)
    let ?N3 = "N2\<lparr>bufs := (bufs N2)(b := (bufs N2 b)\<lparr>b_valid := True\<rparr>)\<rparr>"
    have "does D ?C i [] (bread 1 n) N b [] ?N3" unfolding bread_def
      by (rule does_bnd [OF get], rule does_bnd [OF does_getb], rule does_sq [OF does_whenM does_ret])
        (use False N1(1) does_sq [OF rw does_upd_buf, of b "\<lambda>bf. bf\<lparr>b_valid := True\<rparr>"] in \<open>simp del: fun_upd_apply add: fun_upd_same\<close>)
    moreover have "?N3 = (sl_take i (BufSleep b) N)\<lparr>bufs := (bufs N)(b := ?bf), disk := d, vdev_writes := w\<rparr>"
      by (simp add: N2 sl_take_def rw_platter_def)
    moreover have "map (b_data ?bf) [0..<BSIZE] = pblk (platter N) n"
      using fb(2) N1 by (simp add: rw_buf_def pblk_def)
    ultimately show ?thesis
      using nh r0 fb uniq b N2(2) N1 unfolding brd_def
      by (intro exI [of _ b] exI [of _ ?N3] conjI, simp, simp, intro exI [of _ ?bf] exI [of _ d] exI [of _ w]) (auto simp: rw_buf_def)
  qed
qed

subsection \<open>What the operations do to the cache\<close>

text \<open>Nothing but the buffers, their locks and the disk has changed.\<close>

definition bio_frame :: "'z bstate_scheme \<Rightarrow> 'z bstate_scheme \<Rightarrow> bool" where
  "bio_frame N N' \<longleftrightarrow> (\<exists>sl f d w p. N' = N\<lparr>sleeplocks := sl, bufs := f, disk := d, vdev_writes := w, platter := p\<rparr>)"

lemma bio_frameI: "N' = N\<lparr>sleeplocks := sl, bufs := f, disk := d, vdev_writes := w, platter := p\<rparr> \<Longrightarrow> bio_frame N N'"
  unfolding bio_frame_def by blast

lemma bio_frame_refl [simp]: "bio_frame N N"
  by (rule bio_frameI [where sl = "sleeplocks N" and f = "bufs N" and d = "disk N" and w = "vdev_writes N" and p = "platter N"]) simp

lemma bio_frame_trans: "bio_frame N M \<Longrightarrow> bio_frame M K \<Longrightarrow> bio_frame N K"
  unfolding bio_frame_def by (elim exE, hypsubst, simp) blast

lemma bio_frame_norm: "bio_frame N N' \<Longrightarrow> norm N = N \<Longrightarrow> norm N' = N'"
  unfolding bio_frame_def by auto

text \<open>The buffers \<open>A\<close> are for the same blocks and have the same content.\<close>

definition bufs_same :: "nat set \<Rightarrow> 'z bstate_scheme \<Rightarrow> 'z bstate_scheme \<Rightarrow> bool" where
  "bufs_same A N N' \<longleftrightarrow> (\<forall>c\<in>A. b_blockno (bufs N' c) = b_blockno (bufs N c) \<and> bdata N' c = bdata N c)"

lemma lru_cong:
  "(\<And>c. b_next (g c) = b_next (f c) \<and> b_prev (g c) = b_prev (f c)) \<Longrightarrow> lru g xs \<longleftrightarrow> lru f xs"
  by (simp add: lru_def)

lemma sl_other [simp]:
  "l' \<noteq> l \<Longrightarrow> sl_free l' (sl_take i l N) = sl_free l' N" "l' \<noteq> l \<Longrightarrow> sl_mine j l' (sl_take i l N) = sl_mine j l' N"
  "l' \<noteq> l \<Longrightarrow> sl_free l' (sl_drop l N) = sl_free l' N" "l' \<noteq> l \<Longrightarrow> sl_mine j l' (sl_drop l N) = sl_mine j l' N"
  "sl_free l (sl_drop l N)"
  by (auto simp: sl_free_def sl_mine_def sl_take_def sl_drop_def)

lemma sl_upd [simp]:
  "sl_free l (bufs_update f N) = sl_free l N" "sl_free l (disk_update g N) = sl_free l N"
  "sl_free l (vdev_writes_update h N) = sl_free l N" "sl_free l (platter_update k N) = sl_free l N"
  "sl_mine i l (bufs_update f N) = sl_mine i l N" "sl_mine i l (disk_update g N) = sl_mine i l N"
  "sl_mine i l (vdev_writes_update h N) = sl_mine i l N" "sl_mine i l (platter_update k N) = sl_mine i l N"
  by (simp_all add: sl_free_def sl_mine_def)

lemma sl_sel [simp]:
  "bufs (sl_take i l N) = bufs N" "disk (sl_take i l N) = disk N" "platter (sl_take i l N) = platter N"
  "vdev_writes (sl_take i l N) = vdev_writes N" "bufs (sl_drop l N) = bufs N" "disk (sl_drop l N) = disk N"
  "platter (sl_drop l N) = platter N" "vdev_writes (sl_drop l N) = vdev_writes N"
  by (simp_all add: sl_take_def sl_drop_def)

text \<open>The invariant, from a state in which it holds, after buffer \<open>b\<close> has changed.\<close>

lemma bc_change:
  assumes bc: "bc i H P N" and b: "b < NBUF" and bufs: "bufs N' = (bufs N)(b := bf)" and idle: "disk_idle (disk N')"
    and link: "b_next bf = b_next (bufs N b)" "b_prev bf = b_prev (bufs N b)"
    and H: "H' - {b} = H - {b}" and P: "P' - {b} = P - {b}"
    and bf: "\<not> b_disk bf" "unat (b_refcnt bf) = of_bool (b \<in> H') + of_bool (b \<in> P')"
      "b \<in> H' \<union> P' \<Longrightarrow> b_valid bf" "b_dev bf = 1" "b_blockno bf < 2 ^ 31"
    and sl: "if b \<in> H' then sl_mine i (BufSleep b) N' else sl_free (BufSleep b) N'"
    and slo: "\<And>c. c \<noteq> b \<Longrightarrow> sl_mine i (BufSleep c) N' = sl_mine i (BufSleep c) N \<and> sl_free (BufSleep c) N' = sl_free (BufSleep c) N"
    and uniq: "\<forall>c<NBUF. c \<noteq> b \<longrightarrow> \<not> bmatch (bufs N) 1 (b_blockno bf) c"
    and plat: "\<And>n. n < 2 ^ 31 \<Longrightarrow> n \<noteq> b_blockno bf \<Longrightarrow> pblk (platter N') n = pblk (platter N) n"
    and cached: "b \<notin> H' \<union> P' \<Longrightarrow> b_valid bf \<Longrightarrow> map (b_data bf) [0..<BSIZE] = pblk (platter N') (b_blockno bf)"
  shows "bc i H' P' N'"
  unfolding bc_def
proof (intro conjI)
  have mem: "c \<in> H' \<longleftrightarrow> c \<in> H" "c \<in> P' \<longleftrightarrow> c \<in> P" if "c \<noteq> b" for c using H P that by blast+
  obtain xs where "lru (bufs N) xs" using bcD(1) [OF bc] by blast
  then have "lru (bufs N') xs" using lru_cong [of "bufs N'" "bufs N" xs] link by (simp add: bufs)
  then show "\<exists>xs. lru (bufs N') xs" by blast
  show "disk_idle (disk N')" by (rule idle)
  show "H' \<subseteq> {..<NBUF}" using mem(1) bcD(3) [OF bc] b by (metis lessThan_iff subset_iff)
  show "P' \<subseteq> {..<NBUF}" using mem(2) bcD(4) [OF bc] b by (metis lessThan_iff subset_iff)
  show "\<forall>c<NBUF. \<not> b_disk (bufs N' c) \<and> unat (b_refcnt (bufs N' c)) = of_bool (c \<in> H') + of_bool (c \<in> P')
      \<and> (if c \<in> H' then sl_mine i (BufSleep c) N' else sl_free (BufSleep c) N')"
  proof (intro allI impI)
    fix c assume c: "c < NBUF"
    show "\<not> b_disk (bufs N' c) \<and> unat (b_refcnt (bufs N' c)) = of_bool (c \<in> H') + of_bool (c \<in> P')
      \<and> (if c \<in> H' then sl_mine i (BufSleep c) N' else sl_free (BufSleep c) N')"
    proof (cases "c = b")
      case True
      then show ?thesis using bf sl by (simp add: bufs)
    next
      case False
      then show ?thesis using mem [OF False] bcD(5,6) [OF bc c] bcD(7) [OF bc, of c] bcD(8) [OF bc c] slo [OF False] by (simp add: bufs)
    qed
  qed
  show "\<forall>c\<in>H' \<union> P'. b_valid (bufs N' c) \<and> b_dev (bufs N' c) = 1" using bf mem bcD(9) [OF bc] by (auto simp: bufs)
  show "\<forall>c<NBUF. b_dev (bufs N' c) = 1 \<longrightarrow> b_blockno (bufs N' c) < 2 ^ 31" using bf bcD(12) [OF bc] by (auto simp: bufs)
  show "\<forall>c<NBUF. \<forall>d<NBUF. b_dev (bufs N' c) = 1 \<and> b_dev (bufs N' d) = 1 \<and> b_blockno (bufs N' c) = b_blockno (bufs N' d) \<longrightarrow> c = d"
    using uniq bcD(10) [OF bc] by (auto simp: bufs bmatch_def)
  show "\<forall>c<NBUF. c \<notin> H' \<union> P' \<and> b_valid (bufs N' c) \<and> b_dev (bufs N' c) = 1 \<longrightarrow>
      bdata N' c = pblk (platter N') (b_blockno (bufs N' c))"
  proof (intro allI impI)
    fix c assume c: "c < NBUF" "c \<notin> H' \<union> P' \<and> b_valid (bufs N' c) \<and> b_dev (bufs N' c) = 1"
    show "bdata N' c = pblk (platter N') (b_blockno (bufs N' c))"
    proof (cases "c = b")
      case True
      then show ?thesis using cached c by (simp add: bdata_def bufs)
    next
      case False
      then have c': "c \<notin> H \<union> P" "b_valid (bufs N c)" "b_dev (bufs N c) = 1" using c mem by (auto simp: bufs)
      then have "b_blockno (bufs N c) \<noteq> b_blockno bf" using uniq False c(1) by (auto simp: bmatch_def)
      then show ?thesis
        using bcD(11) [OF bc c(1) c'] plat bcD(12) [OF bc c(1) c'(3)] False by (simp add: bdata_def bufs)
    qed
  qed
qed

subsection \<open>Reading\<close>

lemma brdE:
  assumes "brd i N b n N'"
  obtains bf d w where "N' = (sl_take i (BufSleep b) N)\<lparr>bufs := (bufs N)(b := bf), disk := d, vdev_writes := w\<rparr>"
    "disk_idle d" "b < NBUF" "\<not> b_disk bf" "b_valid bf" "b_dev bf = 1" "b_blockno bf = n"
    "b_next bf = b_next (bufs N b)" "b_prev bf = b_prev (bufs N b)"
    "if holds N b n then b_data bf = b_data (bufs N b) \<and> unat (b_refcnt bf) = unat (b_refcnt (bufs N b)) + 1
     else map (b_data bf) [0..<BSIZE] = pblk (platter N) n \<and> unat (b_refcnt bf) = 1 \<and> b_refcnt (bufs N b) = 0"
    "\<forall>c<NBUF. c \<noteq> b \<longrightarrow> \<not> bmatch (bufs N) 1 n c"
  using assms unfolding brd_def by (elim exE conjE) (rule that)

lemma brd_bc:
  assumes "bc i H P N" and "b \<notin> H" and "brd i N b n N'" and "n < 2 ^ 31"
  shows "bc i (insert b H) P N'"
  using assms(3)
proof (rule brdE)
  fix bf d w assume N': "N' = (sl_take i (BufSleep b) N)\<lparr>bufs := (bufs N)(b := bf), disk := d, vdev_writes := w\<rparr>"
    and d: "disk_idle d" and b: "b < NBUF" and bf: "\<not> b_disk bf" "b_valid bf" "b_dev bf = 1" "b_blockno bf = n"
      "b_next bf = b_next (bufs N b)" "b_prev bf = b_prev (bufs N b)"
    and r: "if holds N b n then b_data bf = b_data (bufs N b) \<and> unat (b_refcnt bf) = unat (b_refcnt (bufs N b)) + 1
     else map (b_data bf) [0..<BSIZE] = pblk (platter N) n \<and> unat (b_refcnt bf) = 1 \<and> b_refcnt (bufs N b) = 0"
    and u: "\<forall>c<NBUF. c \<noteq> b \<longrightarrow> \<not> bmatch (bufs N) 1 n c"
  have "unat (b_refcnt bf) = 1 + of_bool (b \<in> P)"
    using r bcD(6) [OF assms(1) b] assms(2) by (auto split: if_splits)
  then show ?thesis
    by (intro bc_change [OF assms(1) b, of N' bf]) (use N' d b bf u assms(2,4) in \<open>auto simp: bmatch_def\<close>)
qed

lemma blk_cases:
  assumes "bc i H P N"
  obtains b where "holds N b n" "blk N n = bdata N b" | "\<And>b. \<not> holds N b n" "blk N n = pblk (platter N) n"
  using blk_holds [OF assms] blk_not_held by blast

lemma brd_blk:
  assumes "bc i H P N" and "b \<notin> H" and "brd i N b n N'" and "n < 2 ^ 31"
  shows "bdata N' b = blk N n" "blk N' m = blk N m"
proof -
  obtain bf d w where N': "N' = (sl_take i (BufSleep b) N)\<lparr>bufs := (bufs N)(b := bf), disk := d, vdev_writes := w\<rparr>"
    and b: "b < NBUF" and bf: "b_valid bf" "b_dev bf = 1" "b_blockno bf = n"
    and r: "if holds N b n then b_data bf = b_data (bufs N b) \<and> unat (b_refcnt bf) = unat (b_refcnt (bufs N b)) + 1
     else map (b_data bf) [0..<BSIZE] = pblk (platter N) n \<and> unat (b_refcnt bf) = 1 \<and> b_refcnt (bufs N b) = 0"
    and u: "\<forall>c<NBUF. c \<noteq> b \<longrightarrow> \<not> bmatch (bufs N) 1 n c"
    by (rule brdE [OF assms(3)]) (rule that)
  have bcN': "bc i (insert b H) P N'" by (rule brd_bc [OF assms])
  have other: "holds N' c k \<longleftrightarrow> holds N c k" "bdata N' c = bdata N c" if "c \<noteq> b" for c k
    using that by (simp_all add: N' holds_def bmatch_def bdata_def)
  have hb: "holds N' b n" "\<And>k. holds N' b k \<Longrightarrow> k = n" using b bf by (auto simp: N' holds_def bmatch_def)
  show data: "bdata N' b = blk N n"
  proof (cases "holds N b n")
    case True
    then show ?thesis using r blk_holds [OF assms(1) True] by (simp add: N' bdata_def)
  next
    case False
    then have "\<not> holds N c n" for c using u by (cases "c = b") (auto simp: holds_def)
    then show ?thesis using r False by (simp add: N' bdata_def blk_not_held)
  qed
  show "blk N' m = blk N m"
  proof (cases "m = n")
    case True
    then show ?thesis using data blk_holds [OF bcN' hb(1)] by simp
  next
    case ne: False
    have p: "platter N' = platter N" by (simp add: N')
    show ?thesis
    proof (rule blk_cases [OF assms(1), of m])
      fix c assume c: "holds N c m" "blk N m = bdata N c"
      show ?thesis
      proof (cases "c = b")
        case False
        then show ?thesis using c other [OF False] blk_holds [OF bcN', of c m] by simp
      next
        case True
        then have "\<not> holds N b n" using c(1) ne by (auto simp: holds_def bmatch_def)
        then have "b_refcnt (bufs N b) = 0" using r by simp
        then have "b \<notin> H \<union> P" using bcD(6) [OF assms(1) b] by (auto split: if_splits)
        then have "bdata N b = pblk (platter N) m" using bcD(11) [OF assms(1) b] c(1) True by (auto simp: holds_def bmatch_def)
        moreover have "\<not> holds N' k m" for k
          using other(1) [of k m] hb(2) [of m] ne bcD(10) [OF assms(1), of c k m] c(1) True unfolding holds_def by blast
        ultimately show ?thesis using blk_not_held [of N' m] c(2) True p by simp
      qed
    next
      assume "\<And>c. \<not> holds N c m" "blk N m = pblk (platter N) m"
      moreover from this have "\<not> holds N' c m" for c using other(1) [of c m] hb(2) [of m] ne by blast
      ultimately show ?thesis using blk_not_held [of N' m] p by simp
    qed
  qed
qed

lemma brd_frame: "brd i N b n N' \<Longrightarrow> bio_frame N N'"
  by (erule brdE, rule bio_frameI [where p = "platter N"]) (simp add: sl_take_def)

lemma does_bread_blk:
  assumes "bc i H P N" and "\<forall>b\<in>H. b_blockno (bufs N b) \<noteq> n" and "H \<union> P \<noteq> {..<NBUF} \<or> (\<exists>b\<in>P. b_blockno (bufs N b) = n)"
    and "disk_works D" and "norm N = N" and "CP (platter N)" and "n < 2 ^ 31"
  shows "\<exists>b N'. does D (\<lambda>M. CP (platter M)) i [] (bread 1 n) N b [] N' \<and> b \<notin> H \<and> bc i (insert b H) P N'
    \<and> b_blockno (bufs N' b) = n \<and> bdata N' b = blk N n \<and> blk N' = blk N \<and> platter N' = platter N
    \<and> bufs_same (H \<union> P) N N' \<and> bio_frame N N'"
proof -
  obtain b N' where does: "does D (\<lambda>M. CP (platter M)) i [] (bread 1 n) N b [] N'" and b: "b \<notin> H" and brd: "brd i N b n N'"
    using does_bread [where CP = CP, OF assms(1-6)] by (elim exE conjE) (rule that)
  have "b_blockno (bufs N' b) = n" "platter N' = platter N" using brd by (auto elim!: brdE)
  moreover have "bufs_same (H \<union> P) N N'"
  proof -
    have "b_blockno (bufs N' c) = b_blockno (bufs N c) \<and> bdata N' c = bdata N c" if "c \<in> H \<union> P" for c
    proof (cases "c = b")
      case False
      then show ?thesis using brd by (auto elim!: brdE simp: bdata_def)
    next
      case True
      then have "b \<in> P" "b < NBUF" using that b bcD(4) [OF assms(1)] by auto
      then have "b_refcnt (bufs N b) \<noteq> 0" using bcD(6) [OF assms(1), of b] by auto
      then have "holds N b n" using brd by (auto elim!: brdE split: if_splits)
      then show ?thesis using brd True by (auto elim!: brdE simp: bdata_def holds_def bmatch_def)
    qed
    then show ?thesis by (simp add: bufs_same_def)
  qed
  ultimately show ?thesis
    using does b brd_bc [OF assms(1) b brd assms(7)] brd_blk [OF assms(1) b brd assms(7)] brd_frame [OF brd]
    by (intro exI [of _ b] exI [of _ N']) (simp add: fun_eq_iff)
qed

subsection \<open>Writing, changing and pinning a buffer\<close>

lemma disk_off_eq: "n < 2 ^ 31 \<Longrightarrow> disk_off n = BSIZE * unat n"
  by (simp add: disk_off_def unat_word_ariths word_less_nat_alt)

lemma pblk_write:
  assumes "n < 2 ^ 31" and "b_blockno (bufs N b) < 2 ^ 31"
  shows "pblk (rw_platter b True N) n = (if n = b_blockno (bufs N b) then bdata N b else pblk (platter N) n)"
proof (cases "n = b_blockno (bufs N b)")
  case True
  then show ?thesis by (simp add: pblk_def rw_platter_def bdata_def Let_def)
next
  case False
  then have ne: "unat n \<noteq> unat (b_blockno (bufs N b))" by (metis word_eq_iff_unsigned)
  have "\<not> (BSIZE * u \<le> BSIZE * m + k \<and> BSIZE * m + k < BSIZE * u + BSIZE)" if "k < BSIZE" "m \<noteq> u" for k u m :: nat
    using that by (cases "m < u") auto
  then show ?thesis using False ne assms by (auto simp: pblk_def rw_platter_def Let_def disk_off_eq)
qed

lemma rw_buf_write: "\<not> b_disk (bufs N b) \<Longrightarrow> rw_buf b True N = bufs N b"
  by (simp add: rw_buf_def)

lemma does_bwrite:
  assumes "bc i H P N" and "b \<in> H" and "disk_works D" and "norm N = N" and "CP (platter N)"
  shows "\<exists>N'. does D (\<lambda>M. CP (platter M)) i [] (bwrite b) N () [] N' \<and> bc i H P N' \<and> bufs N' = bufs N
    \<and> (\<forall>n<2 ^ 31. pblk (platter N') n = (if n = b_blockno (bufs N b) then bdata N b else pblk (platter N) n))
    \<and> (\<forall>n<2 ^ 31. blk N' n = blk N n) \<and> bio_frame N N'"
proof -
  have b: "b < NBUF" using bcD(3) [OF assms(1)] assms(2) by auto
  have bn: "b_blockno (bufs N b) < 2 ^ 31" "b_valid (bufs N b)" "b_dev (bufs N b) = 1"
    using bcD(9,12) [OF assms(1)] assms(2) b by auto
  obtain N' where rw: "does D (\<lambda>M. CP (platter M)) i [] (virtio_disk_rw b True) N () [] N'" and io: "io_result b True N N'"
    using does_virtio_disk_rw [where CP = CP and i = i and b = b and wr = True, OF bcD(2) [OF assms(1)] assms(3-5)] by (elim exE conjE) (rule that)
  from io obtain d w where idle: "disk_idle d"
    and "N' = N\<lparr>bufs := (bufs N)(b := rw_buf b True N), platter := rw_platter b True N, disk := d, vdev_writes := w\<rparr>"
    by (auto simp: io_result_def)
  then have N': "N' = N\<lparr>platter := rw_platter b True N, disk := d, vdev_writes := w\<rparr>"
    by (simp add: rw_buf_write [OF bcD(5) [OF assms(1) b]])
  have pl: "\<forall>n<2 ^ 31. pblk (platter N') n = (if n = b_blockno (bufs N b) then bdata N b else pblk (platter N) n)"
    using pblk_write [OF _ bn(1)] by (auto simp add: N' simp del: power_numeral)
  have bc: "bc i H P N'"
    by (rule bc_change [OF assms(1) b, of N' "bufs N b"])
      (use N' idle pl bn b assms(2) bcD(5,6,7,10) [OF assms(1)] in \<open>auto simp: bmatch_def\<close>)
  have hold: "holds N' c n \<longleftrightarrow> holds N c n" "bdata N' c = bdata N c" for c n by (simp_all add: N' holds_def bmatch_def bdata_def)
  have "holds N b (b_blockno (bufs N b))" using b bn by (simp add: holds_def bmatch_def)
  then have blk: "blk N' n = blk N n" if "n < 2 ^ 31" for n
    using that pl blk_holds [OF bc] blk_not_held [of N' n] hold by (rule_tac blk_cases [OF assms(1), of n]) (metis, metis)
  have "does D (\<lambda>M. CP (platter M)) i [] (bwrite b) N () [] N'"
    unfolding bwrite_def by (rule does_bnd [OF does_holdingsleep [OF bcD(7) [OF assms(1,2)]]]) (simp add: rw)
  moreover have "bio_frame N N'" by (rule bio_frameI [where sl = "sleeplocks N" and f = "bufs N" and d = d and w = w and p = "rw_platter b True N"]) (simp add: N')
  ultimately show ?thesis using bc pl blk by (intro exI [of _ N']) (simp add: N')
qed

text \<open>Changing the data of a locked buffer changes that block only.\<close>

definition put_data :: "nat \<Rightarrow> chars \<Rightarrow> 'z bstate_scheme \<Rightarrow> 'z bstate_scheme" where
  "put_data b g N = N\<lparr>bufs := (bufs N)(b := (bufs N b)\<lparr>b_data := g\<rparr>)\<rparr>"

lemma does_put_data: "does D C i L (upd_buf b (\<lambda>bf. bf\<lparr>b_data := f (b_data bf)\<rparr>)) N () L (put_data b (f (b_data (bufs N b))) N)"
  unfolding put_data_def by (rule does_upd_buf)

lemma put_data_bc:
  assumes "bc i H P N" and "b \<in> H"
  shows "bc i H P (put_data b g N)" "blk (put_data b g N) n = (if n = b_blockno (bufs N b) then map g [0..<BSIZE] else blk N n)"
proof -
  let ?N = "put_data b g N"
  have b: "b < NBUF" using bcD(3) [OF assms(1)] assms(2) by auto
  note B = bcD(5,6) [OF assms(1) b] bcD(7,9) [OF assms(1), of b] bcD(12) [OF assms(1) b]
  have u: "\<forall>c<NBUF. c \<noteq> b \<longrightarrow> \<not> bmatch (bufs N) 1 (b_blockno (bufs N b)) c"
    using bcD(10) [OF assms(1) b, of _ "b_blockno (bufs N b)"] B assms(2) by (auto simp: bmatch_def)
  show bc: "bc i H P ?N"
    by (rule bc_change [OF assms(1) b, of ?N "(bufs N b)\<lparr>b_data := g\<rparr>"])
      (use B b u assms(2) bcD(2) [OF assms(1)] in \<open>auto simp: put_data_def\<close>)
  have hold: "holds ?N c m \<longleftrightarrow> holds N c m" for c m by (simp add: put_data_def holds_def bmatch_def)
  have hb: "holds N b (b_blockno (bufs N b))" using b B assms(2) by (simp add: holds_def bmatch_def)
  have other: "c \<noteq> b" if "holds N c n" "n \<noteq> b_blockno (bufs N b)" for c using that by (auto simp: holds_def bmatch_def)
  show "blk ?N n = (if n = b_blockno (bufs N b) then map g [0..<BSIZE] else blk N n)"
  proof (cases "n = b_blockno (bufs N b)")
    case True
    then show ?thesis using blk_holds [OF bc, of b n] hb hold by (simp add: put_data_def bdata_def)
  next
    case False
    show ?thesis
    proof (rule blk_cases [OF assms(1), of n])
      fix c assume c: "holds N c n" "blk N n = bdata N c"
      then have "bdata ?N c = bdata N c" using other False by (simp add: put_data_def bdata_def)
      then show ?thesis using c blk_holds [OF bc, of c n] hold False by simp
    next
      assume "\<And>c. \<not> holds N c n" "blk N n = pblk (platter N) n"
      then show ?thesis using blk_not_held [of ?N n] hold False by (simp add: put_data_def)
    qed
  qed
qed

lemma put_data_frame: "bio_frame N (put_data b g N)"
  by (rule bio_frameI [where sl = "sleeplocks N" and d = "disk N" and w = "vdev_writes N" and p = "platter N"])
    (simp add: put_data_def)

text \<open>\<open>set_ref b r\<close>: the state with another reference count of \<open>b\<close>.\<close>

definition set_ref :: "nat \<Rightarrow> u32 \<Rightarrow> 'z bstate_scheme \<Rightarrow> 'z bstate_scheme" where
  "set_ref b r N = N\<lparr>bufs := (bufs N)(b := (bufs N b)\<lparr>b_refcnt := r\<rparr>)\<rparr>"

lemma set_ref_same:
  "holds (set_ref b r N) c n \<longleftrightarrow> holds N c n" "bdata (set_ref b r N) c = bdata N c" "platter (set_ref b r N) = platter N"
  "disk (set_ref b r N) = disk N" "b_blockno (bufs (set_ref b r N) c) = b_blockno (bufs N c)"
  "sl_free l (set_ref b r N) = sl_free l N" "sl_mine i l (set_ref b r N) = sl_mine i l N"
  by (simp_all add: set_ref_def holds_def bmatch_def bdata_def)

lemma set_ref_blk: "blk (set_ref b r N) = blk N"
  by (simp add: fun_eq_iff blk_def set_ref_same split: option.split)

lemma set_ref_frame: "bio_frame N (set_ref b r N)"
  by (rule bio_frameI [where sl = "sleeplocks N" and d = "disk N" and w = "vdev_writes N" and p = "platter N"])
    (simp add: set_ref_def)

lemma does_bpin: "BcacheLock \<notin> set L \<Longrightarrow> does D C i L (bpin b) N () L (set_ref b (b_refcnt (bufs N b) + 1) N)"
  unfolding bpin_def set_ref_def
  by (intro does_sq [OF does_acquire] does_sq [OF does_upd_buf] does_release) simp

lemma does_bunpin: "does D C i [] (bunpin b) N () [] (set_ref b (b_refcnt (bufs N b) - 1) N)"
  unfolding bunpin_def set_ref_def
  by (intro does_sq [OF does_acquire] does_sq [OF does_upd_buf] does_release) simp

lemma set_ref_bc:
  assumes "bc i H P N" and "b \<in> H" and "unat r = 1 + of_bool (b \<in> P')" and "P' - {b} = P - {b}"
  shows "bc i H P' (set_ref b r N)"
proof -
  have b: "b < NBUF" using bcD(3) [OF assms(1)] assms(2) by auto
  note B = bcD(5,6) [OF assms(1) b] bcD(7,9) [OF assms(1), of b] bcD(12) [OF assms(1) b]
  have u: "\<forall>c<NBUF. c \<noteq> b \<longrightarrow> \<not> bmatch (bufs N) 1 (b_blockno (bufs N b)) c"
    using bcD(10) [OF assms(1) b, of _ "b_blockno (bufs N b)"] B assms(2) by (auto simp: bmatch_def)
  show ?thesis
    by (rule bc_change [OF assms(1) b, of _ "(bufs N b)\<lparr>b_refcnt := r\<rparr>"])
      (use B b u assms(2-) bcD(2) [OF assms(1)] in \<open>auto simp: set_ref_same set_ref_def\<close>)
qed

lemma pin_bc: "bc i H P N \<Longrightarrow> b \<in> H \<Longrightarrow> b \<notin> P \<Longrightarrow> bc i H (insert b P) (set_ref b (b_refcnt (bufs N b) + 1) N)"
  using bcD(6) [of i H P N b] bcD(3) [of i H P N] by (intro set_ref_bc) (auto simp: unat_word_ariths)

lemma unpin_bc: "bc i H P N \<Longrightarrow> b \<in> H \<Longrightarrow> b \<in> P \<Longrightarrow> bc i H (P - {b}) (set_ref b (b_refcnt (bufs N b) - 1) N)"
proof (rule set_ref_bc)
  assume a: "bc i H P N" "b \<in> H" "b \<in> P"
  then have "unat (b_refcnt (bufs N b)) = 2" using bcD(6) [OF a(1), of b] bcD(3) [OF a(1)] by auto
  then have "b_refcnt (bufs N b) = 2" by (simp add: word_eq_iff_unsigned [where 'a = nat])
  then show "unat (b_refcnt (bufs N b) - 1) = 1 + of_bool (b \<in> P - {b})" by simp
qed auto

subsection \<open>Releasing\<close>

definition set_next :: "nat \<Rightarrow> nat \<Rightarrow> (nat \<Rightarrow> buf) \<Rightarrow> nat \<Rightarrow> buf" where
  "set_next x v f = f(x := (f x)\<lparr>b_next := v\<rparr>)"

definition set_prev :: "nat \<Rightarrow> nat \<Rightarrow> (nat \<Rightarrow> buf) \<Rightarrow> nat \<Rightarrow> buf" where
  "set_prev x v f = f(x := (f x)\<lparr>b_prev := v\<rparr>)"

lemma set_link_simps [simp]:
  "b_next (set_next x v f c) = (if c = x then v else b_next (f c))" "b_prev (set_next x v f c) = b_prev (f c)"
  "b_next (set_prev x v f c) = b_next (f c)" "b_prev (set_prev x v f c) = (if c = x then v else b_prev (f c))"
  by (simp_all add: set_next_def set_prev_def)

text \<open>All of a buffer but its links.\<close>

definition unlinked :: "buf \<Rightarrow> buf" where
  "unlinked bf = bf\<lparr>b_next := 0, b_prev := 0\<rparr>"

lemma unlinked_set [simp]: "unlinked (set_next x v f c) = unlinked (f c)" "unlinked (set_prev x v f c) = unlinked (f c)"
  by (simp_all add: set_next_def set_prev_def unlinked_def)

lemma unlinkedD:
  assumes "unlinked x = unlinked y"
  shows "b_valid x = b_valid y" "b_disk x = b_disk y" "b_dev x = b_dev y" "b_blockno x = b_blockno y"
    "b_refcnt x = b_refcnt y" "b_data x = b_data y"
  using assms by (cases x; cases y; simp add: unlinked_def)+

text \<open>The assignments with which \<open>brelse\<close> moves buffer \<open>b\<close> to the front.\<close>

definition relink :: "nat \<Rightarrow> (nat \<Rightarrow> buf) \<Rightarrow> nat \<Rightarrow> buf" where
  "relink b f = (
     let f1 = set_prev (b_next (f b)) (b_prev (f b)) f;
         f2 = set_next (b_prev (f1 b)) (b_next (f1 b)) f1;
         f3 = set_next b (b_next (f2 BHEAD)) f2;
         f4 = set_prev b BHEAD f3;
         f5 = set_prev (b_next (f4 BHEAD)) b f4
     in set_next BHEAD b f5)"

lemma relink_unlinked: "unlinked (relink b f c) = unlinked (f c)"
  by (simp add: relink_def Let_def)

lemma relink_lru:
  assumes "lru f (xs @ b # ys)"
  shows "lru (relink b f) (b # xs @ ys)"
proof -
  let ?n = "\<lambda>c. b_next (f c)" and ?p = "\<lambda>c. b_prev (f c)"
  have r: "ring ?n ?p BHEAD (xs @ b # ys)" and s: "set (xs @ b # ys) = {..<NBUF}" using assms by (auto simp: lru_def)
  then have bH: "b \<noteq> BHEAD" "b \<notin> set (BHEAD # xs @ ys)" by (auto simp: ring_def)
  have nb: "?n b \<noteq> b" "?p b \<noteq> b"
  proof -
    have s: "successively (\<lambda>u v. ?n u = v \<and> ?p v = u) ((BHEAD # xs) @ b # (ys @ [BHEAD]))" using r by (simp add: ring_def)
    obtain y zs where y: "ys @ [BHEAD] = y # zs" by (cases "ys @ [BHEAD]") auto
    then have "y \<in> set (BHEAD # xs @ ys)" by (cases ys) auto
    moreover have "?n b = y" using s unfolding y by (subst (asm) successively_append_iff) auto
    moreover have "?p b = last (BHEAD # xs)" using s by (subst (asm) successively_append_iff) auto
    moreover have "last (BHEAD # xs) \<in> set (BHEAD # xs)" by (rule last_in_set) simp
    ultimately show "?n b \<noteq> b" "?p b \<noteq> b" using bH(2) by auto
  qed
  have "ring (?n(?p b := ?n b)) (?p(?n b := ?p b)) BHEAD (xs @ ys)" by (rule ring_unlink [OF r])
  moreover let ?n1 = "?n(?p b := ?n b)" and ?p1 = "?p(?n b := ?p b)"
  have "(\<lambda>c. b_next (relink b f c)) = ?n1(b := ?n1 BHEAD, BHEAD := b)"
    "(\<lambda>c. b_prev (relink b f c)) = ?p1(b := BHEAD, ?n1 BHEAD := b)"
    using nb bH(1) by (auto simp: relink_def Let_def fun_eq_iff)
  ultimately have "ring (\<lambda>c. b_next (relink b f c)) (\<lambda>c. b_prev (relink b f c)) BHEAD (b # xs @ ys)"
    using ring_push [of ?n1 ?p1 BHEAD "xs @ ys" b] bH(2) by simp
  then show ?thesis using s by (auto simp: lru_def)
qed

text \<open>The state after \<open>brelse\<close>.\<close>

definition released :: "nat \<Rightarrow> 'z bstate_scheme \<Rightarrow> 'z bstate_scheme" where
  "released b N = (let M = set_ref b (b_refcnt (bufs N b) - 1) (sl_drop (BufSleep b) N) in
     if b_refcnt (bufs M b) = 0 then M\<lparr>bufs := relink b (bufs M)\<rparr> else M)"

lemma does_links:
  "does D C i L (upd_buf x (\<lambda>bf. bf\<lparr>b_next := v\<rparr>)) (N\<lparr>bufs := f\<rparr>) () L (N\<lparr>bufs := set_next x v f\<rparr>)"
  "does D C i L (upd_buf x (\<lambda>bf. bf\<lparr>b_prev := v\<rparr>)) (N\<lparr>bufs := f\<rparr>) () L (N\<lparr>bufs := set_prev x v f\<rparr>)"
  "does D C i L (getb x g) (N\<lparr>bufs := f\<rparr>) (g (f x)) L (N\<lparr>bufs := f\<rparr>)"
  by (rule does_eq [OF does_upd_buf], simp add: set_next_def, rule does_eq [OF does_upd_buf], simp add: set_prev_def)
    (use does_getb [of D C i L x g "N\<lparr>bufs := f\<rparr>"] in simp)

lemma does_relink:
  "does D C i L (bnd (getb b b_next) (\<lambda>n. bnd (getb b b_prev) (\<lambda>p.
       sq (upd_buf n (\<lambda>bf. bf\<lparr>b_prev := p\<rparr>)) (
       bnd (getb b b_next) (\<lambda>n. bnd (getb b b_prev) (\<lambda>p.
       sq (upd_buf p (\<lambda>bf. bf\<lparr>b_next := n\<rparr>)) (
       bnd (getb BHEAD b_next) (\<lambda>f.
       sq (upd_buf b (\<lambda>bf. bf\<lparr>b_next := f\<rparr>)) (
       sq (upd_buf b (\<lambda>bf. bf\<lparr>b_prev := BHEAD\<rparr>)) (
       bnd (getb BHEAD b_next) (\<lambda>f.
       sq (upd_buf f (\<lambda>bf. bf\<lparr>b_prev := b\<rparr>))
          (upd_buf BHEAD (\<lambda>h. h\<lparr>b_next := b\<rparr>))))))))))))) (N\<lparr>bufs := f\<rparr>) () L (N\<lparr>bufs := relink b f\<rparr>)"
  unfolding relink_def Let_def
  by (rule does_bnd [OF does_links(3)] does_sq [OF does_links(1)] does_sq [OF does_links(2)] does_links)+

lemma does_brelse:
  assumes "sl_mine i (BufSleep b) N"
  shows "does D C i [] (brelse b) N () [] (released b N)"
proof -
  let ?M = "set_ref b (b_refcnt (bufs N b) - 1) (sl_drop (BufSleep b) N)"
  have upd: "does D C i [BcacheLock] (upd_buf b (\<lambda>bf. bf\<lparr>b_refcnt := b_refcnt bf - 1\<rparr>)) (sl_drop (BufSleep b) N) () [BcacheLock] ?M"
    by (rule does_eq [OF does_upd_buf]) (simp add: set_ref_def)
  have fin: "does D C i [BcacheLock] (release BcacheLock) (released b N) () [] (released b N)" by (rule does_release)
  show ?thesis unfolding brelse_def
    by (rule does_bnd [OF does_holdingsleep [OF assms]], simp only: not_True_eq_False if_False,
        rule does_sq [OF does_releasesleep], rule does_sq [OF does_acquire], simp, rule does_sq [OF upd],
        rule does_bnd [OF does_getb], rule does_sq [OF does_whenM fin], rule does_if)
      (use does_relink [of D C i "[BcacheLock]" b "bufs ?M" ?M] in \<open>simp_all add: released_def Let_def does_ret\<close>)
qed

lemma bc_relink:
  assumes "bc i H P M" and same: "\<And>c. unlinked (f c) = unlinked (bufs M c)" and "lru f xs"
  shows "bc i H P (M\<lparr>bufs := f\<rparr>)" "blk (M\<lparr>bufs := f\<rparr>) n = blk M n" "bufs_same A M (M\<lparr>bufs := f\<rparr>)"
proof -
  note u = unlinkedD [OF same]
  have d: "bdata (M\<lparr>bufs := f\<rparr>) c = bdata M c" "holds (M\<lparr>bufs := f\<rparr>) c m \<longleftrightarrow> holds M c m" for c m
    by (simp_all add: bdata_def holds_def bmatch_def u)
  have "\<exists>xs. lru f xs" using assms(3) by blast
  then show "bc i H P (M\<lparr>bufs := f\<rparr>)" using assms(1) unfolding bc_def by (simp add: u d)
  show "blk (M\<lparr>bufs := f\<rparr>) n = blk M n" by (simp add: blk_def d split: option.split)
  show "bufs_same A M (M\<lparr>bufs := f\<rparr>)" by (simp add: bufs_same_def d u)
qed

lemma brelse_bc:
  assumes "bc i H P N" and "b \<in> H" and "b \<in> P \<or> bdata N b = pblk (platter N) (b_blockno (bufs N b))"
  shows "bc i (H - {b}) P (released b N)" "blk (released b N) = blk N" "platter (released b N) = platter N"
    "bufs_same A N (released b N)" "bio_frame N (released b N)"
    "lru (bufs N) xs \<Longrightarrow> lru (bufs (released b N)) (if b \<in> P then xs else b # remove1 b xs)"
proof -
  let ?r = "b_refcnt (bufs N b) - 1"
  let ?M = "set_ref b ?r (sl_drop (BufSleep b) N)"
  have b: "b < NBUF" using bcD(3) [OF assms(1)] assms(2) by auto
  note B = bcD(5) [OF assms(1) b] bcD(9) [OF assms(1), of b] bcD(12) [OF assms(1) b]
  have ref: "unat (b_refcnt (bufs N b)) = 1 + of_bool (b \<in> P)" using bcD(6) [OF assms(1) b] assms(2) by simp
  then have r: "unat ?r = of_bool (b \<in> P)" by (simp add: unat_sub word_le_nat_alt)
  then have r0: "?r = 0 \<longleftrightarrow> b \<notin> P" by (simp flip: unat_eq_0)
  have u: "\<forall>c<NBUF. c \<noteq> b \<longrightarrow> \<not> bmatch (bufs N) 1 (b_blockno (bufs N b)) c"
    using bcD(10) [OF assms(1) b, of _ "b_blockno (bufs N b)"] B assms(2) by (auto simp: bmatch_def)
  have M: "bc i (H - {b}) P ?M"
    by (rule bc_change [OF assms(1) b, of _ "(bufs N b)\<lparr>b_refcnt := ?r\<rparr>"])
      (use B b u r assms(2,3) bcD(2) [OF assms(1)] in \<open>auto simp: set_ref_same set_ref_def bdata_def\<close>)
  have blkM: "blk ?M = blk N" by (simp add: set_ref_blk) (simp add: fun_eq_iff blk_def holds_def bdata_def bmatch_def split: option.split)
  have same: "bufs_same A N ?M" by (simp add: bufs_same_def set_ref_same) (simp add: bdata_def)
  have frame: "bio_frame N ?M"
    by (rule bio_frameI [where d = "disk N" and w = "vdev_writes N" and p = "platter N"]) (simp add: set_ref_def sl_drop_def)
  have bufsM: "b_refcnt (bufs ?M b) = ?r" by (simp add: set_ref_def)
  have lruM: "lru (bufs ?M) ys \<longleftrightarrow> lru (bufs N) ys" for ys by (rule lru_cong) (simp add: set_ref_def)
  have lru': "lru (relink b (bufs ?M)) (b # remove1 b ys)" if "lru (bufs N) ys" for ys
  proof -
    have "b \<in> set ys" using that b by (auto simp: lru_def)
    then obtain xs zs where "ys = xs @ b # zs" "b \<notin> set xs" by (metis split_list_first)
    then show ?thesis using relink_lru [of "bufs ?M" xs b zs] lruM that by (simp add: remove1_append)
  qed
  obtain ys where ys: "lru (bufs N) ys" using bcD(1) [OF assms(1)] by blast
  note R = bc_relink [OF M relink_unlinked lru' [OF ys]]
  have rel: "released b N = (if b \<in> P then ?M else ?M\<lparr>bufs := relink b (bufs ?M)\<rparr>)"
    using r0 bufsM by (simp add: released_def Let_def)
  show "bc i (H - {b}) P (released b N)" using M R(1) by (simp add: rel)
  show "blk (released b N) = blk N" using blkM R(2) by (simp add: rel fun_eq_iff)
  show "platter (released b N) = platter N" by (simp add: rel set_ref_same)
  show "bufs_same A N (released b N)" using same R(3) [of A] by (auto simp: rel bufs_same_def)
  show "bio_frame N (released b N)"
  proof -
    have "bio_frame ?M (?M\<lparr>bufs := relink b (bufs ?M)\<rparr>)"
      by (rule bio_frameI [where sl = "sleeplocks ?M" and d = "disk ?M" and w = "vdev_writes ?M" and p = "platter ?M"]) simp
    then show ?thesis using frame bio_frame_trans [OF frame] by (simp add: rel)
  qed
  show "lru (bufs (released b N)) (if b \<in> P then xs else b # remove1 b xs)" if "lru (bufs N) xs"
    using lru' [OF that] lruM that by (simp add: rel)
qed

subsection \<open>Initialisation\<close>

lemma does_initlock: "does D C i [] (initlock l nm) N () [] N"
proof (rule does_exact)
  fix s :: "'a pstate_scheme" assume q: "quiet i [] s" and n: "norm s = N"
  have "initlock l nm s = Ok () (s\<lparr>locks := (locks s)(l := init_spinlock nm)\<rparr>)"
    by (simp add: initlock_def upd_lock_def run_simps)
  moreover have "quiet i [] (s\<lparr>locks := (locks s)(l := init_spinlock nm)\<rparr>)"
    using q by (simp add: quiet_def awake_def mach_ok_def lock_free_def init_spinlock_def running_def ie_def)
  ultimately show "\<exists>t. initlock l nm s = Ok () t \<and> quiet i [] t \<and> norm t = N" using n by simp
qed

lemma does_initsleeplock:
  "does D C i [] (initsleeplock l nm) N () []
     (N\<lparr>sleeplocks := (sleeplocks N)(l := \<lparr>sl_locked = False, sl_name = nm, sl_pid = 0\<rparr>)\<rparr>)"
  unfolding initsleeplock_def upd_sleeplock_def
  by (rule does_sq [OF does_initlock does_modify]) simp_all

definition binit_link :: "nat \<Rightarrow> (nat \<Rightarrow> buf) \<Rightarrow> nat \<Rightarrow> buf" where
  "binit_link b f = (
     let f1 = set_prev b BHEAD (set_next b (b_next (f BHEAD)) f)
     in set_next BHEAD b (set_prev (b_next (f1 BHEAD)) b f1))"

definition binit_locks :: "nat \<Rightarrow> (sleepid \<Rightarrow> sleeplock) \<Rightarrow> sleepid \<Rightarrow> sleeplock" where
  "binit_locks b sl = sl(BufSleep b := \<lparr>sl_locked = False, sl_name = ''buffer'', sl_pid = 0\<rparr>)"

lemma does_binit_step:
  "does D C i [] (bnd (getb BHEAD b_next) (\<lambda>n.
       sq (upd_buf b (\<lambda>bf. bf\<lparr>b_next := n\<rparr>)) (
       sq (upd_buf b (\<lambda>bf. bf\<lparr>b_prev := BHEAD\<rparr>)) (
       sq (initsleeplock (BufSleep b) ''buffer'') (
       bnd (getb BHEAD b_next) (\<lambda>n.
       sq (upd_buf n (\<lambda>bf. bf\<lparr>b_prev := b\<rparr>))
          (upd_buf BHEAD (\<lambda>h. h\<lparr>b_next := b\<rparr>)))))))) (N\<lparr>sleeplocks := sl, bufs := f\<rparr>) () []
     (N\<lparr>sleeplocks := binit_locks b sl, bufs := binit_link b f\<rparr>)"
proof -
  have sl: "does D C i [] (initsleeplock (BufSleep b) ''buffer'') (N\<lparr>sleeplocks := sl, bufs := g\<rparr>) () []
      (N\<lparr>sleeplocks := binit_locks b sl, bufs := g\<rparr>)" for g
    by (rule does_eq [OF does_initsleeplock]) (simp add: binit_locks_def)
  show ?thesis unfolding binit_link_def Let_def
    by (rule does_bnd [OF does_links(3)] does_sq [OF does_links(1)] does_sq [OF does_links(2)] does_sq [OF sl] does_links)+
qed

lemma does_binit:
  "does D C i [] binit N () [] (N\<lparr>sleeplocks := fold binit_locks [0..<NBUF] (sleeplocks N),
     bufs := fold binit_link [0..<NBUF] (set_next BHEAD BHEAD (set_prev BHEAD BHEAD (bufs N)))\<rparr>)"
proof -
  have loop: "does D C i [] (forM bs (\<lambda>b. bnd (getb BHEAD b_next) (\<lambda>n.
       sq (upd_buf b (\<lambda>bf. bf\<lparr>b_next := n\<rparr>)) (
       sq (upd_buf b (\<lambda>bf. bf\<lparr>b_prev := BHEAD\<rparr>)) (
       sq (initsleeplock (BufSleep b) ''buffer'') (
       bnd (getb BHEAD b_next) (\<lambda>n.
       sq (upd_buf n (\<lambda>bf. bf\<lparr>b_prev := b\<rparr>))
          (upd_buf BHEAD (\<lambda>h. h\<lparr>b_next := b\<rparr>))))))))) (N\<lparr>sleeplocks := sl, bufs := f\<rparr>) () []
     (N\<lparr>sleeplocks := fold binit_locks bs sl, bufs := fold binit_link bs f\<rparr>)" for bs sl f
    by (induction bs arbitrary: sl f) (simp_all add: does_ret does_sq [OF does_binit_step])
  have 0: "N = N\<lparr>sleeplocks := sleeplocks N, bufs := bufs N\<rparr>" by simp
  show ?thesis unfolding binit_def
    by (subst 0, rule does_sq [OF does_initlock], rule does_sq [OF does_links(2)], rule does_sq [OF does_links(1)]) (rule loop)
qed

lemma binit_link_ring:
  assumes "ring (\<lambda>c. b_next (f c)) (\<lambda>c. b_prev (f c)) BHEAD xs" and "b \<notin> set (BHEAD # xs)"
  shows "ring (\<lambda>c. b_next (binit_link b f c)) (\<lambda>c. b_prev (binit_link b f c)) BHEAD (b # xs)"
proof -
  have "(\<lambda>c. b_next (binit_link b f c)) = (\<lambda>c. b_next (f c))(b := b_next (f BHEAD), BHEAD := b)"
    "(\<lambda>c. b_prev (binit_link b f c)) = (\<lambda>c. b_prev (f c))(b := BHEAD, b_next (f BHEAD) := b)"
    using assms(2) by (auto simp: binit_link_def Let_def fun_eq_iff)
  then show ?thesis using ring_push [OF assms] by simp
qed

lemma binit_links:
  assumes "k \<le> NBUF"
  shows "ring (\<lambda>c. b_next (fold binit_link [0..<k] (set_next BHEAD BHEAD (set_prev BHEAD BHEAD f)) c))
      (\<lambda>c. b_prev (fold binit_link [0..<k] (set_next BHEAD BHEAD (set_prev BHEAD BHEAD f)) c)) BHEAD (rev [0..<k])
    \<and> (\<forall>c. unlinked (fold binit_link [0..<k] (set_next BHEAD BHEAD (set_prev BHEAD BHEAD f)) c) = unlinked (f c))"
  using assms
proof (induction k)
  case 0
  then show ?case by (simp add: ring_def)
next
  case (Suc k)
  have "unlinked (binit_link b g c) = unlinked (g c)" for b g c by (simp add: binit_link_def Let_def)
  with Suc binit_link_ring [of "fold binit_link [0..<k] (set_next BHEAD BHEAD (set_prev BHEAD BHEAD f))" "rev [0..<k]" k]
  show ?case by simp
qed

lemma binit_locks_fold: "fold binit_locks bs sl l =
    (if \<exists>b\<in>set bs. l = BufSleep b then \<lparr>sl_locked = False, sl_name = ''buffer'', sl_pid = 0\<rparr> else sl l)"
  by (induction bs arbitrary: sl) (auto simp: binit_locks_def)

lemma binit_bc:
  assumes "disk_idle (disk N)" and "\<forall>b<NBUF. \<not> b_disk (bufs N b) \<and> b_refcnt (bufs N b) = 0 \<and> \<not> b_valid (bufs N b) \<and> b_dev (bufs N b) = 0"
  shows "\<exists>N'. does D C i [] binit N () [] N' \<and> bc i {} {} N' \<and> lru (bufs N') (rev [0..<NBUF])
    \<and> platter N' = platter N \<and> (\<forall>n. blk N' n = pblk (platter N) n) \<and> bio_frame N N'"
proof -
  let ?f = "fold binit_link [0..<NBUF] (set_next BHEAD BHEAD (set_prev BHEAD BHEAD (bufs N)))"
  let ?N = "N\<lparr>sleeplocks := fold binit_locks [0..<NBUF] (sleeplocks N), bufs := ?f\<rparr>"
  have L: "lru ?f (rev [0..<NBUF])" and u: "unlinked (?f c) = unlinked (bufs N c)" for c
    using binit_links [of NBUF "bufs N"] unfolding lru_def by (simp_all only: set_rev set_upt atLeast0LessThan simp_thms)
  note U = unlinkedD [OF u]
  have free: "sl_free (BufSleep b) ?N" if "b < NBUF" for b
    using that by (simp add: sl_free_def binit_locks_fold del: upt_rec_numeral)
  have "bc i {} {} ?N" unfolding bc_def
    using assms L free U by (auto simp del: upt_rec_numeral fold_simps)
  moreover have "\<not> holds ?N c n" for c n using assms(2) U by (auto simp: holds_def simp del: upt_rec_numeral fold_simps)
  then have "blk ?N n = pblk (platter N) n" for n using blk_not_held [of ?N n] by simp
  moreover have "bio_frame N ?N"
    by (rule bio_frameI [where sl = "sleeplocks ?N" and f = "bufs ?N" and d = "disk N" and w = "vdev_writes N" and p = "platter N"]) simp
  ultimately show ?thesis using does_binit L by (intro exI [of _ ?N]) simp
qed

subsection \<open>The properties\<close>

lemma bio_norm [simp]:
  "bc i H P (norm s) = bc i H P s" "blk (norm s) n = blk s n" "bdata (norm s) b = bdata s b" "holds (norm s) b n = holds s b n"
proof -
  show h: "holds (norm s) b n = holds s b n" "bdata (norm s) b = bdata s b" for b n by (simp_all add: holds_def bdata_def)
  have "sl_mine i l (norm s) = sl_mine i l s" "sl_free l (norm s) = sl_free l s" for l
    by (simp_all add: sl_mine_def sl_free_def)
  then show "bc i H P (norm s) = bc i H P s" unfolding bc_def h bstate_norm by simp
  show "blk (norm s) n = blk s n" by (simp add: blk_def h split: option.split)
qed

lemma does_achieves:
  assumes "does D C i L m (norm s) a L' N'" and "quiet i L s" and "\<And>t. quiet i L' t \<Longrightarrow> norm t = N' \<Longrightarrow> Q a t"
    and "\<And>t. C (norm t) \<Longrightarrow> G t"
  shows "achieves (env D i) (\<lambda>_. G) Q (m s)"
proof -
  have "achieves (env D i) (\<lambda>_ t. C (norm t)) (\<lambda>b t. b = a \<and> quiet i L' t \<and> norm t = N') (m s)"
    using assms(1,2) by (simp add: does_def)
  then show ?thesis by (rule achieves_conseq) (use assms(3,4) in auto)
qed

text \<open>
  C20: \<open>bread\<close> returns the current content of the block. In a quiet system, when the cache invariant holds, the
  caller holds no buffer of block \<open>n\<close> yet and some buffer is neither held nor pinned, \<open>bread(1, n)\<close> returns
  without panicking a buffer that the caller now holds locked and that contains block \<open>n\<close> as last
  written through the cache (not what an older version on the disk says). No block changes, the disk is not
  written at any moment, and the cache invariant still holds.
\<close>

theorem bread_correct:
  assumes "disk_works D" and "quiet i [] s" and "bc i H P s" and "\<forall>b\<in>H. b_blockno (bufs s b) \<noteq> n"
    and "H \<union> P \<noteq> {..<NBUF}" and "n < 2 ^ 31"
  shows "achieves (env D i) (\<lambda>_ t. platter t = platter s)
    (\<lambda>b t. quiet i [] t \<and> b \<notin> H \<and> bc i (insert b H) P t \<and> b_blockno (bufs t b) = n \<and> bdata t b = blk s n
      \<and> (\<forall>m. blk t m = blk s m) \<and> platter t = platter s)
    (bread 1 n s)"
proof -
  obtain b N' where d: "does D (\<lambda>M. platter M = platter s) i [] (bread 1 n) (norm s) b [] N'" and b: "b \<notin> H"
    and N': "bc i (insert b H) P N'" "b_blockno (bufs N' b) = n" "bdata N' b = blk s n" "blk N' = blk (norm s)" "platter N' = platter s"
    using does_bread_blk [where N = "norm s" and CP = "\<lambda>p. p = platter s" and i = i and H = H and P = P and n = n and D = D] assms by auto
  show ?thesis by (rule does_achieves [OF d assms(2)]) (use b N' in \<open>auto simp: fun_eq_iff\<close>)
qed

text \<open>
  C21: \<open>brelse\<close> refines move-to-front on the abstract list of buffers. The doubly linked list represents a list
  \<open>xs\<close> of all buffers, most recently used first; releasing a buffer to which no other reference is left
  moves it to the front of \<open>xs\<close> and keeps the order of the others, and releasing a pinned one keeps
  \<open>xs\<close>. The buffer becomes unlocked, no block changes, and the cache invariant still holds.
\<close>

theorem brelse_move_to_front:
  assumes "quiet i [] s" and "bc i H P s" and "b \<in> H" and "b \<in> P \<or> bdata s b = pblk (platter s) (b_blockno (bufs s b))"
    and "lru (bufs s) xs"
  shows "achieves (env D i) (\<lambda>_ _. False)
    (\<lambda>_ t. quiet i [] t \<and> bc i (H - {b}) P t \<and> lru (bufs t) (if b \<in> P then xs else b # remove1 b xs)
      \<and> (\<forall>m. blk t m = blk s m) \<and> platter t = platter s)
    (brelse b s)"
proof -
  have N: "bc i H P (norm s)" "lru (bufs (norm s)) xs" using assms by simp_all
  have d: "does D (\<lambda>_. False) i [] (brelse b) (norm s) () [] (released b (norm s))"
    by (rule does_brelse [OF bcD(7) [OF N(1) assms(3)]])
  have "b \<in> P \<or> bdata (norm s) b = pblk (platter (norm s)) (b_blockno (bufs (norm s) b))" using assms(4) by simp
  note R = brelse_bc [OF N(1) assms(3) this]
  show ?thesis
  proof (rule does_achieves [OF d assms(1)])
    fix t :: "'a bstate_scheme" assume t: "quiet i [] t" "norm t = released b (norm s)"
    have "bc i (H - {b}) P (norm t)" "lru (bufs (norm t)) (if b \<in> P then xs else b # remove1 b xs)"
      "\<forall>m. blk (norm t) m = blk (norm s) m" "platter (norm t) = platter (norm s)"
      unfolding t(2) using R(1,2,3) R(6) [OF N(2)] by (simp_all add: fun_eq_iff)
    then show "quiet i [] t \<and> bc i (H - {b}) P t \<and> lru (bufs t) (if b \<in> P then xs else b # remove1 b xs)
      \<and> (\<forall>m. blk t m = blk s m) \<and> platter t = platter s" using t(1) by simp
  qed simp
qed

text \<open>The machine of the disk driver's witness after \<open>binit\<close>, and after it has read block 7.\<close>

lemma binit_runs:
  assumes "quiet i [] s0" and "disk_idle (disk s0)" and "\<And>b. bufs s0 b = empty_buf"
  shows "\<exists>s. binit s0 = Ok () s \<and> quiet i [] s \<and> bc i {} {} s \<and> lru (bufs s) (rev [0..<NBUF])
     \<and> platter s = platter s0 \<and> (\<forall>n. blk s n = pblk (platter s0) n) \<and> bio_frame (norm s0) (norm s)"
proof -
  obtain N' where d: "does blk_device (\<lambda>_. False) i [] binit (norm s0) () [] N'" and N': "bc i {} {} N'" "lru (bufs N') (rev [0..<NBUF])"
    "platter N' = platter s0" "\<forall>n. blk N' n = pblk (platter s0) n" "bio_frame (norm s0) N'"
    using binit_bc [of "norm s0" blk_device "\<lambda>_. False" i] assms by (auto simp: empty_buf_def)
  have "achieves (env blk_device i) (\<lambda>_ _. False) (\<lambda>_ t. quiet i [] t \<and> norm t = N') (binit s0)"
    by (rule does_achieves [OF d assms(1)]) auto
  then obtain s where "binit s0 = Ok () s" "quiet i [] s" "norm s = N'" by (cases "binit s0") auto
  note s = this
  have "bc i {} {} (norm s)" "lru (bufs (norm s)) (rev [0..<NBUF])" "platter (norm s) = platter s0"
    "\<forall>n. blk (norm s) n = pblk (platter s0) n" "bio_frame (norm s0) (norm s)" unfolding s(3) using N' by blast+
  then show ?thesis using s(1,2) by (intro exI [of _ s] conjI) (simp_all del: upt_rec_numeral)
qed

lemmas disk_machine_binit = binit_runs [OF disk_machine_ok]

definition cache_machine :: bstate where
  "cache_machine = (case binit disk_machine of Ok _ s \<Rightarrow> s | _ \<Rightarrow> disk_machine)"

lemma cache_machine_ok:
  "quiet 0 [] cache_machine" "bc 0 {} {} cache_machine" "blk cache_machine n = pblk (\<lambda>x. of_nat x) n"
  using disk_machine_binit by (auto simp: cache_machine_def disk_machine_def pstate.extend_def simp del: upt_rec_numeral)

lemma cache_machine_platter: "platter cache_machine = (\<lambda>x. of_nat x)"
  using disk_machine_binit by (auto simp: cache_machine_def disk_machine_def pstate.extend_def simp del: upt_rec_numeral)

lemma cache_block_7: "blk cache_machine 7 ! 5 = 5"
  by (simp add: cache_machine_ok pblk_def disk_off_def del: upt_rec_numeral)

lemma some_buffer: "{} \<noteq> {..<NBUF}"
  by (metis lessThan_empty_iff zero_neq_numeral)

theorem bread_correct_witness:
  "achieves (env blk_device 0) (\<lambda>_ t. platter t = platter cache_machine) (\<lambda>b t. bc 0 {b} {} t \<and> bdata t b ! 5 = 5)
    (bread 1 7 cache_machine)"
proof -
  have "(\<forall>b\<in>{}. b_blockno (bufs cache_machine b) \<noteq> 7) \<and> {} \<union> {} \<noteq> {..<NBUF} \<and> (7::u32) < 2 ^ 31" using some_buffer by simp
  then show ?thesis
    using achieves_conseq [OF bread_correct [OF blk_device_works cache_machine_ok(1,2), of 7], of _ "\<lambda>_ t. platter t = platter cache_machine"]
    by (auto simp: cache_block_7)
qed

theorem brelse_move_to_front_witness:
  "achieves (env blk_device 0) (\<lambda>_ _. True) (\<lambda>_ t. (\<exists>b xs. lru (bufs t) (b # remove1 b xs)) \<and> bc 0 {} {} t \<and> blk t 7 ! 5 = 5)
    (bnd (bread 1 7) brelse cache_machine)"
proof -
  obtain b N' where d: "does blk_device (\<lambda>_. True) 0 [] (bread 1 7) (norm cache_machine) b [] N'"
    and N': "bc 0 {b} {} N'" "b_blockno (bufs N' b) = 7" "bdata N' b = blk (norm cache_machine) 7" "blk N' = blk (norm cache_machine)"
      "platter N' = platter (norm cache_machine)"
    using does_bread_blk [where N = "norm cache_machine" and CP = "\<lambda>_. True" and i = 0 and H = "{}" and P = "{}" and n = 7 and D = blk_device]
      cache_machine_ok blk_device_works some_buffer by auto
  have N7: "bdata N' b = pblk (platter N') (b_blockno (bufs N' b))"
    using N'(2,3) bcD(1) [OF N'(1)] cache_machine_platter by (simp add: N'(5) cache_machine_ok)
  have "achieves (env blk_device 0) (\<lambda>_ _. True) (\<lambda>c t. c = b \<and> quiet 0 [] t \<and> norm t = N') (bread 1 7 cache_machine)"
    by (rule does_achieves [OF d cache_machine_ok(1)]) auto
  then show ?thesis unfolding bnd_def
  proof (rule achieves_andthen)
    fix c t assume t: "c = b \<and> quiet 0 [] t \<and> norm t = N'"
    have bct: "bc 0 {b} {} t" "bdata t b = pblk (platter t) (b_blockno (bufs t b))" "blk t 7 ! 5 = 5"
      using t N'(1) N7 arg_cong [OF N'(4), of "\<lambda>f. f 7 ! 5"] cache_block_7 by (metis bio_norm bstate_norm(1,3))+
    then obtain xs where "lru (bufs t) xs" using bcD(1) by blast
    from brelse_move_to_front [of 0 t "{b}" "{}" b xs blk_device] this bct t
    show "achieves (env blk_device 0) (\<lambda>_ _. True) (\<lambda>_ t. (\<exists>b xs. lru (bufs t) (b # remove1 b xs)) \<and> bc 0 {} {} t \<and> blk t 7 ! 5 = 5) (brelse c t)"
      by (auto elim!: achieves_conseq)
  qed
qed

end
