(* ===== verification/Log.thy ===== *)
theory Log
  imports Bio
begin

text \<open>
  \<open>kernel/log.c\<close>: the redo log. The state adds \<open>log\<close> and, for the on-disk header, the access to the
  words of a block. \<open>int\<close> fields are integers; an index past an array faults.
\<close>

subsection \<open>Objects inside character arrays\<close>

definition chars_get :: "chars \<Rightarrow> nat \<Rightarrow> nat \<Rightarrow> bytes" where
  "chars_get d off n = map d [off..<off + n]"

definition chars_put :: "nat \<Rightarrow> bytes \<Rightarrow> chars \<Rightarrow> chars" where
  "chars_put off bs d = (\<lambda>k. if off \<le> k \<and> k < off + length bs then bs ! (k - off) else d k)"

definition get16 :: "chars \<Rightarrow> nat \<Rightarrow> u16" where
  "get16 d off = le_word (chars_get d off 2)"

definition get32 :: "chars \<Rightarrow> nat \<Rightarrow> u32" where
  "get32 d off = le_word (chars_get d off 4)"

definition put16 :: "nat \<Rightarrow> u16 \<Rightarrow> chars \<Rightarrow> chars" where
  "put16 off v = chars_put off (le_bytes 2 v)"

definition put32 :: "nat \<Rightarrow> u32 \<Rightarrow> chars \<Rightarrow> chars" where
  "put32 off v = chars_put off (le_bytes 4 v)"

text \<open>\<open>memmove(dst, src, n)\<close> between two different arrays.\<close>

definition chars_copy :: "nat \<Rightarrow> chars \<Rightarrow> chars \<Rightarrow> chars" where
  "chars_copy n src dst = (\<lambda>k. if k < n then src k else dst k)"

subsection \<open>The log\<close>

record superblock =
  sb_magic :: u32
  sb_size :: u32
  sb_nblocks :: u32
  sb_ninodes :: u32
  sb_nlog :: u32
  sb_logstart :: u32
  sb_inodestart :: u32
  sb_bmapstart :: u32

record logheader =
  lh_n :: int
  lh_block :: "nat \<Rightarrow> int"

record logst =
  lg_start :: int
  lg_size :: int
  lg_outstanding :: int
  lg_committing :: bool
  lg_dev :: int
  lg_lh :: logheader

record lstate = bstate +
  log :: logst

definition upd_log :: "(logst \<Rightarrow> logst) \<Rightarrow> (unit, 'z lstate_scheme) kern" where
  "upd_log f = modify (\<lambda>s. s\<lparr>log := f (log s)\<rparr>)"

definition getl :: "(logst \<Rightarrow> 'a) \<Rightarrow> ('a, 'z lstate_scheme) kern" where
  "getl f = gets (\<lambda>s. f (log s))"

definition set_lh_n :: "int \<Rightarrow> (unit, 'z lstate_scheme) kern" where
  "set_lh_n n = upd_log (\<lambda>l. l\<lparr>lg_lh := (lg_lh l)\<lparr>lh_n := n\<rparr>\<rparr>)"

definition set_lh_block :: "nat \<Rightarrow> int \<Rightarrow> (unit, 'z lstate_scheme) kern" where
  "set_lh_block i v = upd_log (\<lambda>l. l\<lparr>lg_lh := (lg_lh l)\<lparr>lh_block := (lh_block (lg_lh l))(i := v)\<rparr>\<rparr>)"

text \<open>
  \<open>for(i = \<dots>; i < log.lh.n; i++) f\<close> over an array of which \<open>k\<close> elements are left from index \<open>i\<close> on: the
  bound is read in every round, and going past the end of the array faults.
\<close>

primrec for_lh :: "nat \<Rightarrow> nat \<Rightarrow> (nat \<Rightarrow> (unit, 'z lstate_scheme) kern) \<Rightarrow> (unit, 'z lstate_scheme) kern" where
  "for_lh 0 i f = bnd (getl (\<lambda>l. lh_n (lg_lh l))) (\<lambda>n. guardM (\<not> int i < n))"
| "for_lh (Suc k) i f = bnd (getl (\<lambda>l. lh_n (lg_lh l))) (\<lambda>n.
     if int i < n then sq (f i) (for_lh k (Suc i) f) else ret ())"

text \<open>The block of slot \<open>tail\<close> of the log, and the block it is for.\<close>

definition log_blockno :: "nat \<Rightarrow> logst \<Rightarrow> u32" where
  "log_blockno tail l = word_of_int (lg_start l + int tail + 1)"

definition home_blockno :: "nat \<Rightarrow> logst \<Rightarrow> u32" where
  "home_blockno tail l = word_of_int (lh_block (lg_lh l) tail)"

definition install_trans :: "bool \<Rightarrow> (unit, 'z lstate_scheme) kern" where
  "install_trans recovering = for_lh LOGSIZE 0 (\<lambda>tail.
     bnd (getl (\<lambda>l. word_of_int (lg_dev l))) (\<lambda>dev.
     bnd (getl (log_blockno tail)) (\<lambda>n.
     bnd (bread dev n) (\<lambda>lbuf.
     bnd (getl (\<lambda>l. word_of_int (lg_dev l))) (\<lambda>dev.
     bnd (getl (home_blockno tail)) (\<lambda>n.
     bnd (bread dev n) (\<lambda>dbuf.
     bnd (getb lbuf b_data) (\<lambda>d.
     sq (upd_buf dbuf (\<lambda>b. b\<lparr>b_data := chars_copy BSIZE d (b_data b)\<rparr>)) (
     sq (bwrite dbuf) (
     sq (whenM (\<not> recovering) (bunpin dbuf)) (
     sq (brelse lbuf) (
     brelse dbuf))))))))))))"

text \<open>\<open>struct logheader\<close> in a block: \<open>n\<close> at offset 0 and \<open>block[i]\<close> at offset \<open>4 + 4 * i\<close>.\<close>

definition read_head :: "(unit, 'z lstate_scheme) kern" where
  "read_head =
     bnd (getl (\<lambda>l. word_of_int (lg_dev l))) (\<lambda>dev.
     bnd (getl (\<lambda>l. word_of_int (lg_start l))) (\<lambda>start.
     bnd (bread dev start) (\<lambda>bp.
     bnd (getb bp b_data) (\<lambda>d.
     sq (set_lh_n (sint (get32 d 0))) (
     sq (for_lh LOGSIZE 0 (\<lambda>i.
       bnd (getb bp b_data) (\<lambda>d. set_lh_block i (sint (get32 d (4 + 4 * i)))))) (
     brelse bp))))))"

definition write_head :: "(unit, 'z lstate_scheme) kern" where
  "write_head =
     bnd (getl (\<lambda>l. word_of_int (lg_dev l))) (\<lambda>dev.
     bnd (getl (\<lambda>l. word_of_int (lg_start l))) (\<lambda>start.
     bnd (bread dev start) (\<lambda>bp.
     bnd (getl (\<lambda>l. lh_n (lg_lh l))) (\<lambda>n.
     sq (upd_buf bp (\<lambda>b. b\<lparr>b_data := put32 0 (word_of_int n) (b_data b)\<rparr>)) (
     sq (for_lh LOGSIZE 0 (\<lambda>i.
       bnd (getl (\<lambda>l. lh_block (lg_lh l) i)) (\<lambda>v.
       upd_buf bp (\<lambda>b. b\<lparr>b_data := put32 (4 + 4 * i) (word_of_int v) (b_data b)\<rparr>)))) (
     sq (bwrite bp) (
     brelse bp)))))))"

definition recover_from_log :: "(unit, 'z lstate_scheme) kern" where
  "recover_from_log =
     sq read_head (
     sq (install_trans True) (
     sq (set_lh_n 0)
        write_head))"

text \<open>\<open>sizeof(struct logheader)\<close>.\<close>

definition logheader_size :: nat where "logheader_size = 4 + 4 * LOGSIZE"

definition initlog :: "int \<Rightarrow> superblock \<Rightarrow> (unit, 'z lstate_scheme) kern" where
  "initlog dev sb =
     (if logheader_size \<ge> BSIZE then panic ''initlog: too big logheader''
      else sq (initlock LogLock ''log'') (
     sq (upd_log (\<lambda>l. l\<lparr>lg_start := sint (sb_logstart sb)\<rparr>)) (
     sq (upd_log (\<lambda>l. l\<lparr>lg_size := sint (sb_nlog sb)\<rparr>)) (
     sq (upd_log (\<lambda>l. l\<lparr>lg_dev := dev\<rparr>))
        recover_from_log))))"

definition begin_op :: "(unit, 'z lstate_scheme) kern" where
  "begin_op =
     sq (acquire LogLock) (
     again (
       bnd (getl (\<lambda>l. l)) (\<lambda>l.
       if lg_committing l then sq (sleep (Some ChanLog) LogLock) (ret (Inr ()))
       else if lh_n (lg_lh l) + (lg_outstanding l + 1) * int MAXOPBLOCKS > int LOGSIZE
       then sq (sleep (Some ChanLog) LogLock) (ret (Inr ()))
       else sq (upd_log (\<lambda>l. l\<lparr>lg_outstanding := lg_outstanding l + 1\<rparr>)) (
            sq (release LogLock) (
            ret (Inl ()))))))"

definition write_log :: "(unit, 'z lstate_scheme) kern" where
  "write_log = for_lh LOGSIZE 0 (\<lambda>tail.
     bnd (getl (\<lambda>l. word_of_int (lg_dev l))) (\<lambda>dev.
     bnd (getl (log_blockno tail)) (\<lambda>n.
     bnd (bread dev n) (\<lambda>to.
     bnd (getl (\<lambda>l. word_of_int (lg_dev l))) (\<lambda>dev.
     bnd (getl (home_blockno tail)) (\<lambda>n.
     bnd (bread dev n) (\<lambda>from.
     bnd (getb from b_data) (\<lambda>d.
     sq (upd_buf to (\<lambda>b. b\<lparr>b_data := chars_copy BSIZE d (b_data b)\<rparr>)) (
     sq (bwrite to) (
     sq (brelse from) (
     brelse to)))))))))))"

definition commit :: "(unit, 'z lstate_scheme) kern" where
  "commit =
     bnd (getl (\<lambda>l. lh_n (lg_lh l))) (\<lambda>n.
     whenM (n > 0) (
       sq write_log (
       sq write_head (
       sq (install_trans False) (
       sq (set_lh_n 0)
          write_head)))))"

definition end_op :: "(unit, 'z lstate_scheme) kern" where
  "end_op =
     sq (acquire LogLock) (
     sq (upd_log (\<lambda>l. l\<lparr>lg_outstanding := lg_outstanding l - 1\<rparr>)) (
     bnd (getl (\<lambda>l. l)) (\<lambda>l.
     if lg_committing l then panic ''log.committing''
     else bnd (if lg_outstanding l = 0 then sq (upd_log (\<lambda>l. l\<lparr>lg_committing := True\<rparr>)) (ret True)
               else sq (wakeup (Some ChanLog)) (ret False)) (\<lambda>do_commit.
     sq (release LogLock) (
     whenM do_commit (
       sq commit (
       sq (acquire LogLock) (
       sq (upd_log (\<lambda>l. l\<lparr>lg_committing := False\<rparr>)) (
       sq (wakeup (Some ChanLog)) (
       release LogLock))))))))))"

text \<open>The slot that \<open>log_write\<close> uses for block \<open>bn\<close>: the one that has it already, or the next free one.\<close>

definition log_slot :: "logheader \<Rightarrow> u32 \<Rightarrow> nat" where
  "log_slot lh bn = (case find (\<lambda>i. word_of_int (lh_block lh i) = bn) [0..<nat (lh_n lh)] of
     Some i \<Rightarrow> i | None \<Rightarrow> nat (lh_n lh))"

definition log_write :: "nat \<Rightarrow> (unit, 'z lstate_scheme) kern" where
  "log_write b =
     sq (acquire LogLock) (
     bnd (getl (\<lambda>l. l)) (\<lambda>l.
     if lh_n (lg_lh l) \<ge> int LOGSIZE \<or> lh_n (lg_lh l) \<ge> lg_size l - 1 then panic ''too big a transaction''
     else if lg_outstanding l < 1 then panic ''log_write outside of trans''
     else bnd (getb b b_blockno) (\<lambda>bn.
     let i = log_slot (lg_lh l) bn in
     sq (set_lh_block i (sint bn)) (
     sq (whenM (int i = lh_n (lg_lh l)) (
       sq (bpin b)
          (set_lh_n (lh_n (lg_lh l) + 1))))
     (release LogLock)))))"

subsection \<open>Execution\<close>

lemma lstate_acq [simp]: "log (acq l s) = log s" "log_update f (acq l s) = acq l (log_update f s)"
  by (simp_all add: acq_def)

lemma lstate_norm [simp]: "log (norm s) = log s" "norm (log_update f s) = log_update f (norm s)"
  by (simp_all add: norm_def)

lemma lstate_mach [simp]:
  "mach_ok (log_update f s) = mach_ok s" "lock_free (log_update f s) l = lock_free s l"
  "running (log_update f s) = running s" "awake i (log_update f s) = awake i s"
  by (simp_all add: mach_ok_def lock_free_def ie_def running_def awake_def)

lemma acqs_log: "acqs L (log_update f s) = log_update f (acqs L s)"
  by (induction L) simp_all

lemma quiet_log [simp]: "quiet i L s \<Longrightarrow> quiet i L (log_update f s)"
  unfolding quiet_def by (metis acqs_log lstate_mach(1,4))

lemma does_getl: "does D C i L (getl f) N (f (log N)) L N"
  unfolding getl_def by (rule does_gets) simp

lemma does_upd_log: "does D C i L (upd_log f) N () L (N\<lparr>log := f (log N)\<rparr>)"
  unfolding upd_log_def by (rule does_modify) simp_all

lemma bio_log [simp]:
  "bc i H P (log_update f N) = bc i H P N" "blk (log_update f N) n = blk N n" "bdata (log_update f N) b = bdata N b"
  "bufs_same A M (log_update f N) = bufs_same A M N"
proof -
  show h: "bdata (log_update f N) b = bdata N b" for b by (simp add: bdata_def)
  have "holds (log_update f N) b n = holds N b n" for b n by (simp add: holds_def)
  then show "blk (log_update f N) n = blk N n" by (simp add: blk_def h split: option.split)
  show "bc i H P (log_update f N) = bc i H P N" by (simp add: bc_def h sl_mine_def sl_free_def)
  show "bufs_same A M (log_update f N) = bufs_same A M N" by (simp add: bufs_same_def h)
qed

lemma bio_frame_log: "bio_frame N N' \<Longrightarrow> log N' = log N"
  by (auto simp: bio_frame_def)

subsection \<open>The log and the disk\<close>

abbreviation (input) head_blockno :: "logst \<Rightarrow> u32" where "head_blockno l \<equiv> word_of_int (lg_start l)"

text \<open>The blocks of the log on the disk.\<close>

definition log_area :: "logst \<Rightarrow> u32 set" where
  "log_area l = {n. lg_start l \<le> uint n \<and> uint n < lg_start l + lg_size l}"

text \<open>The blocks in the current transaction.\<close>

definition logged :: "logst \<Rightarrow> u32 list" where
  "logged l = map (\<lambda>k. home_blockno k l) [0..<nat (lh_n (lg_lh l))]"

definition log_geom :: "logst \<Rightarrow> bool" where
  "log_geom l \<longleftrightarrow> lg_dev l = 1 \<and> 0 \<le> lg_start l \<and> 1 \<le> lg_size l \<and> lg_start l + lg_size l < 2 ^ 31"

text \<open>\<open>ns\<close> can be in the log: they fit, they are different and none of them is a block of the log.\<close>

definition loggable :: "logst \<Rightarrow> u32 list \<Rightarrow> bool" where
  "loggable l ns \<longleftrightarrow> length ns \<le> LOGSIZE \<and> int (length ns) < lg_size l \<and> length ns < NBUF
     \<and> distinct ns \<and> (\<forall>n\<in>set ns. n < 2 ^ 31 \<and> n \<notin> log_area l)"

definition log_ok :: "logst \<Rightarrow> bool" where
  "log_ok l \<longleftrightarrow> log_geom l \<and> 0 \<le> lh_n (lg_lh l) \<and> loggable l (logged l)"

lemma length_logged [simp]: "length (logged l) = nat (lh_n (lg_lh l))"
  by (simp add: logged_def)

lemma logged_nth: "k < nat (lh_n (lg_lh l)) \<Longrightarrow> logged l ! k = home_blockno k l"
  by (simp add: logged_def)

lemma uint_of_int_small: "0 \<le> x \<Longrightarrow> x < 2 ^ 31 \<Longrightarrow> uint (word_of_int x :: u32) = x"
  by (simp add: word_of_int_inverse unsigned_of_int take_bit_int_eq_self)

lemma log_blocks:
  assumes "log_geom l" and "int k + 1 < lg_size l"
  shows "uint (log_blockno k l) = lg_start l + int k + 1" "log_blockno k l \<in> log_area l" "log_blockno k l < 2 ^ 31"
    "log_blockno k l \<noteq> head_blockno l"
proof -
  show u: "uint (log_blockno k l) = lg_start l + int k + 1"
    using assms unfolding log_blockno_def log_geom_def by (intro uint_of_int_small) auto
  then show "log_blockno k l \<in> log_area l" using assms by (auto simp: log_area_def log_geom_def)
  show "log_blockno k l < 2 ^ 31" using assms u by (simp add: word_less_def log_geom_def)
  have "uint (head_blockno l) = lg_start l" using assms by (intro uint_of_int_small) (auto simp: log_geom_def)
  then show "log_blockno k l \<noteq> head_blockno l" using u by force
qed

lemma head_block:
  assumes "log_geom l"
  shows "head_blockno l \<in> log_area l" "head_blockno l < 2 ^ 31"
proof -
  have u: "uint (head_blockno l) = lg_start l" using assms by (intro uint_of_int_small) (auto simp: log_geom_def)
  then show "head_blockno l \<in> log_area l" using assms by (auto simp: log_area_def log_geom_def)
  show "head_blockno l < 2 ^ 31" using assms u by (simp add: word_less_def log_geom_def)
qed

lemma log_blocks_inj:
  assumes "log_geom l" and "int k + 1 < lg_size l" and "int j + 1 < lg_size l"
  shows "log_blockno k l = log_blockno j l \<longleftrightarrow> k = j"
proof
  assume "log_blockno k l = log_blockno j l"
  then have "lg_start l + int k + 1 = lg_start l + int j + 1"
    by (simp only: log_blocks(1) [OF assms(1,2), symmetric] log_blocks(1) [OF assms(1,3), symmetric])
  then show "k = j" by linarith
qed simp

subsection \<open>Copying a block\<close>

lemma bc_pinned_unique:
  assumes "bc i H P N" and "b < NBUF" and "b_dev (bufs N b) = 1" and "c \<in> P" and "b_blockno (bufs N c) = b_blockno (bufs N b)"
  shows "b = c"
proof -
  have "c < NBUF" "b_dev (bufs N c) = 1" using assms(4) bcD(4,9) [OF assms(1)] by auto
  then show ?thesis using bcD(10) [OF assms(1), of b c "b_blockno (bufs N b)"] assms by (simp add: bmatch_def)
qed

lemma card_not_all: "card A < NBUF \<Longrightarrow> A \<noteq> {..<NBUF}"
  by auto

lemma does_read2:
  assumes "bc i {} P N" and "disk_works D" and "norm N = N" and "CP (platter N)" and "x < 2 ^ 31" and "y < 2 ^ 31" and "x \<noteq> y"
    and "\<forall>b\<in>P. b_blockno (bufs N b) \<noteq> x" and "card P < NBUF" and "card P + 1 < NBUF \<or> (\<exists>b\<in>P. b_blockno (bufs N b) = y)"
  shows "\<exists>a c N1 N2. does D (\<lambda>M. CP (platter M)) i [] (bread 1 x) N a [] N1 \<and> does D (\<lambda>M. CP (platter M)) i [] (bread 1 y) N1 c [] N2
    \<and> a \<noteq> c \<and> a \<notin> P \<and> bc i {a, c} P N2 \<and> b_blockno (bufs N2 a) = x \<and> b_blockno (bufs N2 c) = y
    \<and> bdata N2 a = blk N x \<and> bdata N2 c = blk N y \<and> blk N2 = blk N \<and> platter N2 = platter N \<and> bufs_same P N N2 \<and> bio_frame N N1 \<and> bio_frame N N2"
proof -
  have "{} \<union> P \<noteq> {..<NBUF} \<or> (\<exists>b\<in>P. b_blockno (bufs N b) = x)" using card_not_all [OF assms(9)] by simp
  from does_bread_blk [where CP = CP, OF assms(1) _ this assms(2-5)]
  obtain a N1 where 1: "does D (\<lambda>M. CP (platter M)) i [] (bread 1 x) N a [] N1" "bc i {a} P N1" "b_blockno (bufs N1 a) = x"
    "bdata N1 a = blk N x" "blk N1 = blk N" "platter N1 = platter N" "bufs_same P N N1" "bio_frame N N1" by auto
  have aP: "a \<notin> P"
  proof
    assume "a \<in> P"
    then show False using 1(3,7) assms(8) by (auto simp: bufs_same_def)
  qed
  have fin: "finite P" using bcD(4) [OF assms(1)] finite_subset by blast
  have 2: "{a} \<union> P \<noteq> {..<NBUF} \<or> (\<exists>b\<in>P. b_blockno (bufs N1 b) = y)"
  proof (cases "card P + 1 < NBUF")
    case True
    then have "card ({a} \<union> P) < NBUF" using aP fin by simp
    then show ?thesis using card_not_all by blast
  next
    case False
    then show ?thesis using assms(10) 1(7) by (auto simp: bufs_same_def)
  qed
  have pre: "\<forall>b\<in>{a}. b_blockno (bufs N1 b) \<noteq> y" "norm N1 = N1" "CP (platter N1)"
    using 1(3,6) assms(3,4,7) bio_frame_norm [OF 1(8)] by simp_all
  obtain c N2 where 2: "does D (\<lambda>M. CP (platter M)) i [] (bread 1 y) N1 c [] N2" "c \<notin> {a}" "bc i (insert c {a}) P N2"
    "b_blockno (bufs N2 c) = y" "bdata N2 c = blk N1 y" "blk N2 = blk N1" "platter N2 = platter N1" "bufs_same ({a} \<union> P) N1 N2" "bio_frame N1 N2"
    using does_bread_blk [where CP = CP, OF 1(2) pre(1) 2 assms(2) pre(2,3) assms(6)] by (elim exE conjE) (rule that)
  have "bc i {a, c} P N2" using 2(3) by (simp add: insert_commute)
  moreover have "b_blockno (bufs N2 a) = x" "bdata N2 a = blk N x" "bufs_same P N N2"
    using 2(8) 1(3,4,7) by (auto simp: bufs_same_def)
  ultimately show ?thesis
    using 1 2 aP bio_frame_trans [OF 1(8) 2(9)] by (intro exI [of _ a] exI [of _ c] exI [of _ N1] exI [of _ N2]) simp
qed

lemma map_chars_copy: "map (chars_copy BSIZE d d') [0..<BSIZE] = map d [0..<BSIZE]"
  by (simp add: chars_copy_def)

text \<open>The state after buffer \<open>t\<close> has got the data of \<open>f\<close> and has been written.\<close>

lemma does_copy_write:
  assumes "bc i H P N" and "t \<in> H" and "f \<in> H" and "f \<noteq> t" and "disk_works D" and "norm N = N" and "CP (platter N)"
    and "x = b_blockno (bufs N t)" and "v = bdata N f"
  shows "\<exists>N'. does D (\<lambda>M. CP (platter M)) i [] (bnd (getb f b_data) (\<lambda>d. sq (upd_buf t (\<lambda>b. b\<lparr>b_data := chars_copy BSIZE d (b_data b)\<rparr>)) (bwrite t))) N () [] N'
    \<and> bc i H P N' \<and> (\<forall>c. b_blockno (bufs N' c) = b_blockno (bufs N c) \<and> bdata N' c = (if c = t then v else bdata N c))
    \<and> (\<forall>n<2 ^ 31. pblk (platter N') n = (if n = x then v else pblk (platter N) n))
    \<and> (\<forall>n<2 ^ 31. blk N' n = (if n = x then v else blk N n)) \<and> bio_frame N N'"
proof -
  let ?N1 = "put_data t (chars_copy BSIZE (b_data (bufs N f)) (b_data (bufs N t))) N"
  have bc1: "bc i H P ?N1" and blk1: "\<And>n. blk ?N1 n = (if n = x then v else blk N n)"
    using put_data_bc [OF assms(1,2)] assms(8,9) map_chars_copy by (simp_all add: bdata_def)
  have N1: "b_blockno (bufs ?N1 c) = b_blockno (bufs N c)" "bdata ?N1 c = (if c = t then v else bdata N c)" "platter ?N1 = platter N" for c
    using assms(9) map_chars_copy by (simp_all add: put_data_def bdata_def)
  have "norm ?N1 = ?N1" by (rule bio_frame_norm [OF put_data_frame assms(6)])
  then obtain N' where N': "does D (\<lambda>M. CP (platter M)) i [] (bwrite t) ?N1 () [] N'" "bc i H P N'" "bufs N' = bufs ?N1"
    "\<forall>n<2 ^ 31. pblk (platter N') n = (if n = b_blockno (bufs ?N1 t) then bdata ?N1 t else pblk (platter ?N1) n)"
    "\<forall>n<2 ^ 31. blk N' n = blk ?N1 n" "bio_frame ?N1 N'"
    using does_bwrite [where CP = CP, OF bc1 assms(2,5)] assms(7) N1(3) by metis
  have "bdata N' c = bdata ?N1 c" for c using N'(3) by (simp add: bdata_def)
  moreover have "does D (\<lambda>M. CP (platter M)) i [] (bnd (getb f b_data) (\<lambda>d. sq (upd_buf t (\<lambda>b. b\<lparr>b_data := chars_copy BSIZE d (b_data b)\<rparr>)) (bwrite t))) N () [] N'"
    by (rule does_bnd [OF does_getb], rule does_sq, rule does_put_data, rule N'(1))
  ultimately show ?thesis
    using N' N1 blk1 assms(8) bio_frame_trans [OF put_data_frame N'(6)] by (intro exI [of _ N']) simp
qed

lemma bnd_sq_assoc: "sq (bnd m f) r = bnd m (\<lambda>a. sq (f a) r)"
  by (simp add: fun_eq_iff sq_def bnd_def andthen_assoc)

lemma does_brelse2:
  assumes "bc i {a, c} P N" and "a \<noteq> c"
    and "a \<in> P \<or> bdata N a = pblk (platter N) (b_blockno (bufs N a))" and "c \<in> P \<or> bdata N c = pblk (platter N) (b_blockno (bufs N c))"
  shows "\<exists>N'. does D C i [] (sq (brelse a) (brelse c)) N () [] N' \<and> bc i {} P N' \<and> blk N' = blk N \<and> platter N' = platter N
    \<and> bufs_same UNIV N N' \<and> bio_frame N N'"
proof -
  let ?N1 = "released a N"
  have a: "a \<in> {a, c}" by simp
  note R = brelse_bc [OF assms(1) a assms(3)]
  have H: "{a, c} - {a} = {c}" using assms(2) by auto
  have bc1: "bc i {c} P ?N1" using R(1) by (simp only: H)
  have same: "b_blockno (bufs ?N1 x) = b_blockno (bufs N x)" "bdata ?N1 x = bdata N x" for x using R(4) [of UNIV] by (auto simp: bufs_same_def)
  have "c \<in> P \<or> bdata ?N1 c = pblk (platter ?N1) (b_blockno (bufs ?N1 c))" using assms(4) same R(3) by simp
  note S = brelse_bc [OF bc1 _ this, simplified]
  have d: "does D C i [] (sq (brelse a) (brelse c)) N () [] (released c ?N1)"
    by (rule does_sq [OF does_brelse does_brelse]) (use bcD(7) [OF assms(1)] bcD(7) [OF bc1] in auto)
  have "bufs_same UNIV N (released c ?N1)" using R(4) [of UNIV] S(4) [of UNIV] by (auto simp: bufs_same_def)
  then show ?thesis using d S R bio_frame_trans [OF R(5) S(5)] by (intro exI [of _ "released c ?N1"]) simp
qed

text \<open>The blocks of the pinned buffers.\<close>

definition pins :: "nat set \<Rightarrow> 'z bstate_scheme \<Rightarrow> u32 set" where
  "pins P N = (\<lambda>b. b_blockno (bufs N b)) ` P"

lemma card_pins: "bc i H P N \<Longrightarrow> card (pins P N) = card P"
  unfolding pins_def
proof (rule card_image, rule inj_onI)
  fix b c assume "bc i H P N" "b \<in> P" "c \<in> P" "b_blockno (bufs N b) = b_blockno (bufs N c)"
  then show "b = c" using bc_pinned_unique [of i H P N b c] bcD(4,9) [of i H P N] by auto
qed

lemma pins_same: "bufs_same A N N' \<Longrightarrow> P \<subseteq> A \<Longrightarrow> pins P N' = pins P N"
  unfolding pins_def bufs_same_def by (intro image_cong) auto

definition write_log_body :: "nat \<Rightarrow> (unit, 'z lstate_scheme) kern" where
  "write_log_body tail =
     bnd (getl (\<lambda>l. word_of_int (lg_dev l))) (\<lambda>dev.
     bnd (getl (log_blockno tail)) (\<lambda>n.
     bnd (bread dev n) (\<lambda>to.
     bnd (getl (\<lambda>l. word_of_int (lg_dev l))) (\<lambda>dev.
     bnd (getl (home_blockno tail)) (\<lambda>n.
     bnd (bread dev n) (\<lambda>from.
     bnd (getb from b_data) (\<lambda>d.
     sq (upd_buf to (\<lambda>b. b\<lparr>b_data := chars_copy BSIZE d (b_data b)\<rparr>)) (
     sq (bwrite to) (
     sq (brelse from) (
     brelse to))))))))))"

lemma write_log_eq: "write_log = for_lh LOGSIZE 0 write_log_body"
  by (simp add: write_log_def write_log_body_def [abs_def])

text \<open>One round of \<open>write_log\<close>: the block goes to its slot of the log, and nothing else changes.\<close>

lemma does_write_log_body:
  assumes bc: "bc i {} P N" and D: "disk_works D" and nN: "norm N = N" and CP: "CP (platter N)" and ok: "log_ok (log N)"
    and k: "k < nat (lh_n (lg_lh (log N)))" and pins: "pins P N = set (logged (log N))"
  shows "\<exists>N'. does D (\<lambda>M. CP (platter M)) i [] (write_log_body k) N () [] N' \<and> bc i {} P N' \<and> pins P N' = pins P N
    \<and> (\<forall>n<2 ^ 31. pblk (platter N') n = (if n = log_blockno k (log N) then blk N (logged (log N) ! k) else pblk (platter N) n))
    \<and> (\<forall>n<2 ^ 31. blk N' n = (if n = log_blockno k (log N) then blk N (logged (log N) ! k) else blk N n)) \<and> bio_frame N N'"
proof -
  let ?l = "log N" and ?x = "log_blockno k (log N)" and ?y = "logged (log N) ! k"
  have geom: "log_geom ?l" and size: "int k + 1 < lg_size ?l" and len: "length (logged ?l) < NBUF" and dist: "distinct (logged ?l)"
    and y: "?y < 2 ^ 31" "?y \<notin> log_area ?l" "?y \<in> set (logged ?l)"
    using ok k by (auto simp: log_ok_def loggable_def simp flip: length_logged)
  note x = log_blocks [OF geom size]
  have dev: "word_of_int (lg_dev ?l) = (1 :: u32)" using geom by (simp add: log_geom_def)
  have "card P = length (logged ?l)" using card_pins [OF bc] pins distinct_card [OF dist] by simp
  then have cP: "card P < NBUF" using len by simp
  have "\<forall>b\<in>P. b_blockno (bufs N b) \<in> set (logged ?l)" using pins by (auto simp: pins_def)
  then have xP: "\<forall>b\<in>P. b_blockno (bufs N b) \<noteq> ?x" using x(2) ok by (auto simp: log_ok_def loggable_def)
  have yP: "\<exists>b\<in>P. b_blockno (bufs N b) = ?y" using y(3) unfolding pins [symmetric] pins_def by auto
  have xy: "?x \<noteq> ?y" using x(2) y(2) by auto
  from does_read2 [where CP = CP, OF bc D nN CP x(3) y(1) xy xP cP disjI2 [OF yP]]
  obtain a c N1 N2 where d: "does D (\<lambda>M. CP (platter M)) i [] (bread 1 ?x) N a [] N1" "does D (\<lambda>M. CP (platter M)) i [] (bread 1 ?y) N1 c [] N2"
    and ac: "a \<noteq> c" "a \<notin> P" and bc2: "bc i {a, c} P N2" and N2: "b_blockno (bufs N2 a) = ?x" "b_blockno (bufs N2 c) = ?y"
      "bdata N2 a = blk N ?x" "bdata N2 c = blk N ?y" "blk N2 = blk N" "platter N2 = platter N" "bufs_same P N N2" "bio_frame N N1" "bio_frame N N2"
    by (elim exE conjE) (rule that)
  note l1 = bio_frame_log [OF N2(8)]
  have acmem: "a \<in> {a, c}" "c \<in> {a, c}" by auto
  have pre: "norm N2 = N2" "CP (platter N2)" using bio_frame_norm [OF N2(9) nN] CP N2(6) by simp_all
  from does_copy_write [where CP = CP, OF bc2 acmem ac(1) [symmetric] D pre refl refl]
  obtain N3 where d3: "does D (\<lambda>M. CP (platter M)) i [] (bnd (getb c b_data) (\<lambda>d. sq (upd_buf a (\<lambda>b. b\<lparr>b_data := chars_copy BSIZE d (b_data b)\<rparr>)) (bwrite a))) N2 () [] N3"
    and bc3: "bc i {a, c} P N3" and N3: "\<forall>z. b_blockno (bufs N3 z) = b_blockno (bufs N2 z) \<and> bdata N3 z = (if z = a then bdata N2 c else bdata N2 z)"
      "\<forall>n<2 ^ 31. pblk (platter N3) n = (if n = b_blockno (bufs N2 a) then bdata N2 c else pblk (platter N2) n)"
      "\<forall>n<2 ^ 31. blk N3 n = (if n = b_blockno (bufs N2 a) then bdata N2 c else blk N2 n)" "bio_frame N2 N3"
    by (elim exE conjE) (rule that)
  have cP': "c \<in> P" using yP bc_pinned_unique [OF bc3, of c] N3(1) N2(2,7) bcD(3,9) [OF bc3] by (auto simp: bufs_same_def)
  have aclean: "bdata N3 a = pblk (platter N3) (b_blockno (bufs N3 a))" using N3 N2(1) x(3) by simp
  have bc3': "bc i {c, a} P N3" using bc3 by (simp add: insert_commute)
  obtain N4 where d4: "does D (\<lambda>M. CP (platter M)) i [] (sq (brelse c) (brelse a)) N3 () [] N4" and bc4: "bc i {} P N4"
    and N4: "blk N4 = blk N3" "platter N4 = platter N3" "bufs_same UNIV N3 N4" "bio_frame N3 N4"
    using does_brelse2 [OF bc3' ac(1) [symmetric] disjI1 [OF cP'] disjI2 [OF aclean], of D "\<lambda>M. CP (platter M)"] by (elim exE conjE) (rule that)
  have home: "home_blockno k ?l = ?y" using k by (simp add: logged_nth)
  have "does D (\<lambda>M. CP (platter M)) i [] (write_log_body k) N () [] N4"
    unfolding write_log_body_def
    by (rule does_bnd [OF does_getl], rule does_bnd [OF does_getl], unfold dev, rule does_bnd [OF d(1)],
        rule does_bnd [OF does_getl], rule does_bnd [OF does_getl], unfold l1 dev home, rule does_bnd [OF d(2)])
      (use does_sq [OF d3 d4] in \<open>simp add: bnd_sq_assoc sq_assoc\<close>)
  moreover have "pins P N4 = pins P N"
    using N2(7) N3(1) N4(3) by (auto simp: pins_def bufs_same_def)
  moreover have "bio_frame N N4" using bio_frame_trans [OF bio_frame_trans [OF N2(9) N3(4)] N4(4)] .
  ultimately show ?thesis using bc4 N4(1,2) N3(2,3) N2 by (intro exI [of _ N4]) simp
qed

lemma blk_clean:
  assumes "bc i {} P N" and "x \<notin> pins P N"
  shows "blk N x = pblk (platter N) x"
proof (rule blk_cases [OF assms(1), of x])
  fix b assume b: "holds N b x" "blk N x = bdata N b"
  then have "b \<notin> P" using assms(2) by (auto simp: pins_def holds_def bmatch_def)
  then show ?thesis using bcD(11) [OF assms(1), of b] b by (auto simp: holds_def bmatch_def)
qed

definition install_body :: "bool \<Rightarrow> nat \<Rightarrow> (unit, 'z lstate_scheme) kern" where
  "install_body recovering tail =
     bnd (getl (\<lambda>l. word_of_int (lg_dev l))) (\<lambda>dev.
     bnd (getl (log_blockno tail)) (\<lambda>n.
     bnd (bread dev n) (\<lambda>lbuf.
     bnd (getl (\<lambda>l. word_of_int (lg_dev l))) (\<lambda>dev.
     bnd (getl (home_blockno tail)) (\<lambda>n.
     bnd (bread dev n) (\<lambda>dbuf.
     bnd (getb lbuf b_data) (\<lambda>d.
     sq (upd_buf dbuf (\<lambda>b. b\<lparr>b_data := chars_copy BSIZE d (b_data b)\<rparr>)) (
     sq (bwrite dbuf) (
     sq (whenM (\<not> recovering) (bunpin dbuf)) (
     sq (brelse lbuf) (
     brelse dbuf)))))))))))"

lemma install_trans_eq: "install_trans recovering = for_lh LOGSIZE 0 (install_body recovering)"
  by (simp add: install_trans_def install_body_def [abs_def])

text \<open>
  One round of \<open>install_trans\<close>: the block in the slot of the log goes to its home, which is no longer
  pinned, and nothing else changes.
\<close>

lemma does_install_body:
  assumes bc: "bc i {} P N" and D: "disk_works D" and nN: "norm N = N" and CP: "CP (platter N)" and geom: "log_geom (log N)"
    and size: "int k + 1 < lg_size (log N)" and y: "y = home_blockno k (log N)" "y < 2 ^ 31" "y \<notin> log_area (log N)"
    and pins: "pins P N \<inter> log_area (log N) = {}" and cP: "card P < NBUF" and pin: "if recovering then P = {} else y \<in> pins P N"
  shows "\<exists>P' N'. does D (\<lambda>M. CP (platter M)) i [] (install_body recovering k) N () [] N' \<and> bc i {} P' N'
    \<and> pins P' N' = pins P N - {y}
    \<and> (\<forall>n<2 ^ 31. pblk (platter N') n = (if n = y then blk N (log_blockno k (log N)) else pblk (platter N) n))
    \<and> (\<forall>n<2 ^ 31. blk N' n = (if n = y then blk N (log_blockno k (log N)) else blk N n)) \<and> bio_frame N N'"
proof -
  let ?l = "log N" and ?x = "log_blockno k (log N)"
  note x = log_blocks [OF geom size]
  have dev: "word_of_int (lg_dev ?l) = (1 :: u32)" using geom by (simp add: log_geom_def)
  have "?x \<notin> pins P N" using x(2) pins by auto
  then have xP: "\<forall>b\<in>P. b_blockno (bufs N b) \<noteq> ?x" and xc: "blk N ?x = pblk (platter N) ?x"
    unfolding pins_def by (metis imageI, metis blk_clean [OF bc, unfolded pins_def])
  have yP: "card P + 1 < NBUF \<or> (\<exists>b\<in>P. b_blockno (bufs N b) = y)" using pin by (cases recovering) (auto simp: pins_def)
  have xy: "?x \<noteq> y" using x(2) y(3) by auto
  from does_read2 [where CP = CP, OF bc D nN CP x(3) y(2) xy xP cP yP]
  obtain a c N1 N2 where d: "does D (\<lambda>M. CP (platter M)) i [] (bread 1 ?x) N a [] N1" "does D (\<lambda>M. CP (platter M)) i [] (bread 1 y) N1 c [] N2"
    and ac: "a \<noteq> c" "a \<notin> P" and bc2: "bc i {a, c} P N2" and N2: "b_blockno (bufs N2 a) = ?x" "b_blockno (bufs N2 c) = y"
      "bdata N2 a = blk N ?x" "bdata N2 c = blk N y" "blk N2 = blk N" "platter N2 = platter N" "bufs_same P N N2" "bio_frame N N1" "bio_frame N N2"
    by (elim exE conjE) (rule that)
  note l1 = bio_frame_log [OF N2(8)]
  have acmem: "a \<in> {a, c}" "c \<in> {a, c}" by auto
  have pre: "norm N2 = N2" "CP (platter N2)" using bio_frame_norm [OF N2(9) nN] CP N2(6) by simp_all
  from does_copy_write [where CP = CP, OF bc2 acmem(2,1) ac(1) D pre refl refl]
  obtain N3 where d3: "does D (\<lambda>M. CP (platter M)) i [] (bnd (getb a b_data) (\<lambda>d. sq (upd_buf c (\<lambda>b. b\<lparr>b_data := chars_copy BSIZE d (b_data b)\<rparr>)) (bwrite c))) N2 () [] N3"
    and bc3: "bc i {a, c} P N3" and N3: "\<forall>z. b_blockno (bufs N3 z) = b_blockno (bufs N2 z) \<and> bdata N3 z = (if z = c then bdata N2 a else bdata N2 z)"
      "\<forall>n<2 ^ 31. pblk (platter N3) n = (if n = b_blockno (bufs N2 c) then bdata N2 a else pblk (platter N2) n)"
      "\<forall>n<2 ^ 31. blk N3 n = (if n = b_blockno (bufs N2 c) then bdata N2 a else blk N2 n)" "bio_frame N2 N3"
    by (elim exE conjE) (rule that)
  let ?N3 = "if recovering then N3 else set_ref c (b_refcnt (bufs N3 c) - 1) N3" and ?P = "if recovering then P else P - {c}"
  have cP': "\<not> recovering \<Longrightarrow> c \<in> P"
  proof -
    assume "\<not> recovering"
    then obtain z where "z \<in> P" "b_blockno (bufs N z) = y" using pin by (auto simp: pins_def)
    then show "c \<in> P" using bc_pinned_unique [OF bc3, of c z] N3(1) N2(2,7) bcD(3,9) [OF bc3] by (auto simp: bufs_same_def)
  qed
  have d4: "does D (\<lambda>M. CP (platter M)) i [] (whenM (\<not> recovering) (bunpin c)) N3 () [] ?N3"
    using does_bunpin by (cases recovering) (auto simp: whenM_def does_ret)
  have bc4: "bc i {a, c} ?P ?N3" using bc3 unpin_bc [OF bc3 acmem(2)] cP' by auto
  have N4: "b_blockno (bufs ?N3 z) = b_blockno (bufs N3 z)" "bdata ?N3 z = bdata N3 z" "platter ?N3 = platter N3" "blk ?N3 = blk N3" for z
    by (simp_all add: set_ref_same set_ref_blk)
  have f4: "bio_frame N3 ?N3" by (simp add: set_ref_frame)
  have clean: "bdata ?N3 a = pblk (platter ?N3) (b_blockno (bufs ?N3 a))" "bdata ?N3 c = pblk (platter ?N3) (b_blockno (bufs ?N3 c))"
    using N3 N4 N2 xy xc x(3) y(2) ac(1) by auto
  obtain N5 where d5: "does D (\<lambda>M. CP (platter M)) i [] (sq (brelse a) (brelse c)) ?N3 () [] N5" and bc5: "bc i {} ?P N5"
    and N5: "blk N5 = blk ?N3" "platter N5 = platter ?N3" "bufs_same UNIV ?N3 N5" "bio_frame ?N3 N5"
    using does_brelse2 [OF bc4 ac(1) disjI2 [OF clean(1)] disjI2 [OF clean(2)], of D "\<lambda>M. CP (platter M)"] by (elim exE conjE) (rule that)
  have "does D (\<lambda>M. CP (platter M)) i [] (install_body recovering k) N () [] N5"
    unfolding install_body_def
    by (rule does_bnd [OF does_getl], rule does_bnd [OF does_getl], unfold dev, rule does_bnd [OF d(1)],
        rule does_bnd [OF does_getl], rule does_bnd [OF does_getl], unfold l1 dev y(1) [symmetric], rule does_bnd [OF d(2)])
      (use does_sq [OF d3 does_sq [OF d4 d5]] in \<open>simp add: bnd_sq_assoc sq_assoc\<close>)
  moreover have "pins ?P N5 = pins P N - {y}"
  proof -
    have bn: "b_blockno (bufs N5 z) = b_blockno (bufs N z)" if "z \<in> P" for z
      using that N2(7) N3(1) N4(1) [of z] N5(3) by (auto simp: bufs_same_def)
    have "b_blockno (bufs N z) = y \<longleftrightarrow> z = c" if "z \<in> P" "\<not> recovering" for z
      using bc_pinned_unique [OF bc, of c z] cP' that N2(2,7) bcD(4,9) [OF bc] by (auto simp: bufs_same_def)
    then show ?thesis using bn pin by (auto simp: pins_def)
  qed
  moreover have "bio_frame N N5" using bio_frame_trans [OF bio_frame_trans [OF bio_frame_trans [OF N2(9) N3(4)] f4] N5(4)] .
  ultimately show ?thesis using bc5 N5(1,2) N4(3,4) N3(2,3) N2 by (intro exI [of _ ?P] exI [of _ N5]) simp
qed

subsection \<open>Loops over the log\<close>

lemma does_for_lh_from:
  assumes step: "\<And>k N. I k N \<Longrightarrow> k < n \<Longrightarrow> \<exists>N'. does D C i [] (f k) N () [] N' \<and> I (Suc k) N'"
    and len: "\<And>k N. I k N \<Longrightarrow> lh_n (lg_lh (log N)) = int n" and "n \<le> k + j" and "k \<le> n" and "I k N"
  shows "\<exists>N'. does D C i [] (for_lh j k f) N () [] N' \<and> I n N'"
  using assms(3-5)
proof (induction j arbitrary: k N)
  case 0
  then have "k = n" by simp
  then show ?case using 0 len [OF 0(3)]
    by (intro exI [of _ N]) (auto intro!: does_bnd [OF does_getl] does_guardM)
next
  case (Suc j)
  show ?case
  proof (cases "k < n")
    case True
    then obtain N1 where N1: "does D C i [] (f k) N () [] N1" "I (Suc k) N1" using step Suc.prems by blast
    then obtain N2 where N2: "does D C i [] (for_lh j (Suc k) f) N1 () [] N2" "I n N2"
      using Suc.IH [of "Suc k" N1] Suc.prems True by auto
    have "does D C i [] (for_lh (Suc j) k f) N () [] N2"
      unfolding for_lh.simps
      by (rule does_bnd [OF does_getl]) (use does_sq [OF N1(1) N2(1)] len [OF Suc.prems(3)] True in simp)
    then show ?thesis using N2(2) by blast
  next
    case False
    then have "k = n" using Suc.prems by simp
    then show ?thesis using Suc.prems len [OF Suc.prems(3)]
      by (intro exI [of _ N]) (auto intro!: does_bnd [OF does_getl] simp: does_ret)
  qed
qed

lemma does_for_lh:
  assumes "\<And>k N. I k N \<Longrightarrow> k < n \<Longrightarrow> \<exists>N'. does D C i [] (f k) N () [] N' \<and> I (Suc k) N'"
    and "\<And>k N. I k N \<Longrightarrow> lh_n (lg_lh (log N)) = int n" and "n \<le> LOGSIZE" and "I 0 N"
  shows "\<exists>N'. does D C i [] (for_lh LOGSIZE 0 f) N () [] N' \<and> I n N'"
  by (rule does_for_lh_from [where I = I]) (use assms in auto)

text \<open>\<open>write_log\<close> copies every block of the transaction to its slot of the log.\<close>

lemma does_write_log:
  assumes bc: "bc i {} P N" and D: "disk_works D" and nN: "norm N = N" and ok: "log_ok (log N)"
    and pins: "pins P N = set (logged (log N))" and n: "n = nat (lh_n (lg_lh (log N)))"
    and CP: "\<And>p. (\<forall>m<2 ^ 31. m \<notin> (\<lambda>j. log_blockno j (log N)) ` {..<n} \<longrightarrow> pblk p m = pblk (platter N) m) \<Longrightarrow> CP p"
  shows "\<exists>N'. does D (\<lambda>M. CP (platter M)) i [] write_log N () [] N' \<and> bc i {} P N' \<and> pins P N' = pins P N
    \<and> (\<forall>m<2 ^ 31. m \<notin> (\<lambda>j. log_blockno j (log N)) ` {..<n} \<longrightarrow> pblk (platter N') m = pblk (platter N) m \<and> blk N' m = blk N m)
    \<and> (\<forall>j<n. pblk (platter N') (log_blockno j (log N)) = blk N (logged (log N) ! j)) \<and> bio_frame N N'"
proof -
  let ?l = "log N" and ?A = "\<lambda>k. (\<lambda>j. log_blockno j (log N)) ` {..<k}"
  define I where "I k M \<longleftrightarrow> bc i {} P M \<and> pins P M = pins P N \<and> bio_frame N M
    \<and> (\<forall>m<2 ^ 31. m \<notin> ?A k \<longrightarrow> pblk (platter M) m = pblk (platter N) m \<and> blk M m = blk N m)
    \<and> (\<forall>j<k. pblk (platter M) (log_blockno j ?l) = blk N (logged ?l ! j)) \<and> k \<le> n" for k M
  have geom: "log_geom ?l" and size: "\<And>k. k < n \<Longrightarrow> int k + 1 < lg_size ?l" and n30: "n \<le> LOGSIZE"
    using ok n by (auto simp: log_ok_def loggable_def)
  have home: "logged ?l ! k < 2 ^ 31" "logged ?l ! k \<notin> ?A n" if "k < n" for k
  proof -
    have "logged ?l ! k \<in> set (logged ?l)" using that n by simp
    then have "logged ?l ! k < 2 ^ 31" "logged ?l ! k \<notin> log_area ?l" using ok by (auto simp: log_ok_def loggable_def)
    then show "logged ?l ! k < 2 ^ 31" "logged ?l ! k \<notin> ?A n" using log_blocks(2) [OF geom size] by auto
  qed
  have "\<exists>N'. does D (\<lambda>M. CP (platter M)) i [] (for_lh LOGSIZE 0 write_log_body) N () [] N' \<and> I n N'"
  proof (rule does_for_lh)
    fix k M assume I: "I k M" and k: "k < n"
    then have M: "bc i {} P M" "pins P M = pins P N" "bio_frame N M"
      "\<And>m. m < 2 ^ 31 \<Longrightarrow> m \<notin> ?A k \<Longrightarrow> pblk (platter M) m = pblk (platter N) m \<and> blk M m = blk N m"
      "\<And>j. j < k \<Longrightarrow> pblk (platter M) (log_blockno j ?l) = blk N (logged ?l ! j)" by (auto simp: I_def)
    have lM: "log M = ?l" by (rule bio_frame_log [OF M(3)])
    have "?A k \<subseteq> ?A n" using k by auto
    then have CPM: "CP (platter M)" using M(4) by (intro CP) blast
    have kk: "k < nat (lh_n (lg_lh (log M)))" "pins P M = set (logged (log M))" "log_ok (log M)" using k n pins M(2) ok lM by simp_all
    obtain N' where N': "does D (\<lambda>M. CP (platter M)) i [] (write_log_body k) M () [] N'" "bc i {} P N'" "pins P N' = pins P M"
      "\<forall>m<2 ^ 31. pblk (platter N') m = (if m = log_blockno k (log M) then blk M (logged (log M) ! k) else pblk (platter M) m)"
      "\<forall>m<2 ^ 31. blk N' m = (if m = log_blockno k (log M) then blk M (logged (log M) ! k) else blk M m)" "bio_frame M N'"
      using does_write_log_body [where CP = CP, OF M(1) D bio_frame_norm [OF M(3) nN] CPM kk(3,1,2)] by (elim exE conjE) (rule that)
    have hk: "blk M (logged ?l ! k) = blk N (logged ?l ! k)" using M(4) home [OF k] \<open>?A k \<subseteq> ?A n\<close> by blast
    have "I (Suc k) N'" unfolding I_def
    proof (intro conjI allI impI)
      fix m assume "m < 2 ^ 31" "m \<notin> ?A (Suc k)"
      then show "pblk (platter N') m = pblk (platter N) m" "blk N' m = blk N m"
        using N'(4,5) M(4) [of m] lM by (auto simp: lessThan_Suc)
    next
      fix j assume j: "j < Suc k"
      then have js: "int j + 1 < lg_size ?l" using size [OF k] by simp
      show "pblk (platter N') (log_blockno j ?l) = blk N (logged ?l ! j)"
        using N'(4) log_blocks(3) [OF geom js] log_blocks_inj [OF geom js size [OF k]] lM hk M(5) [of j] j by (auto simp: less_Suc_eq)
    qed (use N' M k bio_frame_trans in auto)
    then show "\<exists>N'. does D (\<lambda>M. CP (platter M)) i [] (write_log_body k) M () [] N' \<and> I (Suc k) N'" using N'(1) by blast
  next
    fix k M assume "I k M"
    then show "lh_n (lg_lh (log M)) = int n" using bio_frame_log [of N M] ok n by (simp add: I_def log_ok_def)
  qed (use n30 bc in \<open>auto simp: I_def\<close>)
  then show ?thesis unfolding write_log_eq I_def by (elim exE conjE) (intro exI conjI, assumption+)
qed

text \<open>\<open>install_trans\<close> copies every slot of the log to the home of the block.\<close>

lemma does_install_trans:
  assumes bc: "bc i {} P N" and D: "disk_works D" and nN: "norm N = N" and ok: "log_ok (log N)" and ns: "ns = logged (log N)"
    and pins: "pins P N = (if recovering then {} else set ns)"
    and CP: "\<And>p. (\<forall>m<2 ^ 31. m \<notin> set ns \<longrightarrow> pblk p m = pblk (platter N) m) \<Longrightarrow> CP p"
  shows "\<exists>N'. does D (\<lambda>M. CP (platter M)) i [] (install_trans recovering) N () [] N' \<and> bc i {} {} N'
    \<and> (\<forall>m<2 ^ 31. m \<notin> set ns \<longrightarrow> pblk (platter N') m = pblk (platter N) m \<and> blk N' m = blk N m)
    \<and> (\<forall>j<length ns. pblk (platter N') (ns ! j) = blk N (log_blockno j (log N)) \<and> blk N' (ns ! j) = blk N (log_blockno j (log N)))
    \<and> bio_frame N N'"
proof -
  let ?l = "log N" and ?V = "\<lambda>j. blk N (log_blockno j (log N))"
  define I where "I k M \<longleftrightarrow> (\<exists>P. bc i {} P M \<and> pins P M = (if recovering then {} else set (drop k ns))) \<and> bio_frame N M
    \<and> (\<forall>m<2 ^ 31. m \<notin> set (take k ns) \<longrightarrow> pblk (platter M) m = pblk (platter N) m \<and> blk M m = blk N m)
    \<and> (\<forall>j<k. pblk (platter M) (ns ! j) = ?V j \<and> blk M (ns ! j) = ?V j) \<and> k \<le> length ns" for k M
  have geom: "log_geom ?l" and size: "\<And>k. k < length ns \<Longrightarrow> int k + 1 < lg_size ?l" and n30: "length ns \<le> LOGSIZE" "length ns < NBUF"
    and dist: "distinct ns" and home: "\<And>k. k < length ns \<Longrightarrow> ns ! k < 2 ^ 31 \<and> ns ! k \<notin> log_area ?l"
    using ok ns by (auto simp: log_ok_def loggable_def simp flip: length_logged)
  have area: "set ns \<inter> log_area ?l = {}" using home by (auto simp: in_set_conv_nth)
  have "\<exists>N'. does D (\<lambda>M. CP (platter M)) i [] (for_lh LOGSIZE 0 (install_body recovering)) N () [] N' \<and> I (length ns) N'"
  proof (rule does_for_lh)
    fix k M assume I: "I k M" and k: "k < length ns"
    then obtain Q where M: "bc i {} Q M" "pins Q M = (if recovering then {} else set (drop k ns))" "bio_frame N M"
      "\<And>m. m < 2 ^ 31 \<Longrightarrow> m \<notin> set (take k ns) \<Longrightarrow> pblk (platter M) m = pblk (platter N) m \<and> blk M m = blk N m"
      "\<And>j. j < k \<Longrightarrow> pblk (platter M) (ns ! j) = ?V j \<and> blk M (ns ! j) = ?V j" by (auto simp: I_def)
    have lM: "log M = ?l" by (rule bio_frame_log [OF M(3)])
    have drop: "drop k ns = ns ! k # drop (Suc k) ns" using k by (simp add: Cons_nth_drop_Suc)
    have CPM: "CP (platter M)" using M(4) by (intro CP) (meson in_set_takeD)
    have "card Q = card (pins Q M)" using card_pins [OF M(1)] by simp
    also have "\<dots> < NBUF" using M(2) n30(2) card_length [of "drop k ns"] by (auto simp: le_less_trans)
    finally have cQ: "card Q < NBUF" .
    have Q0: "Q = {}" if recovering using that M(2) by (simp add: pins_def)
    have pin: "if recovering then Q = {} else ns ! k \<in> pins Q M" using M(2) Q0 by (simp add: drop)
    have pre: "log_geom (log M)" "int k + 1 < lg_size (log M)" "ns ! k = home_blockno k (log M)" "ns ! k < 2 ^ 31" "ns ! k \<notin> log_area (log M)"
      "pins Q M \<inter> log_area (log M) = {}"
      using geom size [OF k] home [OF k] lM ns k M(2) area set_drop_subset [of k ns] by (auto simp: logged_nth)
    obtain P' N' where N': "does D (\<lambda>M. CP (platter M)) i [] (install_body recovering k) M () [] N'" "bc i {} P' N'" "pins P' N' = pins Q M - {ns ! k}"
      "\<forall>m<2 ^ 31. pblk (platter N') m = (if m = ns ! k then blk M (log_blockno k (log M)) else pblk (platter M) m)"
      "\<forall>m<2 ^ 31. blk N' m = (if m = ns ! k then blk M (log_blockno k (log M)) else blk M m)" "bio_frame M N'"
      using does_install_body [where CP = CP, OF M(1) D bio_frame_norm [OF M(3) nN] CPM pre cQ pin] by (elim exE conjE) (rule that)
    have take: "set (take (Suc k) ns) = insert (ns ! k) (set (take k ns))" using k by (simp add: take_Suc_conv_app_nth)
    have "log_blockno k ?l \<notin> set (take k ns)" using log_blocks(2) [OF geom size [OF k]] area set_take_subset [of k ns] by auto
    then have Vk: "blk M (log_blockno k (log M)) = ?V k" using M(4) log_blocks(3) [OF geom size [OF k]] lM by simp
    have "I (Suc k) N'" unfolding I_def
    proof (intro conjI allI impI)
      have "ns ! k \<notin> set (drop (Suc k) ns)" using dist k by (metis distinct.simps(2) distinct_drop drop)
      then have "pins P' N' = (if recovering then {} else set (drop (Suc k) ns))" using N'(3) M(2) drop by auto
      then show "\<exists>P. bc i {} P N' \<and> pins P N' = (if recovering then {} else set (drop (Suc k) ns))" using N'(2) by blast
    next
      fix m assume "m < 2 ^ 31" "m \<notin> set (take (Suc k) ns)"
      then show "pblk (platter N') m = pblk (platter N) m" "blk N' m = blk N m" using N'(4,5) M(4) [of m] by (auto simp: take)
    next
      fix j assume j: "j < Suc k"
      then have "ns ! j = ns ! k \<longleftrightarrow> j = k" using dist k by (simp add: nth_eq_iff_index_eq)
      then show "pblk (platter N') (ns ! j) = ?V j" "blk N' (ns ! j) = ?V j"
        using N'(4,5) Vk home [of j] M(5) [of j] j k by (auto simp: less_Suc_eq)
    qed (use N' M k bio_frame_trans in auto)
    then show "\<exists>N'. does D (\<lambda>M. CP (platter M)) i [] (install_body recovering k) M () [] N' \<and> I (Suc k) N'" using N'(1) by blast
  next
    fix k M assume "I k M"
    then show "lh_n (lg_lh (log M)) = int (length ns)" using bio_frame_log [of N M] ok ns by (simp add: I_def log_ok_def)
  qed (use n30 bc pins in \<open>auto simp: I_def\<close>)
  then obtain N' where N': "does D (\<lambda>M. CP (platter M)) i [] (install_trans recovering) N () [] N'" "I (length ns) N'"
    unfolding install_trans_eq by blast
  moreover have "bc i {} {} N'"
  proof -
    obtain Q where "bc i {} Q N'" "pins Q N' = {}" using N'(2) by (auto simp: I_def split: if_splits)
    then show ?thesis by (simp add: pins_def)
  qed
  ultimately show ?thesis unfolding I_def by (intro exI [of _ N']) simp
qed

end
