(* ===== verification/Recovery.thy ===== *)
theory Recovery
  imports Log
begin

text \<open>
  Crash safety of the log of \<open>kernel/log.c\<close>. The disk after a crash is described by \<open>recovered\<close>: the blocks
  that the on-disk header lists come from their slots of the log, all others from their homes. The lemmas
  show that \<open>commit\<close> changes this view in one step and that recovery makes it the content of the disk.
\<close>

subsection \<open>The header block\<close>

definition bget32 :: "bytes \<Rightarrow> nat \<Rightarrow> u32" where
  "bget32 bs off = le_word (take 4 (drop off bs))"

definition hd_n :: "bytes \<Rightarrow> int" where
  "hd_n bs = sint (bget32 bs 0)"

definition hd_list :: "bytes \<Rightarrow> u32 list" where
  "hd_list bs = map (\<lambda>k. bget32 bs (4 + 4 * k)) [0..<nat (hd_n bs)]"

lemma bget32: "off + 4 \<le> BSIZE \<Longrightarrow> bget32 (map d [0..<BSIZE]) off = get32 d off"
  by (simp add: bget32_def get32_def chars_get_def drop_map take_map del: upt_rec_numeral)

lemma get32_put32: "get32 (put32 off v d) off = v"
proof -
  have "chars_get (put32 off v d) off 4 = le_bytes 4 v"
    by (rule nth_equalityI) (auto simp: chars_get_def put32_def chars_put_def)
  then show ?thesis by (simp add: get32_def)
qed

lemma get32_put32_other: "off + 4 \<le> off' \<or> off' + 4 \<le> off \<Longrightarrow> get32 (put32 off' v d) off = get32 d off"
proof -
  assume "off + 4 \<le> off' \<or> off' + 4 \<le> off"
  then have "chars_get (put32 off' v d) off 4 = chars_get d off 4"
    by (auto simp: chars_get_def put32_def chars_put_def)
  then show ?thesis by (simp add: get32_def)
qed

text \<open>The header as \<open>write_head\<close> puts it into a buffer, after \<open>k\<close> rounds of its loop.\<close>

primrec hd_chars :: "logst \<Rightarrow> nat \<Rightarrow> chars \<Rightarrow> chars" where
  "hd_chars l 0 d = put32 0 (word_of_int (lh_n (lg_lh l))) d"
| "hd_chars l (Suc k) d = put32 (4 + 4 * k) (word_of_int (lh_block (lg_lh l) k)) (hd_chars l k d)"

lemma hd_chars_n: "get32 (hd_chars l k d) 0 = word_of_int (lh_n (lg_lh l))"
  by (induction k) (simp_all add: get32_put32 get32_put32_other)

lemma hd_chars_block: "j < k \<Longrightarrow> get32 (hd_chars l k d) (4 + 4 * j) = home_blockno j l"
  by (induction k) (auto simp: get32_put32 get32_put32_other less_Suc_eq home_blockno_def)

lemma sint_small: "0 \<le> n \<Longrightarrow> n < 2 ^ 31 \<Longrightarrow> sint (word_of_int n :: u32) = n"
  by (simp add: signed_of_int signed_take_bit_int_eq_self)

lemma hd_chars_list:
  assumes "0 \<le> lh_n (lg_lh l)" and "nat (lh_n (lg_lh l)) = k" and "k \<le> LOGSIZE"
  shows "hd_n (map (hd_chars l k d) [0..<BSIZE]) = int k" "hd_list (map (hd_chars l k d) [0..<BSIZE]) = logged l"
proof -
  have "sint (word_of_int (lh_n (lg_lh l)) :: u32) = lh_n (lg_lh l)" using assms by (intro sint_small) auto
  then show n: "hd_n (map (hd_chars l k d) [0..<BSIZE]) = int k"
    using assms by (simp add: hd_n_def bget32 hd_chars_n del: upt_rec_numeral)
  show "hd_list (map (hd_chars l k d) [0..<BSIZE]) = logged l"
    using assms unfolding hd_list_def n logged_def
    by (intro map_cong) (simp_all add: bget32 hd_chars_block del: upt_rec_numeral)
qed

subsection \<open>Writing and reading the header\<close>

lemma put_data_again [simp]: "put_data b g (put_data b g' N) = put_data b g N" "b_data (bufs (put_data b g N) b) = g"
  "log (put_data b g N) = log N" "b_blockno (bufs (put_data b g N) c) = b_blockno (bufs N c)" "platter (put_data b g N) = platter N"
  by (simp_all add: put_data_def)

lemma does_fill_head:
  assumes "lh_n (lg_lh (log N)) = int n" and "n \<le> LOGSIZE"
  shows "does D C i [] (for_lh LOGSIZE 0 (\<lambda>i.
      bnd (getl (\<lambda>l. lh_block (lg_lh l) i)) (\<lambda>v.
      upd_buf bp (\<lambda>b. b\<lparr>b_data := put32 (4 + 4 * i) (word_of_int v) (b_data b)\<rparr>)))) (put_data bp (hd_chars (log N) 0 d) N)
      () [] (put_data bp (hd_chars (log N) n d) N)"
proof -
  have "\<exists>N'. does D C i [] (for_lh LOGSIZE 0 (\<lambda>i.
      bnd (getl (\<lambda>l. lh_block (lg_lh l) i)) (\<lambda>v.
      upd_buf bp (\<lambda>b. b\<lparr>b_data := put32 (4 + 4 * i) (word_of_int v) (b_data b)\<rparr>)))) (put_data bp (hd_chars (log N) 0 d) N)
      () [] N' \<and> N' = put_data bp (hd_chars (log N) n d) N"
    by (rule does_for_lh [where I = "\<lambda>k M. M = put_data bp (hd_chars (log N) k d) N"])
      (use assms in \<open>auto intro!: does_bnd [OF does_getl] does_eq [OF does_put_data]\<close>)
  then show ?thesis by blast
qed

lemma does_read_first:
  assumes "bc i {} P N" and "log_geom (log N)" and "disk_works D" and "norm N = N" and "CP (platter N)" and "card P < NBUF"
  shows "\<exists>b N'. does D (\<lambda>M. CP (platter M)) i [] (bread 1 (head_blockno (log N))) N b [] N' \<and> bc i {b} P N'
    \<and> b_blockno (bufs N' b) = head_blockno (log N) \<and> bdata N' b = blk N (head_blockno (log N)) \<and> blk N' = blk N \<and> platter N' = platter N
    \<and> bufs_same P N N' \<and> bio_frame N N'"
proof -
  have "{} \<union> P \<noteq> {..<NBUF} \<or> (\<exists>b\<in>P. b_blockno (bufs N b) = head_blockno (log N))" using card_not_all [OF assms(6)] by simp
  from does_bread_blk [where CP = CP, OF assms(1) _ this assms(3-5) head_block(2) [OF assms(2)]] show ?thesis by auto
qed

text \<open>\<open>write_head\<close> makes the on-disk header list the blocks of the transaction, in one write.\<close>

lemma does_write_head:
  assumes bc: "bc i {} P N" and geom: "log_geom (log N)" and D: "disk_works D" and nN: "norm N = N" and CP: "CP (platter N)"
    and cP: "card P < NBUF" and n: "lh_n (lg_lh (log N)) = int n" "n \<le> LOGSIZE" and h: "h = head_blockno (log N)" "h \<notin> pins P N"
  shows "\<exists>N'. does D (\<lambda>M. CP (platter M)) i [] write_head N () [] N' \<and> bc i {} P N' \<and> pins P N' = pins P N
    \<and> hd_n (pblk (platter N') h) = int n \<and> hd_list (pblk (platter N') h) = logged (log N)
    \<and> (\<forall>m<2 ^ 31. m \<noteq> h \<longrightarrow> pblk (platter N') m = pblk (platter N) m \<and> blk N' m = blk N m) \<and> bio_frame N N'"
proof -
  have dev: "word_of_int (lg_dev (log N)) = (1 :: u32)" using geom by (simp add: log_geom_def)
  obtain b N1 where 1: "does D (\<lambda>M. CP (platter M)) i [] (bread 1 h) N b [] N1" "bc i {b} P N1"
    "b_blockno (bufs N1 b) = h" "bdata N1 b = blk N h" "blk N1 = blk N" "platter N1 = platter N" "bufs_same P N N1" "bio_frame N N1"
    using does_read_first [where CP = CP, OF bc geom D nN CP cP, folded h(1)] by (elim exE conjE) (rule that)
  note l1 = bio_frame_log [OF 1(8)]
  let ?g = "hd_chars (log N1) n (b_data (bufs N1 b))"
  let ?N2 = "put_data b ?g N1"
  have b: "b \<in> {b}" by simp
  note bc2 = put_data_bc [OF 1(2) b, of ?g]
  have pre: "norm ?N2 = ?N2" "CP (platter ?N2)" using bio_frame_norm [OF put_data_frame bio_frame_norm [OF 1(8) nN]] CP 1(6) by simp_all
  obtain N3 where 3: "does D (\<lambda>M. CP (platter M)) i [] (bwrite b) ?N2 () [] N3" "bc i {b} P N3" "bufs N3 = bufs ?N2"
    "\<forall>n<2 ^ 31. pblk (platter N3) n = (if n = b_blockno (bufs ?N2 b) then bdata ?N2 b else pblk (platter ?N2) n)"
    "\<forall>n<2 ^ 31. blk N3 n = blk ?N2 n" "bio_frame ?N2 N3"
    using does_bwrite [where CP = CP, OF bc2(1) b D pre] by (elim exE conjE) (rule that)
  have hN3: "pblk (platter N3) h = map ?g [0..<BSIZE]" using 3(4) head_block(2) [OF geom] 1(3) h(1) by (simp add: bdata_def)
  have clean: "bdata N3 b = pblk (platter N3) (b_blockno (bufs N3 b))" using hN3 1(3) 3(3) by (simp add: bdata_def)
  have mine: "sl_mine i (BufSleep b) N3" using bcD(7) [OF 3(2)] by simp
  note R = brelse_bc [OF 3(2) b disjI2 [OF clean]]
  have "does D (\<lambda>M. CP (platter M)) i [] write_head N () [] (released b N3)" unfolding write_head_def
    by (rule does_bnd [OF does_getl], rule does_bnd [OF does_getl], unfold dev h(1) [symmetric], rule does_bnd [OF 1(1)], rule does_bnd [OF does_getl],
        rule does_sq [OF does_put_data], unfold hd_chars.simps(1) [symmetric], rule does_sq [OF does_fill_head], rule n(1) [folded l1], rule n(2),
        rule does_sq [OF 3(1) does_brelse [OF mine]])
  moreover have "bio_frame N (released b N3)"
    by (rule bio_frame_trans [OF 1(8)], rule bio_frame_trans [OF put_data_frame], rule bio_frame_trans [OF 3(6) R(5)])
  moreover have "pins P (released b N3) = pins P N"
    using R(4) [of UNIV] 1(7) 3(3) by (auto simp: pins_def bufs_same_def)
  moreover have "hd_n (map ?g [0..<BSIZE]) = int n" "hd_list (map ?g [0..<BSIZE]) = logged (log N)"
    using hd_chars_list [of "log N1" n] n l1 by simp_all
  ultimately show ?thesis using R(1,2,3) hN3 3(4,5) 1(3,5,6) bc2(2) by (intro exI [of _ "released b N3"]) (simp del: upt_rec_numeral)
qed

text \<open>The log after \<open>k\<close> rounds of the loop of \<open>read_head\<close>.\<close>

primrec rd_log :: "logst \<Rightarrow> chars \<Rightarrow> nat \<Rightarrow> logst" where
  "rd_log l d 0 = l\<lparr>lg_lh := (lg_lh l)\<lparr>lh_n := sint (get32 d 0)\<rparr>\<rparr>"
| "rd_log l d (Suc k) = (let l = rd_log l d k in
     l\<lparr>lg_lh := (lg_lh l)\<lparr>lh_block := (lh_block (lg_lh l))(k := sint (get32 d (4 + 4 * k)))\<rparr>\<rparr>)"

lemma rd_log_same [simp]: "lg_start (rd_log l d k) = lg_start l" "lg_size (rd_log l d k) = lg_size l" "lg_dev (rd_log l d k) = lg_dev l"
  "lg_outstanding (rd_log l d k) = lg_outstanding l" "lg_committing (rd_log l d k) = lg_committing l"
  "lh_n (lg_lh (rd_log l d k)) = sint (get32 d 0)"
  by (induction k) (simp_all add: Let_def)

lemma rd_log_block: "j < k \<Longrightarrow> home_blockno j (rd_log l d k) = get32 d (4 + 4 * j)"
  by (induction k) (auto simp: Let_def home_blockno_def less_Suc_eq)

lemma rd_log_logged:
  assumes "bs = map d [0..<BSIZE]" and "nat (hd_n bs) = n" and "n \<le> LOGSIZE"
  shows "logged (rd_log l d n) = hd_list bs"
proof -
  have "nat (sint (get32 d 0)) = n" using assms by (simp add: hd_n_def bget32 del: upt_rec_numeral)
  then show ?thesis using assms unfolding logged_def hd_list_def
    by (intro map_cong) (simp_all add: rd_log_block bget32 del: upt_rec_numeral)
qed

lemma does_load_head:
  assumes "sint (get32 (b_data (bufs N bp)) 0) = int n" and "n \<le> LOGSIZE"
  shows "does D C i [] (for_lh LOGSIZE 0 (\<lambda>i. bnd (getb bp b_data) (\<lambda>d. set_lh_block i (sint (get32 d (4 + 4 * i))))))
    (N\<lparr>log := rd_log l (b_data (bufs N bp)) 0\<rparr>) () [] (N\<lparr>log := rd_log l (b_data (bufs N bp)) n\<rparr>)"
proof -
  let ?d = "b_data (bufs N bp)"
  have "\<exists>N'. does D C i [] (for_lh LOGSIZE 0 (\<lambda>i. bnd (getb bp b_data) (\<lambda>d. set_lh_block i (sint (get32 d (4 + 4 * i))))))
    (N\<lparr>log := rd_log l ?d 0\<rparr>) () [] N' \<and> N' = N\<lparr>log := rd_log l ?d n\<rparr>"
    by (rule does_for_lh [where I = "\<lambda>k M. M = N\<lparr>log := rd_log l ?d k\<rparr>"])
      (use assms in \<open>auto simp: set_lh_block_def Let_def simp del: rd_log.simps(1) intro!: does_bnd [OF does_getb] does_eq [OF does_upd_log]\<close>)
  then show ?thesis by blast
qed

lemma bio_frame_set_log: "bio_frame N M \<Longrightarrow> bio_frame (N\<lparr>log := l\<rparr>) (M\<lparr>log := l\<rparr>)"
  by (rule bio_frameI [where sl = "sleeplocks M" and f = "bufs M" and d = "disk M" and w = "vdev_writes M" and p = "platter M"])
    (auto simp: bio_frame_def)

text \<open>\<open>read_head\<close> takes the transaction from the on-disk header.\<close>

lemma does_read_head:
  assumes bc: "bc i {} {} N" and geom: "log_geom (log N)" and D: "disk_works D" and nN: "norm N = N" and CP: "CP (platter N)"
    and bs: "bs = pblk (platter N) (head_blockno (log N))" "hd_n bs = int n" "n \<le> LOGSIZE"
  shows "\<exists>N' l. does D (\<lambda>M. CP (platter M)) i [] read_head N () [] N' \<and> bc i {} {} N' \<and> log N' = l \<and> logged l = hd_list bs
    \<and> lh_n (lg_lh l) = int n \<and> l = (log N)\<lparr>lg_lh := lg_lh l\<rparr>
    \<and> (\<forall>m. blk N' m = blk N m) \<and> platter N' = platter N \<and> bio_frame (N\<lparr>log := l\<rparr>) N'"
proof -
  have dev: "word_of_int (lg_dev (log N)) = (1 :: u32)" using geom by (simp add: log_geom_def)
  have 0: "card ({} :: nat set) < NBUF" by simp
  obtain b N1 where 1: "does D (\<lambda>M. CP (platter M)) i [] (bread 1 (head_blockno (log N))) N b [] N1" "bc i {b} {} N1"
    "b_blockno (bufs N1 b) = head_blockno (log N)" "bdata N1 b = blk N (head_blockno (log N))" "blk N1 = blk N" "platter N1 = platter N"
    "bufs_same {} N N1" "bio_frame N N1"
    using does_read_first [where CP = CP, OF bc geom D nN CP 0] by (elim exE conjE) (rule that)
  have blk: "blk N (head_blockno (log N)) = bs" using blk_clean [OF bc, of "head_blockno (log N)"] bs(1) by (simp add: pins_def)
  let ?d = "b_data (bufs N1 b)"
  let ?l = "rd_log (log N) ?d n"
  let ?N2 = "N1\<lparr>log := ?l\<rparr>"
  have d: "bs = map ?d [0..<BSIZE]" using 1(4) blk by (simp add: bdata_def)
  have n: "sint (get32 ?d 0) = int n" using bs(2) d by (simp add: hd_n_def bget32 del: upt_rec_numeral)
  have bc2: "bc i {b} {} ?N2" using 1(2) by simp
  have clean: "bdata ?N2 b = pblk (platter ?N2) (b_blockno (bufs ?N2 b))" using 1(3,4,6) blk bs(1) by simp
  have mine: "sl_mine i (BufSleep b) ?N2" using bcD(7) [OF bc2] by simp
  have b: "b \<in> {b}" by simp
  note R = brelse_bc [OF bc2 b disjI2 [OF clean]]
  have set_n: "does D (\<lambda>M. CP (platter M)) i [] (set_lh_n (sint (get32 ?d 0))) N1 () [] (N1\<lparr>log := rd_log (log N) ?d 0\<rparr>)"
    unfolding set_lh_n_def by (rule does_eq [OF does_upd_log]) (simp add: bio_frame_log [OF 1(8)])
  have "does D (\<lambda>M. CP (platter M)) i [] read_head N () [] (released b ?N2)" unfolding read_head_def
    by (rule does_bnd [OF does_getl], rule does_bnd [OF does_getl], unfold dev, rule does_bnd [OF 1(1)], rule does_bnd [OF does_getb],
        rule does_sq [OF set_n], rule does_sq [OF does_load_head [OF n bs(3)] does_brelse [OF mine]])
  moreover have frame: "bio_frame (N\<lparr>log := ?l\<rparr>) (released b ?N2)"
  proof (rule bio_frame_trans [OF _ R(5)])
    show "bio_frame (N\<lparr>log := ?l\<rparr>) ?N2" by (rule bio_frame_set_log [OF 1(8)])
  qed
  moreover have "logged ?l = hd_list bs" using rd_log_logged [OF d] bs by simp
  moreover have "?l = (log N)\<lparr>lg_lh := lg_lh ?l\<rparr>" by (rule logst.equality) simp_all
  ultimately show ?thesis using R 1(5,6) n bio_frame_log [OF frame]
    by (intro exI [of _ "released b ?N2"] exI [of _ ?l]) (simp del: upt_rec_numeral)
qed

subsection \<open>The disk after a crash\<close>

definition replay :: "logst \<Rightarrow> u32 list \<Rightarrow> (nat \<Rightarrow> u8) \<Rightarrow> u32 \<Rightarrow> bytes" where
  "replay l ns p m = (case find (\<lambda>k. ns ! k = m) [0..<length ns] of Some k \<Rightarrow> pblk p (log_blockno k l) | None \<Rightarrow> pblk p m)"

definition disk_head :: "logst \<Rightarrow> (nat \<Rightarrow> u8) \<Rightarrow> bytes" where
  "disk_head l p = pblk p (head_blockno l)"

definition recovered :: "logst \<Rightarrow> (nat \<Rightarrow> u8) \<Rightarrow> u32 \<Rightarrow> bytes" where
  "recovered l p = replay l (hd_list (disk_head l p)) p"

definition data_block :: "logst \<Rightarrow> u32 \<Rightarrow> bool" where
  "data_block l m \<longleftrightarrow> m < 2 ^ 31 \<and> m \<notin> log_area l"

text \<open>The header on the disk is sensible and the disk stands for the content \<open>v\<close> of the data blocks.\<close>

definition stands_for :: "logst \<Rightarrow> (nat \<Rightarrow> u8) \<Rightarrow> (u32 \<Rightarrow> bytes) \<Rightarrow> bool" where
  "stands_for l p v \<longleftrightarrow> 0 \<le> hd_n (disk_head l p) \<and> loggable l (hd_list (disk_head l p))
     \<and> (\<forall>m. data_block l m \<longrightarrow> recovered l p m = v m)"

lemma replay_in: "distinct ns \<Longrightarrow> k < length ns \<Longrightarrow> replay l ns p (ns ! k) = pblk p (log_blockno k l)"
proof -
  assume d: "distinct ns" "k < length ns"
  then have "find (\<lambda>j. ns ! j = ns ! k) [0..<length ns] = Some k"
    by (auto simp: find_Some_iff nth_eq_iff_index_eq)
  then show ?thesis by (simp add: replay_def)
qed

lemma replay_out: "m \<notin> set ns \<Longrightarrow> replay l ns p m = pblk p m"
proof -
  assume "m \<notin> set ns"
  then have "find (\<lambda>j. ns ! j = m) [0..<length ns] = None" by (auto simp: find_None_iff)
  then show ?thesis by (simp add: replay_def)
qed

lemma stands_for_empty:
  assumes "hd_n (disk_head l p) = 0" and "log_geom l" and "\<forall>m. data_block l m \<longrightarrow> pblk p m = v m"
  shows "stands_for l p v"
  using assms by (simp add: stands_for_def recovered_def hd_list_def replay_out loggable_def log_geom_def)

lemma stands_for_log:
  assumes "0 \<le> hd_n (disk_head l p)" and "hd_list (disk_head l p) = ns" and "loggable l ns"
    and "\<forall>j<length ns. pblk p (log_blockno j l) = v (ns ! j)" and "\<forall>m. data_block l m \<longrightarrow> m \<notin> set ns \<longrightarrow> pblk p m = v m"
  shows "stands_for l p v"
  unfolding stands_for_def recovered_def
proof (intro conjI allI impI)
  fix m assume m: "data_block l m"
  show "replay l (hd_list (disk_head l p)) p m = v m"
  proof (cases "m \<in> set ns")
    case True
    then obtain k where "k < length ns" "m = ns ! k" by (auto simp: in_set_conv_nth)
    then show ?thesis using assms by (simp add: replay_in loggable_def)
  qed (use assms m in \<open>simp add: replay_out\<close>)
qed (use assms in simp_all)

lemma data_block_log: "log_geom l \<Longrightarrow> int k + 1 < lg_size l \<Longrightarrow> \<not> data_block l (log_blockno k l)"
  "log_geom l \<Longrightarrow> \<not> data_block l (head_blockno l)"
  using log_blocks(2) head_block(1) by (auto simp: data_block_def)

lemma does_set_lh_n: "does D C i L (set_lh_n n) N () L (N\<lparr>log := (log N)\<lparr>lg_lh := (lg_lh (log N))\<lparr>lh_n := n\<rparr>\<rparr>\<rparr>)"
  unfolding set_lh_n_def by (rule does_upd_log)

text \<open>Installing the logged blocks and clearing the header, which \<open>commit\<close> and \<open>recover_from_log\<close> share.\<close>

definition clear_log :: "logst \<Rightarrow> logst" where
  "clear_log l = l\<lparr>lg_lh := (lg_lh l)\<lparr>lh_n := 0\<rparr>\<rparr>"

lemma clear_log_simps [simp]: "lg_start (clear_log l) = lg_start l" "lg_size (clear_log l) = lg_size l" "lg_dev (clear_log l) = lg_dev l"
  "lh_n (lg_lh (clear_log l)) = 0" "log_geom (clear_log l) = log_geom l" "logged (clear_log l) = []"
  "lg_outstanding (clear_log l) = lg_outstanding l" "lg_committing (clear_log l) = lg_committing l"
  by (simp_all add: clear_log_def log_geom_def logged_def)

lemma does_install_clear:
  assumes bc: "bc i {} P N" and D: "disk_works D" and nN: "norm N = N" and l: "l = log N" and ok: "log_ok l" and ns: "ns = logged l"
    and pins: "pins P N = (if recovering then {} else set ns)" and hd: "0 \<le> hd_n (disk_head l (platter N))" "hd_list (disk_head l (platter N)) = ns"
    and v: "\<forall>j<length ns. pblk (platter N) (log_blockno j l) = v (ns ! j)" "\<forall>m. data_block l m \<longrightarrow> m \<notin> set ns \<longrightarrow> pblk (platter N) m = v m"
    and CP: "\<And>p. stands_for l p v \<Longrightarrow> CP p"
  shows "\<exists>N'. does D (\<lambda>M. CP (platter M)) i [] (sq (install_trans recovering) (sq (set_lh_n 0) write_head)) N () [] N' \<and> bc i {} {} N'
    \<and> hd_n (disk_head l (platter N')) = 0 \<and> (\<forall>m. data_block l m \<longrightarrow> pblk (platter N') m = v m \<and> blk N' m = v m)
    \<and> bio_frame (N\<lparr>log := clear_log l\<rparr>) N'"
proof -
  let ?h = "head_blockno l"
  have geom: "log_geom l" and size: "\<And>k. k < length ns \<Longrightarrow> int k + 1 < lg_size l" and able: "loggable l ns"
    and area: "set ns \<inter> log_area l = {}"
    using ok ns by (auto simp: log_ok_def loggable_def)
  have hns: "?h \<notin> set ns" "?h < 2 ^ 31" using head_block [OF geom] area by auto
  have slot: "log_blockno j l \<notin> set ns \<and> log_blockno j l < 2 ^ 31" if "j < length ns" for j using log_blocks [OF geom size [OF that]] area by auto
  have slot_v: "blk N (log_blockno j l) = v (ns ! j)" if "j < length ns" for j
    using blk_clean [OF bc, of "log_blockno j l"] slot [OF that] that v(1) pins by simp
  have stands: "stands_for l p v" if "\<forall>m<2 ^ 31. m \<notin> set ns \<longrightarrow> pblk p m = pblk (platter N) m" for p
  proof -
    have "disk_head l p = disk_head l (platter N)" using that hns by (simp add: disk_head_def)
    then show ?thesis using hd able that v slot by (intro stands_for_log [of l p ns]) (auto simp: data_block_def)
  qed
  have cps: "CP p" if "\<forall>m<2 ^ 31. m \<notin> set ns \<longrightarrow> pblk p m = pblk (platter N) m" for p by (rule CP [OF stands [OF that]])
  obtain N1 where 1: "does D (\<lambda>M. CP (platter M)) i [] (install_trans recovering) N () [] N1" "bc i {} {} N1"
    "\<forall>m<2 ^ 31. m \<notin> set ns \<longrightarrow> pblk (platter N1) m = pblk (platter N) m \<and> blk N1 m = blk N m"
    "\<forall>j<length ns. pblk (platter N1) (ns ! j) = blk N (log_blockno j (log N)) \<and> blk N1 (ns ! j) = blk N (log_blockno j (log N))" "bio_frame N N1"
    by (rule exE [OF does_install_trans [where CP = CP, OF bc D nN ok [unfolded l] ns [unfolded l] pins]]) (erule cps, elim conjE, rule that)
  have l1: "log N1 = l" using bio_frame_log [OF 1(5)] l by simp
  have new: "pblk (platter N1) m = v m" if "data_block l m" for m
  proof (cases "m \<in> set ns")
    case True
    then obtain k where "k < length ns" "m = ns ! k" by (auto simp: in_set_conv_nth)
    then show ?thesis using 1(4) slot_v l by simp
  qed (use that 1(3) v(2) in \<open>simp add: data_block_def\<close>)
  let ?N2 = "N1\<lparr>log := clear_log l\<rparr>"
  have set_n: "does D (\<lambda>M. CP (platter M)) i [] (set_lh_n 0) N1 () [] ?N2" by (rule does_eq [OF does_set_lh_n]) (simp add: clear_log_def l1)
  have pre: "bc i {} {} ?N2" "log_geom (log ?N2)" "norm ?N2 = ?N2" "CP (platter ?N2)" "card ({} :: nat set) < NBUF"
    "lh_n (lg_lh (log ?N2)) = int 0" "0 \<le> LOGSIZE" "?h = head_blockno (log ?N2)" "?h \<notin> pins {} ?N2"
    using 1(2,3) geom bio_frame_norm [OF 1(5) nN] cps [of "platter N1"] by (simp_all add: pins_def)
  obtain N3 where 3: "does D (\<lambda>M. CP (platter M)) i [] write_head ?N2 () [] N3" "bc i {} {} N3" "pins {} N3 = pins {} ?N2"
    "hd_n (pblk (platter N3) ?h) = int 0" "hd_list (pblk (platter N3) ?h) = logged (log ?N2)"
    "\<forall>m<2 ^ 31. m \<noteq> ?h \<longrightarrow> pblk (platter N3) m = pblk (platter ?N2) m \<and> blk N3 m = blk ?N2 m" "bio_frame ?N2 N3"
    using does_write_head [where CP = CP, OF pre(1,2) D pre(3-)] by (elim exE conjE) (rule that)
  have "pblk (platter N3) m = v m \<and> blk N3 m = v m" if m: "data_block l m" for m
  proof -
    have "pblk (platter N3) m = v m" using 3(6) m data_block_log(2) [OF geom] new [OF m] by (auto simp: data_block_def)
    then show ?thesis using blk_clean [OF 3(2), of m] by (simp add: pins_def)
  qed
  moreover have "bio_frame (N\<lparr>log := clear_log l\<rparr>) N3" by (rule bio_frame_trans [OF bio_frame_set_log [OF 1(5)] 3(7)])
  ultimately show ?thesis using does_sq [OF 1(1) does_sq [OF set_n 3(1)]] 3(2,4) by (intro exI [of _ N3]) (simp add: disk_head_def)
qed

text \<open>
  \<open>commit\<close>: up to the write of the header the disk stands for the old content, from then on for the content
  of the transaction, and at the end the blocks are at their homes and the log is empty.
\<close>

lemma does_commit:
  assumes bc: "bc i {} P N" and D: "disk_works D" and nN: "norm N = N" and l: "l = log N" and ok: "log_ok l"
    and pins: "pins P N = set (logged l)" and hd: "hd_n (disk_head l (platter N)) = 0"
    and CP: "\<And>p. stands_for l p (pblk (platter N)) \<or> stands_for l p (blk N) \<Longrightarrow> CP p"
  shows "\<exists>N'. does D (\<lambda>M. CP (platter M)) i [] commit N () [] N' \<and> bc i {} {} N'
    \<and> hd_n (disk_head l (platter N')) = 0 \<and> (\<forall>m. data_block l m \<longrightarrow> pblk (platter N') m = blk N m \<and> blk N' m = blk N m)
    \<and> bio_frame (N\<lparr>log := clear_log l\<rparr>) N'"
proof (cases "lh_n (lg_lh l) > 0")
  case False
  then have n0: "lh_n (lg_lh l) = 0" using ok by (simp add: log_ok_def)
  then have P: "P = {}" using pins by (simp add: logged_def pins_def)
  have "does D (\<lambda>M. CP (platter M)) i [] commit N () [] N" unfolding commit_def
    by (rule does_bnd [OF does_getl]) (use n0 l in \<open>simp add: whenM_def does_ret\<close>)
  moreover have "N\<lparr>log := clear_log l\<rparr> = N" using l n0 by (simp add: clear_log_def)
  ultimately show ?thesis using bc P hd blk_clean [OF bc] by (intro exI [of _ N]) (auto simp: pins_def)
next
  case True
  let ?ns = "logged l" and ?h = "head_blockno l"
  define n where "n = nat (lh_n (lg_lh l))"
  have geom: "log_geom l" and size: "\<And>k. k < n \<Longrightarrow> int k + 1 < lg_size l" and able: "loggable l ?ns" and n: "lh_n (lg_lh l) = int n" "n \<le> LOGSIZE"
    using ok by (auto simp: log_ok_def loggable_def n_def)
  have old: "CP p" if p: "\<forall>m<2 ^ 31. m \<notin> (\<lambda>j. log_blockno j l) ` {..<n} \<longrightarrow> pblk p m = pblk (platter N) m" for p
  proof (rule CP [OF disjI1], rule stands_for_empty [OF _ geom])
    show "hd_n (disk_head l p) = 0" using p hd head_block(2) [OF geom] log_blocks(4) [OF geom size] by (force simp: disk_head_def)
    show "\<forall>m. data_block l m \<longrightarrow> pblk p m = pblk (platter N) m" using p data_block_log(1) [OF geom size] by (auto simp: data_block_def)
  qed
  obtain N1 where 1: "does D (\<lambda>M. CP (platter M)) i [] write_log N () [] N1" "bc i {} P N1" "pins P N1 = pins P N"
    "\<forall>m<2 ^ 31. m \<notin> (\<lambda>j. log_blockno j (log N)) ` {..<n} \<longrightarrow> pblk (platter N1) m = pblk (platter N) m \<and> blk N1 m = blk N m"
    "\<forall>j<n. pblk (platter N1) (log_blockno j (log N)) = blk N (logged (log N) ! j)" "bio_frame N N1"
    by (rule exE [OF does_write_log [where CP = CP, OF bc D nN ok [unfolded l] pins [unfolded l] n_def [unfolded l]]])
      (erule old [unfolded l], elim conjE, rule that)
  have l1: "log N1 = l" using bio_frame_log [OF 1(6)] l by simp
  have hpin: "?h \<notin> pins P N1" using head_block(1) [OF geom] able 1(3) pins by (auto simp: loggable_def)
  have cP: "card P < NBUF" using card_pins [OF bc] pins able distinct_card [of ?ns] by (simp add: loggable_def)
  have pre: "log_geom (log N1)" "norm N1 = N1" "CP (platter N1)" "lh_n (lg_lh (log N1)) = int n" "?h = head_blockno (log N1)"
    using geom l1 bio_frame_norm [OF 1(6) nN] old [of "platter N1"] 1(4) n l by simp_all
  obtain N2 where 2: "does D (\<lambda>M. CP (platter M)) i [] write_head N1 () [] N2" "bc i {} P N2" "pins P N2 = pins P N1"
    "hd_n (pblk (platter N2) ?h) = int n" "hd_list (pblk (platter N2) ?h) = logged (log N1)"
    "\<forall>m<2 ^ 31. m \<noteq> ?h \<longrightarrow> pblk (platter N2) m = pblk (platter N1) m \<and> blk N2 m = blk N1 m" "bio_frame N1 N2"
    using does_write_head [where CP = CP, OF 1(2) pre(1) D pre(2,3) cP pre(4) n(2) pre(5) hpin] by (elim exE conjE) (rule that)
  have nN2: "norm N2 = N2" and l2: "l = log N2" using bio_frame_norm [OF 2(7) pre(2)] bio_frame_log [OF 2(7)] l1 by simp_all
  have v: "\<forall>j<length ?ns. pblk (platter N2) (log_blockno j l) = blk N (?ns ! j)"
    "\<forall>m. data_block l m \<longrightarrow> m \<notin> set ?ns \<longrightarrow> pblk (platter N2) m = blk N m"
  proof (intro allI impI)
    fix j assume "j < length ?ns"
    then have j: "j < n" by (simp add: n_def)
    show "pblk (platter N2) (log_blockno j l) = blk N (?ns ! j)" using 2(6) log_blocks(3,4) [OF geom size [OF j]] 1(5) j l by simp
  next
    show "\<forall>m. data_block l m \<longrightarrow> m \<notin> set ?ns \<longrightarrow> pblk (platter N2) m = blk N m"
    proof (intro allI impI)
      fix m assume m: "data_block l m" "m \<notin> set ?ns"
      then have "m \<noteq> ?h" "m \<notin> (\<lambda>j. log_blockno j (log N)) ` {..<n}" "m < 2 ^ 31"
        using data_block_log(2) [OF geom] data_block_log(1) [OF geom size] l by (auto simp: data_block_def)
      then show "pblk (platter N2) m = blk N m" using 2(6) 1(4) blk_clean [OF bc, of m] m(2) pins by simp
    qed
  qed
  have pre2: "pins P N2 = (if False then {} else set ?ns)" "0 \<le> hd_n (disk_head l (platter N2))" "hd_list (disk_head l (platter N2)) = ?ns"
    using 2(3,4,5) 1(3) pins l1 by (simp_all add: disk_head_def)
  obtain N3 where 3: "does D (\<lambda>M. CP (platter M)) i [] (sq (install_trans False) (sq (set_lh_n 0) write_head)) N2 () [] N3" "bc i {} {} N3"
    "hd_n (disk_head l (platter N3)) = 0" "\<forall>m. data_block l m \<longrightarrow> pblk (platter N3) m = blk N m \<and> blk N3 m = blk N m"
    "bio_frame (N2\<lparr>log := clear_log l\<rparr>) N3"
    by (rule exE [OF does_install_clear [where CP = CP, OF 2(2) D nN2 l2 ok refl pre2 v]]) (erule CP [OF disjI2], elim conjE, rule that)
  have "does D (\<lambda>M. CP (platter M)) i [] commit N () [] N3" unfolding commit_def
    by (rule does_bnd [OF does_getl]) (use does_sq [OF 1(1) does_sq [OF 2(1) 3(1)]] True l in \<open>simp add: whenM_def\<close>)
  moreover have "bio_frame (N\<lparr>log := clear_log l\<rparr>) N3"
    by (rule bio_frame_trans [OF bio_frame_set_log [OF bio_frame_trans [OF 1(6) 2(7)]] 3(5)])
  ultimately show ?thesis using 3 by (intro exI [of _ N3]) simp
qed

subsection \<open>Recovery\<close>

lemma log_disk_cong:
  assumes "lg_start l' = lg_start l" and "lg_size l' = lg_size l" and "lg_dev l' = lg_dev l"
  shows "log_blockno k l' = log_blockno k l" "log_area l' = log_area l" "log_geom l' = log_geom l"
    "disk_head l' p = disk_head l p" "loggable l' ns = loggable l ns" "data_block l' m = data_block l m" "stands_for l' p v = stands_for l p v"
proof -
  show 1: "log_blockno k l' = log_blockno k l" for k using assms by (simp add: log_blockno_def)
  show 2: "log_area l' = log_area l" "log_geom l' = log_geom l" using assms by (simp_all add: log_area_def log_geom_def)
  show 3: "disk_head l' p = disk_head l p" using assms by (simp add: disk_head_def)
  show 4: "loggable l' ns = loggable l ns" for ns using assms by (simp add: loggable_def 2)
  show 5: "data_block l' m = data_block l m" for m by (simp add: data_block_def 2)
  show "stands_for l' p v = stands_for l p v"
    by (simp add: stands_for_def recovered_def replay_def 1 3 4 5 cong: option.case_cong)
qed

text \<open>
  Recovery makes the disk what it stands for, and the disk stands for the same content all the time, so a
  crash during recovery does no harm.
\<close>

lemma does_recover_from_log:
  assumes bc: "bc i {} {} N" and D: "disk_works D" and nN: "norm N = N" and l: "l = log N" and geom: "log_geom l"
    and v: "stands_for l (platter N) v" and CP: "\<And>p. stands_for l p v \<Longrightarrow> CP p"
  shows "\<exists>N' x. does D (\<lambda>M. CP (platter M)) i [] recover_from_log N () [] N' \<and> bc i {} {} N'
    \<and> hd_n (disk_head l (platter N')) = 0 \<and> (\<forall>m. data_block l m \<longrightarrow> pblk (platter N') m = v m \<and> blk N' m = v m)
    \<and> bio_frame (N\<lparr>log := clear_log (l\<lparr>lg_lh := x\<rparr>)\<rparr>) N'"
proof -
  let ?bs = "disk_head l (platter N)"
  let ?ns = "hd_list ?bs"
  define n where "n = nat (hd_n ?bs)"
  have able: "loggable l ?ns" and n: "hd_n ?bs = int n" and len: "length ?ns = n" and rec: "\<And>m. data_block l m \<Longrightarrow> recovered l (platter N) m = v m"
    using v by (auto simp: stands_for_def n_def hd_list_def)
  have nL: "n \<le> LOGSIZE" using able len by (simp add: loggable_def)
  have hdb: "disk_head l (platter N) = pblk (platter N) (head_blockno (log N))" by (simp add: disk_head_def l)
  obtain N1 l1 where 1: "does D (\<lambda>M. CP (platter M)) i [] read_head N () [] N1" "bc i {} {} N1" "log N1 = l1" "logged l1 = ?ns"
    "lh_n (lg_lh l1) = int n" "l1 = (log N)\<lparr>lg_lh := lg_lh l1\<rparr>" "\<forall>m. blk N1 m = blk N m" "platter N1 = platter N" "bio_frame (N\<lparr>log := l1\<rparr>) N1"
    using does_read_head [where CP = CP, OF bc geom [unfolded l] D nN CP [OF v] hdb n nL] by (elim exE conjE) (rule that)
  obtain x where x: "l1 = l\<lparr>lg_lh := x\<rparr>" using 1(6) l by blast
  have "lg_start l1 = lg_start l" "lg_size l1 = lg_size l" "lg_dev l1 = lg_dev l" by (simp_all add: x)
  note same = log_disk_cong [OF this]
  have "norm (N\<lparr>log := l1\<rparr>) = N\<lparr>log := l1\<rparr>" using nN by simp
  then have nN1: "norm N1 = N1" by (rule bio_frame_norm [OF 1(9)])
  have ok: "log_ok l1" using geom able 1(4,5) by (simp add: log_ok_def same)
  have v1: "\<forall>j<length ?ns. pblk (platter N1) (log_blockno j l1) = v (?ns ! j)"
    "\<forall>m. data_block l1 m \<longrightarrow> m \<notin> set ?ns \<longrightarrow> pblk (platter N1) m = v m"
  proof (intro allI impI)
    fix j assume j: "j < length ?ns"
    then have "data_block l (?ns ! j)" using able by (simp add: loggable_def data_block_def)
    from rec [OF this] show "pblk (platter N1) (log_blockno j l1) = v (?ns ! j)"
      using j able by (simp add: recovered_def replay_in loggable_def same 1(8))
  next
    show "\<forall>m. data_block l1 m \<longrightarrow> m \<notin> set ?ns \<longrightarrow> pblk (platter N1) m = v m"
      using rec replay_out [of _ ?ns l "platter N"] by (simp add: recovered_def same 1(8)) metis
  qed
  have pre: "pins {} N1 = (if True then {} else set ?ns)" "0 \<le> hd_n (disk_head l1 (platter N1))" "hd_list (disk_head l1 (platter N1)) = ?ns"
    using n by (simp_all add: pins_def same 1(8))
  have cp1: "CP p" if "stands_for l1 p v" for p using CP that by (simp add: same)
  obtain N2 where 2: "does D (\<lambda>M. CP (platter M)) i [] (sq (install_trans True) (sq (set_lh_n 0) write_head)) N1 () [] N2" "bc i {} {} N2"
    "hd_n (disk_head l1 (platter N2)) = 0" "\<forall>m. data_block l1 m \<longrightarrow> pblk (platter N2) m = v m \<and> blk N2 m = v m"
    "bio_frame (N1\<lparr>log := clear_log l1\<rparr>) N2"
    by (rule exE [OF does_install_clear [where CP = CP, OF 1(2) D nN1 1(3) [symmetric] ok 1(4) [symmetric] pre v1]]) (erule cp1, elim conjE, rule that)
  have "does D (\<lambda>M. CP (platter M)) i [] recover_from_log N () [] N2"
    unfolding recover_from_log_def by (rule does_sq [OF 1(1) 2(1)])
  moreover have "bio_frame (N\<lparr>log := clear_log (l\<lparr>lg_lh := x\<rparr>)\<rparr>) N2"
    using bio_frame_trans [OF bio_frame_set_log [OF 1(9)] 2(5)] x by simp
  ultimately show ?thesis using 2 by (intro exI [of _ N2] exI [of _ x]) (simp add: same)
qed

text \<open>The log that \<open>initlog\<close> sets up from the super block.\<close>

definition sb_log :: "superblock \<Rightarrow> logst \<Rightarrow> logst" where
  "sb_log sb l = l\<lparr>lg_start := sint (sb_logstart sb), lg_size := sint (sb_nlog sb), lg_dev := 1\<rparr>"

lemma does_initlog:
  assumes bc: "bc i {} {} N" and D: "disk_works D" and nN: "norm N = N" and l: "l = sb_log sb (log N)" and geom: "log_geom l"
    and v: "stands_for l (platter N) v" and CP: "\<And>p. stands_for l p v \<Longrightarrow> CP p"
  shows "\<exists>N' x. does D (\<lambda>M. CP (platter M)) i [] (initlog 1 sb) N () [] N' \<and> bc i {} {} N'
    \<and> hd_n (disk_head l (platter N')) = 0 \<and> (\<forall>m. data_block l m \<longrightarrow> pblk (platter N') m = v m \<and> blk N' m = v m)
    \<and> bio_frame (N\<lparr>log := clear_log (l\<lparr>lg_lh := x\<rparr>)\<rparr>) N'"
proof -
  let ?N = "N\<lparr>log := l\<rparr>"
  have pre: "bc i {} {} ?N" "norm ?N = ?N" "l = log ?N" "stands_for l (platter ?N) v" using bc nN v by simp_all
  obtain N' x where N': "does D (\<lambda>M. CP (platter M)) i [] recover_from_log ?N () [] N'" "bc i {} {} N'"
    "hd_n (disk_head l (platter N')) = 0" "\<forall>m. data_block l m \<longrightarrow> pblk (platter N') m = v m \<and> blk N' m = v m"
    "bio_frame (?N\<lparr>log := clear_log (l\<lparr>lg_lh := x\<rparr>)\<rparr>) N'"
    by (rule exE [OF does_recover_from_log [where CP = CP, OF pre(1) D pre(2,3) geom pre(4)]]) (erule CP, elim exE conjE, rule that)
  have "does D (\<lambda>M. CP (platter M)) i [] (initlog 1 sb) N () [] N'"
    unfolding initlog_def logheader_size_def
    by (simp, rule does_sq [OF does_initlock], rule does_sq [OF does_upd_log], rule does_sq [OF does_upd_log], rule does_sq [OF does_upd_log])
      (use N'(1) l in \<open>simp add: sb_log_def\<close>)
  then show ?thesis using N' by (intro exI [of _ N'] exI [of _ x]) simp
qed

subsection \<open>Transactions\<close>

text \<open>The transaction of \<open>l\<close> is in the pinned buffers \<open>P\<close> and the log on the disk is empty.\<close>

definition in_trans :: "nat \<Rightarrow> nat set \<Rightarrow> nat set \<Rightarrow> 'z lstate_scheme \<Rightarrow> bool" where
  "in_trans i H P N \<longleftrightarrow> bc i H P N \<and> log_ok (log N) \<and> pins P N = set (logged (log N)) \<and> hd_n (disk_head (log N) (platter N)) = 0"

text \<open>\<open>log_add l n\<close>: the log after \<open>log_write\<close> of block \<open>n\<close>.\<close>

definition log_add :: "logst \<Rightarrow> u32 \<Rightarrow> logst" where
  "log_add l bn = l\<lparr>lg_lh := \<lparr>lh_n = (if bn \<in> set (logged l) then lh_n (lg_lh l) else lh_n (lg_lh l) + 1),
     lh_block = (lh_block (lg_lh l))(log_slot (lg_lh l) bn := sint bn)\<rparr>\<rparr>"

lemma log_slot_logged: "0 \<le> lh_n (lg_lh l) \<Longrightarrow> int (log_slot (lg_lh l) n) = lh_n (lg_lh l) \<longleftrightarrow> n \<notin> set (logged l)"
  and log_slot_block: "n \<in> set (logged l) \<Longrightarrow> home_blockno (log_slot (lg_lh l) n) l = n"
  unfolding log_slot_def logged_def home_blockno_def
  by (auto split: option.split simp: find_None_iff find_Some_iff)

lemma logged_add:
  assumes "0 \<le> lh_n (lg_lh l)"
  shows "logged (log_add l n) = (if n \<in> set (logged l) then logged l else logged l @ [n])"
proof (cases "n \<in> set (logged l)")
  case True
  then show ?thesis using log_slot_block [OF True]
    by (auto simp: log_add_def logged_def home_blockno_def)
next
  case False
  have s: "nat (lh_n (lg_lh l) + 1) = Suc (nat (lh_n (lg_lh l)))" "log_slot (lg_lh l) n = nat (lh_n (lg_lh l))"
    using assms False log_slot_logged [OF assms, of n] by simp_all
  show ?thesis using False unfolding log_add_def logged_def by (simp add: s home_blockno_def)
qed



text \<open>\<open>log_write\<close> puts the block into the transaction and pins its buffer, once.\<close>

lemma does_log_write:
  assumes tr: "in_trans i H P N" and b: "b \<in> H" and bn: "bn = b_blockno (bufs N b)" "bn \<notin> log_area (log N)" and l: "l = log N"
    and room: "lh_n (lg_lh l) < int LOGSIZE" "lh_n (lg_lh l) < lg_size l - 1" "lh_n (lg_lh l) + 1 < int NBUF" and out: "1 \<le> lg_outstanding l"
  shows "\<exists>N'. does D C i [] (log_write b) N () [] N' \<and> in_trans i H (insert b P) N' \<and> log N' = log_add l bn
    \<and> blk N' = blk N \<and> platter N' = platter N \<and> bufs_same UNIV N N' \<and> bio_frame (N\<lparr>log := log_add l bn\<rparr>) N'"
proof -
  have bc: "bc i H P N" and ok: "log_ok l" and pins: "pins P N = set (logged l)" and hd: "hd_n (disk_head l (platter N)) = 0"
    using tr l by (auto simp: in_trans_def)
  have n0: "0 \<le> lh_n (lg_lh l)" using ok by (simp add: log_ok_def)
  have bN: "b < NBUF" "b_dev (bufs N b) = 1" "bn < 2 ^ 31" using bcD(3,9,12) [OF bc] b bn(1) by auto
  have P: "b \<in> P \<longleftrightarrow> bn \<in> set (logged l)"
    using bc_pinned_unique [OF bc bN(1,2)] bn(1) unfolding pins [symmetric] pins_def by auto
  let ?new = "bn \<notin> set (logged l)"
  let ?M = "if ?new then set_ref b (b_refcnt (bufs N b) + 1) N else N"
  let ?N = "?M\<lparr>log := log_add l bn\<rparr>"
  have M: "bc i H (insert b P) ?M" "blk ?M = blk N" "platter ?M = platter N" "bufs_same UNIV N ?M" "bio_frame N ?M"
    using bc pin_bc [OF bc b] P by (auto simp: set_ref_same set_ref_blk set_ref_frame insert_absorb bufs_same_def)
  let ?l1 = "l\<lparr>lg_lh := (lg_lh l)\<lparr>lh_block := (lh_block (lg_lh l))(log_slot (lg_lh l) bn := sint bn)\<rparr>\<rparr>"
  have pin: "does D C i [LogLock] (whenM (int (log_slot (lg_lh l) bn) = lh_n (lg_lh l)) (sq (bpin b) (set_lh_n (lh_n (lg_lh l) + 1))))
      (N\<lparr>log := ?l1\<rparr>) () [LogLock] ?N"
  proof (cases ?new)
    case True
    have "does D C i [LogLock] (sq (bpin b) (set_lh_n (lh_n (lg_lh l) + 1))) (N\<lparr>log := ?l1\<rparr>) () [LogLock] ?N"
      by (rule does_sq [OF does_bpin], simp, rule does_eq [OF does_set_lh_n]) (use True in \<open>simp add: set_ref_def log_add_def\<close>)
    then show ?thesis using True log_slot_logged [OF n0, of bn] by (simp add: whenM_def)
  next
    case False
    then have "?N = N\<lparr>log := ?l1\<rparr>" by (simp add: log_add_def)
    then show ?thesis using False log_slot_logged [OF n0, of bn] by (simp add: whenM_def does_ret)
  qed
  have set1: "does D C i [LogLock] (set_lh_block (log_slot (lg_lh l) bn) (sint bn)) N () [LogLock] (N\<lparr>log := ?l1\<rparr>)"
    unfolding set_lh_block_def l by (rule does_upd_log)
  have guards: "\<not> (int LOGSIZE \<le> lh_n (lg_lh l) \<or> lg_size l - 1 \<le> lh_n (lg_lh l))" "\<not> lg_outstanding l < 1" using room out by linarith+
  have d: "does D C i [] (log_write b) N () [] ?N"
    unfolding log_write_def
    by (rule does_sq [OF does_acquire], simp, rule does_bnd [OF does_getl], unfold l [symmetric], simp only: guards if_False,
        rule does_bnd [OF does_getb], unfold Let_def bn(1) [symmetric], rule does_sq [OF set1], rule does_sq [OF pin does_release])
  have area: "log_area (log_add l bn) = log_area l" "log_geom (log_add l bn) = log_geom l" "disk_head (log_add l bn) p = disk_head l p"
    "loggable (log_add l bn) ns = loggable l ns" "0 \<le> lh_n (lg_lh (log_add l bn))" for p ns
    using n0 log_disk_cong [of "log_add l bn" l] by (simp_all add: log_add_def)
  have "loggable l (logged (log_add l bn))"
    using ok room bn bN n0 l by (auto simp: logged_add log_ok_def loggable_def)
  then have "log_ok (log_add l bn)" using ok area by (simp add: log_ok_def)
  moreover have "b_blockno (bufs ?M c) = b_blockno (bufs N c)" for c using M(4) by (simp add: bufs_same_def)
  then have "pins (insert b P) ?N = set (logged (log_add l bn))" using pins bn(1) by (auto simp: pins_def logged_add [OF n0])
  ultimately have "in_trans i H (insert b P) ?N"
    using M(1,3) hd area(3) by (simp only: in_trans_def bio_log lstate.simps lstate.select_convs) simp
  then show ?thesis using d M bio_frame_set_log [OF M(5)] by (intro exI [of _ ?N]) (auto simp: fun_eq_iff)
qed

text \<open>The last \<open>end_op\<close> of a transaction commits it.\<close>

lemma does_end_op:
  assumes tr: "in_trans i {} P N" and D: "disk_works D" and nN: "norm N = N" and l: "l = log N"
    and out: "lg_outstanding l = 1" "\<not> lg_committing l"
    and CP: "\<And>p. stands_for l p (pblk (platter N)) \<or> stands_for l p (blk N) \<Longrightarrow> CP p"
  shows "\<exists>N'. does D (\<lambda>M. CP (platter M)) i [] end_op N () [] N' \<and> bc i {} {} N'
    \<and> hd_n (disk_head l (platter N')) = 0 \<and> (\<forall>m. data_block l m \<longrightarrow> pblk (platter N') m = blk N m \<and> blk N' m = blk N m)
    \<and> log N' = clear_log l\<lparr>lg_outstanding := 0\<rparr>"
proof -
  let ?l = "l\<lparr>lg_outstanding := 0, lg_committing := True\<rparr>"
  let ?N = "N\<lparr>log := ?l\<rparr>"
  have same: "log_geom ?l = log_geom l" "disk_head ?l p = disk_head l p" "loggable ?l ns = loggable l ns" "data_block ?l m = data_block l m"
    "stands_for ?l p v = stands_for l p v" "logged ?l = logged l" for p ns m v
    using log_disk_cong [of ?l l] by (simp_all add: logged_def home_blockno_def)
  have pre: "bc i {} P ?N" "norm ?N = ?N" "?l = log ?N" "log_ok ?l" "pins P ?N = set (logged ?l)" "hd_n (disk_head ?l (platter ?N)) = 0"
    using tr nN by (simp_all add: in_trans_def log_ok_def same pins_def l [symmetric])
  have cp: "CP p" if "stands_for ?l p (pblk (platter ?N)) \<or> stands_for ?l p (blk ?N)" for p
  proof (rule CP)
    have "blk ?N = blk N" by (rule ext) simp
    then show "stands_for l p (pblk (platter N)) \<or> stands_for l p (blk N)" using that by (simp add: same)
  qed
  obtain N1 where 1: "does D (\<lambda>M. CP (platter M)) i [] commit ?N () [] N1" "bc i {} {} N1" "hd_n (disk_head ?l (platter N1)) = 0"
    "\<forall>m. data_block ?l m \<longrightarrow> pblk (platter N1) m = blk ?N m \<and> blk N1 m = blk ?N m" "bio_frame (?N\<lparr>log := clear_log ?l\<rparr>) N1"
    by (rule exE [OF does_commit [where CP = CP, OF pre(1) D pre(2-)]]) (erule cp, elim conjE, rule that)
  have l1: "log N1 = clear_log ?l" using bio_frame_log [OF 1(5)] by simp
  let ?N1 = "N1\<lparr>log := clear_log ?l\<lparr>lg_committing := False\<rparr>\<rparr>"
  have dec: "does D (\<lambda>M. CP (platter M)) i [LogLock] (upd_log (\<lambda>l. l\<lparr>lg_outstanding := lg_outstanding l - 1\<rparr>)) N () [LogLock] (N\<lparr>log := l\<lparr>lg_outstanding := 0\<rparr>\<rparr>)"
    by (rule does_eq [OF does_upd_log]) (use l out in simp)
  have com: "does D (\<lambda>M. CP (platter M)) i [LogLock] (upd_log (\<lambda>l. l\<lparr>lg_committing := True\<rparr>)) (N\<lparr>log := l\<lparr>lg_outstanding := 0\<rparr>\<rparr>) () [LogLock] ?N"
    by (rule does_eq [OF does_upd_log]) simp
  have fin: "does D (\<lambda>M. CP (platter M)) i [LogLock] (upd_log (\<lambda>l. l\<lparr>lg_committing := False\<rparr>)) N1 () [LogLock] ?N1"
    by (rule does_eq [OF does_upd_log]) (simp add: l1)
  have "does D (\<lambda>M. CP (platter M)) i [] end_op N () [] ?N1" unfolding end_op_def
    by (rule does_sq [OF does_acquire], simp, rule does_sq [OF dec], rule does_bnd [OF does_getl], simp add: out,
        rule does_bnd [OF does_sq [OF com does_ret]], rule does_sq [OF does_release], simp add: whenM_def, rule does_sq [OF 1(1)],
        rule does_sq [OF does_acquire], simp, rule does_sq [OF fin], rule does_sq [OF does_wakeup does_release], simp)
  moreover have "clear_log ?l\<lparr>lg_committing := False\<rparr> = clear_log l\<lparr>lg_outstanding := 0\<rparr>" using out by (simp add: clear_log_def)
  ultimately show ?thesis using 1(2,3,4) by (intro exI [of _ ?N1]) (simp add: same)
qed

lemma does_begin_op:
  assumes l: "l = log N" and "\<not> lg_committing l" and "lh_n (lg_lh l) + (lg_outstanding l + 1) * int MAXOPBLOCKS \<le> int LOGSIZE"
  shows "does D C i [] begin_op N () [] (N\<lparr>log := l\<lparr>lg_outstanding := lg_outstanding l + 1\<rparr>\<rparr>)"
proof -
  have g: "\<not> lg_committing (log N)" "\<not> int LOGSIZE < lh_n (lg_lh (log N)) + (lg_outstanding (log N) + 1) * int MAXOPBLOCKS"
    using assms by simp_all
  show ?thesis unfolding begin_op_def
    by (rule does_sq [OF does_acquire], simp, rule does_again_at_once, rule does_bnd [OF does_getl], simp only: g if_False,
        rule does_sq [OF does_upd_log], rule does_sq [OF does_release], unfold l, rule does_ret)
qed

text \<open>
  The use of the log that the comment above \<open>log_write\<close> describes: read a block, modify it, \<open>log_write\<close> and
  \<open>brelse\<close> it. A transaction is a sequence of those between \<open>begin_op\<close> and \<open>end_op\<close>.
\<close>

definition log_modify :: "u32 \<Rightarrow> (chars \<Rightarrow> chars) \<Rightarrow> (unit, 'z lstate_scheme) kern" where
  "log_modify n f =
     bnd (bread 1 n) (\<lambda>bp.
     sq (upd_buf bp (\<lambda>b. b\<lparr>b_data := f (b_data b)\<rparr>)) (
     sq (log_write bp) (
     brelse bp)))"

definition transaction :: "(u32 \<times> (chars \<Rightarrow> chars)) list \<Rightarrow> (unit, 'z lstate_scheme) kern" where
  "transaction us =
     sq begin_op (
     sq (forM us (\<lambda>(n, f). log_modify n f))
        end_op)"

text \<open>\<open>f\<close> depends on the bytes of the block only, and \<open>on_block f\<close> is what it does to them.\<close>

definition on_block :: "(chars \<Rightarrow> chars) \<Rightarrow> bytes \<Rightarrow> bytes" where
  "on_block f bs = map (f (\<lambda>k. if k < BSIZE then bs ! k else 0)) [0..<BSIZE]"

definition block_fun :: "(chars \<Rightarrow> chars) \<Rightarrow> bool" where
  "block_fun f \<longleftrightarrow> (\<forall>d. map (f d) [0..<BSIZE] = on_block f (map d [0..<BSIZE]))"

definition apply_updates :: "(u32 \<times> (chars \<Rightarrow> chars)) list \<Rightarrow> (u32 \<Rightarrow> bytes) \<Rightarrow> u32 \<Rightarrow> bytes" where
  "apply_updates us v = fold (\<lambda>(n, f) v. v(n := on_block f (v n))) us v"

lemma apply_updates_simps [simp]: "apply_updates [] v = v" "apply_updates ((n, f) # us) v = apply_updates us (v(n := on_block f (v n)))"
  by (simp_all add: apply_updates_def)

lemma does_log_open:
  assumes tr: "in_trans i {} P N" and D: "disk_works D" and nN: "norm N = N" and CP: "CP (platter N)" and l: "l = log N"
    and n: "data_block l n" and f: "block_fun f" and out: "1 \<le> lg_outstanding l"
    and room: "lh_n (lg_lh l) < int LOGSIZE" "lh_n (lg_lh l) < lg_size l - 1" "lh_n (lg_lh l) + 1 < int NBUF"
  shows "\<exists>b N1 N2 P' N'. does D (\<lambda>M. CP (platter M)) i [] (bread 1 n) N b [] N1
    \<and> does D (\<lambda>M. CP (platter M)) i [] (upd_buf b (\<lambda>bf. bf\<lparr>b_data := f (b_data bf)\<rparr>)) N1 () [] N2
    \<and> does D (\<lambda>M. CP (platter M)) i [] (sq (log_write b) (brelse b)) N2 () [] N'
    \<and> bio_frame N N1 \<and> in_trans i {} P' N' \<and> log N' = log_add l n
    \<and> blk N' = (blk N)(n := on_block f (blk N n)) \<and> platter N' = platter N \<and> bio_frame (N\<lparr>log := log_add l n\<rparr>) N'"
proof -
  have bc: "bc i {} P N" and ok: "log_ok l" and pins: "pins P N = set (logged l)" using tr l by (auto simp: in_trans_def)
  have n31: "n < 2 ^ 31" "n \<notin> log_area l" using n by (auto simp: data_block_def)
  have "card P = length (logged l)" using card_pins [OF bc] pins ok distinct_card [of "logged l"] by (simp add: log_ok_def loggable_def)
  then have cP: "{} \<union> P \<noteq> {..<NBUF}" using room(3) card_not_all [of P] by simp
  obtain b N1 where 1: "does D (\<lambda>M. CP (platter M)) i [] (bread 1 n) N b [] N1" "b \<notin> {}" "bc i (insert b {}) P N1"
    "b_blockno (bufs N1 b) = n" "bdata N1 b = blk N n" "blk N1 = blk N" "platter N1 = platter N" "bufs_same ({} \<union> P) N N1" "bio_frame N N1"
    using does_bread_blk [where CP = CP, OF bc _ disjI1 [OF cP] D nN CP n31(1)] by auto
  have l1: "log N1 = l" using bio_frame_log [OF 1(9)] l by simp
  let ?g = "f (b_data (bufs N1 b))"
  let ?N2 = "put_data b ?g N1"
  have b: "b \<in> {b}" by simp
  have bc1: "bc i {b} P N1" using 1(3) by simp
  have g: "map ?g [0..<BSIZE] = on_block f (blk N n)" using f 1(5) by (simp add: block_fun_def bdata_def)
  note bc2 = put_data_bc [OF bc1 b, of ?g]
  have "pins P ?N2 = pins P N" using pins_same [OF 1(8), of P] by (simp add: pins_def)
  then have tr2: "in_trans i {b} P ?N2" using tr bc2(1) l1 l 1(7) by (simp add: in_trans_def)
  have bn2: "n = b_blockno (bufs ?N2 b)" "n \<notin> log_area (log ?N2)" "l = log ?N2" using 1(4) n31 l1 by simp_all
  obtain N3 where 3: "does D (\<lambda>M. CP (platter M)) i [] (log_write b) ?N2 () [] N3" "in_trans i {b} (insert b P) N3" "log N3 = log_add l n"
    "blk N3 = blk ?N2" "platter N3 = platter ?N2" "bufs_same UNIV ?N2 N3" "bio_frame (?N2\<lparr>log := log_add l n\<rparr>) N3"
    using does_log_write [OF tr2 b bn2 room out, of D "\<lambda>M. CP (platter M)"] by (elim exE conjE) (rule that)
  have bc3: "bc i {b} (insert b P) N3" using 3(2) by (simp add: in_trans_def)
  note R = brelse_bc [OF bc3 b disjI1 [OF insertI1]]
  have d: "does D (\<lambda>M. CP (platter M)) i [] (upd_buf b (\<lambda>bf. bf\<lparr>b_data := f (b_data bf)\<rparr>)) N1 () [] ?N2"
    "does D (\<lambda>M. CP (platter M)) i [] (sq (log_write b) (brelse b)) ?N2 () [] (released b N3)"
    by (rule does_put_data, rule does_sq [OF 3(1) does_brelse [OF bcD(7) [OF bc3 b]]])
  have "pins (insert b P) (released b N3) = pins (insert b P) N3" by (rule pins_same [OF R(4) [of UNIV]]) simp
  then have tr4: "in_trans i {} (insert b P) (released b N3)"
    using 3(2) R(1,3) bio_frame_log [OF R(5)] by (simp add: in_trans_def)
  have "blk ?N2 = (blk N)(n := on_block f (blk N n))" using bc2(2) 1(4,6) g by (simp add: fun_eq_iff)
  moreover have "bio_frame (N\<lparr>log := log_add l n\<rparr>) (released b N3)"
    by (rule bio_frame_trans [OF bio_frame_set_log [OF bio_frame_trans [OF 1(9) put_data_frame]] bio_frame_trans [OF 3(7) R(5)]])
  ultimately show ?thesis using d tr4 3 R 1(1,7,9) bio_frame_log [OF R(5)]
    by (intro exI [of _ b] exI [of _ N1] exI [of _ ?N2] exI [of _ "insert b P"] exI [of _ "released b N3"]) simp
qed

lemma does_log_modify:
  assumes "in_trans i {} P N" and "disk_works D" and "norm N = N" and "CP (platter N)" and "l = log N"
    and "data_block l n" and "block_fun f" and "1 \<le> lg_outstanding l"
    and "lh_n (lg_lh l) < int LOGSIZE" and "lh_n (lg_lh l) < lg_size l - 1" and "lh_n (lg_lh l) + 1 < int NBUF"
  shows "\<exists>P' N'. does D (\<lambda>M. CP (platter M)) i [] (log_modify n f) N () [] N' \<and> in_trans i {} P' N' \<and> log N' = log_add l n
    \<and> blk N' = (blk N)(n := on_block f (blk N n)) \<and> platter N' = platter N \<and> bio_frame (N\<lparr>log := log_add l n\<rparr>) N'"
proof -
  obtain b N1 N2 P' N' where o: "does D (\<lambda>M. CP (platter M)) i [] (bread 1 n) N b [] N1"
    "does D (\<lambda>M. CP (platter M)) i [] (upd_buf b (\<lambda>bf. bf\<lparr>b_data := f (b_data bf)\<rparr>)) N1 () [] N2"
    "does D (\<lambda>M. CP (platter M)) i [] (sq (log_write b) (brelse b)) N2 () [] N'"
    "bio_frame N N1" "in_trans i {} P' N'" "log N' = log_add l n" "blk N' = (blk N)(n := on_block f (blk N n))" "platter N' = platter N"
    "bio_frame (N\<lparr>log := log_add l n\<rparr>) N'"
    using does_log_open [where CP = CP, OF assms] by (elim exE conjE) (rule that)
  have "does D (\<lambda>M. CP (platter M)) i [] (log_modify n f) N () [] N'"
    unfolding log_modify_def by (rule does_bnd [OF o(1)], rule does_sq [OF o(2,3)])
  then show ?thesis using o(5-9) by blast
qed

lemma does_modifies:
  assumes "disk_works D" and "in_trans i {} P N" and "norm N = N" and "CP (platter N)" and "1 \<le> lg_outstanding (log N)"
    and "\<forall>(n, f)\<in>set us. data_block (log N) n \<and> block_fun f"
    and "lh_n (lg_lh (log N)) + int (length us) \<le> int MAXOPBLOCKS" and "int MAXOPBLOCKS < lg_size (log N)"
  shows "\<exists>P' N' x. does D (\<lambda>M. CP (platter M)) i [] (forM us (\<lambda>(n, f). log_modify n f)) N () [] N' \<and> in_trans i {} P' N'
    \<and> blk N' = apply_updates us (blk N) \<and> platter N' = platter N \<and> norm N' = N' \<and> log N' = (log N)\<lparr>lg_lh := x\<rparr>"
  using assms(2-)
proof (induction us arbitrary: P N)
  case Nil
  then show ?case by (intro exI [of _ P] exI [of _ N] exI [of _ "lg_lh (log N)"]) (simp add: does_ret)
next
  case (Cons u us)
  obtain n f where u: "u = (n, f)" by fastforce
  have pre: "data_block (log N) n" "block_fun f" using Cons.prems(5) u by auto
  have room: "lh_n (lg_lh (log N)) < int LOGSIZE" "lh_n (lg_lh (log N)) < lg_size (log N) - 1" "lh_n (lg_lh (log N)) + 1 < int NBUF"
    using Cons.prems(6,7) by simp_all
  obtain P1 N1 where 1: "does D (\<lambda>M. CP (platter M)) i [] (log_modify n f) N () [] N1" "in_trans i {} P1 N1" "log N1 = log_add (log N) n"
    "blk N1 = (blk N)(n := on_block f (blk N n))" "platter N1 = platter N" "bio_frame (N\<lparr>log := log_add (log N) n\<rparr>) N1"
    using does_log_modify [where CP = CP, OF Cons.prems(1) assms(1) Cons.prems(2,3) refl pre Cons.prems(4) room] by (elim exE conjE) (rule that)
  have "norm (N\<lparr>log := log_add (log N) n\<rparr>) = N\<lparr>log := log_add (log N) n\<rparr>" using Cons.prems(2) by simp
  then have nN1: "norm N1 = N1" by (rule bio_frame_norm [OF 1(6)])
  have same: "lg_outstanding (log N1) = lg_outstanding (log N)" "lg_size (log N1) = lg_size (log N)" "data_block (log N1) m = data_block (log N) m" for m
    using log_disk_cong(6) [of "log_add (log N) n" "log N"] by (simp_all add: 1(3) log_add_def)
  have len: "lh_n (lg_lh (log N1)) + int (length us) \<le> int MAXOPBLOCKS" using Cons.prems(6) by (simp add: 1(3) log_add_def)
  have rest: "\<forall>(n, f)\<in>set us. data_block (log N1) n \<and> block_fun f" using Cons.prems(5) by (auto simp: same)
  obtain P2 N2 x where 2: "does D (\<lambda>M. CP (platter M)) i [] (forM us (\<lambda>(n, f). log_modify n f)) N1 () [] N2" "in_trans i {} P2 N2"
    "blk N2 = apply_updates us (blk N1)" "platter N2 = platter N1" "norm N2 = N2" "log N2 = (log N1)\<lparr>lg_lh := x\<rparr>"
    using Cons.IH [OF 1(2) nN1 _ _ rest len] Cons.prems(3,4,7) 1(5) same by auto
  have "does D (\<lambda>M. CP (platter M)) i [] (forM (u # us) (\<lambda>(n, f). log_modify n f)) N () [] N2"
    by (rule does_forM) (use 1(1) 2(1) u in simp_all)
  then show ?case using 2 1 u by (intro exI [of _ P2] exI [of _ N2] exI [of _ x]) (simp add: log_add_def)
qed

text \<open>The whole transaction.\<close>

lemma does_transaction:
  assumes D: "disk_works D" and bc: "bc i {} {} N" and nN: "norm N = N" and l: "l = log N" and geom: "log_geom l" and size: "int MAXOPBLOCKS < lg_size l"
    and idle: "lh_n (lg_lh l) = 0" "lg_outstanding l = 0" "\<not> lg_committing l" and hd: "hd_n (disk_head l (platter N)) = 0"
    and us: "\<forall>(n, f)\<in>set us. data_block l n \<and> block_fun f" "length us \<le> MAXOPBLOCKS" and v: "v = apply_updates us (blk N)"
    and CP: "\<And>p. stands_for l p (blk N) \<or> stands_for l p v \<Longrightarrow> CP p"
  shows "\<exists>N' x. does D (\<lambda>M. CP (platter M)) i [] (transaction us) N () [] N' \<and> bc i {} {} N'
    \<and> hd_n (disk_head l (platter N')) = 0 \<and> (\<forall>m. data_block l m \<longrightarrow> pblk (platter N') m = v m \<and> blk N' m = v m)
    \<and> log N' = clear_log (l\<lparr>lg_lh := x\<rparr>)"
proof -
  let ?l = "l\<lparr>lg_outstanding := 1\<rparr>"
  let ?N = "N\<lparr>log := ?l\<rparr>"
  have disk: "blk N = pblk (platter N)" using blk_clean [OF bc] by (simp add: pins_def fun_eq_iff)
  have same: "log_geom ?l = log_geom l" "disk_head ?l p = disk_head l p" "data_block ?l m = data_block l m" "loggable ?l ns = loggable l ns" for p m ns
    using log_disk_cong [of ?l l] by simp_all
  have start: "CP (platter N)" using stands_for_empty [OF hd geom, of "blk N"] disk by (intro CP) simp
  have bgn: "does D (\<lambda>M. CP (platter M)) i [] begin_op N () [] ?N"
    by (rule does_eq [OF does_begin_op [OF l]]) (use idle in simp_all)
  have "loggable l []" using geom by (simp add: loggable_def log_geom_def)
  then have pre: "in_trans i {} {} ?N" "norm ?N = ?N" "CP (platter ?N)" "1 \<le> lg_outstanding (log ?N)" "\<forall>(n, f)\<in>set us. data_block (log ?N) n \<and> block_fun f"
    "lh_n (lg_lh (log ?N)) + int (length us) \<le> int MAXOPBLOCKS" "int MAXOPBLOCKS < lg_size (log ?N)"
    using bc nN start us geom idle hd size by (simp_all add: in_trans_def log_ok_def same pins_def logged_def)
  obtain P1 N1 x where 1: "does D (\<lambda>M. CP (platter M)) i [] (forM us (\<lambda>(n, f). log_modify n f)) ?N () [] N1" "in_trans i {} P1 N1"
    "blk N1 = apply_updates us (blk ?N)" "platter N1 = platter ?N" "norm N1 = N1" "log N1 = (log ?N)\<lparr>lg_lh := x\<rparr>"
    using does_modifies [where CP = CP, OF D pre] by (elim exE conjE) (rule that)
  have "blk ?N = blk N" by (rule ext) simp
  then have blk1: "blk N1 = v" "platter N1 = platter N" using 1(3,4) v by simp_all
  have l1: "lg_outstanding (log N1) = 1" "\<not> lg_committing (log N1)" using 1(6) idle by simp_all
  have same1: "disk_head (log N1) p = disk_head l p" "data_block (log N1) m = data_block l m" "stands_for (log N1) p w = stands_for l p w" for p m w
    using log_disk_cong [of "log N1" l] 1(6) by simp_all
  have cp1: "CP p" if "stands_for (log N1) p (pblk (platter N1)) \<or> stands_for (log N1) p (blk N1)" for p
    using that disk by (intro CP) (simp add: same1 blk1)
  obtain N2 where 2: "does D (\<lambda>M. CP (platter M)) i [] end_op N1 () [] N2" "bc i {} {} N2" "hd_n (disk_head (log N1) (platter N2)) = 0"
    "\<forall>m. data_block (log N1) m \<longrightarrow> pblk (platter N2) m = blk N1 m \<and> blk N2 m = blk N1 m" "log N2 = clear_log (log N1)\<lparr>lg_outstanding := 0\<rparr>"
    by (rule exE [OF does_end_op [where CP = CP, OF 1(2) D 1(5) refl l1]]) (erule cp1, elim conjE, rule that)
  have "log N2 = clear_log (l\<lparr>lg_lh := x\<rparr>)" using 2(5) 1(6) idle(2) by (simp add: clear_log_def)
  moreover have "does D (\<lambda>M. CP (platter M)) i [] (transaction us) N () [] N2"
    unfolding transaction_def by (rule does_sq [OF bgn does_sq [OF 1(1) 2(1)]])
  ultimately show ?thesis using 2 by (intro exI [of _ N2] exI [of _ x]) (simp add: same1 blk1)
qed

subsection \<open>The properties\<close>

lemma bio_frame_logD: "bio_frame (N\<lparr>log := l\<rparr>) (norm t) \<Longrightarrow> log t = l"
  using bio_frame_log [of "N\<lparr>log := l\<rparr>" "norm t"] by simp

text \<open>
  C1: Transactions are atomic with respect to crashes. A transaction reads, modifies, \<open>log_write\<close>s and releases at
  most \<open>MAXOPBLOCKS\<close> blocks between \<open>begin_op\<close> and \<open>end_op\<close>; the log is idle before, and no block of it is
  modified. Then it ends, all blocks have their new content on the disk and in the cache, and the log is
  idle again. The platter changes only while the code sleeps, and at each of these moments the disk stands
  either for the content of all data blocks before the transaction or for the one after it: a crash
  never leaves a part of a transaction.
\<close>

theorem transaction_atomic:
  assumes "disk_works D" and "quiet i [] s" and "bc i {} {} s" and "log_geom (log s)" and "int MAXOPBLOCKS < lg_size (log s)"
    and "lh_n (lg_lh (log s)) = 0" and "lg_outstanding (log s) = 0" and "\<not> lg_committing (log s)" and "hd_n (disk_head (log s) (platter s)) = 0"
    and "\<forall>(n, f)\<in>set us. data_block (log s) n \<and> block_fun f" and "length us \<le> MAXOPBLOCKS"
  shows "achieves (env D i)
    (\<lambda>_ t. stands_for (log s) (platter t) (blk s) \<or> stands_for (log s) (platter t) (apply_updates us (blk s)))
    (\<lambda>_ t. quiet i [] t \<and> bc i {} {} t \<and> hd_n (disk_head (log s) (platter t)) = 0
      \<and> (\<forall>n. data_block (log s) n \<longrightarrow> pblk (platter t) n = apply_updates us (blk s) n \<and> blk t n = apply_updates us (blk s) n)
      \<and> lh_n (lg_lh (log t)) = 0 \<and> lg_outstanding (log t) = 0 \<and> \<not> lg_committing (log t))
    (transaction us s)"
proof -
  let ?v = "apply_updates us (blk s)"
  have blk: "blk (norm s) = blk s" by (rule ext) simp
  have pre: "bc i {} {} (norm s)" "norm (norm s) = norm s" "log s = log (norm s)" "hd_n (disk_head (log s) (platter (norm s))) = 0"
    "?v = apply_updates us (blk (norm s))" using assms by (simp_all add: blk)
  have cp: "stands_for (log s) p (blk s) \<or> stands_for (log s) p ?v" if "stands_for (log s) p (blk (norm s)) \<or> stands_for (log s) p ?v" for p
    using that by (simp add: blk)
  obtain N' x where d: "does D (\<lambda>M. stands_for (log s) (platter M) (blk s) \<or> stands_for (log s) (platter M) ?v) i [] (transaction us) (norm s) () [] N'"
    and N': "bc i {} {} N'" "hd_n (disk_head (log s) (platter N')) = 0"
      "\<forall>m. data_block (log s) m \<longrightarrow> pblk (platter N') m = ?v m \<and> blk N' m = ?v m" "log N' = clear_log (log s\<lparr>lg_lh := x\<rparr>)"
    by (rule exE [OF does_transaction [where CP = "\<lambda>p. stands_for (log s) p (blk s) \<or> stands_for (log s) p ?v",
          OF assms(1) pre(1-3) assms(4-8) pre(4) assms(10,11) pre(5)]]) (erule cp, elim exE conjE, rule that)
  show ?thesis
  proof (rule does_achieves [OF d assms(2)])
    fix t :: "'a lstate_scheme" assume t: "quiet i [] t" "norm t = N'"
    have "bc i {} {} (norm t)" "hd_n (disk_head (log s) (platter (norm t))) = 0"
      "\<forall>m. data_block (log s) m \<longrightarrow> pblk (platter (norm t)) m = ?v m \<and> blk (norm t) m = ?v m" "log (norm t) = clear_log (log s\<lparr>lg_lh := x\<rparr>)"
      unfolding t(2) using N' by blast+
    then show "quiet i [] t \<and> bc i {} {} t \<and> hd_n (disk_head (log s) (platter t)) = 0
      \<and> (\<forall>n. data_block (log s) n \<longrightarrow> pblk (platter t) n = ?v n \<and> blk t n = ?v n)
      \<and> lh_n (lg_lh (log t)) = 0 \<and> lg_outstanding (log t) = 0 \<and> \<not> lg_committing (log t)" using t(1) assms by simp
  qed simp
qed

text \<open>
  C2: Recovery at boot is correct and can itself be interrupted. If the disk stands for the content \<open>v\<close> of the
  data blocks, which is what every crash point of a transaction guarantees, then \<open>initlog\<close> ends with \<open>v\<close> on
  the disk and in the cache, an empty log on the disk and an idle log in memory; and whenever it sleeps the
  disk still stands for \<open>v\<close>, so that a crash during recovery loses nothing.
\<close>

theorem recovery_correct:
  assumes "disk_works D" and "quiet i [] s" and "bc i {} {} s" and "log_geom (sb_log sb (log s))"
    and "stands_for (sb_log sb (log s)) (platter s) v"
  shows "achieves (env D i) (\<lambda>_ t. stands_for (sb_log sb (log s)) (platter t) v)
    (\<lambda>_ t. quiet i [] t \<and> bc i {} {} t \<and> hd_n (disk_head (sb_log sb (log s)) (platter t)) = 0
      \<and> (\<forall>n. data_block (sb_log sb (log s)) n \<longrightarrow> pblk (platter t) n = v n \<and> blk t n = v n)
      \<and> lh_n (lg_lh (log t)) = 0 \<and> lg_start (log t) = sint (sb_logstart sb) \<and> lg_size (log t) = sint (sb_nlog sb))
    (initlog 1 sb s)"
proof -
  let ?l = "sb_log sb (log s)"
  have pre: "bc i {} {} (norm s)" "norm (norm s) = norm s" "?l = sb_log sb (log (norm s))" "stands_for ?l (platter (norm s)) v"
    using assms by simp_all
  obtain N' x where d: "does D (\<lambda>M. stands_for ?l (platter M) v) i [] (initlog 1 sb) (norm s) () [] N'"
    and N': "bc i {} {} N'" "hd_n (disk_head ?l (platter N')) = 0"
      "\<forall>m. data_block ?l m \<longrightarrow> pblk (platter N') m = v m \<and> blk N' m = v m" "bio_frame ((norm s)\<lparr>log := clear_log (?l\<lparr>lg_lh := x\<rparr>)\<rparr>) N'"
    by (rule exE [OF does_initlog [where CP = "\<lambda>p. stands_for ?l p v", OF pre(1) assms(1) pre(2,3) assms(4) pre(4)]])
      (assumption, elim exE conjE, rule that)
  show ?thesis
  proof (rule does_achieves [OF d assms(2)])
    fix t :: "'a lstate_scheme" assume t: "quiet i [] t" "norm t = N'"
    have "bc i {} {} (norm t)" "hd_n (disk_head ?l (platter (norm t))) = 0"
      "\<forall>m. data_block ?l m \<longrightarrow> pblk (platter (norm t)) m = v m \<and> blk (norm t) m = v m" "log t = clear_log (?l\<lparr>lg_lh := x\<rparr>)"
      using N' bio_frame_logD [OF N'(4) [folded t(2)]] unfolding t(2) by blast+
    then show "quiet i [] t \<and> bc i {} {} t \<and> hd_n (disk_head ?l (platter t)) = 0
      \<and> (\<forall>n. data_block ?l n \<longrightarrow> pblk (platter t) n = v n \<and> blk t n = v n)
      \<and> lh_n (lg_lh (log t)) = 0 \<and> lg_start (log t) = sint (sb_logstart sb) \<and> lg_size (log t) = sint (sb_nlog sb)"
      using t(1) by (simp add: sb_log_def)
  qed simp
qed

subsection \<open>A machine with a log\<close>

definition boot_machine :: "(nat \<Rightarrow> u8) \<Rightarrow> logst \<Rightarrow> lstate" where
  "boot_machine p l = bstate.extend (disk_machine\<lparr>platter := p\<rparr>) \<lparr>log = l\<rparr>"

definition log_machine :: "(nat \<Rightarrow> u8) \<Rightarrow> logst \<Rightarrow> lstate" where
  "log_machine p l = (case binit (boot_machine p l) of Ok _ s \<Rightarrow> s | _ \<Rightarrow> boot_machine p l)"

lemma boot_machine_ok:
  "quiet 0 [] (boot_machine p l)" "disk_idle (disk (boot_machine p l))" "bufs (boot_machine p l) b = empty_buf"
  "platter (boot_machine p l) = p" "log (boot_machine p l) = l"
  by (simp_all add: quiet_def awake_def disk_idle_def boot_machine_def disk_machine_def two_procs_def bstate.extend_def pstate.extend_def idle_disk_def
      mach_ok_def running_def lock_free_def ie_def SSTATUS_SIE_def init_spinlock_def)

lemma log_machine_ok:
  "quiet 0 [] (log_machine p l)" "bc 0 {} {} (log_machine p l)" "platter (log_machine p l) = p" "blk (log_machine p l) n = pblk p n"
  "log (log_machine p l) = l"
proof -
  obtain s where s: "binit (boot_machine p l) = Ok () s" "quiet 0 [] s" "bc 0 {} {} s" "platter s = p" "\<forall>n. blk s n = pblk p n"
    "bio_frame (norm (boot_machine p l)) (norm s)"
    using binit_runs [OF boot_machine_ok(1-3), of p l] by (auto simp: boot_machine_ok simp del: upt_rec_numeral)
  moreover have "log s = l" using bio_frame_log [OF s(6)] by (simp add: boot_machine_ok)
  ultimately show "quiet 0 [] (log_machine p l)" "bc 0 {} {} (log_machine p l)" "platter (log_machine p l) = p"
    "blk (log_machine p l) n = pblk p n" "log (log_machine p l) = l" by (simp_all add: log_machine_def)
qed

definition small_log :: logst where
  "small_log = \<lparr>lg_start = 2, lg_size = 30, lg_outstanding = 0, lg_committing = False, lg_dev = 1, lg_lh = \<lparr>lh_n = 0, lh_block = (\<lambda>_. 0)\<rparr>\<rparr>"

lemma small_log_block_50: "data_block small_log 50"
  by (simp add: data_block_def log_area_def small_log_def)

lemma block_fun_put32: "off + 4 \<le> BSIZE \<Longrightarrow> block_fun (put32 off v)"
  unfolding block_fun_def on_block_def by (auto simp: put32_def chars_put_def simp del: upt_rec_numeral)

lemma bget32_on_block: "off + 4 \<le> BSIZE \<Longrightarrow> bget32 (on_block (put32 off v) bs) off = v"
  unfolding on_block_def by (simp add: bget32 get32_put32 del: upt_rec_numeral)

lemma empty_head: "hd_n (disk_head l (\<lambda>_. 0)) = 0"
proof -
  have "get32 (\<lambda>_. 0) 0 = 0" by (simp add: get32_def chars_get_def upt_rec)
  then have "bget32 (map (\<lambda>_. 0) [0..<BSIZE]) 0 = 0" by (simp add: bget32 del: upt_rec_numeral)
  then show ?thesis by (simp add: hd_n_def disk_head_def pblk_def del: upt_rec_numeral)
qed

theorem transaction_atomic_witness:
  "achieves (env blk_device 0)
    (\<lambda>_ t. stands_for small_log (platter t) (pblk (\<lambda>_. 0)) \<or> stands_for small_log (platter t) (apply_updates [(50, put32 8 7)] (pblk (\<lambda>_. 0))))
    (\<lambda>_ t. bget32 (pblk (platter t) 50) 8 = 7 \<and> bget32 (blk t 50) 8 = 7)
    (transaction [(50, put32 8 7)] (log_machine (\<lambda>_. 0) small_log))"
proof -
  let ?s = "log_machine (\<lambda>_. 0) small_log"
  have blk: "blk ?s = pblk (\<lambda>_. 0)" by (rule ext) (simp add: log_machine_ok)
  have pre: "log_geom (log ?s)" "int MAXOPBLOCKS < lg_size (log ?s)" "lh_n (lg_lh (log ?s)) = 0" "lg_outstanding (log ?s) = 0" "\<not> lg_committing (log ?s)"
    "hd_n (disk_head (log ?s) (platter ?s)) = 0" "\<forall>(n, f)\<in>set [(50, put32 8 7)]. data_block (log ?s) n \<and> block_fun f"
    "length [(50 :: u32, put32 8 7)] \<le> MAXOPBLOCKS"
    by (simp_all add: log_machine_ok empty_head block_fun_put32 small_log_block_50) (simp_all add: log_geom_def small_log_def)
  show ?thesis
    using achieves_conseq [OF transaction_atomic [OF blk_device_works log_machine_ok(1,2) pre]]
    by (rule meta_mp [OF meta_mp]) (auto simp: blk log_machine_ok small_log_block_50 bget32_on_block)
qed

text \<open>A disk on which a transaction with block 50 was committed but not yet installed.\<close>

definition crashed_disk :: "nat \<Rightarrow> u8" where
  "crashed_disk = put32 2048 1 (put32 2052 50 (\<lambda>x. if 3072 \<le> x \<and> x < 4096 then 9 else 0))"

definition small_sb :: superblock where
  "small_sb = \<lparr>sb_magic = 0x10203040, sb_size = 2000, sb_nblocks = 1954, sb_ninodes = 200, sb_nlog = 30, sb_logstart = 2, sb_inodestart = 32, sb_bmapstart = 45\<rparr>"

lemma crashed_head: "hd_n (disk_head small_log crashed_disk) = 1" "hd_list (disk_head small_log crashed_disk) = [50]"
proof -
  let ?d = "\<lambda>k. crashed_disk (2048 + k)"
  have b: "disk_head small_log crashed_disk = map ?d [0..<BSIZE]"
    by (simp add: disk_head_def pblk_def disk_off_def small_log_def del: upt_rec_numeral)
  have get: "get32 ?d off = get32 crashed_disk (2048 + off)" for off
  proof -
    have "map ?d [off..<off + 4] = map crashed_disk [2048 + off..<2048 + off + 4]" by (rule nth_equalityI) (auto simp: add.assoc)
    then show ?thesis by (simp add: get32_def chars_get_def del: upt_rec_numeral)
  qed
  have "get32 crashed_disk 2048 = 1" "get32 crashed_disk 2052 = 50"
    unfolding crashed_disk_def by (simp_all add: get32_put32 get32_put32_other)
  then have "get32 ?d 0 = 1" "get32 ?d 4 = 50" by (simp_all add: get)
  then show n: "hd_n (disk_head small_log crashed_disk) = 1" "hd_list (disk_head small_log crashed_disk) = [50]"
    by (simp_all add: b hd_n_def hd_list_def bget32 del: upt_rec_numeral)
qed

theorem recovery_correct_witness:
  "achieves (env blk_device 0) (\<lambda>_ t. stands_for small_log (platter t) (recovered small_log crashed_disk))
    (\<lambda>_ t. pblk (platter t) 50 ! 3 = 9 \<and> blk t 50 ! 3 = 9 \<and> hd_n (disk_head small_log (platter t)) = 0)
    (initlog 1 small_sb (log_machine crashed_disk small_log))"
proof -
  let ?s = "log_machine crashed_disk small_log"
  have l: "sb_log small_sb (log ?s) = small_log" by (simp add: log_machine_ok sb_log_def small_sb_def small_log_def)
  have able: "loggable small_log [50]" by (simp add: loggable_def log_area_def small_log_def)
  then have pre: "log_geom (sb_log small_sb (log ?s))" "stands_for (sb_log small_sb (log ?s)) (platter ?s) (recovered small_log crashed_disk)"
    unfolding l by (simp add: log_geom_def small_log_def) (use able in \<open>simp add: log_machine_ok stands_for_def crashed_head\<close>)
  have "recovered small_log crashed_disk 50 = pblk crashed_disk (log_blockno 0 small_log)"
    using replay_in [of "[50]" 0 small_log crashed_disk] by (simp add: recovered_def crashed_head)
  moreover have "pblk crashed_disk 3 ! 3 = 9"
    by (simp add: pblk_def disk_off_def crashed_disk_def put32_def chars_put_def del: upt_rec_numeral)
  ultimately have r9: "recovered small_log crashed_disk 50 ! 3 = 9" by (simp add: log_blockno_def small_log_def)
  show ?thesis
    using achieves_conseq [OF recovery_correct [OF blk_device_works log_machine_ok(1,2) pre, unfolded l]]
    by (rule meta_mp [OF meta_mp]) (auto simp: small_log_block_50 r9)
qed

text \<open>\<open>as_proc j m\<close>: the CPU is given to process \<open>j\<close>, which executes \<open>m\<close>.\<close>

definition dispatch :: "nat \<Rightarrow> 'z mach_scheme \<Rightarrow> 'z mach_scheme" where
  "dispatch j s = s\<lparr>cpus := (cpus s)(tp s := (cpus s (tp s))\<lparr>cpu_proc := Some j\<rparr>)\<rparr>"

definition as_proc :: "nat \<Rightarrow> ('a, 'z mach_scheme) kern \<Rightarrow> ('a, 'z mach_scheme) kern" where
  "as_proc j m = sq (modify (dispatch j)) m"

lemma dispatch_lstate [simp]: "log (dispatch j s) = log s" "bufs (dispatch j s) = bufs s"
  by (simp_all add: dispatch_def)

lemma quiet_dispatch: "quiet i [] s \<Longrightarrow> quiet j [] (dispatch j s)"
  by (auto simp: quiet_def awake_def dispatch_def mach_ok_def ie_def running_def lock_free_def)

lemma begin_op_admits:
  assumes "quiet i [] s" and "\<not> lg_committing (log s)" and "lh_n (lg_lh (log s)) + (lg_outstanding (log s) + 1) * int MAXOPBLOCKS \<le> int LOGSIZE"
  shows "begin_op s = Ok () (s\<lparr>log := (log s)\<lparr>lg_outstanding := lg_outstanding (log s) + 1\<rparr>\<rparr>)"
  using assms by (simp add: begin_op_def run_simps again_run getl_def upd_log_def quiet_mach_ok quiet_free)

lemma begin_op_waits:
  assumes "quiet i [] s" and "\<not> lg_committing (log s)" and "int LOGSIZE < lh_n (lg_lh (log s)) + (lg_outstanding (log s) + 1) * int MAXOPBLOCKS"
  shows "\<exists>t k. begin_op s = Switched t k"
proof -
  have ok: "mach_ok s" "running s = Some i" "noff (cpus s (tp s)) = 0" "lock_free s LogLock" "lock_free s (ProcLock i)" "LogLock \<noteq> ProcLock i"
    using quiet_NilD [OF assms(1)] by (auto simp: awake_def)
  then obtain k where "sleep (Some ChanLog) LogLock (acq LogLock s) = Switched (acq (ProcLock i) (asleep i (Some ChanLog) s)) k"
    using sleep_run [of s i LogLock] by blast
  then show ?thesis using assms ok by (simp add: begin_op_def run_simps again_run getl_def)
qed

lemma log_write_admits:
  assumes "quiet i [] s" and "0 \<le> lh_n (lg_lh (log s))" and "lh_n (lg_lh (log s)) < int LOGSIZE" "lh_n (lg_lh (log s)) < lg_size (log s) - 1"
    and "1 \<le> lg_outstanding (log s)" and "b_blockno (bufs s b) \<notin> set (logged (log s))"
  shows "log_write b s = Ok () (s\<lparr>bufs := (bufs s)(b := (bufs s b)\<lparr>b_refcnt := b_refcnt (bufs s b) + 1\<rparr>),
    log := log_add (log s) (b_blockno (bufs s b))\<rparr>)"
proof -
  have "lock_free (bufs_update f u) l = lock_free u l" for f l and u :: "'a lstate_scheme" by (simp add: lock_free_def)
  then show ?thesis using assms log_slot_logged [of "log s" "b_blockno (bufs s b)"]
    by (simp add: log_write_def run_simps getl_def virtio_ops Let_def set_lh_block_def set_lh_n_def upd_log_def bpin_def whenM_def
        log_add_def quiet_mach_ok quiet_free)
qed

lemma log_write_refuses:
  assumes "quiet i [] s" and "lg_size (log s) - 1 \<le> lh_n (lg_lh (log s))"
  shows "log_write b s = Panic ''too big a transaction''"
  using assms by (simp add: log_write_def run_simps getl_def quiet_mach_ok quiet_free)

text \<open>\<open>m\<close> operations are in progress and have logged the blocks \<open>ns\<close> in a log of \<open>LOGSIZE\<close> blocks with its header.\<close>

definition reserved :: "int \<Rightarrow> u32 list \<Rightarrow> 'z lstate_scheme \<Rightarrow> bool" where
  "reserved m ns s \<longleftrightarrow> (\<exists>i. quiet i [] s) \<and> \<not> lg_committing (log s) \<and> lg_size (log s) = int LOGSIZE \<and>
     lg_outstanding (log s) = m \<and> logged (log s) = ns \<and> lh_n (lg_lh (log s)) = int (length ns)"

lemma reserved_begin:
  assumes "reserved m [] s" and "(m + 1) * int MAXOPBLOCKS \<le> int LOGSIZE"
  shows "\<exists>t. as_proc j begin_op s = Ok () t \<and> reserved (m + 1) [] t \<and> bufs t = bufs s"
proof -
  obtain i where "quiet i [] s" using assms(1) by (auto simp: reserved_def)
  then have q: "quiet j [] (dispatch j s)" by (rule quiet_dispatch)
  have "begin_op (dispatch j s) = Ok () ((dispatch j s)\<lparr>log := (log s)\<lparr>lg_outstanding := m + 1\<rparr>\<rparr>)"
    using begin_op_admits [OF q] assms by (simp add: reserved_def)
  moreover have "reserved (m + 1) [] ((dispatch j s)\<lparr>log := (log s)\<lparr>lg_outstanding := m + 1\<rparr>\<rparr>)"
    using quiet_log [OF q, of "\<lambda>_. (log s)\<lparr>lg_outstanding := m + 1\<rparr>"] assms(1) by (auto simp: reserved_def logged_def)
  ultimately show ?thesis by (simp add: as_proc_def run_simps)
qed

lemma reserved_write:
  assumes "reserved m ns s" and "1 \<le> m" and "length ns < LOGSIZE - 1" and "b_blockno (bufs s b) \<notin> set ns"
  shows "\<exists>t. as_proc j (log_write b) s = Ok () t \<and> reserved m (ns @ [b_blockno (bufs s b)]) t \<and>
    (\<forall>c. b_blockno (bufs t c) = b_blockno (bufs s c))"
proof -
  obtain i where "quiet i [] s" using assms(1) by (auto simp: reserved_def)
  then have q: "quiet j [] (dispatch j s)" by (rule quiet_dispatch)
  let ?n = "b_blockno (bufs s b)"
  let ?t = "(dispatch j s)\<lparr>bufs := (bufs s)(b := (bufs s b)\<lparr>b_refcnt := b_refcnt (bufs s b) + 1\<rparr>), log := log_add (log s) ?n\<rparr>"
  note r = assms(1) [unfolded reserved_def]
  have "log_write b (dispatch j s) = Ok () ?t"
    using log_write_admits [OF q, of b, unfolded dispatch_lstate] r assms(2-4) by simp
  moreover have "quiet j [] ?t" by (rule quiet_log [OF quiet_bstate(1) [OF q]])
  moreover have "log ?t = log_add (log s) ?n" "b_blockno (bufs ?t c) = b_blockno (bufs s c)" for c by simp_all
  ultimately obtain t where t: "log_write b (dispatch j s) = Ok () t" "quiet j [] t" "log t = log_add (log s) ?n"
    "\<And>c. b_blockno (bufs t c) = b_blockno (bufs s c)" by blast
  have "logged (log t) = ns @ [?n]" using logged_add [of "log s" ?n] r assms(4) t(3) by simp
  moreover have "lh_n (lg_lh (log t)) = int (length ns) + 1" "lg_committing (log t) = lg_committing (log s)"
    "lg_size (log t) = lg_size (log s)" "lg_outstanding (log t) = lg_outstanding (log s)"
    using r assms(4) by (simp_all add: t(3) log_add_def)
  ultimately have "reserved m (ns @ [?n]) t" using r t(2) by (auto simp: reserved_def)
  then show ?thesis using t(1,4) by (simp add: as_proc_def run_simps)
qed

lemma reserved_writes:
  assumes "reserved m ns s" and "1 \<le> m" and "length ns + length xs \<le> LOGSIZE - 1" and "distinct (ns @ map (\<lambda>(j, b). b_blockno (bufs s b)) xs)"
  shows "\<exists>t. forM xs (\<lambda>(j, b). as_proc j (log_write b)) s = Ok () t \<and>
    reserved m (ns @ map (\<lambda>(j, b). b_blockno (bufs s b)) xs) t"
  using assms
proof (induction xs arbitrary: ns s)
  case (Cons x xs)
  obtain j b where x: "x = (j, b)" by force
  obtain u where u: "as_proc j (log_write b) s = Ok () u" "reserved m (ns @ [b_blockno (bufs s b)]) u"
    "\<And>c. b_blockno (bufs u c) = b_blockno (bufs s c)"
    using reserved_write [OF Cons.prems(1,2), of b j] Cons.prems(3,4) by (auto simp: x)
  from Cons.IH [OF u(2) Cons.prems(2)] Cons.prems(3,4) show ?case by (auto simp: x u(1,3) run_simps)
qed (simp add: run_simps)

text \<open>
  C26: \<open>begin_op\<close> reserves more log space than there is. \<open>mkfs\<close> makes a log of \<open>LOGSIZE\<close> blocks including the header
  block, so it has \<open>LOGSIZE - 1\<close> slots. In an empty log, three processes, and no fourth, may begin an operation,
  each of which may log \<open>MAXOPBLOCKS\<close> blocks, that is \<open>LOGSIZE\<close> in all; in whatever order they log \<open>LOGSIZE\<close>
  different blocks, every \<open>log_write\<close> but the last succeeds, and the last panics.
\<close>

theorem log_reservation_gap:
  assumes "quiet i [] s" and "\<not> lg_committing (log s)" and "lh_n (lg_lh (log s)) = 0" and "lg_outstanding (log s) = 0"
    and "lg_size (log s) = int LOGSIZE" and "length xs = 3 * MAXOPBLOCKS" and "distinct (map (\<lambda>(j, b). b_blockno (bufs s b)) xs)"
  shows "\<exists>t u. forM [j1, j2, j3] (\<lambda>j. as_proc j begin_op) s = Ok () t \<and>
    (\<exists>v k. as_proc j4 begin_op t = Switched v k) \<and>
    forM (butlast xs) (\<lambda>(j, b). as_proc j (log_write b)) t = Ok () u \<and>
    forM xs (\<lambda>(j, b). as_proc j (log_write b)) t = Panic ''too big a transaction''"
proof -
  have "reserved 0 [] s" using assms by (auto simp: reserved_def logged_def)
  then obtain t1 where t1: "as_proc j1 begin_op s = Ok () t1" "reserved 1 [] t1" "bufs t1 = bufs s"
    using reserved_begin [of 0 s j1] by auto
  then obtain t2 where t2: "as_proc j2 begin_op t1 = Ok () t2" "reserved 2 [] t2" "bufs t2 = bufs s"
    using reserved_begin [of 1 t1 j2] by auto
  then obtain t where t: "as_proc j3 begin_op t2 = Ok () t" "reserved 3 [] t" "bufs t = bufs s"
    using reserved_begin [of 2 t2 j3] by auto
  obtain ys y where xs: "xs = ys @ [y]" using assms(6) by (cases xs rule: rev_cases) auto
  obtain j b where y: "y = (j, b)" by force
  obtain u where u: "forM ys (\<lambda>(j, b). as_proc j (log_write b)) t = Ok () u"
      "reserved 3 (map (\<lambda>(j, b). b_blockno (bufs s b)) ys) u"
    using reserved_writes [OF t(2), of ys] assms(6,7) t(3) by (auto simp: xs)
  have q: "\<exists>i. quiet i [] t" "\<exists>i. quiet i [] u" using t(2) u(2) by (auto simp: reserved_def)
  then have q: "quiet j4 [] (dispatch j4 t)" "quiet j [] (dispatch j u)" using quiet_dispatch by blast+
  have "\<exists>v k. as_proc j4 begin_op t = Switched v k"
    using begin_op_waits [OF q(1)] t(2) by (simp add: reserved_def as_proc_def run_simps)
  moreover have "as_proc j (log_write b) u = Panic ''too big a transaction''"
    using log_write_refuses [OF q(2)] u(2) assms(6) by (simp add: reserved_def as_proc_def run_simps xs)
  ultimately show ?thesis using t1(1) t2(1) t(1) u(1) by (auto simp: run_simps xs y forM_append)
qed

theorem log_reservation_gap_witness:
  "\<exists>t u. forM [0, 1, 2] (\<lambda>j. as_proc j begin_op) ((log_machine (\<lambda>_. 0) small_log)\<lparr>bufs := \<lambda>b. empty_buf\<lparr>b_blockno := of_nat (100 + b)\<rparr>\<rparr>) = Ok () t \<and>
    (\<exists>v k. as_proc 3 begin_op t = Switched v k) \<and>
    forM (butlast (map (\<lambda>b. (b mod 3, b)) [0..<30])) (\<lambda>(j, b). as_proc j (log_write b)) t = Ok () u \<and>
    forM (map (\<lambda>b. (b mod 3, b)) [0..<30]) (\<lambda>(j, b). as_proc j (log_write b)) t = Panic ''too big a transaction''"
proof -
  let ?s = "(log_machine (\<lambda>_. 0) small_log)\<lparr>bufs := \<lambda>b. empty_buf\<lparr>b_blockno := of_nat (100 + b)\<rparr>\<rparr>"
  have q: "quiet 0 [] ?s" by (rule quiet_bstate(1) [OF log_machine_ok(1)])
  have l: "log ?s = small_log" by (simp add: log_machine_ok)
  have "inj_on (\<lambda>b. of_nat (100 + b) :: u32) (set [0..<30])"
    by (rule inj_onI) (simp add: word_of_nat_eq_iff take_bit_nat_eq_self)
  then have "distinct (map (\<lambda>(j, b). b_blockno (bufs ?s b)) (map (\<lambda>b. (b mod 3, b)) [0..<30]))"
    by (simp add: distinct_map comp_def del: upt_rec_numeral of_nat_add)
  with q l show ?thesis
    by (intro log_reservation_gap [of 0]) (simp_all add: small_log_def del: upt_rec_numeral)
qed

end
