(* ===== verification/Ring.thy ===== *)
theory Ring
  imports Prelude
begin

text \<open>
  Ring buffers. The transmit buffer of the UART, the input buffer of the console and a pipe are arrays of
  \<open>cap\<close> characters with a read and a write counter that only ever go up and wrap around at the width of the
  machine word; position \<open>k\<close> of the stream is at index \<open>k % cap\<close>. The locale has the law that makes this
  work, that the capacity divides the range of the counters, and what follows from it for the queue of
  characters that the buffer stands for.
\<close>

definition ring_list :: "nat \<Rightarrow> (nat \<Rightarrow> 'a) \<Rightarrow> 'w::len word \<Rightarrow> 'w word \<Rightarrow> 'a list" where
  "ring_list cap buf r w = map (\<lambda>k. buf ((unat r + k) mod cap)) [0..<unat (w - r)]"

lemma length_ring_list [simp]: "length (ring_list cap buf r w) = unat (w - r)"
  by (simp add: ring_list_def)

lemma ring_list_empty [simp]: "ring_list cap buf r r = []"
  by (simp add: ring_list_def)

locale ring =
  fixes cap :: nat and width :: "'w::len itself"
  assumes cap_pos: "0 < cap" and cap_dvd: "cap dvd 2 ^ LENGTH('w)" and cap_less: "cap < 2 ^ LENGTH('w)"
begin

lemma index_add: "unat (r + of_nat k :: 'w word) mod cap = (unat r + k) mod cap"
proof -
  have "unat (r + of_nat k) = (unat r + k) mod 2 ^ LENGTH('w)"
    by (simp add: unat_word_ariths unat_of_nat mod_add_right_eq)
  then show ?thesis using cap_dvd by (simp add: mod_mod_cancel)
qed

lemma write_index: "unat (w :: 'w word) mod cap = (unat r + unat (w - r)) mod cap"
  using index_add [of r "unat (w - r)"] by simp

lemma count_put: "unat (w - r :: 'w word) < cap \<Longrightarrow> unat (w + 1 - r) = Suc (unat (w - r))"
proof -
  assume "unat (w - r) < cap"
  then have "unat (w - r) + 1 < 2 ^ LENGTH('w)" using cap_less by simp
  then have "unat (w - r + 1) = unat (w - r) + 1" by (simp add: unat_word_ariths)
  then show ?thesis by (simp add: algebra_simps)
qed

lemma put:
  assumes "unat (w - r :: 'w word) < cap"
  shows "ring_list cap (buf(unat w mod cap := c)) r (w + 1) = ring_list cap buf r w @ [c]"
proof -
  let ?n = "unat (w - r)"
  have "(unat r + k) mod cap \<noteq> unat w mod cap" if "k < ?n" for k
  proof
    assume "(unat r + k) mod cap = unat w mod cap"
    then have "(unat r + ?n) mod cap = (unat r + k) mod cap" using write_index [of w r] by simp
    then have "cap dvd (unat r + ?n) - (unat r + k)" using that by (metis add_le_cancel_left less_imp_le mod_eq_dvd_iff_nat)
    then have "cap dvd ?n - k" by simp
    then show False using that assms by (metis diff_is_0_eq dvd_imp_le less_imp_diff_less not_le zero_less_diff)
  qed
  then show ?thesis unfolding ring_list_def count_put [OF assms] using write_index [of w r] by simp
qed

lemma get:
  assumes "r \<noteq> (w :: 'w word)"
  shows "ring_list cap buf r w = buf (unat r mod cap) # ring_list cap buf (r + 1) w"
proof -
  have "w - r \<noteq> 0" using assms by simp
  then have n: "unat (w - r) = Suc (unat (w - (r + 1)))"
    by (metis diff_diff_add unat_minus_one Suc_pred' unat_gt_0)
  have "buf ((unat r + Suc k) mod cap) = buf ((unat (r + 1) + k) mod cap)" for k
    using index_add [of r 1] by (metis add_Suc_right add_Suc_shift mod_add_left_eq of_nat_1 Suc_eq_plus1)
  then show ?thesis unfolding ring_list_def n by (simp add: upt_conv_Cons map_Suc_upt [symmetric] del: upt_Suc)
qed

lemma unput:
  assumes "r \<noteq> (w :: 'w word)"
  shows "ring_list cap buf r (w - 1) = butlast (ring_list cap buf r w)"
proof -
  have "w - r \<noteq> 0" using assms by simp
  then have n: "unat (w - r) = Suc (unat (w - 1 - r))"
    by (metis diff_diff_eq2 diff_add_eq diff_right_commute unat_minus_one Suc_pred' unat_gt_0)
  show ?thesis unfolding ring_list_def n by simp
qed

lemma full: "unat (w - r :: 'w word) \<le> cap \<Longrightarrow> w = r + of_nat cap \<longleftrightarrow> unat (w - r) = cap"
proof -
  assume "unat (w - r) \<le> cap"
  have "unat (of_nat cap :: 'w word) = cap" using cap_less by (simp add: unat_of_nat)
  then have "w - r = of_nat cap \<longleftrightarrow> unat (w - r) = cap" by (simp add: word_eq_iff_unsigned [where 'a = nat])
  then show ?thesis by (simp add: algebra_simps)
qed

end

end
