(* ===== verification/Umem.thy ===== *)
theory Umem
  imports Ucopy Quiet
begin

text \<open>
  Functions that use nothing of the state but the memory, such as the copies between kernel and user
  memory: they never wait, and what they do depends on the memory only. So they can be used in the
  big-step execution of a process.
\<close>

definition memop :: "('a, 'z kmem_scheme) kern \<Rightarrow> bool" where
  "memop m \<longleftrightarrow> (\<exists>f. \<forall>s. m s = (case f (mem s) of Inl e \<Rightarrow> Stop e | Inr (a, m') \<Rightarrow> Ok a (s\<lparr>mem := m'\<rparr>)))"

named_theorems memop_intros \<open>functions of the memory, one rule per combinator and operation\<close>

lemma memopI: "(\<And>s. m s = (case f (mem s) of Inl e \<Rightarrow> Stop e | Inr (a, m') \<Rightarrow> Ok a (s\<lparr>mem := m'\<rparr>))) \<Longrightarrow> memop m"
  unfolding memop_def by blast

lemma memop_basic [memop_intros]:
  "memop (ret a)" "memop (panic e)" "memop fault" "memop (guardM b)" "memop (upd_mem h)"
proof -
  show "memop (ret a)" by (rule memopI [where f = "\<lambda>m. Inr (a, m)"]) (simp add: run_simps)
  show "memop (panic e)" "memop fault" by (rule memopI [where f = "\<lambda>m. Inl _"], simp add: run_simps)+
  show "memop (guardM b)" by (rule memopI [where f = "\<lambda>m. if b then Inr ((), m) else Inl Undefined"]) (simp add: run_simps)
  show "memop (upd_mem h)" by (rule memopI [where f = "\<lambda>m. Inr ((), h m)"]) (simp add: run_simps upd_mem_def)
qed

lemma memop_gets: "memop (gets (\<lambda>s. g (mem s)))"
  by (rule memopI [where f = "\<lambda>m. Inr (g m, m)"]) (simp add: run_simps)

lemma memop_load [memop_intros]: "memop (gets (\<lambda>s. mem_bytes (mem s) a n))" "memop (gets (\<lambda>s. load64 (mem s) a))"
  by (rule memop_gets [where g = "\<lambda>m. mem_bytes m a n"], rule memop_gets [where g = "\<lambda>m. load64 m a"])

lemma memop_bnd [memop_intros]:
  assumes "memop m" and "\<And>a. memop (g a)"
  shows "memop (bnd m g)"
proof -
  obtain f where f: "\<And>s. m s = (case f (mem s) of Inl e \<Rightarrow> Stop e | Inr (a, m') \<Rightarrow> Ok a (s\<lparr>mem := m'\<rparr>))"
    using assms(1) unfolding memop_def by blast
  have "\<exists>h. \<forall>a s. g a s = (case h a (mem s) of Inl e \<Rightarrow> Stop e | Inr (b, m') \<Rightarrow> Ok b (s\<lparr>mem := m'\<rparr>))"
    using assms(2) unfolding memop_def by (intro choice) blast
  then obtain h where h: "\<And>a s. g a s = (case h a (mem s) of Inl e \<Rightarrow> Stop e | Inr (b, m') \<Rightarrow> Ok b (s\<lparr>mem := m'\<rparr>))" by blast
  show ?thesis
    by (rule memopI [where f = "\<lambda>m. case f m of Inl e \<Rightarrow> Inl e | Inr (a, m') \<Rightarrow> h a m'"])
      (auto simp: bnd_run f h split: sum.split prod.split)
qed

lemma memop_sq [memop_intros]: "memop m \<Longrightarrow> memop n \<Longrightarrow> memop (sq m n)"
  by (simp add: sq_def memop_bnd)

lemma memop_combs [memop_intros]:
  "(b \<Longrightarrow> memop m) \<Longrightarrow> (\<not> b \<Longrightarrow> memop n) \<Longrightarrow> memop (if b then m else n)"
  "memop (g x) \<Longrightarrow> memop (let y = x in g y)"
  "(\<And>a b. p = (a, b) \<Longrightarrow> memop (k a b)) \<Longrightarrow> memop (case p of (a, b) \<Rightarrow> k a b)"
  by (auto split: prod.split)

lemma memop_walk [memop_intros]: "memop (walk r va False)" "memop (get_pte a)" "memop (set_pte a v)"
proof -
  show g: "memop (get_pte a)" "memop (set_pte a v)" for a by (simp_all add: get_pte_def set_pte_def memop_intros)
  have "memop (walk_loop l p va False)" for l p
    by (induction l arbitrary: p) (simp_all add: Let_def memop_intros g)
  then show "memop (walk r va False)" unfolding walk_def by (intro memop_intros)
qed

lemma memop_walkaddr [memop_intros]: "memop (walkaddr r va)"
  unfolding walkaddr_def by (intro memop_intros)

lemma memop_copy [memop_intros]: "memop (copyout r dst src len)" "memop (copyin r va len)" "memop (copyinstr r va len)"
proof -
  show "memop (copyout r dst src len)"
  proof (induction r dst src len rule: copyout.induct)
    case (1 r dst src len)
    show ?case by (subst copyout.simps) (intro memop_intros 1; (assumption | rule refl)?)
  qed
  have "memop (copyin_acc r acc va len)" for acc
  proof (induction r acc va len rule: copyin_acc.induct)
    case (1 r acc va len)
    show ?case by (subst copyin_acc.simps) (intro memop_intros 1; (assumption | rule refl)?)
  qed
  then show "memop (copyin r va len)" by (simp add: copyin_def)
  have "memop (copyinstr_acc r acc va len)" for acc
  proof (induction r acc va len rule: copyinstr_acc.induct)
    case (1 r acc va len)
    show ?case by (subst copyinstr_acc.simps) (intro memop_intros 1; (assumption | rule refl | erule sym)?)
  qed
  then show "memop (copyinstr r va len)" by (simp add: copyinstr_def)
qed

text \<open>A function of the memory does the same in the running system as on its data.\<close>

lemma memop_frame:
  assumes "memop m" and "m s = Ok a t"
  shows "t = s\<lparr>mem := mem t\<rparr>"
proof -
  obtain f where f: "\<And>s. m s = (case f (mem s) of Inl e \<Rightarrow> Stop e | Inr (a, m') \<Rightarrow> Ok a (s\<lparr>mem := m'\<rparr>))"
    using assms(1) unfolding memop_def by blast
  show ?thesis using f [of s] assms(2) by (auto split: sum.splits prod.splits)
qed

lemma does_memop:
  assumes "memop m" and "m N = Ok a N'"
  shows "does D C i L m N a L N'"
proof (rule does_exact)
  fix s :: "'a pstate_scheme" assume q: "quiet i L s" and n: "norm s = N"
  obtain f where f: "\<And>s. m s = (case f (mem s) of Inl e \<Rightarrow> Stop e | Inr (a, m') \<Rightarrow> Ok a (s\<lparr>mem := m'\<rparr>))"
    using assms(1) unfolding memop_def by blast
  have "mem s = mem N" using n by auto
  then obtain m' where "m s = Ok a (s\<lparr>mem := m'\<rparr>)" "N' = N\<lparr>mem := m'\<rparr>"
    using f [of N] f [of s] assms(2) by (auto split: sum.splits prod.splits)
  then show "\<exists>t. m s = Ok a t \<and> quiet i L t \<and> norm t = N'" using q n by simp
qed

lemma vmap_cong:
  assumes "vmap (tab (mem t)) r = vmap (tab (mem s)) r"
  shows "upa t r va = upa s r va" "writable t r va = writable s r va" "uspace t r A = uspace s r A"
proof -
  show u: "upa t r va = upa s r va" for va using assms by (simp add: upa_def)
  show w: "writable t r va = writable s r va" for va using assms by (simp add: writable_def)
  show "uspace t r A = uspace s r A" by (simp add: uspace_def u w)
qed

lemma uvm_norm: "uvm_inv s r A ps \<Longrightarrow> uvm_inv (norm s) r A ps" "uspace (norm s) r A = uspace s r A"
  "ubyte (norm s) r va = ubyte s r va" "writable (norm s) r va = writable s r va" "uprefix (norm s) r va n = uprefix s r va n"
proof -
  have "mach_ok (norm s)" "lock_free (norm s) l" for l
    by (simp_all add: norm_def mach_ok_def lock_free_def ie_def SSTATUS_SIE_def init_spinlock_def)
  then show "uvm_inv s r A ps \<Longrightarrow> uvm_inv (norm s) r A ps" by (simp add: uvm_inv_def vm_inv_def kmem_inv_def)
  show "uspace (norm s) r A = uspace s r A" "writable (norm s) r va = writable s r va" by (rule vmap_cong, simp)+
  show ub: "ubyte (norm s) r va = ubyte s r va" for va by (simp add: ubyte_def upa_def)
  show "uprefix (norm s) r va n = uprefix s r va n" by (simp add: uprefix_def ub upa_def)
qed

text \<open>Storing and fetching one character.\<close>

lemma does_copyout1:
  assumes "uvm_inv N r A ps" and "uspace N r A" and "writable N r va"
  shows "\<exists>N'. does D C i L (copyout r va (\<lambda>_. c) 1) N 0 L N' \<and> N' = N\<lparr>mem := mem N'\<rparr> \<and> uvm_inv N' r A ps \<and> uspace N' r A
    \<and> (\<forall>x. writable N' r x = writable N r x) \<and> (\<forall>x. ubyte N' r x = (if x = va then Some c else ubyte N r x))"
proof -
  have w: "wlen N r va 1 = 1" using assms(3) by (simp add: wlen_def addrs_def)
  obtain N' where N': "copyout r va (\<lambda>_. c) 1 N = Ok 0 N'" "uacct r N A ps N' A ps" "vmap (tab (mem N')) r = vmap (tab (mem N)) r"
    "\<And>x. ubyte N' r x = (if unat (x - va) < 1 then Some c else ubyte N r x)"
    using copyout_ok [OF assms(1,2), of va "\<lambda>_. c" 1] w by auto
  have "does D C i L (copyout r va (\<lambda>_. c) 1) N 0 L N'" by (rule does_memop [OF memop_copy(1) N'(1)])
  moreover have "N' = N\<lparr>mem := mem N'\<rparr>" by (rule memop_frame [OF memop_copy(1) N'(1)])
  moreover have "uvm_inv N' r A ps" using N'(2) by (simp add: uacct_def)
  moreover have "uspace N' r A" using assms(2) vmap_cong(3) [OF N'(3)] by simp
  moreover have "unat (x - va) < 1 \<longleftrightarrow> x = va" for x by (simp add: unat_eq_0)
  ultimately show ?thesis using N'(3,4) by (intro exI [of _ N']) (auto simp: writable_def)
qed

lemma does_copyin1:
  assumes "vm_inv N r ps" and "ubyte N r va = Some c"
  shows "does D C i L (copyin r va 1) N (0, [c]) L N"
proof (rule does_memop [OF memop_copy(2)])
  have "uprefix N r va 1 = [c]" using assms(2) by (auto simp: uprefix_def addrs_def ubyte_def)
  then show "copyin r va 1 N = Ok (0, [c]) N" using copyin_acc_eq [OF assms(1), of "[]" va 1] by (simp add: copyin_def Let_def)
qed

end
