(* ===== verification/Uart.thy ===== *)
theory Uart
  imports Recovery Ring
begin

text \<open>
  \<open>kernel/uart.c\<close> up to the interrupt handler (which is in \<open>Console\<close>), with the state of
  \<open>kernel/printf.c\<close>, \<open>kernel/console.c\<close> and the device switch. The UART itself is not part of the kernel:
  \<open>udev_read\<close> gives the value that it returns for a register, as a function of the accesses so far.
\<close>

unbundle bit_operations_syntax

datatype uaccess = URead nat | UWrite nat u8

abbreviation (input) INPUT_BUF_SIZE :: nat where "INPUT_BUF_SIZE \<equiv> 128"
abbreviation (input) UART_TX_BUF_SIZE :: nat where "UART_TX_BUF_SIZE \<equiv> 32"

record conbuf =
  cons_buf :: chars
  cons_r :: u32
  cons_w :: u32
  cons_e :: u32

text \<open>The functions that \<open>devsw\<close> can point to.\<close>

datatype readfn = Consoleread
datatype writefn = Consolewrite

record devsw =
  dsw_read :: "readfn option"
  dsw_write :: "writefn option"

record ustate = lstate +
  udev_read :: "uaccess list \<Rightarrow> nat \<Rightarrow> u8"
  uart_accs :: "uaccess list"
  uart_tx_buf :: chars
  uart_tx_w :: u64
  uart_tx_r :: u64
  panicked :: bool
  pr_locking :: bool
  cons :: conbuf
  devsws :: "nat \<Rightarrow> devsw"

subsection \<open>Registers\<close>

abbreviation (input) RHR :: nat where "RHR \<equiv> 0"
abbreviation (input) THR :: nat where "THR \<equiv> 0"
abbreviation (input) IER :: nat where "IER \<equiv> 1"
abbreviation (input) IER_RX_ENABLE :: u8 where "IER_RX_ENABLE \<equiv> 1"
abbreviation (input) IER_TX_ENABLE :: u8 where "IER_TX_ENABLE \<equiv> 2"
abbreviation (input) FCR :: nat where "FCR \<equiv> 2"
abbreviation (input) FCR_FIFO_ENABLE :: u8 where "FCR_FIFO_ENABLE \<equiv> 1"
abbreviation (input) FCR_FIFO_CLEAR :: u8 where "FCR_FIFO_CLEAR \<equiv> 6"
abbreviation (input) ISR :: nat where "ISR \<equiv> 2"
abbreviation (input) LCR :: nat where "LCR \<equiv> 3"
abbreviation (input) LCR_EIGHT_BITS :: u8 where "LCR_EIGHT_BITS \<equiv> 3"
abbreviation (input) LCR_BAUD_LATCH :: u8 where "LCR_BAUD_LATCH \<equiv> 128"
abbreviation (input) LSR :: nat where "LSR \<equiv> 5"
abbreviation (input) LSR_RX_READY :: u8 where "LSR_RX_READY \<equiv> 1"
abbreviation (input) LSR_TX_IDLE :: u8 where "LSR_TX_IDLE \<equiv> 32"

definition ReadReg :: "nat \<Rightarrow> (u8, 'z ustate_scheme) kern" where
  "ReadReg r =
     bnd (gets (\<lambda>s. udev_read s (uart_accs s) r)) (\<lambda>v.
     sq (modify (\<lambda>s. s\<lparr>uart_accs := uart_accs s @ [URead r]\<rparr>)) (ret v))"

definition WriteReg :: "nat \<Rightarrow> u8 \<Rightarrow> (unit, 'z ustate_scheme) kern" where
  "WriteReg r v = modify (\<lambda>s. s\<lparr>uart_accs := uart_accs s @ [UWrite r v]\<rparr>)"

text \<open>\<open>for(;;);\<close>\<close>

definition forever :: "('a, 's) kern" where
  "forever = again (ret (Inr ()))"

subsection \<open>The driver\<close>

definition uartinit :: "(unit, 'z ustate_scheme) kern" where
  "uartinit =
     sq (WriteReg IER 0x00) (
     sq (WriteReg LCR LCR_BAUD_LATCH) (
     sq (WriteReg 0 0x03) (
     sq (WriteReg 1 0x00) (
     sq (WriteReg LCR LCR_EIGHT_BITS) (
     sq (WriteReg FCR (FCR_FIFO_ENABLE OR FCR_FIFO_CLEAR)) (
     sq (WriteReg IER (IER_TX_ENABLE OR IER_RX_ENABLE)) (
     initlock UartTxLock ''uart'')))))))"

text \<open>
  The loop of \<open>uartstart\<close>. Every round that goes on takes a character out of the buffer, so the number of
  characters in the buffer bounds the number of rounds.
\<close>

primrec uartstart_loop :: "nat \<Rightarrow> (unit, 'z ustate_scheme) kern" where
  "uartstart_loop 0 = fault"
| "uartstart_loop (Suc n) =
     bnd (gets uart_tx_w) (\<lambda>w.
     bnd (gets uart_tx_r) (\<lambda>r.
     if w = r then sq (ReadReg ISR) (ret ())
     else bnd (ReadReg LSR) (\<lambda>v.
     if v AND LSR_TX_IDLE = 0 then ret ()
     else bnd (gets (\<lambda>s. uart_tx_buf s (unat (uart_tx_r s) mod UART_TX_BUF_SIZE))) (\<lambda>c.
     sq (modify (\<lambda>s. s\<lparr>uart_tx_r := uart_tx_r s + 1\<rparr>)) (
     sq (wakeup (Some ChanUartTx)) (
     sq (WriteReg THR c) (
     uartstart_loop n)))))))"

definition uartstart :: "(unit, 'z ustate_scheme) kern" where
  "uartstart = bnd (gets (\<lambda>s. uart_tx_w s - uart_tx_r s)) (\<lambda>n. uartstart_loop (Suc (unat n)))"

definition uartputc :: "int \<Rightarrow> (unit, 'z ustate_scheme) kern" where
  "uartputc c =
     sq (acquire UartTxLock) (
     bnd (gets panicked) (\<lambda>p.
     sq (whenM p forever) (
     sq (again (
       bnd (gets uart_tx_w) (\<lambda>w.
       bnd (gets uart_tx_r) (\<lambda>r.
       if w = r + of_nat UART_TX_BUF_SIZE then sq (sleep (Some ChanUartTx) UartTxLock) (ret (Inr ()))
       else ret (Inl ()))))) (
     sq (modify (\<lambda>s. s\<lparr>uart_tx_buf := (uart_tx_buf s)(unat (uart_tx_w s) mod UART_TX_BUF_SIZE := word_of_int c)\<rparr>)) (
     sq (modify (\<lambda>s. s\<lparr>uart_tx_w := uart_tx_w s + 1\<rparr>)) (
     sq uartstart (
     release UartTxLock)))))))"

definition uartputc_sync :: "int \<Rightarrow> (unit, 'z ustate_scheme) kern" where
  "uartputc_sync c =
     sq push_off (
     bnd (gets panicked) (\<lambda>p.
     sq (whenM p forever) (
     sq (again (
       bnd (ReadReg LSR) (\<lambda>v.
       ret (if v AND LSR_TX_IDLE = 0 then Inr () else Inl ())))) (
     sq (WriteReg THR (word_of_int c)) (
     pop_off)))))"

definition uartgetc :: "(int, 'z ustate_scheme) kern" where
  "uartgetc =
     bnd (ReadReg LSR) (\<lambda>v.
     if v AND 0x01 \<noteq> 0 then bnd (ReadReg RHR) (\<lambda>c. ret (uint c))
     else ret (-1))"

subsection \<open>Execution\<close>

lemma ustate_acq [simp]:
  "udev_read (acq l s) = udev_read s" "uart_accs (acq l s) = uart_accs s" "uart_tx_buf (acq l s) = uart_tx_buf s"
  "uart_tx_w (acq l s) = uart_tx_w s" "uart_tx_r (acq l s) = uart_tx_r s" "panicked (acq l s) = panicked s" "cons (acq l s) = cons s"
  "uart_accs_update f (acq l s) = acq l (uart_accs_update f s)" "uart_tx_buf_update g (acq l s) = acq l (uart_tx_buf_update g s)"
  "uart_tx_w_update h (acq l s) = acq l (uart_tx_w_update h s)" "uart_tx_r_update h (acq l s) = acq l (uart_tx_r_update h s)"
  "cons_update k (acq l s) = acq l (cons_update k s)"
  by (simp_all add: acq_def)

lemma ustate_norm [simp]:
  "udev_read (norm s) = udev_read s" "uart_accs (norm s) = uart_accs s" "uart_tx_buf (norm s) = uart_tx_buf s"
  "uart_tx_w (norm s) = uart_tx_w s" "uart_tx_r (norm s) = uart_tx_r s" "panicked (norm s) = panicked s" "cons (norm s) = cons s"
  "norm (uart_accs_update f s) = uart_accs_update f (norm s)" "norm (uart_tx_buf_update g s) = uart_tx_buf_update g (norm s)"
  "norm (uart_tx_w_update h s) = uart_tx_w_update h (norm s)" "norm (uart_tx_r_update h s) = uart_tx_r_update h (norm s)"
  "norm (cons_update k s) = cons_update k (norm s)"
  by (simp_all add: norm_def)

lemma acqs_ustate:
  "acqs L (uart_accs_update f s) = uart_accs_update f (acqs L s)" "acqs L (uart_tx_buf_update g s) = uart_tx_buf_update g (acqs L s)"
  "acqs L (uart_tx_w_update h s) = uart_tx_w_update h (acqs L s)" "acqs L (uart_tx_r_update h s) = uart_tx_r_update h (acqs L s)"
  "acqs L (cons_update k s) = cons_update k (acqs L s)"
  by (induction L) simp_all

lemma quiet_acqs_update:
  assumes "quiet i L s" and "\<And>s. acqs L (F s) = F (acqs L s)" and "\<And>s. mach_ok (F s) = mach_ok s" and "\<And>s. awake i (F s) = awake i s"
  shows "quiet i L (F s)"
  using assms unfolding quiet_def by metis

lemma quiet_ustate [simp]:
  assumes "quiet i L s"
  shows "quiet i L (uart_accs_update f s)" "quiet i L (uart_tx_buf_update g s)" "quiet i L (uart_tx_w_update h s)"
    "quiet i L (uart_tx_r_update h s)" "quiet i L (cons_update k s)"
  by (rule quiet_acqs_update [OF assms]; simp add: acqs_ustate mach_ok_def lock_free_def ie_def running_def awake_def)+

lemma does_ReadReg: "does D C i L (ReadReg r) N (udev_read N (uart_accs N) r) L (N\<lparr>uart_accs := uart_accs N @ [URead r]\<rparr>)"
  unfolding ReadReg_def
  by (rule does_bnd, rule does_gets, simp, rule does_sq, rule does_modify) (simp_all add: does_ret)

lemma does_WriteReg: "does D C i L (WriteReg r v) N () L (N\<lparr>uart_accs := uart_accs N @ [UWrite r v]\<rparr>)"
  unfolding WriteReg_def by (rule does_modify) simp_all

subsection \<open>The transmit buffer\<close>

interpretation tx: ring UART_TX_BUF_SIZE "TYPE(64)"
  by unfold_locales simp_all

text \<open>The characters that wait to be sent, and those that a sequence of accesses hands to the device.\<close>

abbreviation (input) tx_queue :: "'z ustate_scheme \<Rightarrow> bytes" where
  "tx_queue s \<equiv> ring_list UART_TX_BUF_SIZE (uart_tx_buf s) (uart_tx_r s) (uart_tx_w s)"

definition sent :: "uaccess list \<Rightarrow> bytes" where
  "sent as = concat (map (\<lambda>a. case a of UWrite r v \<Rightarrow> if r = THR then [v] else [] | URead r \<Rightarrow> []) as)"

lemma sent_simps [simp]: "sent [] = []" "sent (as @ bs) = sent as @ sent bs" "sent [UWrite r v] = (if r = 0 then [v] else [])" "sent [URead r] = []"
  by (simp_all add: sent_def)

text \<open>The last access was to see that the device is busy.\<close>

definition tx_busy :: "(uaccess list \<Rightarrow> nat \<Rightarrow> u8) \<Rightarrow> uaccess list \<Rightarrow> bool" where
  "tx_busy dev as \<longleftrightarrow> (\<exists>bs. as = bs @ [URead LSR] \<and> dev bs LSR AND LSR_TX_IDLE = 0)"

lemma does_uartstart_loop:
  assumes "unat (uart_tx_w N - uart_tx_r N) < n" and "\<And>j. ProcLock j \<notin> set L"
  shows "\<exists>N' as. does D C i L (uartstart_loop n) N () L N' \<and> N' = N\<lparr>uart_accs := uart_accs N @ as, uart_tx_r := uart_tx_r N'\<rparr>
    \<and> sent as @ tx_queue N' = tx_queue N \<and> (uart_tx_r N' = uart_tx_w N \<or> tx_busy (udev_read N) (uart_accs N @ as))"
  using assms(1)
proof (induction n arbitrary: N)
  case (Suc n)
  let ?N1 = "N\<lparr>uart_accs := uart_accs N @ [URead LSR]\<rparr>" and ?v = "udev_read N (uart_accs N) LSR"
  let ?c = "uart_tx_buf N (unat (uart_tx_r N) mod UART_TX_BUF_SIZE)"
  let ?N2 = "N\<lparr>uart_tx_r := uart_tx_r N + 1, uart_accs := uart_accs N @ [URead LSR, UWrite THR ?c]\<rparr>"
  have isr: "does D C i L (sq (ReadReg ISR) (ret ())) N () L (N\<lparr>uart_accs := uart_accs N @ [URead ISR]\<rparr>)"
    by (rule does_sq [OF does_ReadReg does_ret])
  have gw: "does D C i L (gets uart_tx_w) M (uart_tx_w M) L M" "does D C i L (gets uart_tx_r) M (uart_tx_r M) L M" for M :: "'a ustate_scheme"
    by (rule does_gets, simp)+
  consider (empty) "uart_tx_w N = uart_tx_r N" | (busy) "uart_tx_w N \<noteq> uart_tx_r N" "?v AND LSR_TX_IDLE = 0"
    | (send) "uart_tx_w N \<noteq> uart_tx_r N" "?v AND LSR_TX_IDLE \<noteq> 0" by blast
  then show ?case
  proof cases
    case empty
    then show ?thesis unfolding uartstart_loop.simps
      by (intro exI [of _ "N\<lparr>uart_accs := uart_accs N @ [URead ISR]\<rparr>"] exI [of _ "[URead ISR]"] conjI,
          intro does_bnd [OF gw(1)] does_bnd [OF gw(2)]) (use isr in simp_all)
  next
    case busy
    then show ?thesis unfolding uartstart_loop.simps
      by (intro exI [of _ ?N1] exI [of _ "[URead LSR]"] conjI, intro does_bnd [OF gw(1)] does_bnd [OF gw(2)])
        (auto simp: tx_busy_def intro!: does_bnd [OF does_ReadReg] does_ret)
  next
    case send
    have q: "tx_queue N = ?c # tx_queue ?N2" using tx.get [of "uart_tx_r N" "uart_tx_w N"] send(1) by simp
    have "length (tx_queue N) = Suc (length (tx_queue ?N2))" by (simp only: q list.size)
    then have "unat (uart_tx_w ?N2 - uart_tx_r ?N2) < n" using Suc.prems by simp
    from Suc.IH [OF this] obtain N' as where N': "does D C i L (uartstart_loop n) ?N2 () L N'"
      "N' = ?N2\<lparr>uart_accs := uart_accs ?N2 @ as, uart_tx_r := uart_tx_r N'\<rparr>" "sent as @ tx_queue N' = tx_queue ?N2"
      "uart_tx_r N' = uart_tx_w ?N2 \<or> tx_busy (udev_read ?N2) (uart_accs ?N2 @ as)" by blast
    have getc: "does D C i L (gets (\<lambda>s. uart_tx_buf s (unat (uart_tx_r s) mod UART_TX_BUF_SIZE))) ?N1 ?c L ?N1"
      using does_gets [of "\<lambda>s. uart_tx_buf s (unat (uart_tx_r s) mod UART_TX_BUF_SIZE)" D C i L ?N1] by simp
    have "does D C i L (uartstart_loop (Suc n)) N () L N'" unfolding uartstart_loop.simps
      by (rule does_bnd [OF gw(1)], rule does_bnd [OF gw(2)], simp only: send(1) if_False, rule does_bnd [OF does_ReadReg], simp only: send(2) if_False,
          rule does_bnd [OF getc], rule does_sq [OF does_modify], simp, simp, rule does_sq [OF does_wakeup [OF assms(2)]], rule does_sq [OF does_WriteReg])
        (use N'(1) in simp)
    moreover have "N' = N\<lparr>uart_accs := uart_accs N @ [URead LSR, UWrite THR ?c] @ as, uart_tx_r := uart_tx_r N'\<rparr>" using N'(2) by simp
    moreover have "sent ([URead LSR, UWrite THR ?c] @ as) @ tx_queue N' = tx_queue N" using N'(3) q by (simp add: sent_def)
    ultimately show ?thesis using N'(4) by (intro exI [of _ N'] exI [of _ "[URead LSR, UWrite THR ?c] @ as"]) simp
  qed
qed simp

text \<open>
  C25: \<open>uartputc\<close> sends characters in order and always returns. When the transmit buffer has room and the kernel has not panicked, \<open>uartputc(c)\<close>
  returns without sleeping whatever the device answers: its loop, and that of \<open>uartstart\<close>, stop. The
  characters handed to the device by this call followed by the ones still in the buffer are exactly the
  ones that were in the buffer before followed by \<open>c\<close>, the buffer does not overflow, and the call stops
  sending only when the buffer is empty or the device has just said that it is busy.
\<close>

theorem uartputc_fifo:
  assumes "quiet i [] s" and "\<not> panicked s" and "unat (uart_tx_w s - uart_tx_r s) < UART_TX_BUF_SIZE"
  shows "achieves (env D i) (\<lambda>_ _. False)
    (\<lambda>_ t. quiet i [] t \<and> unat (uart_tx_w t - uart_tx_r t) \<le> UART_TX_BUF_SIZE
      \<and> (\<exists>as. uart_accs t = uart_accs s @ as \<and> sent as @ tx_queue t = tx_queue s @ [word_of_int c]
          \<and> (tx_queue t = [] \<or> tx_busy (udev_read s) (uart_accs t))))
    (uartputc c s)"
proof -
  let ?N = "norm s"
  let ?N1 = "?N\<lparr>uart_tx_buf := (uart_tx_buf s)(unat (uart_tx_w s) mod UART_TX_BUF_SIZE := word_of_int c)\<rparr>"
  let ?N2 = "?N1\<lparr>uart_tx_w := uart_tx_w s + 1\<rparr>"
  let ?n = "unat (uart_tx_w ?N2 - uart_tx_r ?N2)"
  obtain N' as where N': "does D (\<lambda>_. False) i [UartTxLock] (uartstart_loop (Suc ?n)) ?N2 () [UartTxLock] N'"
    "N' = ?N2\<lparr>uart_accs := uart_accs ?N2 @ as, uart_tx_r := uart_tx_r N'\<rparr>" "sent as @ tx_queue N' = tx_queue ?N2"
    "uart_tx_r N' = uart_tx_w ?N2 \<or> tx_busy (udev_read ?N2) (uart_accs ?N2 @ as)"
    using does_uartstart_loop [of ?N2 "Suc ?n" "[UartTxLock]" D "\<lambda>_. False" i] by auto
  have gets: "does D (\<lambda>_. False) i L (gets uart_tx_w) M (uart_tx_w M) L M" "does D (\<lambda>_. False) i L (gets uart_tx_r) M (uart_tx_r M) L M"
    "does D (\<lambda>_. False) i L (gets panicked) M (panicked M) L M" for L and M :: "'a ustate_scheme" by (rule does_gets, simp)+
  have room: "uart_tx_w s \<noteq> uart_tx_r s + of_nat UART_TX_BUF_SIZE" using tx.full [of "uart_tx_w s" "uart_tx_r s"] assms(3) by auto
  have start: "does D (\<lambda>_. False) i [UartTxLock] uartstart ?N2 () [UartTxLock] N'" unfolding uartstart_def
    by (rule does_bnd [OF does_gets [of "\<lambda>s. uart_tx_w s - uart_tx_r s"]]) (use N'(1) in simp_all)
  let ?wait = "\<lambda>w r. if w = r + of_nat UART_TX_BUF_SIZE then sq (sleep (Some ChanUartTx) UartTxLock) (ret (Inr ())) else ret (Inl ())"
  have wait: "does D (\<lambda>_. False) i [UartTxLock] (again (bnd (gets uart_tx_w) (\<lambda>w. bnd (gets uart_tx_r) (\<lambda>r. ?wait w r)))) ?N () [UartTxLock] ?N"
    by (rule does_again_at_once, rule does_bnd [OF gets(1)], rule does_bnd [OF gets(2)]) (use room in \<open>simp add: does_ret\<close>)
  have ok: "does D (\<lambda>_. False) i [UartTxLock] (whenM (panicked ?N) forever) ?N () [UartTxLock] ?N"
    using assms(2) by (simp add: whenM_def does_ret)
  have put: "does D (\<lambda>_. False) i [UartTxLock] (modify (\<lambda>s. s\<lparr>uart_tx_buf := (uart_tx_buf s)(unat (uart_tx_w s) mod UART_TX_BUF_SIZE := word_of_int c)\<rparr>)) ?N () [UartTxLock] ?N1"
    by (rule does_eq, rule does_modify) simp_all
  have inc: "does D (\<lambda>_. False) i [UartTxLock] (modify (\<lambda>s. s\<lparr>uart_tx_w := uart_tx_w s + 1\<rparr>)) ?N1 () [UartTxLock] ?N2"
    by (rule does_eq, rule does_modify) simp_all
  have d: "does D (\<lambda>_. False) i [] (uartputc c) ?N () [] N'" unfolding uartputc_def
    by (rule does_sq [OF does_acquire], simp, rule does_bnd [OF gets(3)], rule does_sq [OF ok], rule does_sq [OF wait],
        rule does_sq [OF put], rule does_sq [OF inc], rule does_sq [OF start does_release])
  have q: "tx_queue ?N2 = tx_queue s @ [word_of_int c]" using tx.put [OF assms(3), of "uart_tx_buf s" "word_of_int c"] by simp
  show ?thesis
  proof (rule does_achieves [OF d assms(1)])
    fix t :: "'a ustate_scheme" assume t: "quiet i [] t" "norm t = N'"
    have acc: "uart_accs t = uart_accs s @ as" and qt: "tx_queue t = tx_queue N'" and w: "uart_tx_w t = uart_tx_w s + 1"
      using arg_cong [OF t(2), of uart_accs] arg_cong [OF t(2), of uart_tx_buf] arg_cong [OF t(2), of uart_tx_w] arg_cong [OF t(2), of uart_tx_r]
        arg_cong [OF N'(2), of uart_accs] arg_cong [OF N'(2), of uart_tx_buf] arg_cong [OF N'(2), of uart_tx_w] by simp_all
    have all: "sent as @ tx_queue t = tx_queue s @ [word_of_int c]" using N'(3) q qt by simp
    have "length (sent as @ tx_queue t) = Suc (unat (uart_tx_w s - uart_tx_r s))" by (simp only: all) simp
    then have "unat (uart_tx_w t - uart_tx_r t) \<le> UART_TX_BUF_SIZE" using assms(3) by simp
    moreover have "tx_queue t = [] \<or> tx_busy (udev_read s) (uart_accs t)"
    proof (cases "uart_tx_r N' = uart_tx_w ?N2")
      case True
      then show ?thesis using arg_cong [OF t(2), of uart_tx_r] w by simp
    qed (use N'(4) acc in simp)
    ultimately show "quiet i [] t \<and> unat (uart_tx_w t - uart_tx_r t) \<le> UART_TX_BUF_SIZE
      \<and> (\<exists>as. uart_accs t = uart_accs s @ as \<and> sent as @ tx_queue t = tx_queue s @ [word_of_int c]
          \<and> (tx_queue t = [] \<or> tx_busy (udev_read s) (uart_accs t)))" using t(1) acc all by blast
  qed
qed

text \<open>A machine whose UART takes one character and is then busy.\<close>

definition uart_machine :: ustate where
  "uart_machine = lstate.extend (boot_machine (\<lambda>_. 0) small_log)
     \<lparr>udev_read = (\<lambda>as r. if r = LSR \<and> sent as = [] then LSR_TX_IDLE else 0), uart_accs = [], uart_tx_buf = (\<lambda>k. of_nat (65 + k)),
      uart_tx_w = 1, uart_tx_r = 0xFFFFFFFFFFFFFFFF, panicked = False, pr_locking = True, cons = \<lparr>cons_buf = (\<lambda>_. 0), cons_r = 0, cons_w = 0, cons_e = 0\<rparr>,
      devsws = (\<lambda>_. \<lparr>dsw_read = None, dsw_write = None\<rparr>)\<rparr>"

lemma uart_machine_quiet: "quiet 0 [] uart_machine"
  by (simp add: quiet_def awake_def uart_machine_def boot_machine_def disk_machine_def two_procs_def lstate.extend_def bstate.extend_def pstate.extend_def
      mach_ok_def running_def lock_free_def ie_def SSTATUS_SIE_def init_spinlock_def)

lemma uart_machine_queue: "tx_queue uart_machine = [96, 65]"
  by (simp add: uart_machine_def lstate.extend_def ring_list_def upt_rec)

theorem uartputc_fifo_witness:
  "achieves (env blk_device 0) (\<lambda>_ _. False) (\<lambda>_ t. \<exists>as. uart_accs t = as \<and> sent as @ tx_queue t = [96, 65, 90]) (uartputc 90 uart_machine)"
proof -
  have "\<not> panicked uart_machine" "unat (uart_tx_w uart_machine - uart_tx_r uart_machine) < UART_TX_BUF_SIZE" "uart_accs uart_machine = []"
    by (simp_all add: uart_machine_def lstate.extend_def)
  from achieves_conseq [OF uartputc_fifo [OF uart_machine_quiet this(1,2), of blk_device 90]] this(3)
  show ?thesis by (auto simp: uart_machine_queue)
qed

end
