(* ===== verification/Printf.thy ===== *)
theory Printf
  imports Uart
begin

text \<open>
  \<open>kernel/printf.c\<close>, with \<open>consputc\<close> of \<open>kernel/console.c\<close>, which it prints with, and \<open>procdump\<close> of
  \<open>kernel/proc.c\<close>. A format string is the list of its characters before the NUL. A call of \<open>panic\<close> in the
  kernel is the outcome \<open>Panic\<close>; what the function does before it loops for ever is \<open>panic_fn\<close> here.
\<close>

abbreviation (input) BACKSPACE :: int where "BACKSPACE \<equiv> 0x100"

definition str :: "string \<Rightarrow> bytes" where
  "str s = map of_char s"

abbreviation (input) ch :: "char \<Rightarrow> u8" where "ch c \<equiv> of_char c"

definition consputc :: "int \<Rightarrow> (unit, 'z ustate_scheme) kern" where
  "consputc c =
     (if c = BACKSPACE then sq (uartputc_sync 8) (sq (uartputc_sync 32) (uartputc_sync 8))
      else uartputc_sync c)"

definition digits :: bytes where
  "digits = str ''0123456789abcdef''"

text \<open>
  The first loop of \<open>printint\<close>: the digits of \<open>x\<close>, the last one first, into a buffer that has \<open>k\<close>
  characters left; \<open>None\<close> is storing past the end of the buffer.
\<close>

primrec printint_digits :: "nat \<Rightarrow> u64 \<Rightarrow> u64 \<Rightarrow> bytes \<Rightarrow> bytes option" where
  "printint_digits 0 x base buf = None"
| "printint_digits (Suc k) x base buf =
     (let buf = buf @ [digits ! unat (x mod base)]; x = x div base in
      if x = 0 then Some buf else printint_digits k x base buf)"

definition printint_buf :: "u64 \<Rightarrow> u64 \<Rightarrow> bool \<Rightarrow> bytes option" where
  "printint_buf xx base sign =
     (let neg = sign \<and> sint xx < 0 in
      case printint_digits 16 (if neg then - xx else xx) base [] of
        None \<Rightarrow> None
      | Some buf \<Rightarrow> if neg then if length buf < 16 then Some (buf @ [ch CHR ''-'']) else None
                    else Some buf)"

definition printint :: "u64 \<Rightarrow> u64 \<Rightarrow> bool \<Rightarrow> (unit, 'z ustate_scheme) kern" where
  "printint xx base sign = (case printint_buf xx base sign of
     None \<Rightarrow> fault
   | Some buf \<Rightarrow> forM (rev buf) (\<lambda>c. consputc (uint c)))"

definition printptr :: "u64 \<Rightarrow> (unit, 'z ustate_scheme) kern" where
  "printptr x =
     sq (consputc (uint (ch CHR ''0''))) (
     sq (consputc (uint (ch CHR ''x''))) (
     forM [0..<16] (\<lambda>i. consputc (uint (digits ! unat (drop_bit 60 (push_bit (4 * i) x)))))))"

text \<open>
  The variable arguments: an \<open>int\<close>, a 64-bit integer or a string (or null) pointer. Taking an argument that
  is not there, or one of another type, is undefined.
\<close>

datatype vararg = AInt u32 | ALong u64 | AStr "bytes option"

text \<open>The conversion that the characters after a \<open>%\<close> ask for, and how many characters it takes.\<close>

datatype conv = PrInt u64 bool | PrLong u64 bool | PrPtr | PrStr | PrPercent | PrEnd | PrUnknown

definition conversion :: "u8 \<Rightarrow> u8 \<Rightarrow> u8 \<Rightarrow> conv \<times> nat" where
  "conversion c0 c1 c2 =
     (let d = ch CHR ''d''; l = ch CHR ''l''; u = ch CHR ''u''; x = ch CHR ''x'' in
      if c0 = d then (PrInt 10 True, 1)
      else if c0 = l \<and> c1 = d then (PrLong 10 True, 2)
      else if c0 = l \<and> c1 = l \<and> c2 = d then (PrLong 10 True, 3)
      else if c0 = u then (PrInt 10 False, 1)
      else if c0 = l \<and> c1 = u then (PrLong 10 False, 2)
      else if c0 = l \<and> c1 = l \<and> c2 = u then (PrLong 10 False, 3)
      else if c0 = x then (PrInt 16 False, 1)
      else if c0 = l \<and> c1 = x then (PrLong 16 False, 2)
      else if c0 = l \<and> c1 = l \<and> c2 = x then (PrLong 16 False, 3)
      else if c0 = ch CHR ''p'' then (PrPtr, 1)
      else if c0 = ch CHR ''s'' then (PrStr, 1)
      else if c0 = ch CHR ''%'' then (PrPercent, 1)
      else if c0 = 0 then (PrEnd, 1)
      else (PrUnknown, 1))"

definition fmt_at :: "bytes \<Rightarrow> nat \<Rightarrow> u8" where
  "fmt_at f i = (if i < length f then f ! i else 0)"

definition fmt_conv :: "bytes \<Rightarrow> conv \<times> nat" where
  "fmt_conv f =
     (let c0 = fmt_at f 0;
          c1 = if c0 \<noteq> 0 then fmt_at f 1 else 0;
          c2 = if c1 \<noteq> 0 then fmt_at f 2 else 0 in
      conversion c0 c1 c2)"

definition print_arg :: "conv \<Rightarrow> u8 \<Rightarrow> vararg list \<Rightarrow> (vararg list, 'z ustate_scheme) kern" where
  "print_arg c c0 ap = (case (c, ap) of
     (PrInt base sign, AInt v # ap) \<Rightarrow> sq (printint (scast v) base sign) (ret ap)
   | (PrLong base sign, ALong v # ap) \<Rightarrow> sq (printint v base sign) (ret ap)
   | (PrPtr, ALong v # ap) \<Rightarrow> sq (printptr v) (ret ap)
   | (PrStr, AStr s # ap) \<Rightarrow>
       sq (forM (case s of None \<Rightarrow> str ''(null)'' | Some s \<Rightarrow> s) (\<lambda>c. consputc (uint c))) (ret ap)
   | (PrPercent, ap) \<Rightarrow> sq (consputc (uint (ch CHR ''%''))) (ret ap)
   | (PrUnknown, ap) \<Rightarrow> sq (consputc (uint (ch CHR ''%''))) (sq (consputc (uint c0)) (ret ap))
   | _ \<Rightarrow> fault)"

function printf_loop :: "bytes \<Rightarrow> vararg list \<Rightarrow> (unit, 'z ustate_scheme) kern" where
  "printf_loop fmt ap = (case fmt of
     [] \<Rightarrow> ret ()
   | cx # fmt \<Rightarrow>
       if cx = 0 then ret ()
       else if cx \<noteq> ch CHR ''%'' then sq (consputc (uint cx)) (printf_loop fmt ap)
       else let (c, n) = fmt_conv fmt in
         if c = PrEnd then ret ()
         else bnd (print_arg c (fmt_at fmt 0) ap) (printf_loop (drop n fmt)))"
  by pat_completeness auto
termination by (relation "measure (\<lambda>(fmt, ap). length fmt)") auto

definition printf :: "bytes \<Rightarrow> vararg list \<Rightarrow> (int, 'z ustate_scheme) kern" where
  "printf fmt ap =
     bnd (gets pr_locking) (\<lambda>locking.
     sq (whenM locking (acquire PrLock)) (
     sq (printf_loop fmt ap) (
     sq (whenM locking (release PrLock)) (
     ret 0))))"

definition panic_fn :: "bytes \<Rightarrow> (unit, 'z ustate_scheme) kern" where
  "panic_fn s =
     sq (modify (\<lambda>t. t\<lparr>pr_locking := False\<rparr>)) (
     sq (printf (str ''panic: '') []) (
     sq (printf (str ''%s'' @ [10]) [AStr (Some s)]) (
     sq (modify (\<lambda>t. t\<lparr>panicked := True\<rparr>))
        forever)))"

definition printfinit :: "(unit, 'z ustate_scheme) kern" where
  "printfinit =
     sq (initlock PrLock ''pr'')
        (modify (\<lambda>s. s\<lparr>pr_locking := True\<rparr>))"

subsection \<open>\<open>procdump\<close>\<close>

fun state_name :: "procstate \<Rightarrow> string" where
  "state_name UNUSED = ''unused''"
| "state_name USED = ''used''"
| "state_name SLEEPING = ''sleep ''"
| "state_name RUNNABLE = ''runble''"
| "state_name RUNNING = ''run   ''"
| "state_name ZOMBIE = ''zombie''"

definition procdump :: "(unit, 'z ustate_scheme) kern" where
  "procdump =
     sq (printf [10] []) (
     forM [0..<NPROC] (\<lambda>i.
       bnd (getp i p_state) (\<lambda>st.
       whenM (st \<noteq> UNUSED) (
         bnd (getp i p_pid) (\<lambda>pid.
         bnd (getp i p_name) (\<lambda>nm.
         sq (guardM (\<exists>k\<in>set [0..<16]. nm k = 0)) (
         sq (printf (str ''%d %s %s'') [AInt (word_of_int pid), AStr (Some (str (state_name st))), AStr (Some (cstr_upto 16 nm))]) (
         sq (printf [10] []) (ret ())))))))))"

subsection \<open>Numerals\<close>

text \<open>The numeral of \<open>n\<close> to a base, as one would write it down.\<close>

fun numeral_of :: "nat \<Rightarrow> nat \<Rightarrow> bytes" where
  "numeral_of base n = (if n < base \<or> base < 2 then [digits ! n] else numeral_of base (n div base) @ [digits ! (n mod base)])"

declare numeral_of.simps [simp del]

lemma numeral_of_pos: "0 < length (numeral_of base n)"
  by (subst numeral_of.simps) simp

lemma printint_digits_numeral:
  assumes "2 \<le> base" and "base \<le> 16"
  shows "printint_digits k x (of_nat base) buf =
    (if length (numeral_of base (unat x)) \<le> k then Some (buf @ rev (numeral_of base (unat x))) else None)"
proof (induction k arbitrary: x buf)
  case 0
  then show ?case using numeral_of_pos [of base "unat x"] by simp
next
  case (Suc k)
  have b: "unat (of_nat base :: u64) = base" using assms by (simp add: unat_of_nat)
  have d: "unat (x div of_nat base) = unat x div base" "unat (x mod of_nat base) = unat x mod base" by (simp_all add: unat_div unat_mod b)
  have z: "x div of_nat base = 0 \<longleftrightarrow> unat x < base" using assms by (simp add: unat_eq_0 [symmetric] d(1) div_eq_0_iff)
  show ?case
  proof (cases "unat x < base")
    case True
    then have "numeral_of base (unat x) = [digits ! unat x]" by (simp add: numeral_of.simps [of base])
    then show ?thesis using True z d(2) by (simp add: Let_def)
  next
    case False
    then have n: "numeral_of base (unat x) = numeral_of base (unat x div base) @ [digits ! (unat x mod base)]"
      using assms by (subst numeral_of.simps) simp
    have nz: "x div of_nat base \<noteq> 0" using False z by simp
    show ?thesis unfolding printint_digits.simps Let_def n using nz by (simp add: Suc d)
  qed
qed

definition printed :: "nat \<Rightarrow> u64 \<Rightarrow> bool \<Rightarrow> bytes" where
  "printed base xx sign = (if sign \<and> sint xx < 0 then ch CHR ''-'' # numeral_of base (nat (- sint xx)) else numeral_of base (unat xx))"

lemma unat_neg: "sint (xx :: u64) < 0 \<Longrightarrow> unat (- xx) = nat (- sint xx)"
proof -
  assume n: "sint xx < 0"
  have "uint (word_of_int k :: u64) = k" if "0 \<le> k" "k < 2 ^ 64" for k
    using that by (simp add: unsigned_of_int take_bit_int_eq_self)
  from this [of "- sint xx"] have "uint (- xx) = - sint xx" using n sint_greater_eq [of xx] by simp
  then show ?thesis by (metis unat_eq_nat_uint)
qed

text \<open>
  C28: \<open>printint\<close> prints the usual numeral, or overruns its buffer. For every value and every base from 2 to 16
  the characters \<open>printint\<close> collects are, in reverse, the numeral of the value to that base with a minus sign
  when the value is negative and printed as signed, the least \<open>long long\<close> included; exactly when these are
  more than the 16 characters of \<open>buf\<close> it stores past the end of \<open>buf\<close>.
\<close>

theorem printint_numeral:
  assumes "2 \<le> base" and "base \<le> 16"
  shows "printint_buf xx (of_nat base) sign =
    (if length (printed base xx sign) \<le> 16 then Some (rev (printed base xx sign)) else None)"
proof (cases "sign \<and> sint xx < 0")
  case True
  then show ?thesis using unat_neg [of xx]
    by (auto simp: printint_buf_def printed_def printint_digits_numeral [OF assms] Let_def)
next
  case False
  then show ?thesis by (auto simp: printint_buf_def printed_def printint_digits_numeral [OF assms] Let_def)
qed

theorem printint_numeral_witness:
  "printint_buf (-42) (of_nat 10) True = Some (rev (str ''-42'')) \<and> printint_buf 0xffff (of_nat 16) False = Some (rev (str ''ffff''))"
proof -
  have "printed 10 (-42) True = str ''-42''" "printed 16 0xffff False = str ''ffff''"
    by (simp_all add: printed_def numeral_of.simps digits_def str_def)
  then show ?thesis using printint_numeral [of 10 "-42" True] printint_numeral [of 16 "0xffff" False] by (simp add: str_def)
qed

lemma numeral_of_length: "2 \<le> base \<Longrightarrow> base ^ k \<le> n \<Longrightarrow> k < length (numeral_of base n)"
proof (induction k arbitrary: n)
  case 0
  then show ?case using numeral_of_pos [of base n] by simp
next
  case (Suc k)
  have "base ^ k \<le> n div base" using Suc.prems by (simp add: less_eq_div_iff_mult_less_eq mult.commute)
  then have IH: "k < length (numeral_of base (n div base))" by (rule Suc.IH [OF Suc.prems(1)])
  have "base * 1 \<le> base * base ^ k" using Suc.prems(1) by (intro mult_le_mono2) (simp add: one_le_power)
  also have "\<dots> \<le> n" using Suc.prems(2) by simp
  finally have "\<not> n < base" by simp
  then show ?case using IH Suc.prems(1) by (simp add: numeral_of.simps [of base n])
qed

text \<open>
  C27: \<open>printf("%u", x)\<close> with \<open>x \<ge> 2^31\<close> overruns the buffer of \<open>printint\<close>. The argument is fetched as an \<open>int\<close>, so it
  is negative and becomes a 64-bit value of 20 digits, which do not fit into the 16 characters of \<open>buf\<close>.
\<close>

theorem printf_u_overflow:
  assumes "2 ^ 31 \<le> v"
  shows "print_arg (fst (fmt_conv (str ''u''))) (ch CHR ''u'') [AInt v] s = Fault"
proof -
  have "sint v < 0"
  proof (rule ccontr)
    assume n: "\<not> sint v < 0"
    then have "uint (word_of_int (sint v) :: u32) = sint v" using sint_less [of v] by (intro uint_of_int_small) simp_all
    then have "uint v < 2 ^ 31" using sint_less [of v] by simp
    then show False using assms by (simp add: word_le_def)
  qed
  moreover have "- (2 ^ 31) \<le> sint v" using sint_greater_eq [of v] by simp
  moreover have "uint (scast v :: u64) = sint v mod 2 ^ 64" by (simp only: scast_eq uint_word_of_int) simp
  moreover have "sint v mod 2 ^ 64 = (sint v + 2 ^ 64) mod 2 ^ 64" by simp
  ultimately have "uint (scast v :: u64) = sint v + 2 ^ 64" by (simp only:) (intro mod_pos_pos_trivial, simp_all)
  then have "10 ^ 16 \<le> unat (scast v :: u64)" using \<open>- (2 ^ 31) \<le> sint v\<close> by (simp add: unat_eq_nat_uint le_nat_iff)
  then have "16 < length (numeral_of 10 (unat (scast v :: u64)))" by (intro numeral_of_length) simp_all
  moreover have "fst (fmt_conv (str ''u'')) = PrInt 10 False" by (simp add: fmt_conv_def conversion_def fmt_at_def str_def Let_def)
  ultimately show ?thesis
    using printint_digits_numeral [of 10 16 "scast v" "[]"] by (simp add: print_arg_def printint_def printint_buf_def Let_def run_simps)
qed

theorem printf_u_overflow_witness:
  "print_arg (fst (fmt_conv (str ''u''))) (ch CHR ''u'') [AInt 0xFFFFFFFF] uart_machine = Fault"
  by (rule printf_u_overflow) simp

end
