(* ===== verification/Console.thy ===== *)
theory Console
  imports Printf
begin

text \<open>
  \<open>kernel/console.c\<close> and the interrupt handler of \<open>kernel/uart.c\<close>, which calls it.
\<close>

unbundle bit_operations_syntax

definition upd_cons :: "(conbuf \<Rightarrow> conbuf) \<Rightarrow> (unit, 'z ustate_scheme) kern" where
  "upd_cons f = modify (\<lambda>s. s\<lparr>cons := f (cons s)\<rparr>)"

definition getc :: "(conbuf \<Rightarrow> 'a) \<Rightarrow> ('a, 'z ustate_scheme) kern" where
  "getc f = gets (\<lambda>s. f (cons s))"

text \<open>\<open>C(x)\<close>.\<close>

definition Ctl :: "char \<Rightarrow> int" where
  "Ctl x = of_char x - of_char CHR ''@''"

definition cons_index :: "u32 \<Rightarrow> nat" where
  "cons_index k = unat k mod INPUT_BUF_SIZE"

text \<open>An address \<open>k\<close> bytes on.\<close>

fun dest_add :: "dest \<Rightarrow> u64 \<Rightarrow> dest" where
  "dest_add (UserDst a) k = UserDst (a + k)"
| "dest_add (MemDst a) k = MemDst (a + k)"
| "dest_add ObjDst k = ObjDst"

fun source_add :: "source \<Rightarrow> u64 \<Rightarrow> source" where
  "source_add (UserSrc a) k = UserSrc (a + k)"
| "source_add (ObjSrc c) k = ObjSrc (\<lambda>i. c (unat k + i))"

text \<open>The loop of \<open>consolewrite\<close> with \<open>k\<close> characters to go; the result is \<open>i\<close>.\<close>

primrec consolewrite_loop :: "nat \<Rightarrow> source \<Rightarrow> nat \<Rightarrow> (int, 'z ustate_scheme) kern" where
  "consolewrite_loop 0 src i = ret (int i)"
| "consolewrite_loop (Suc k) src i =
     bnd (either_copyin (source_add src (of_nat i)) 1) (\<lambda>(r, c).
     if r = -1 then ret (int i)
     else sq (uartputc (uint (hd c))) (consolewrite_loop k src (Suc i)))"

definition consolewrite :: "source \<Rightarrow> int \<Rightarrow> (int, 'z ustate_scheme) kern" where
  "consolewrite src n = consolewrite_loop (nat n) src 0"

text \<open>
  The loop of \<open>consoleread\<close> with \<open>n\<close> characters to go: the characters still to go when it is left, or \<open>None\<close> when
  the function returns \<open>-1\<close>.
\<close>

primrec consoleread_loop :: "nat \<Rightarrow> nat \<Rightarrow> dest \<Rightarrow> (nat option, 'z ustate_scheme) kern" where
  "consoleread_loop 0 target dst = ret (Some 0)"
| "consoleread_loop (Suc n) target dst =
     bnd (again (
       bnd (getc (\<lambda>c. cons_r c = cons_w c)) (\<lambda>empty.
       if \<not> empty then ret (Inl True)
       else bnd curproc (\<lambda>i.
       bnd (killed i) (\<lambda>k.
       if k then sq (release ConsLock) (ret (Inl False))
       else sq (sleep (Some ChanConsR) ConsLock) (ret (Inr ()))))))) (\<lambda>go.
     if \<not> go then ret None
     else bnd (getc (\<lambda>c. cons_buf c (cons_index (cons_r c)))) (\<lambda>c.
     sq (upd_cons (\<lambda>c. c\<lparr>cons_r := cons_r c + 1\<rparr>)) (
     if uint c = Ctl CHR ''D'' then
       sq (whenM (Suc n < target) (upd_cons (\<lambda>c. c\<lparr>cons_r := cons_r c - 1\<rparr>))) (ret (Some (Suc n)))
     else bnd (either_copyout dst (\<lambda>_. c) 1) (\<lambda>r.
     if r = -1 then ret (Some (Suc n))
     else if c = 10 then ret (Some n)
     else consoleread_loop n target (dest_add dst 1)))))"

definition consoleread :: "dest \<Rightarrow> int \<Rightarrow> (int, 'z ustate_scheme) kern" where
  "consoleread dst n =
     sq (acquire ConsLock) (
     bnd (consoleread_loop (nat n) (nat n) dst) (\<lambda>r. case r of
       None \<Rightarrow> ret (-1)
     | Some left \<Rightarrow> sq (release ConsLock) (ret (int (nat n - left)))))"

text \<open>
  The loop of the kill-line command; the number of characters that are not yet committed bounds it.
\<close>

primrec kill_line :: "nat \<Rightarrow> (unit, 'z ustate_scheme) kern" where
  "kill_line 0 = fault"
| "kill_line (Suc k) =
     bnd (getc (\<lambda>c. cons_e c \<noteq> cons_w c \<and> cons_buf c (cons_index (cons_e c - 1)) \<noteq> 10)) (\<lambda>go.
     whenM go (
       sq (upd_cons (\<lambda>c. c\<lparr>cons_e := cons_e c - 1\<rparr>)) (
       sq (consputc BACKSPACE) (
       kill_line k))))"

definition cons_input :: "int \<Rightarrow> (unit, 'z ustate_scheme) kern" where
  "cons_input c =
     bnd (getc (\<lambda>c. cons_e c - cons_r c)) (\<lambda>len.
     whenM (c \<noteq> 0 \<and> len < of_nat INPUT_BUF_SIZE) (
       let c = if c = 13 then 10 else c in
       sq (consputc c) (
       sq (upd_cons (\<lambda>k. k\<lparr>cons_buf := (cons_buf k)(cons_index (cons_e k) := word_of_int c), cons_e := cons_e k + 1\<rparr>)) (
       bnd (getc (\<lambda>k. cons_e k - cons_r k)) (\<lambda>len.
       whenM (c = 10 \<or> c = Ctl CHR ''D'' \<or> len = of_nat INPUT_BUF_SIZE) (
         sq (upd_cons (\<lambda>k. k\<lparr>cons_w := cons_e k\<rparr>)) (
         wakeup (Some ChanConsR))))))))"

definition consoleintr :: "int \<Rightarrow> (unit, 'z ustate_scheme) kern" where
  "consoleintr c =
     sq (acquire ConsLock) (
     sq (if c = Ctl CHR ''P'' then procdump
         else if c = Ctl CHR ''U'' then
           bnd (getc (\<lambda>k. cons_e k - cons_w k)) (\<lambda>n. kill_line (Suc (unat n)))
         else if c = Ctl CHR ''H'' \<or> c = 0x7f then
           bnd (getc (\<lambda>k. cons_e k \<noteq> cons_w k)) (\<lambda>go.
           whenM go (
             sq (upd_cons (\<lambda>k. k\<lparr>cons_e := cons_e k - 1\<rparr>))
                (consputc BACKSPACE)))
         else cons_input c) (
     release ConsLock))"

definition CONSOLE :: nat where "CONSOLE = 1"

definition consoleinit :: "(unit, 'z ustate_scheme) kern" where
  "consoleinit =
     sq (initlock ConsLock ''cons'') (
     sq uartinit (
     sq (modify (\<lambda>s. s\<lparr>devsws := (devsws s)(CONSOLE := (devsws s CONSOLE)\<lparr>dsw_read := Some Consoleread\<rparr>)\<rparr>))
        (modify (\<lambda>s. s\<lparr>devsws := (devsws s)(CONSOLE := (devsws s CONSOLE)\<lparr>dsw_write := Some Consolewrite\<rparr>)\<rparr>))))"

definition uartintr :: "(unit, 'z ustate_scheme) kern" where
  "uartintr =
     sq (again (
       bnd uartgetc (\<lambda>c.
       if c = -1 then ret (Inl ())
       else sq (consoleintr c) (ret (Inr ()))))) (
     sq (acquire UartTxLock) (
     sq uartstart (
     release UartTxLock)))"

end
