(* ===== verification/Fs.thy ===== *)
theory Fs
  imports Console
begin

text \<open>
  \<open>kernel/fs.c\<close>, with the on-disk format of \<open>kernel/fs.h\<close> and the in-memory inode of \<open>kernel/file.h\<close>. A
  \<open>struct inode *\<close> is an index of \<open>itable.inode\<close>. Path names are the characters before the NUL.
\<close>

unbundle bit_operations_syntax

abbreviation (input) ROOTINO :: u32 where "ROOTINO \<equiv> 1"
abbreviation (input) FSMAGIC :: u32 where "FSMAGIC \<equiv> 0x10203040"
abbreviation (input) NDIRECT :: nat where "NDIRECT \<equiv> 12"
abbreviation (input) NINDIRECT :: nat where "NINDIRECT \<equiv> 256"
abbreviation (input) MAXFILE :: nat where "MAXFILE \<equiv> 268"
abbreviation (input) DINODE_SIZE :: nat where "DINODE_SIZE \<equiv> 64"
abbreviation (input) IPB :: u32 where "IPB \<equiv> 16"
abbreviation (input) BPB :: u32 where "BPB \<equiv> 8192"
abbreviation (input) DIRSIZ :: nat where "DIRSIZ \<equiv> 14"
abbreviation (input) DIRENT_SIZE :: nat where "DIRENT_SIZE \<equiv> 16"
abbreviation (input) T_DIR :: u16 where "T_DIR \<equiv> 1"
abbreviation (input) T_FILE :: u16 where "T_FILE \<equiv> 2"
abbreviation (input) T_DEVICE :: u16 where "T_DEVICE \<equiv> 3"

record dinode =
  di_type :: u16
  di_major :: u16
  di_minor :: u16
  di_nlink :: u16
  di_size :: u32
  di_addrs :: "nat \<Rightarrow> u32"

record inode =
  i_dev :: u32
  i_inum :: u32
  i_ref :: int
  i_valid :: bool
  i_d :: dinode

record stat =
  st_dev :: u32
  st_ino :: u32
  st_type :: u16
  st_nlink :: u16
  st_size :: u64

record fstate = ustate +
  sb :: superblock
  itable :: "nat \<Rightarrow> inode"

definition IBLOCK :: "u32 \<Rightarrow> superblock \<Rightarrow> u32" where
  "IBLOCK i super = i div IPB + sb_inodestart super"

definition BBLOCK :: "u32 \<Rightarrow> superblock \<Rightarrow> u32" where
  "BBLOCK b super = b div BPB + sb_bmapstart super"

definition upd_inode :: "nat \<Rightarrow> (inode \<Rightarrow> inode) \<Rightarrow> (unit, 'z fstate_scheme) kern" where
  "upd_inode ip f = modify (\<lambda>s. s\<lparr>itable := (itable s)(ip := f (itable s ip))\<rparr>)"

definition geti :: "nat \<Rightarrow> (inode \<Rightarrow> 'a) \<Rightarrow> ('a, 'z fstate_scheme) kern" where
  "geti ip f = gets (\<lambda>s. f (itable s ip))"

text \<open>The fields that are copies of the disk inode.\<close>

definition upd_dinode :: "nat \<Rightarrow> (dinode \<Rightarrow> dinode) \<Rightarrow> (unit, 'z fstate_scheme) kern" where
  "upd_dinode ip f = upd_inode ip (\<lambda>i. i\<lparr>i_d := f (i_d i)\<rparr>)"

definition getdi :: "nat \<Rightarrow> (dinode \<Rightarrow> 'a) \<Rightarrow> ('a, 'z fstate_scheme) kern" where
  "getdi ip f = geti ip (\<lambda>i. f (i_d i))"

definition set_addr :: "nat \<Rightarrow> nat \<Rightarrow> u32 \<Rightarrow> (unit, 'z fstate_scheme) kern" where
  "set_addr ip k a = upd_dinode ip (\<lambda>d. d\<lparr>di_addrs := (di_addrs d)(k := a)\<rparr>)"

definition upd_data :: "nat \<Rightarrow> (chars \<Rightarrow> chars) \<Rightarrow> (unit, 'z bstate_scheme) kern" where
  "upd_data b f = upd_buf b (\<lambda>bf. bf\<lparr>b_data := f (b_data bf)\<rparr>)"

definition printk :: "string \<Rightarrow> (unit, 'z ustate_scheme) kern" where
  "printk s = sq (printf (str s @ [10]) []) (ret ())"

subsection \<open>On-disk structures\<close>

definition get_superblock :: "chars \<Rightarrow> superblock" where
  "get_superblock d = \<lparr>sb_magic = get32 d 0, sb_size = get32 d 4, sb_nblocks = get32 d 8,
     sb_ninodes = get32 d 12, sb_nlog = get32 d 16, sb_logstart = get32 d 20,
     sb_inodestart = get32 d 24, sb_bmapstart = get32 d 28\<rparr>"

definition get_dinode :: "chars \<Rightarrow> nat \<Rightarrow> dinode" where
  "get_dinode d off = \<lparr>di_type = get16 d off, di_major = get16 d (off + 2), di_minor = get16 d (off + 4),
     di_nlink = get16 d (off + 6), di_size = get32 d (off + 8),
     di_addrs = (\<lambda>k. get32 d (off + 12 + 4 * k))\<rparr>"

definition put_dinode :: "nat \<Rightarrow> dinode \<Rightarrow> chars \<Rightarrow> chars" where
  "put_dinode off di d =
     fold (\<lambda>k. put32 (off + 12 + 4 * k) (di_addrs di k)) [0..<NDIRECT + 1] (
     put32 (off + 8) (di_size di) (
     put16 (off + 6) (di_nlink di) (
     put16 (off + 4) (di_minor di) (
     put16 (off + 2) (di_major di) (
     put16 off (di_type di) d)))))"

text \<open>Where inode \<open>inum\<close> is inside its block.\<close>

definition dinode_off :: "u32 \<Rightarrow> nat" where
  "dinode_off inum = DINODE_SIZE * unat (inum mod IPB)"

definition chars_zero :: "nat \<Rightarrow> nat \<Rightarrow> chars \<Rightarrow> chars" where
  "chars_zero off n = chars_put off (replicate n 0)"

subsection \<open>Blocks\<close>

definition readsb :: "int \<Rightarrow> (unit, 'z fstate_scheme) kern" where
  "readsb dev =
     bnd (bread (word_of_int dev) 1) (\<lambda>bp.
     bnd (getb bp b_data) (\<lambda>d.
     sq (modify (\<lambda>s. s\<lparr>sb := get_superblock d\<rparr>)) (
     brelse bp)))"

definition fsinit :: "int \<Rightarrow> (unit, 'z fstate_scheme) kern" where
  "fsinit dev =
     sq (readsb dev) (
     bnd (gets sb) (\<lambda>sb.
     if sb_magic sb \<noteq> FSMAGIC then panic ''invalid file system''
     else initlog dev sb))"

definition bzero :: "u32 \<Rightarrow> u32 \<Rightarrow> (unit, 'z lstate_scheme) kern" where
  "bzero dev bno =
     bnd (bread dev bno) (\<lambda>bp.
     sq (upd_data bp (chars_zero 0 BSIZE)) (
     sq (log_write bp) (
     brelse bp)))"

text \<open>Bit \<open>bi\<close> of a block of the free map.\<close>

definition bit_used :: "chars \<Rightarrow> nat \<Rightarrow> bool" where
  "bit_used d bi \<longleftrightarrow> d (bi div 8) AND push_bit (bi mod 8) 1 \<noteq> 0"

definition set_used :: "nat \<Rightarrow> chars \<Rightarrow> chars" where
  "set_used bi d = d(bi div 8 := d (bi div 8) OR push_bit (bi mod 8) 1)"

definition set_unused :: "nat \<Rightarrow> chars \<Rightarrow> chars" where
  "set_unused bi d = d(bi div 8 := d (bi div 8) AND NOT (push_bit (bi mod 8) 1))"

text \<open>The outer loop of \<open>balloc\<close> over the first blocks \<open>b\<close> that the blocks of the free map describe.\<close>

primrec balloc_scan :: "nat list \<Rightarrow> u32 \<Rightarrow> (u32, 'z fstate_scheme) kern" where
  "balloc_scan [] dev = sq (printk ''balloc: out of blocks'') (ret 0)"
| "balloc_scan (b # bs) dev =
     bnd (gets (\<lambda>s. BBLOCK (of_nat b) (sb s))) (\<lambda>n.
     bnd (bread dev n) (\<lambda>bp.
     bnd (gets (\<lambda>s. unat (sb_size (sb s)))) (\<lambda>size.
     bnd (getb bp b_data) (\<lambda>d.
     case find (\<lambda>bi. \<not> bit_used d bi) [0..<min (unat BPB) (size - b)] of
       Some bi \<Rightarrow>
         sq (upd_data bp (set_used bi)) (
         sq (log_write bp) (
         sq (brelse bp) (
         sq (bzero dev (of_nat (b + bi))) (
         ret (of_nat (b + bi))))))
     | None \<Rightarrow> sq (brelse bp) (balloc_scan bs dev)))))"

definition balloc :: "u32 \<Rightarrow> (u32, 'z fstate_scheme) kern" where
  "balloc dev =
     bnd (gets (\<lambda>s. unat (sb_size (sb s)))) (\<lambda>size.
     balloc_scan (map (\<lambda>k. unat BPB * k) [0..<(size + unat BPB - 1) div unat BPB]) dev)"

definition bfree :: "u32 \<Rightarrow> u32 \<Rightarrow> (unit, 'z fstate_scheme) kern" where
  "bfree dev b =
     bnd (gets (\<lambda>s. BBLOCK b (sb s))) (\<lambda>n.
     bnd (bread dev n) (\<lambda>bp.
     bnd (getb bp b_data) (\<lambda>d.
     let bi = unat (b mod BPB) in
     if \<not> bit_used d bi then panic ''freeing free block''
     else sq (upd_data bp (set_unused bi)) (
     sq (log_write bp) (
     brelse bp)))))"

subsection \<open>Inodes\<close>

definition iinit :: "(unit, 'z fstate_scheme) kern" where
  "iinit =
     sq (initlock ItableLock ''itable'')
        (forM [0..<NINODE] (\<lambda>i. initsleeplock (InodeSleep i) ''inode''))"

text \<open>
  The scan of \<open>iget\<close>: \<open>Inl ip\<close> when it finds the inode in the table, otherwise the first empty slot.
\<close>

fun iget_scan :: "(nat \<Rightarrow> inode) \<Rightarrow> u32 \<Rightarrow> u32 \<Rightarrow> nat list \<Rightarrow> nat option \<Rightarrow> nat + nat option" where
  "iget_scan t dev inum [] slot = Inr slot"
| "iget_scan t dev inum (ip # ips) slot =
     (if i_ref (t ip) > 0 \<and> i_dev (t ip) = dev \<and> i_inum (t ip) = inum then Inl ip
      else iget_scan t dev inum ips (if slot = None \<and> i_ref (t ip) = 0 then Some ip else slot))"

definition iget :: "u32 \<Rightarrow> u32 \<Rightarrow> (nat, 'z fstate_scheme) kern" where
  "iget dev inum =
     sq (acquire ItableLock) (
     bnd (gets itable) (\<lambda>t.
     case iget_scan t dev inum [0..<NINODE] None of
       Inl ip \<Rightarrow>
         sq (upd_inode ip (\<lambda>i. i\<lparr>i_ref := i_ref i + 1\<rparr>)) (
         sq (release ItableLock) (
         ret ip))
     | Inr None \<Rightarrow> panic ''iget: no inodes''
     | Inr (Some ip) \<Rightarrow>
         sq (upd_inode ip (\<lambda>i. i\<lparr>i_dev := dev, i_inum := inum, i_ref := 1, i_valid := False\<rparr>)) (
         sq (release ItableLock) (
         ret ip))))"

primrec ialloc_scan :: "nat list \<Rightarrow> u32 \<Rightarrow> u16 \<Rightarrow> (nat option, 'z fstate_scheme) kern" where
  "ialloc_scan [] dev type = sq (printk ''ialloc: no inodes'') (ret None)"
| "ialloc_scan (inum # is) dev type =
     bnd (gets (\<lambda>s. IBLOCK (of_nat inum) (sb s))) (\<lambda>n.
     bnd (bread dev n) (\<lambda>bp.
     bnd (getb bp b_data) (\<lambda>d.
     let off = dinode_off (of_nat inum) in
     if get16 d off = 0 then
       sq (upd_data bp (chars_zero off DINODE_SIZE)) (
       sq (upd_data bp (put16 off type)) (
       sq (log_write bp) (
       sq (brelse bp) (
       bnd (iget dev (of_nat inum)) (\<lambda>ip. ret (Some ip))))))
     else sq (brelse bp) (ialloc_scan is dev type))))"

definition ialloc :: "u32 \<Rightarrow> u16 \<Rightarrow> (nat option, 'z fstate_scheme) kern" where
  "ialloc dev type =
     bnd (gets (\<lambda>s. unat (sb_ninodes (sb s)))) (\<lambda>n.
     ialloc_scan [1..<n] dev type)"

definition iupdate :: "nat \<Rightarrow> (unit, 'z fstate_scheme) kern" where
  "iupdate ip =
     bnd (geti ip i_dev) (\<lambda>dev.
     bnd (geti ip i_inum) (\<lambda>inum.
     bnd (gets (\<lambda>s. IBLOCK inum (sb s))) (\<lambda>n.
     bnd (bread dev n) (\<lambda>bp.
     bnd (geti ip i_inum) (\<lambda>inum.
     bnd (geti ip i_d) (\<lambda>di.
     sq (upd_data bp (put_dinode (dinode_off inum) di)) (
     sq (log_write bp) (
     brelse bp))))))))"

definition idup :: "nat \<Rightarrow> (nat, 'z fstate_scheme) kern" where
  "idup ip =
     sq (acquire ItableLock) (
     sq (upd_inode ip (\<lambda>i. i\<lparr>i_ref := i_ref i + 1\<rparr>)) (
     sq (release ItableLock) (
     ret ip)))"

definition ilock :: "nat option \<Rightarrow> (unit, 'z fstate_scheme) kern" where
  "ilock p = (case p of
     None \<Rightarrow> panic ''ilock''
   | Some ip \<Rightarrow>
     bnd (geti ip i_ref) (\<lambda>ref.
     if ref < 1 then panic ''ilock''
     else sq (acquiresleep (InodeSleep ip)) (
     bnd (geti ip i_valid) (\<lambda>v.
     whenM (\<not> v) (
       bnd (geti ip i_dev) (\<lambda>dev.
       bnd (geti ip i_inum) (\<lambda>inum.
       bnd (gets (\<lambda>s. IBLOCK inum (sb s))) (\<lambda>n.
       bnd (bread dev n) (\<lambda>bp.
       bnd (geti ip i_inum) (\<lambda>inum.
       bnd (getb bp b_data) (\<lambda>d.
       sq (upd_inode ip (\<lambda>i. i\<lparr>i_d := get_dinode d (dinode_off inum)\<rparr>)) (
       sq (brelse bp) (
       sq (upd_inode ip (\<lambda>i. i\<lparr>i_valid := True\<rparr>)) (
       bnd (getdi ip di_type) (\<lambda>ty.
       if ty = 0 then panic ''ilock: no type'' else ret ())))))))))))))))"

definition iunlock :: "nat option \<Rightarrow> (unit, 'z fstate_scheme) kern" where
  "iunlock p = (case p of
     None \<Rightarrow> panic ''iunlock''
   | Some ip \<Rightarrow>
     bnd (holdingsleep (InodeSleep ip)) (\<lambda>h.
     bnd (geti ip i_ref) (\<lambda>ref.
     if \<not> h \<or> ref < 1 then panic ''iunlock''
     else releasesleep (InodeSleep ip))))"

definition itrunc :: "nat \<Rightarrow> (unit, 'z fstate_scheme) kern" where
  "itrunc ip =
     sq (forM [0..<NDIRECT] (\<lambda>i.
       bnd (getdi ip (\<lambda>d. di_addrs d i)) (\<lambda>a.
       whenM (a \<noteq> 0) (
         bnd (geti ip i_dev) (\<lambda>dev.
         sq (bfree dev a)
            (set_addr ip i 0)))))) (
     bnd (getdi ip (\<lambda>d. di_addrs d NDIRECT)) (\<lambda>a.
     sq (whenM (a \<noteq> 0) (
       bnd (geti ip i_dev) (\<lambda>dev.
       bnd (bread dev a) (\<lambda>bp.
       sq (forM [0..<NINDIRECT] (\<lambda>j.
         bnd (getb bp (\<lambda>b. get32 (b_data b) (4 * j))) (\<lambda>aj.
         whenM (aj \<noteq> 0) (
           bnd (geti ip i_dev) (\<lambda>dev. bfree dev aj))))) (
       sq (brelse bp) (
       bnd (geti ip i_dev) (\<lambda>dev.
       bnd (getdi ip (\<lambda>d. di_addrs d NDIRECT)) (\<lambda>a.
       sq (bfree dev a)
          (set_addr ip NDIRECT 0))))))))) (
     sq (upd_dinode ip (\<lambda>d. d\<lparr>di_size := 0\<rparr>)) (
     iupdate ip))))"

definition iput :: "nat \<Rightarrow> (unit, 'z fstate_scheme) kern" where
  "iput ip =
     sq (acquire ItableLock) (
     bnd (geti ip (\<lambda>i. i_ref i = 1 \<and> i_valid i \<and> di_nlink (i_d i) = 0)) (\<lambda>lst.
     sq (whenM lst (
       sq (acquiresleep (InodeSleep ip)) (
       sq (release ItableLock) (
       sq (itrunc ip) (
       sq (upd_dinode ip (\<lambda>d. d\<lparr>di_type := 0\<rparr>)) (
       sq (iupdate ip) (
       sq (upd_inode ip (\<lambda>i. i\<lparr>i_valid := False\<rparr>)) (
       sq (releasesleep (InodeSleep ip)) (
       acquire ItableLock))))))))) (
     sq (upd_inode ip (\<lambda>i. i\<lparr>i_ref := i_ref i - 1\<rparr>)) (
     release ItableLock))))"

definition iunlockput :: "nat \<Rightarrow> (unit, 'z fstate_scheme) kern" where
  "iunlockput ip = sq (iunlock (Some ip)) (iput ip)"

subsection \<open>Inode content\<close>

definition bmap :: "nat \<Rightarrow> u32 \<Rightarrow> (u32, 'z fstate_scheme) kern" where
  "bmap ip bn =
     bnd (geti ip i_dev) (\<lambda>dev.
     if unat bn < NDIRECT then
       bnd (getdi ip (\<lambda>d. di_addrs d (unat bn))) (\<lambda>addr.
       if addr = 0 then
         bnd (balloc dev) (\<lambda>addr.
         if addr = 0 then ret 0
         else sq (set_addr ip (unat bn) addr) (ret addr))
       else ret addr)
     else let bn = unat bn - NDIRECT in
     if bn < NINDIRECT then
       bnd (getdi ip (\<lambda>d. di_addrs d NDIRECT)) (\<lambda>addr.
       bnd (if addr = 0 then
              bnd (balloc dev) (\<lambda>addr.
              sq (whenM (addr \<noteq> 0) (set_addr ip NDIRECT addr)) (ret addr))
            else ret addr) (\<lambda>addr.
       if addr = 0 then ret 0
       else bnd (bread dev addr) (\<lambda>bp.
       bnd (getb bp (\<lambda>b. get32 (b_data b) (4 * bn))) (\<lambda>addr.
       bnd (if addr = 0 then
              bnd (balloc dev) (\<lambda>addr.
              sq (whenM (addr \<noteq> 0) (
                sq (upd_data bp (put32 (4 * bn) addr))
                   (log_write bp))) (ret addr))
            else ret addr) (\<lambda>addr.
       sq (brelse bp) (ret addr))))))
     else panic ''bmap: out of range'')"

definition stati :: "nat \<Rightarrow> (stat, 'z fstate_scheme) kern" where
  "stati ip = geti ip (\<lambda>i. \<lparr>st_dev = i_dev i, st_ino = i_inum i, st_type = di_type (i_d i),
     st_nlink = di_nlink (i_d i), st_size = ucast (di_size (i_d i))\<rparr>)"

text \<open>
  How many of \<open>left\<close> bytes a round of the loops of \<open>readi\<close> and \<open>writei\<close> moves at offset \<open>off\<close>.
\<close>

definition rw_len :: "u32 \<Rightarrow> u32 \<Rightarrow> u32" where
  "rw_len left off = (if left < of_nat BSIZE - off mod of_nat BSIZE then left else of_nat BSIZE - off mod of_nat BSIZE)"

lemma rw_len_pos: "left \<noteq> 0 \<Longrightarrow> unat (left - rw_len left off) < unat left"
proof -
  assume "left \<noteq> 0"
  have "off mod 1024 < 1024" by (simp add: word_less_nat_alt unat_mod)
  then have "1024 - off mod 1024 \<noteq> 0" by auto
  then have "rw_len left off \<noteq> 0" "rw_len left off \<le> left" using \<open>left \<noteq> 0\<close> by (auto simp: rw_len_def)
  then show ?thesis by (metis unat_sub word_le_nat_alt diff_less unat_eq_0 gr0I word_gt_0 le_zero_eq)
qed

text \<open>
  The loop of \<open>readi\<close>: \<open>left\<close> is \<open>n - tot\<close>. The second result is the bytes read, which is what an object of
  the caller receives.
\<close>

function readi_loop :: "nat \<Rightarrow> dest \<Rightarrow> u32 \<Rightarrow> u32 \<Rightarrow> u32 \<Rightarrow> bytes \<Rightarrow> (u32 \<times> bytes, 'z fstate_scheme) kern" where
  "readi_loop ip dst off left tot acc =
     (if left = 0 then ret (tot, acc)
      else bnd (bmap ip (off div of_nat BSIZE)) (\<lambda>addr.
      if addr = 0 then ret (tot, acc)
      else bnd (geti ip i_dev) (\<lambda>dev.
      bnd (bread dev addr) (\<lambda>bp.
      let m = rw_len left off in
      bnd (getb bp b_data) (\<lambda>d.
      bnd (either_copyout dst (\<lambda>k. d (unat (off mod of_nat BSIZE) + k)) (ucast m)) (\<lambda>r.
      if r = -1 then sq (brelse bp) (ret (-1, acc))
      else sq (brelse bp)
        (readi_loop ip (dest_add dst (ucast m)) (off + m) (left - m) (tot + m)
          (acc @ chars_get d (unat (off mod of_nat BSIZE)) (unat m)))))))))"
  by pat_completeness auto
termination
  by (relation "measure (\<lambda>(ip, dst, off, left, tot, acc). unat left)") (use rw_len_pos in auto)

definition readi :: "nat \<Rightarrow> dest \<Rightarrow> u32 \<Rightarrow> u32 \<Rightarrow> (int \<times> bytes, 'z fstate_scheme) kern" where
  "readi ip dst off n =
     bnd (getdi ip di_size) (\<lambda>size.
     if off > size \<or> off + n < off then ret (0, [])
     else let n = if off + n > size then size - off else n in
     bnd (readi_loop ip dst off n 0 []) (\<lambda>(tot, bs). ret (sint tot, bs)))"

text \<open>The loop of \<open>writei\<close>; the results are \<open>tot\<close> and \<open>off\<close>.\<close>

function writei_loop :: "nat \<Rightarrow> source \<Rightarrow> u32 \<Rightarrow> u32 \<Rightarrow> u32 \<Rightarrow> (u32 \<times> u32, 'z fstate_scheme) kern" where
  "writei_loop ip src off left tot =
     (if left = 0 then ret (tot, off)
      else bnd (bmap ip (off div of_nat BSIZE)) (\<lambda>addr.
      if addr = 0 then ret (tot, off)
      else bnd (geti ip i_dev) (\<lambda>dev.
      bnd (bread dev addr) (\<lambda>bp.
      let m = rw_len left off in
      bnd (either_copyin src (ucast m)) (\<lambda>(r, bs).
      sq (upd_data bp (chars_put (unat (off mod of_nat BSIZE)) bs)) (
      if r = -1 then sq (brelse bp) (ret (tot, off))
      else sq (log_write bp) (
      sq (brelse bp)
        (writei_loop ip (source_add src (ucast m)) (off + m) (left - m) (tot + m)))))))))"
  by pat_completeness auto
termination
  by (relation "measure (\<lambda>(ip, src, off, left, tot). unat left)") (use rw_len_pos in auto)

definition writei :: "nat \<Rightarrow> source \<Rightarrow> u32 \<Rightarrow> u32 \<Rightarrow> (int, 'z fstate_scheme) kern" where
  "writei ip src off n =
     bnd (getdi ip di_size) (\<lambda>size.
     if off > size \<or> off + n < off then ret (-1)
     else if unat (off + n) > MAXFILE * BSIZE then ret (-1)
     else bnd (writei_loop ip src off n 0) (\<lambda>(tot, off).
     bnd (getdi ip di_size) (\<lambda>size.
     sq (whenM (off > size) (upd_dinode ip (\<lambda>d. d\<lparr>di_size := off\<rparr>))) (
     sq (iupdate ip) (
     ret (sint tot))))))"

subsection \<open>Directories\<close>

definition namecmp :: "chars \<Rightarrow> chars \<Rightarrow> int" where
  "namecmp s t = strncmp s t DIRSIZ"

text \<open>\<open>struct dirent\<close>: the inode number in two bytes and then the name.\<close>

definition de_inum :: "bytes \<Rightarrow> u16" where
  "de_inum de = le_word (take 2 de)"

definition de_name :: "bytes \<Rightarrow> chars" where
  "de_name de = (\<lambda>k. de ! (2 + k))"

text \<open>
  The loops over the entries of a directory. \<open>k\<close> bounds the number of rounds: an entry past
  \<open>MAXFILE * BSIZE\<close> cannot be read, since \<open>bmap\<close> panics there.
\<close>

abbreviation (input) MAXDIRENTS :: nat where "MAXDIRENTS \<equiv> 17153"

primrec dirlookup_loop :: "nat \<Rightarrow> nat \<Rightarrow> chars \<Rightarrow> u32 \<Rightarrow> ((nat \<times> u32) option, 'z fstate_scheme) kern" where
  "dirlookup_loop 0 dp name off = fault"
| "dirlookup_loop (Suc k) dp name off =
     bnd (getdi dp di_size) (\<lambda>size.
     if \<not> off < size then ret None
     else bnd (readi dp ObjDst off (of_nat DIRENT_SIZE)) (\<lambda>(r, de).
     if r \<noteq> int DIRENT_SIZE then panic ''dirlookup read''
     else if de_inum de = 0 then dirlookup_loop k dp name (off + of_nat DIRENT_SIZE)
     else if namecmp name (de_name de) = 0 then
       bnd (geti dp i_dev) (\<lambda>dev.
       bnd (iget dev (ucast (de_inum de))) (\<lambda>ip. ret (Some (ip, off))))
     else dirlookup_loop k dp name (off + of_nat DIRENT_SIZE)))"

definition dirlookup :: "nat \<Rightarrow> chars \<Rightarrow> ((nat \<times> u32) option, 'z fstate_scheme) kern" where
  "dirlookup dp name =
     bnd (getdi dp di_type) (\<lambda>ty.
     if ty \<noteq> T_DIR then panic ''dirlookup not DIR''
     else dirlookup_loop MAXDIRENTS dp name 0)"

primrec dirlink_loop :: "nat \<Rightarrow> nat \<Rightarrow> u32 \<Rightarrow> (u32, 'z fstate_scheme) kern" where
  "dirlink_loop 0 dp off = fault"
| "dirlink_loop (Suc k) dp off =
     bnd (getdi dp di_size) (\<lambda>size.
     if \<not> off < size then ret off
     else bnd (readi dp ObjDst off (of_nat DIRENT_SIZE)) (\<lambda>(r, de).
     if r \<noteq> int DIRENT_SIZE then panic ''dirlink read''
     else if de_inum de = 0 then ret off
     else dirlink_loop k dp (off + of_nat DIRENT_SIZE)))"

definition dirent :: "u16 \<Rightarrow> chars \<Rightarrow> chars" where
  "dirent inum name = (\<lambda>k. if k < 2 then le_bytes 2 inum ! k else name (k - 2))"

definition dirlink :: "nat \<Rightarrow> chars \<Rightarrow> u32 \<Rightarrow> (int, 'z fstate_scheme) kern" where
  "dirlink dp name inum =
     bnd (dirlookup dp name) (\<lambda>r. case r of
       Some (ip, _) \<Rightarrow> sq (iput ip) (ret (-1))
     | None \<Rightarrow>
         bnd (dirlink_loop MAXDIRENTS dp 0) (\<lambda>off.
         bnd (writei dp (ObjSrc (dirent (ucast inum) (strncpy (\<lambda>_. 0) name (int DIRSIZ)))) off (of_nat DIRENT_SIZE)) (\<lambda>r.
         if r \<noteq> int DIRENT_SIZE then ret (-1) else ret 0)))"

subsection \<open>Paths\<close>

abbreviation (input) SLASH :: u8 where "SLASH \<equiv> 47"

text \<open>\<open>name\<close> is the caller's array, of which \<open>skipelem\<close> overwrites the first \<open>DIRSIZ\<close> bytes or fewer.\<close>

definition skipelem :: "bytes \<Rightarrow> chars \<Rightarrow> (bytes \<times> chars) option" where
  "skipelem path name =
     (let path = dropWhile (\<lambda>c. c = SLASH) path in
      if path = [] then None
      else let s = takeWhile (\<lambda>c. c \<noteq> SLASH) path;
               path = dropWhile (\<lambda>c. c \<noteq> SLASH) path;
               name = if length s \<ge> DIRSIZ then chars_put 0 (take DIRSIZ s) name
                      else (chars_put 0 s name)(length s := 0) in
      Some (dropWhile (\<lambda>c. c = SLASH) path, name))"

lemma skipelem_shorter:
  assumes "skipelem path name = Some (path', name')"
  shows "length path' < length path"
proof -
  let ?p = "dropWhile (\<lambda>c. c = SLASH) path"
  have f: "map_option fst (skipelem path name) = Some path'" by (simp only: assms option.map fst_conv)
  have "?p \<noteq> []" using f unfolding skipelem_def Let_def by (intro notI) (simp only: if_True option.map option.distinct simp_thms)
  then have p: "path' = dropWhile (\<lambda>c. c = SLASH) (dropWhile (\<lambda>c. c \<noteq> SLASH) ?p)"
    using f unfolding skipelem_def Let_def by (simp only: if_False option.map fst_conv option.inject simp_thms)
  obtain c cs where cs: "?p = c # cs" using \<open>?p \<noteq> []\<close> by (cases ?p) auto
  moreover have "c \<noteq> SLASH" using hd_dropWhile [OF \<open>?p \<noteq> []\<close>] by (simp add: cs)
  ultimately have c: "?p = c # cs" "c \<noteq> SLASH" by auto
  then have "path' = dropWhile (\<lambda>c. c = SLASH) (dropWhile (\<lambda>c. c \<noteq> SLASH) cs)" using p by simp
  then have "length path' \<le> length cs" by (meson le_trans length_dropWhile_le)
  also have "length cs < length path" using c by (metis length_dropWhile_le length_Cons Suc_le_lessD)
  finally show ?thesis .
qed

function namex_loop :: "nat \<Rightarrow> bytes \<Rightarrow> bool \<Rightarrow> chars \<Rightarrow> (nat option \<times> chars, 'z fstate_scheme) kern" where
  "namex_loop ip path nameiparent name = (case skipelem path name of
     None \<Rightarrow> if nameiparent then sq (iput ip) (ret (None, name)) else ret (Some ip, name)
   | Some (path', name') \<Rightarrow>
       sq (ilock (Some ip)) (
       bnd (getdi ip di_type) (\<lambda>ty.
       if ty \<noteq> T_DIR then sq (iunlockput ip) (ret (None, name'))
       else if nameiparent \<and> path' = [] then sq (iunlock (Some ip)) (ret (Some ip, name'))
       else bnd (dirlookup ip name') (\<lambda>r. case r of
         None \<Rightarrow> sq (iunlockput ip) (ret (None, name'))
       | Some (next, _) \<Rightarrow> sq (iunlockput ip) (namex_loop next path' nameiparent name')))))"
  by pat_completeness auto
termination
  by (relation "measure (\<lambda>(ip, path, np, name). length path)") (use skipelem_shorter in auto)

definition namex :: "bytes \<Rightarrow> bool \<Rightarrow> chars \<Rightarrow> (nat option \<times> chars, 'z fstate_scheme) kern" where
  "namex path nameiparent name =
     bnd (if path \<noteq> [] \<and> hd path = SLASH then iget (of_nat ROOTDEV) ROOTINO
          else bnd curproc (\<lambda>i.
               bnd (getp i p_cwd) (\<lambda>cwd. case cwd of None \<Rightarrow> fault | Some ip \<Rightarrow> idup ip))) (\<lambda>ip.
     namex_loop ip path nameiparent name)"

definition namei :: "bytes \<Rightarrow> (nat option, 'z fstate_scheme) kern" where
  "namei path = bnd (namex path False (\<lambda>_. 0)) (\<lambda>(ip, _). ret ip)"

definition nameiparent :: "bytes \<Rightarrow> chars \<Rightarrow> (nat option \<times> chars, 'z fstate_scheme) kern" where
  "nameiparent path name = namex path True name"

end
