(* ===== verification/Fsops.thy ===== *)
theory Fsops
  imports Fs Umem
begin

text \<open>
  Files of \<open>kernel/fs.c\<close> as sequences of bytes. A file's block map gives the disk blocks of its content, directly
  or through the indirect block; \<open>readi\<close> returns a slice of that content and \<open>writei\<close>, in an operation of the log,
  overwrites one. Inodes survive their encoding into the block that holds them.
\<close>

subsection \<open>Execution\<close>

lemma fstate_acq [simp]:
  "sb (acq l s) = sb s" "itable (acq l s) = itable s" "itable_update f (acq l s) = acq l (itable_update f s)"
  by (simp_all add: acq_def)

lemma fstate_norm [simp]:
  "sb (norm s) = sb s" "itable (norm s) = itable s" "norm (itable_update f s) = itable_update f (norm s)"
  by (simp_all add: norm_def)

lemma acqs_itable: "acqs L (itable_update f s) = itable_update f (acqs L s)"
  by (induction L) simp_all

lemma quiet_itable [simp]: "quiet i L s \<Longrightarrow> quiet i L (itable_update f s)"
  by (erule quiet_acqs_update) (simp_all add: acqs_itable mach_ok_def lock_free_def ie_def running_def awake_def)

lemma does_geti: "does D C i L (geti ip f) N (f (itable N ip)) L N"
  unfolding geti_def by (rule does_gets) simp

lemma does_getdi: "does D C i L (getdi ip f) N (f (i_d (itable N ip))) L N"
  unfolding getdi_def by (rule does_geti)

lemma does_upd_inode: "does D C i L (upd_inode ip f) N () L (N\<lparr>itable := (itable N)(ip := f (itable N ip))\<rparr>)"
  unfolding upd_inode_def by (rule does_modify) simp_all

lemma bio_frame_fs: "bio_frame N N' \<Longrightarrow> itable N' = itable N" "bio_frame N N' \<Longrightarrow> sb N' = sb N"
  by (auto simp: bio_frame_def)

subsection \<open>Looking at a block\<close>

text \<open>The cache may have been reorganised, but no block has another content.\<close>

definition blocks_same :: "nat \<Rightarrow> nat set \<Rightarrow> 'z bstate_scheme \<Rightarrow> 'z bstate_scheme \<Rightarrow> bool" where
  "blocks_same i P N N' \<longleftrightarrow> bc i {} P N' \<and> blk N' = blk N \<and> platter N' = platter N \<and> pins P N' = pins P N \<and> bio_frame N N' \<and> norm N' = N'"

lemma blocks_same_trans: "blocks_same i P N M \<Longrightarrow> blocks_same i P M K \<Longrightarrow> blocks_same i P N K"
  unfolding blocks_same_def using bio_frame_trans by auto

lemma does_look:
  assumes "bc i {} P N" and "card P < NBUF" and "disk_works D" and "norm N = N" and "CP (platter N)" and "n < 2 ^ 31"
  shows "\<exists>b N1 N2. does D (\<lambda>M. CP (platter M)) i [] (bread 1 n) N b [] N1 \<and> does D (\<lambda>M. CP (platter M)) i [] (brelse b) N1 () [] N2
    \<and> map (b_data (bufs N1 b)) [0..<BSIZE] = blk N n \<and> blocks_same i P N N2 \<and> bio_frame N N1"
proof -
  have "{} \<union> P \<noteq> {..<NBUF} \<or> (\<exists>b\<in>P. b_blockno (bufs N b) = n)" using card_not_all [OF assms(2)] by simp
  from does_bread_blk [where CP = CP, OF assms(1) _ this assms(3-6)]
  obtain b N1 where 1: "does D (\<lambda>M. CP (platter M)) i [] (bread 1 n) N b [] N1" "bc i {b} P N1" "b_blockno (bufs N1 b) = n"
    "bdata N1 b = blk N n" "blk N1 = blk N" "platter N1 = platter N" "bufs_same P N N1" "bio_frame N N1" by auto
  have b: "b \<in> {b}" by simp
  have clean: "b \<in> P \<or> bdata N1 b = pblk (platter N1) (b_blockno (bufs N1 b))"
  proof (cases "n \<in> pins P N")
    case True
    then obtain c where "c \<in> P" "b_blockno (bufs N1 c) = n" using 1(7) by (auto simp: pins_def bufs_same_def)
    then have "b = c" using bc_pinned_unique [OF 1(2), of b c] 1(3) bcD(3,9) [OF 1(2)] by auto
    then show ?thesis using \<open>c \<in> P\<close> by simp
  next
    case False
    then show ?thesis using blk_clean [OF assms(1)] 1(3,4,6) by simp
  qed
  note R = brelse_bc [OF 1(2) b clean]
  have "pins P (released b N1) = pins P N" using R(4) [of UNIV] 1(7) by (auto simp: pins_def bufs_same_def)
  then have "blocks_same i P N (released b N1)"
    using R 1 bio_frame_trans [OF 1(8) R(5)] bio_frame_norm [OF _ assms(4)] by (simp add: blocks_same_def)
  then show ?thesis using 1(1,4,8) does_brelse [OF bcD(7) [OF 1(2) b]] unfolding bdata_def by blast
qed

subsection \<open>The content of a file\<close>

text \<open>Block \<open>k\<close> of the file of inode \<open>ip\<close> in the table, and byte \<open>j\<close>.\<close>

definition fblock :: "'z fstate_scheme \<Rightarrow> nat \<Rightarrow> nat \<Rightarrow> u32" where
  "fblock N ip k = (let d = i_d (itable N ip) in
     if k < NDIRECT then di_addrs d k else bget32 (blk N (di_addrs d NDIRECT)) (4 * (k - NDIRECT)))"

definition fbyte :: "'z fstate_scheme \<Rightarrow> nat \<Rightarrow> nat \<Rightarrow> u8" where
  "fbyte N ip j = blk N (fblock N ip (j div BSIZE)) ! (j mod BSIZE)"

text \<open>Block \<open>k\<close> is there.\<close>

definition fmapped :: "'z fstate_scheme \<Rightarrow> nat \<Rightarrow> nat \<Rightarrow> bool" where
  "fmapped N ip k \<longleftrightarrow> k < MAXFILE \<and> fblock N ip k \<noteq> 0 \<and> fblock N ip k < 2 ^ 31
     \<and> (NDIRECT \<le> k \<longrightarrow> di_addrs (i_d (itable N ip)) NDIRECT \<noteq> 0 \<and> di_addrs (i_d (itable N ip)) NDIRECT < 2 ^ 31)"

lemma file_same:
  assumes "blocks_same i P N N'"
  shows "fblock N' ip k = fblock N ip k" "fbyte N' ip j = fbyte N ip j" "fmapped N' ip k = fmapped N ip k"
    "itable N' = itable N" "sb N' = sb N"
proof -
  have t: "itable N' = itable N" "sb N' = sb N" "blk N' = blk N" using assms bio_frame_fs by (auto simp: blocks_same_def)
  then show b: "fblock N' ip k = fblock N ip k" for k by (simp add: fblock_def Let_def)
  show "fbyte N' ip j = fbyte N ip j" "fmapped N' ip k = fmapped N ip k" "itable N' = itable N" "sb N' = sb N"
    using t by (simp_all add: fbyte_def fmapped_def b)
qed

text \<open>On a block that is there, \<open>bmap\<close> is a lookup.\<close>

lemma does_bmap:
  assumes bc: "bc i {} P N" and cP: "card P < NBUF" and D: "disk_works D" and nN: "norm N = N" and CP: "CP (platter N)"
    and dev: "i_dev (itable N ip) = 1" and k: "fmapped N ip (unat bn)"
  shows "\<exists>N'. does D (\<lambda>M. CP (platter M)) i [] (bmap ip bn) N (fblock N ip (unat bn)) [] N' \<and> blocks_same i P N N'"
proof (cases "unat bn < NDIRECT")
  case True
  then have a: "di_addrs (i_d (itable N ip)) (unat bn) = fblock N ip (unat bn)" "fblock N ip (unat bn) \<noteq> 0" using k by (auto simp: fblock_def fmapped_def)
  have "does D (\<lambda>M. CP (platter M)) i [] (bmap ip bn) N (fblock N ip (unat bn)) [] N" unfolding bmap_def
    by (rule does_bnd [OF does_geti], simp only: True if_True, rule does_bnd [OF does_getdi], simp only: a if_False, rule does_ret)
  then show ?thesis using bc nN by (intro exI [of _ N]) (simp add: blocks_same_def)
next
  case False
  let ?d = "i_d (itable N ip)" and ?j = "unat bn - NDIRECT"
  have j: "?j < NINDIRECT" and ind: "di_addrs ?d NDIRECT \<noteq> 0" "di_addrs ?d NDIRECT < 2 ^ 31" and a: "fblock N ip (unat bn) \<noteq> 0"
    using k False by (auto simp: fmapped_def)
  obtain b N1 N2 where 1: "does D (\<lambda>M. CP (platter M)) i [] (bread 1 (di_addrs ?d NDIRECT)) N b [] N1" "does D (\<lambda>M. CP (platter M)) i [] (brelse b) N1 () [] N2"
    "map (b_data (bufs N1 b)) [0..<BSIZE] = blk N (di_addrs ?d NDIRECT)" "blocks_same i P N N2" "bio_frame N N1"
    using does_look [where CP = CP, OF bc cP D nN CP ind(2)] by (elim exE conjE) (rule that)
  have get: "get32 (b_data (bufs N1 b)) (4 * ?j) = fblock N ip (unat bn)"
    using bget32 [of "4 * ?j" "b_data (bufs N1 b)"] j False by (simp add: fblock_def 1(3) del: upt_rec_numeral)
  let ?rest = "\<lambda>addr. if addr = 0 then ret 0 else bnd (bread 1 addr) (\<lambda>bp.
       bnd (getb bp (\<lambda>b. get32 (b_data b) (4 * ?j))) (\<lambda>addr.
       bnd (if addr = 0 then bnd (balloc 1) (\<lambda>addr. sq (whenM (addr \<noteq> 0) (sq (upd_data bp (put32 (4 * ?j) addr)) (log_write bp))) (ret addr))
            else ret addr) (\<lambda>addr. sq (brelse bp) (ret addr))))"
  have rest: "does D (\<lambda>M. CP (platter M)) i [] (?rest (di_addrs ?d NDIRECT)) N (fblock N ip (unat bn)) [] N2"
    by (simp only: ind(1) if_False, rule does_bnd [OF 1(1)], rule does_bnd [OF does_getb], unfold get, simp only: a if_False,
        rule does_bnd [OF does_ret], rule does_sq [OF 1(2) does_ret])
  have "does D (\<lambda>M. CP (platter M)) i [] (bmap ip bn) N (fblock N ip (unat bn)) [] N2" unfolding bmap_def
    by (rule does_bnd [OF does_geti], simp only: False if_False Let_def j if_True dev, rule does_bnd [OF does_getdi], simp only: ind(1) if_False,
        rule does_bnd [OF does_ret], rule rest)
  then show ?thesis using 1(4) by blast
qed

subsection \<open>Reading\<close>

lemma unat_rw_len: "unat (rw_len left off) = min (unat left) (BSIZE - unat off mod BSIZE)"
proof -
  have "off mod 1024 \<le> 1024" by (simp add: word_le_nat_alt unat_mod less_imp_le)
  then have "unat (1024 - off mod 1024) = 1024 - unat off mod 1024" by (simp add: unat_sub unat_mod)
  then show ?thesis by (auto simp: rw_len_def word_less_nat_alt)
qed

text \<open>The arithmetic of a round of the two loops: it stays within one block, and the rest starts with the next.\<close>

lemma rw_round:
  assumes "left \<noteq> 0" and "unat off + unat left < 2 ^ 32" and "m = rw_len left off"
  shows "unat (off + m) = unat off + unat m" "unat (left - m) = unat left - unat m" "0 < unat m" "unat m \<le> unat left"
    "unat off mod BSIZE + unat m \<le> BSIZE" "unat (off div of_nat BSIZE) = unat off div BSIZE" "unat (off mod of_nat BSIZE) = unat off mod BSIZE"
proof -
  have m: "unat m = min (unat left) (1024 - unat off mod 1024)" using unat_rw_len assms(3) by simp
  have "unat left \<noteq> 0" "unat off mod 1024 < 1024" using assms(1) by (simp_all add: unat_eq_0)
  then show 1: "0 < unat m" "unat m \<le> unat left" "unat off mod BSIZE + unat m \<le> BSIZE" using m by auto
  show "unat (off + m) = unat off + unat m" using 1 assms(2) by (intro unat_add_lem [THEN iffD1]) simp
  show "unat (left - m) = unat left - unat m" using 1(2) by (simp add: unat_sub word_le_nat_alt)
  show "unat (off div of_nat BSIZE) = unat off div BSIZE" "unat (off mod of_nat BSIZE) = unat off mod BSIZE" by (simp_all add: unat_div unat_mod)
qed

text \<open>The bytes of one block are consecutive bytes of the file.\<close>

lemma fbyte_block:
  assumes "o1 mod BSIZE + m \<le> BSIZE" and "j < m"
  shows "fbyte N ip (o1 + j) = blk N (fblock N ip (o1 div BSIZE)) ! (o1 mod BSIZE + j)"
proof -
  have "o1 + j = o1 div 1024 * 1024 + (o1 mod 1024 + j)" by simp
  moreover have "o1 mod 1024 + j < 1024" using assms by simp
  ultimately have "(o1 + j) div 1024 = o1 div 1024" "(o1 + j) mod 1024 = o1 mod 1024 + j"
    by (metis div_mult_self3 add_0_right div_less zero_neq_numeral, metis mod_mult_self3 mod_less)
  then show ?thesis by (simp add: fbyte_def)
qed

definition fmapped_range :: "'z fstate_scheme \<Rightarrow> nat \<Rightarrow> nat \<Rightarrow> nat \<Rightarrow> bool" where
  "fmapped_range N ip o1 o2 \<longleftrightarrow> (\<forall>j. o1 \<le> j \<and> j < o2 \<longrightarrow> fmapped N ip (j div BSIZE))"

lemma does_copyout_obj: "does D C i L (either_copyout ObjDst src len) N 0 L N"
  unfolding either_copyout_def by (rule does_bnd [OF does_myproc], simp only: dest.case, rule does_ret)

lemma does_readi_loop:
  assumes "disk_works D" and "card P < NBUF"
  shows "bc i {} P N \<Longrightarrow> norm N = N \<Longrightarrow> CP (platter N) \<Longrightarrow> i_dev (itable N ip) = 1 \<Longrightarrow> unat off + unat left < 2 ^ 32
    \<Longrightarrow> fmapped_range N ip (unat off) (unat off + unat left)
    \<Longrightarrow> \<exists>N'. does D (\<lambda>M. CP (platter M)) i [] (readi_loop ip ObjDst off left tot acc) N
          (tot + left, acc @ map (fbyte N ip) [unat off..<unat off + unat left]) [] N' \<and> blocks_same i P N N'"
proof (induction "unat left" arbitrary: off left tot acc N rule: less_induct)
  case less
  show ?case
  proof (cases "left = 0")
    case True
    have "does D (\<lambda>M. CP (platter M)) i [] (readi_loop ip ObjDst off left tot acc) N (tot + left, acc @ map (fbyte N ip) [unat off..<unat off + unat left]) [] N"
      by (subst readi_loop.simps) (simp add: True does_ret)
    then show ?thesis using less.prems(1,2) by (intro exI [of _ N]) (simp add: blocks_same_def)
  next
    case False
    define m where "m = rw_len left off"
    note R = rw_round [OF False less.prems(5) m_def]
    have k: "fmapped N ip (unat (off div of_nat BSIZE))" using less.prems(6) R by (auto simp: fmapped_range_def)
    let ?n = "fblock N ip (unat (off div of_nat BSIZE))"
    have n: "?n \<noteq> 0" "?n < 2 ^ 31" using k by (auto simp: fmapped_def)
    obtain N1 where 1: "does D (\<lambda>M. CP (platter M)) i [] (bmap ip (off div of_nat BSIZE)) N ?n [] N1" "blocks_same i P N N1"
      using does_bmap [where CP = CP, OF less.prems(1) assms(2,1) less.prems(2-4) k] by (elim exE conjE) (rule that)
    have pre1: "bc i {} P N1" "norm N1 = N1" "CP (platter N1)" "i_dev (itable N1 ip) = 1" "blk N1 = blk N"
      using 1(2) less.prems(3,4) file_same(4) [OF 1(2)] by (auto simp: blocks_same_def)
    obtain b N2 N3 where 2: "does D (\<lambda>M. CP (platter M)) i [] (bread 1 ?n) N1 b [] N2" "does D (\<lambda>M. CP (platter M)) i [] (brelse b) N2 () [] N3"
      "map (b_data (bufs N2 b)) [0..<BSIZE] = blk N1 ?n" "blocks_same i P N1 N3" "bio_frame N1 N2"
      using does_look [where CP = CP, OF pre1(1) assms(2,1) pre1(2,3) n(2)] by (elim exE conjE) (rule that)
    note S = blocks_same_trans [OF 1(2) 2(4)]
    have pre3: "bc i {} P N3" "norm N3 = N3" "CP (platter N3)" "i_dev (itable N3 ip) = 1"
      using S less.prems(3,4) file_same(4) [OF S] by (auto simp: blocks_same_def)
    let ?d = "b_data (bufs N2 b)"
    let ?acc = "acc @ chars_get ?d (unat (off mod of_nat BSIZE)) (unat m)"
    have d: "?d j = blk N ?n ! j" if "j < BSIZE" for j
      unfolding 2(3) [unfolded pre1(5), symmetric] using that by (simp del: upt_rec_numeral)
    have got: "chars_get ?d (unat (off mod of_nat BSIZE)) (unat m) = map (fbyte N ip) [unat off..<unat off + unat m]"
      by (rule nth_equalityI) (use R fbyte_block [OF R(5), of _ N ip] in \<open>simp_all add: chars_get_def d del: upt_rec_numeral\<close>)
    have pre4: "unat (off + m) + unat (left - m) < 2 ^ 32" "fmapped_range N3 ip (unat (off + m)) (unat (off + m) + unat (left - m))"
      using less.prems(5,6) R unfolding fmapped_range_def by (simp_all add: file_same(3) [OF S])
    have less': "unat (left - m) < unat left" using R by simp
    obtain N4 where 4: "does D (\<lambda>M. CP (platter M)) i [] (readi_loop ip ObjDst (off + m) (left - m) (tot + m) ?acc) N3
       (tot + m + (left - m), ?acc @ map (fbyte N3 ip) [unat (off + m)..<unat (off + m) + unat (left - m)]) [] N4" "blocks_same i P N3 N4"
      using less.hyps [OF less' pre3 pre4, of "tot + m" ?acc] by (elim exE conjE) (rule that)
    have res: "(tot + m + (left - m), ?acc @ map (fbyte N3 ip) [unat (off + m)..<unat (off + m) + unat (left - m)])
      = (tot + left, acc @ map (fbyte N ip) [unat off..<unat off + unat left])"
      unfolding got using R(1,2,4) upt_add_eq_append [of "unat off" "unat off + unat m" "unat left - unat m"]
      by (simp add: file_same(2) [OF S] algebra_simps del: upt_rec_numeral)
    let ?body = "bnd (getb b b_data) (\<lambda>d. bnd (either_copyout ObjDst (\<lambda>k. d (unat (off mod of_nat BSIZE) + k)) (ucast m)) (\<lambda>r.
      if r = -1 then sq (brelse b) (ret (-1, acc)) else sq (brelse b) (readi_loop ip (dest_add ObjDst (ucast m)) (off + m) (left - m) (tot + m)
          (acc @ chars_get d (unat (off mod of_nat BSIZE)) (unat m)))))"
    have body: "does D (\<lambda>M. CP (platter M)) i [] ?body N2 (tot + left, acc @ map (fbyte N ip) [unat off..<unat off + unat left]) [] N4"
      by (rule does_bnd [OF does_getb], rule does_bnd [OF does_copyout_obj], subst if_not_P, simp, unfold dest_add.simps, rule does_sq [OF 2(2)],
          rule 4(1) [unfolded res])
    have "does D (\<lambda>M. CP (platter M)) i [] (readi_loop ip ObjDst off left tot acc) N
       (tot + left, acc @ map (fbyte N ip) [unat off..<unat off + unat left]) [] N4"
      by (subst readi_loop.simps, simp only: False if_False, rule does_bnd [OF 1(1)], simp only: n(1) if_False, rule does_bnd [OF does_geti],
          unfold pre1(4), rule does_bnd [OF 2(1)], unfold Let_def m_def [symmetric], rule body)
    then show ?thesis using blocks_same_trans [OF S 4(2)] by blast
  qed
qed

text \<open>How many of \<open>n\<close> bytes at \<open>off\<close> a file of \<open>sz\<close> bytes has; none when \<open>off + n\<close> wraps around.\<close>

definition read_len :: "u32 \<Rightarrow> u32 \<Rightarrow> u32 \<Rightarrow> nat" where
  "read_len sz off n = (if sz < off \<or> 2 ^ 32 \<le> unat off + unat n then 0 else min (unat n) (unat sz - unat off))"

lemma file_norm [simp]: "blk (norm N) = blk N" "fblock (norm N) ip k = fblock N ip k" "fbyte (norm N) ip j = fbyte N ip j"
  "fmapped (norm N) ip k = fmapped N ip k" "fmapped_range (norm N) ip o1 o2 = fmapped_range N ip o1 o2"
proof -
  show 1: "blk (norm N) = blk N" by (rule ext) simp
  show "fblock (norm N) ip k = fblock N ip k" "fbyte (norm N) ip j = fbyte N ip j" "fmapped (norm N) ip k = fmapped N ip k"
    "fmapped_range (norm N) ip o1 o2 = fmapped_range N ip o1 o2"
    by (simp_all add: fblock_def fbyte_def fmapped_def fmapped_range_def 1 Let_def)
qed

lemma word_add_wraps: "off + n < off \<longleftrightarrow> 2 ^ 32 \<le> unat off + unat n" for off n :: u32
  using no_olen_add_nat [of off n] by (simp add: not_le [symmetric])

lemma fmapped_range_bound: "fmapped_range N ip o1 o2 \<Longrightarrow> o1 < o2 \<Longrightarrow> o2 \<le> MAXFILE * BSIZE"
  unfolding fmapped_range_def using div_less_iff_less_mult [of BSIZE "o2 - 1" MAXFILE] by (auto simp: fmapped_def dest: spec [of _ "o2 - 1"])

lemma sint_of_unat: "unat n = m \<Longrightarrow> m < 2 ^ 31 \<Longrightarrow> sint n = int m" for n :: u32
  by (simp add: sint_uint uint_nat signed_take_bit_int_eq_self)

lemma does_readi:
  assumes D: "disk_works D" and bc: "bc i {} P N" and cP: "card P < NBUF" and nN: "norm N = N" and CP: "CP (platter N)" and dev: "i_dev (itable N ip) = 1"
    and m: "m = read_len (di_size (i_d (itable N ip))) off n" and map: "fmapped_range N ip (unat off) (unat off + m)"
  shows "\<exists>N'. does D (\<lambda>M. CP (platter M)) i [] (readi ip ObjDst off n) N (int m, map (fbyte N ip) [unat off..<unat off + m]) [] N' \<and> blocks_same i P N N'"
proof (cases "di_size (i_d (itable N ip)) < off \<or> off + n < off")
  case True
  then have "m = 0" using m by (auto simp: read_len_def word_add_wraps)
  then have "does D (\<lambda>M. CP (platter M)) i [] (readi ip ObjDst off n) N (int m, map (fbyte N ip) [unat off..<unat off + m]) [] N"
    unfolding readi_def by (intro does_bnd [OF does_getdi]) (use True in \<open>simp add: does_ret\<close>)
  then show ?thesis using bc nN by (intro exI [of _ N]) (simp add: blocks_same_def)
next
  case False
  let ?size = "di_size (i_d (itable N ip))"
  define n' where "n' = (if ?size < off + n then ?size - off else n)"
  have sum: "unat off + unat n < 2 ^ 32" "unat (off + n) = unat off + unat n" "unat off \<le> unat ?size"
    using False unat_add_lem [of off n] by (simp_all add: word_add_wraps word_le_nat_alt not_less)
  then have n': "unat n' = m" using False m by (simp add: n'_def read_len_def word_less_nat_alt unat_sub word_le_nat_alt not_less)
  have m32: "unat off + unat n' < 2 ^ 32" using sum n' m unsigned_less [of ?size] by (auto simp: read_len_def)
  have "m < 2 ^ 31" using fmapped_range_bound [OF map] by (cases m) simp_all
  then have "sint n' = int m" by (rule sint_of_unat [OF n'])
  moreover obtain N' where "does D (\<lambda>M. CP (platter M)) i [] (readi_loop ip ObjDst off n' 0 []) N
      (0 + n', [] @ map (fbyte N ip) [unat off..<unat off + unat n']) [] N'" and S: "blocks_same i P N N'"
    using does_readi_loop [where CP = CP, OF D cP bc nN CP dev m32 map [folded n'], of 0 "[]"] by (elim exE conjE) (rule that)
  then have "does D (\<lambda>M. CP (platter M)) i [] (readi_loop ip ObjDst off n' 0 []) N (n', map (fbyte N ip) [unat off..<unat off + m]) [] N'"
    by (simp add: n')
  then have "does D (\<lambda>M. CP (platter M)) i [] (readi ip ObjDst off n) N (sint n', map (fbyte N ip) [unat off..<unat off + m]) [] N'"
    unfolding readi_def
    by (intro does_bnd [OF does_getdi]) (subst if_not_P, rule False, unfold Let_def n'_def [symmetric], rule does_bnd, assumption, simp add: does_ret)
  ultimately show ?thesis using S by auto
qed

subsection \<open>Writing\<close>

text \<open>
  The blocks of the file are distinct data blocks, and they are neither its indirect block nor the block of
  its inode.
\<close>

definition inode_block :: "'z fstate_scheme \<Rightarrow> nat \<Rightarrow> u32" where
  "inode_block N ip = IBLOCK (i_inum (itable N ip)) (sb N)"

definition file_ok :: "'z fstate_scheme \<Rightarrow> nat \<Rightarrow> bool" where
  "file_ok N ip \<longleftrightarrow> i_dev (itable N ip) = 1 \<and> data_block (log N) (inode_block N ip)
     \<and> di_addrs (i_d (itable N ip)) NDIRECT \<noteq> inode_block N ip \<and> inj_on (fblock N ip) {k. fmapped N ip k}
     \<and> (\<forall>k. fmapped N ip k \<longrightarrow> data_block (log N) (fblock N ip k) \<and> fblock N ip k \<noteq> inode_block N ip
          \<and> fblock N ip k \<noteq> di_addrs (i_d (itable N ip)) NDIRECT)"

text \<open>\<open>file_put N N' ip o1 bs\<close>: from \<open>N\<close> to \<open>N'\<close> the bytes \<open>bs\<close> have been written at offset \<open>o1\<close>, and nothing else.\<close>

definition file_put :: "'z fstate_scheme \<Rightarrow> 'z fstate_scheme \<Rightarrow> nat \<Rightarrow> nat \<Rightarrow> bytes \<Rightarrow> bool" where
  "file_put N N' ip o1 bs \<longleftrightarrow> itable N' = itable N \<and> sb N' = sb N
     \<and> (\<forall>n. n \<notin> fblock N ip ` {k. fmapped N ip k} \<longrightarrow> blk N' n = blk N n)
     \<and> (\<forall>j. fmapped N ip (j div BSIZE) \<longrightarrow> fbyte N' ip j = (if o1 \<le> j \<and> j < o1 + length bs then bs ! (j - o1) else fbyte N ip j))"

text \<open>As long as the indirect block and the inode stay, the block map stays.\<close>

lemma fmap_same:
  assumes "itable N' ip = itable N ip" and "blk N' (di_addrs (i_d (itable N ip)) NDIRECT) = blk N (di_addrs (i_d (itable N ip)) NDIRECT)"
  shows "fblock N' ip k = fblock N ip k" "fmapped N' ip k = fmapped N ip k"
proof -
  show "fblock N' ip k = fblock N ip k" for k using assms by (simp add: fblock_def Let_def)
  then show "fmapped N' ip k = fmapped N ip k" using assms(1) by (simp add: fmapped_def)
qed

lemma file_put_same:
  assumes "file_ok N ip" and "file_put N N' ip o1 bs"
  shows "fblock N' ip k = fblock N ip k" "fmapped N' ip k = fmapped N ip k" "inode_block N' ip = inode_block N ip"
proof -
  have "di_addrs (i_d (itable N ip)) NDIRECT \<notin> fblock N ip ` {k. fmapped N ip k}" using assms(1) unfolding file_ok_def image_iff by auto
  then have "itable N' ip = itable N ip" "blk N' (di_addrs (i_d (itable N ip)) NDIRECT) = blk N (di_addrs (i_d (itable N ip)) NDIRECT)"
    using assms(2) [unfolded file_put_def, THEN conjunct1] assms(2) [unfolded file_put_def, THEN conjunct2, THEN conjunct2, THEN conjunct1] by simp_all
  then show "fblock N' ip k = fblock N ip k" "fmapped N' ip k = fmapped N ip k" by (rule fmap_same)+
  show "inode_block N' ip = inode_block N ip" using assms(2) by (simp add: inode_block_def file_put_def)
qed

lemma file_put_nil: "file_put N N ip o1 []"
  by (auto simp: file_put_def)

lemma file_put_trans:
  assumes "file_ok N ip" and "file_put N M ip o1 bs" and "file_put M K ip (o1 + length bs) cs"
  shows "file_put N K ip o1 (bs @ cs)"
proof -
  have "fblock M ip = fblock N ip" "fmapped M ip = fmapped N ip" using file_put_same [OF assms(1,2)] by (simp_all add: fun_eq_iff)
  note same = this
  show ?thesis unfolding file_put_def
  proof (intro conjI allI impI)
    show "itable K = itable N" "sb K = sb N" using assms(2,3) by (simp_all only: file_put_def)
    show "blk K n = blk N n" if "n \<notin> fblock N ip ` {k. fmapped N ip k}" for n
      using assms(2,3) that unfolding file_put_def same by simp
    fix j assume j: "fmapped N ip (j div BSIZE)"
    then have "fbyte K ip j = (if o1 + length bs \<le> j \<and> j < o1 + length bs + length cs then cs ! (j - (o1 + length bs)) else fbyte M ip j)"
      "fbyte M ip j = (if o1 \<le> j \<and> j < o1 + length bs then bs ! (j - o1) else fbyte N ip j)"
      using assms(2,3) unfolding file_put_def same by blast+
    then show "fbyte K ip j = (if o1 \<le> j \<and> j < o1 + length (bs @ cs) then (bs @ cs) ! (j - o1) else fbyte N ip j)"
      by (auto simp: nth_append)
  qed
qed

text \<open>One round of \<open>writei\<close>.\<close>

lemma file_put_block:
  assumes ok: "file_ok N ip" and k: "fmapped N ip (o1 div BSIZE)" and len: "o1 mod BSIZE + length bs \<le> BSIZE"
    and same: "itable N' = itable N" "sb N' = sb N"
    and blk: "blk N' = (blk N)(fblock N ip (o1 div BSIZE) := on_block (chars_put (o1 mod BSIZE) bs) (blk N (fblock N ip (o1 div BSIZE))))"
  shows "file_put N N' ip o1 bs"
proof -
  let ?k = "o1 div 1024"
  have "blk N' (di_addrs (i_d (itable N ip)) NDIRECT) = blk N (di_addrs (i_d (itable N ip)) NDIRECT)" using ok k blk by (auto simp: file_ok_def)
  then have map: "fblock N' ip j = fblock N ip j" for j using same by (intro fmap_same) simp_all
  have "fbyte N' ip j = (if o1 \<le> j \<and> j < o1 + length bs then bs ! (j - o1) else fbyte N ip j)" if j: "fmapped N ip (j div 1024)" for j
  proof (cases "j div 1024 = ?k")
    case True
    have e: "j = ?k * 1024 + j mod 1024" "o1 = ?k * 1024 + o1 mod 1024" by (simp add: True [symmetric], simp)
    have "fbyte N' ip j = on_block (chars_put (o1 mod 1024) bs) (blk N (fblock N ip ?k)) ! (j mod 1024)"
      by (simp add: fbyte_def map blk True)
    also have "\<dots> = (if o1 mod 1024 \<le> j mod 1024 \<and> j mod 1024 < o1 mod 1024 + length bs then bs ! (j mod 1024 - o1 mod 1024) else fbyte N ip j)"
      by (simp add: on_block_def chars_put_def fbyte_def True del: upt_rec_numeral)
    also have "j mod 1024 - o1 mod 1024 = j - o1" using e by linarith
    also have "(o1 mod 1024 \<le> j mod 1024 \<and> j mod 1024 < o1 mod 1024 + length bs) = (o1 \<le> j \<and> j < o1 + length bs)" using e by linarith
    finally show ?thesis .
  next
    case False
    then have "fblock N ip (j div 1024) \<noteq> fblock N ip ?k" using ok j k by (auto simp: file_ok_def dest: inj_onD)
    then have "fbyte N' ip j = fbyte N ip j" by (simp add: fbyte_def map blk)
    moreover have "\<not> (o1 \<le> j \<and> j < o1 + length bs)"
    proof
      assume "o1 \<le> j \<and> j < o1 + length bs"
      then have "j < 1024 + ?k * 1024" "?k * 1024 \<le> j" using len div_mult_mod_eq [of o1 1024] by (linarith, linarith)
      then have "j div 1024 = ?k" by (intro div_nat_eqI) simp_all
      then show False using False by simp
    qed
    ultimately show ?thesis by auto
  qed
  moreover have "blk N' n = blk N n" if "n \<notin> fblock N ip ` {k. fmapped N ip k}" for n using that k blk by auto
  ultimately show ?thesis using same by (simp add: file_put_def)
qed

text \<open>In an operation that may still log \<open>c\<close> blocks.\<close>

definition in_op :: "nat \<Rightarrow> nat set \<Rightarrow> nat \<Rightarrow> 'z fstate_scheme \<Rightarrow> bool" where
  "in_op i P c N \<longleftrightarrow> in_trans i {} P N \<and> norm N = N \<and> 1 \<le> lg_outstanding (log N) \<and> int MAXOPBLOCKS < lg_size (log N)
     \<and> lh_n (lg_lh (log N)) + int c \<le> int MAXOPBLOCKS"

lemma in_op_bc:
  assumes "in_op i P c N"
  shows "bc i {} P N" "norm N = N" "card P < NBUF"
proof -
  have *: "bc i {} P N" "log_ok (log N)" "pins P N = set (logged (log N))" "lh_n (lg_lh (log N)) \<le> 10"
    using assms by (auto simp: in_op_def in_trans_def)
  then have "card P = length (logged (log N))" using card_pins [OF *(1)] distinct_card [of "logged (log N)"] by (simp add: log_ok_def loggable_def)
  then show "card P < NBUF" using *(4) by (simp add: logged_def)
  show "bc i {} P N" "norm N = N" using assms by (auto simp: in_op_def in_trans_def)
qed

lemma in_op_mono: "in_op i P c N \<Longrightarrow> d \<le> c \<Longrightarrow> in_op i P d N"
  by (simp add: in_op_def)

lemma in_op_same:
  assumes "in_op i P c N" and "blocks_same i P N N'"
  shows "in_op i P c N'" "log N' = log N"
proof -
  show "log N' = log N" using assms(2) bio_frame_log by (auto simp: blocks_same_def)
  then show "in_op i P c N'" using assms by (simp add: in_op_def in_trans_def blocks_same_def)
qed

lemma does_log_step:
  assumes op: "in_op i P (Suc c) N" and D: "disk_works D" and CP: "CP (platter N)" and n: "data_block (log N) n" and f: "block_fun f"
  shows "\<exists>b N1 N2 P' N'. does D (\<lambda>M. CP (platter M)) i [] (bread 1 n) N b [] N1
    \<and> does D (\<lambda>M. CP (platter M)) i [] (upd_data b f) N1 () [] N2 \<and> does D (\<lambda>M. CP (platter M)) i [] (sq (log_write b) (brelse b)) N2 () [] N'
    \<and> itable N1 = itable N \<and> in_op i P' c N' \<and> data_block (log N') = data_block (log N) \<and> itable N' = itable N \<and> sb N' = sb N
    \<and> blk N' = (blk N)(n := on_block f (blk N n)) \<and> platter N' = platter N"
proof -
  have *: "in_trans i {} P N" "norm N = N" "1 \<le> lg_outstanding (log N)" "lh_n (lg_lh (log N)) < int LOGSIZE"
    "lh_n (lg_lh (log N)) < lg_size (log N) - 1" "lh_n (lg_lh (log N)) + 1 < int NBUF" using op by (simp_all add: in_op_def)
  obtain b N1 N2 P' N' where o: "does D (\<lambda>M. CP (platter M)) i [] (bread 1 n) N b [] N1"
    "does D (\<lambda>M. CP (platter M)) i [] (upd_buf b (\<lambda>bf. bf\<lparr>b_data := f (b_data bf)\<rparr>)) N1 () [] N2"
    "does D (\<lambda>M. CP (platter M)) i [] (sq (log_write b) (brelse b)) N2 () [] N'"
    "bio_frame N N1" "in_trans i {} P' N'" "log N' = log_add (log N) n" "blk N' = (blk N)(n := on_block f (blk N n))" "platter N' = platter N"
    "bio_frame (N\<lparr>log := log_add (log N) n\<rparr>) N'"
    using does_log_open [where CP = CP, OF *(1) D *(2) CP refl n f *(3-6)] by (elim exE conjE) (rule that)
  have "norm N' = N'" by (rule bio_frame_norm [OF o(9)]) (use *(2) in simp)
  then have "in_op i P' c N'" using o(5) op by (simp add: in_op_def o(6) log_add_def)
  moreover have "data_block (log N') = data_block (log N)" unfolding o(6) by (rule ext, rule log_disk_cong(6)) (simp_all add: log_add_def)
  ultimately show ?thesis using o(1-3,7,8) bio_frame_fs [OF o(4)] bio_frame_fs [OF o(9)] unfolding upd_data_def
    by (intro exI [of _ b] exI [of _ N1] exI [of _ N2] exI [of _ P'] exI [of _ N']) simp
qed

lemma file_ok_same:
  assumes "file_ok N ip" and "itable N' = itable N" and "sb N' = sb N" and "data_block (log N') = data_block (log N)"
    and "\<And>k. fblock N' ip k = fblock N ip k"
  shows "file_ok N' ip"
proof -
  have "fmapped N' ip = fmapped N ip" "fblock N' ip = fblock N ip" "inode_block N' ip = inode_block N ip"
    using assms(2,3,5) by (simp_all add: fmapped_def fun_eq_iff inode_block_def)
  then show ?thesis using assms(1,2,4) by (simp add: file_ok_def)
qed

lemma block_fun_chars_put: "off + length bs \<le> BSIZE \<Longrightarrow> block_fun (chars_put off bs)"
  unfolding block_fun_def on_block_def by (auto simp: chars_put_def simp del: upt_rec_numeral)

lemma does_copyin_obj: "does D C i L (either_copyin (ObjSrc src) len) N (0, map src [0..<unat len]) L N"
  unfolding either_copyin_def by (rule does_bnd [OF does_myproc], simp only: source.case, rule does_ret)

text \<open>The number of blocks from offset \<open>o1\<close> to offset \<open>o2\<close>.\<close>

definition blocks_of :: "nat \<Rightarrow> nat \<Rightarrow> nat" where
  "blocks_of o1 o2 = (if o1 < o2 then (o2 - 1) div BSIZE - o1 div BSIZE + 1 else 0)"

lemma blocks_of_round:
  assumes "0 < m" and "m \<le> left" and "m = min left (BSIZE - o1 mod BSIZE)"
  shows "blocks_of o1 (o1 + left) = Suc (blocks_of (o1 + m) (o1 + left))"
proof (cases "m = left")
  case True
  have "(o1 + left - 1) div 1024 = o1 div 1024"
  proof (rule div_nat_eqI)
    have "1024 * (o1 div 1024) + o1 mod 1024 = o1" "o1 mod 1024 + left \<le> 1024" using assms(3) True mod_less_divisor [of 1024 o1] by auto
    then have "1024 * (o1 div 1024) \<le> o1" "o1 + left \<le> 1024 * (o1 div 1024) + 1024" by linarith+
    then show "1024 * (o1 div 1024) \<le> o1 + left - 1" "o1 + left - 1 < 1024 * Suc (o1 div 1024)" using assms(1) True by auto
  qed
  then show ?thesis using True assms(1) by (simp add: blocks_of_def)
next
  case False
  then have m: "m = 1024 - o1 mod 1024" "m < left" using assms by auto
  have "o1 mod 1024 < 1024" by simp
  then have "o1 + m = 1024 + o1 div 1024 * 1024" using m(1) div_mult_mod_eq [of o1 1024] by linarith
  then have "(o1 + m) div 1024 = o1 div 1024 + 1" by simp
  moreover have "(o1 + m) div 1024 \<le> (o1 + left - 1) div 1024" using m(2) by (intro div_le_mono) simp
  ultimately show ?thesis using m(2) by (simp add: blocks_of_def Suc_diff_Suc Suc_le_lessD)
qed

lemma does_writei_loop:
  assumes D: "disk_works D"
  shows "in_op i P (c + blocks_of (unat off) (unat off + unat left)) N \<Longrightarrow> CP (platter N) \<Longrightarrow> file_ok N ip \<Longrightarrow> unat off + unat left < 2 ^ 32
    \<Longrightarrow> fmapped_range N ip (unat off) (unat off + unat left)
    \<Longrightarrow> \<exists>P' N'. does D (\<lambda>M. CP (platter M)) i [] (writei_loop ip (ObjSrc src) off left tot) N (tot + left, off + left) [] N'
          \<and> in_op i P' c N' \<and> platter N' = platter N \<and> file_ok N' ip \<and> data_block (log N') = data_block (log N)
          \<and> file_put N N' ip (unat off) (map src [0..<unat left])"
proof (induction "unat left" arbitrary: off left tot src N P rule: less_induct)
  case less
  show ?case
  proof (cases "left = 0")
    case True
    have "does D (\<lambda>M. CP (platter M)) i [] (writei_loop ip (ObjSrc src) off left tot) N (tot + left, off + left) [] N"
      by (subst writei_loop.simps) (simp add: True does_ret)
    moreover have "in_op i P c N" using less.prems(1) True by (simp add: blocks_of_def)
    ultimately show ?thesis using less.prems(3) file_put_nil [of N ip "unat off"] True by (intro exI [of _ P] exI [of _ N]) simp
  next
    case False
    define m where "m = rw_len left off"
    note R = rw_round [OF False less.prems(4) m_def]
    have len: "blocks_of (unat off) (unat off + unat left) = Suc (blocks_of (unat off + unat m) (unat off + unat left))"
      by (rule blocks_of_round [OF R(3,4)]) (simp add: m_def unat_rw_len)
    let ?k = "unat (off div of_nat BSIZE)" and ?o = "unat (off mod of_nat BSIZE)" and ?bs = "map src [0..<unat m]"
      and ?c = "c + blocks_of (unat (off + m)) (unat (off + m) + unat (left - m))"
    have k: "fmapped N ip ?k" using less.prems(5) R by (auto simp: fmapped_range_def)
    let ?n = "fblock N ip ?k"
    have n: "?n \<noteq> 0" "data_block (log N) ?n" and dev: "i_dev (itable N ip) = 1" using k less.prems(3) by (auto simp: fmapped_def file_ok_def)
    note bc = in_op_bc [OF less.prems(1)]
    obtain N1 where 1: "does D (\<lambda>M. CP (platter M)) i [] (bmap ip (off div of_nat BSIZE)) N ?n [] N1" "blocks_same i P N N1"
      using does_bmap [where CP = CP, OF bc(1,3) D bc(2) less.prems(2) dev k] by (elim exE conjE) (rule that)
    note S = file_same [OF 1(2)] in_op_same [OF less.prems(1) 1(2)]
    have op1: "in_op i P (Suc ?c) N1" using S(6) len R by (simp add: add.assoc)
    have pre1: "CP (platter N1)" "data_block (log N1) ?n" "block_fun (chars_put ?o ?bs)" "i_dev (itable N1 ip) = 1"
      using less.prems(2) 1(2) n(2) dev S(4,7) R(5,7) by (simp_all add: blocks_same_def block_fun_chars_put)
    obtain b N2 N3 P4 N4 where 2: "does D (\<lambda>M. CP (platter M)) i [] (bread 1 ?n) N1 b [] N2"
      "does D (\<lambda>M. CP (platter M)) i [] (upd_data b (chars_put ?o ?bs)) N2 () [] N3"
      "does D (\<lambda>M. CP (platter M)) i [] (sq (log_write b) (brelse b)) N3 () [] N4"
      "itable N2 = itable N1" "in_op i P4 ?c N4" "data_block (log N4) = data_block (log N1)" "itable N4 = itable N1" "sb N4 = sb N1"
      "blk N4 = (blk N1)(?n := on_block (chars_put ?o ?bs) (blk N1 ?n))" "platter N4 = platter N1"
      using does_log_step [where CP = CP, OF op1 D pre1(1-3)] by (elim exE conjE) (rule that)
    have put: "file_put N N4 ip (unat off) ?bs"
      by (rule file_put_block [OF less.prems(3)]) (use k R 2(7-9) S(4,5) 1(2) in \<open>simp_all add: blocks_same_def\<close>)
    note F = file_put_same [OF less.prems(3) put]
    have db: "data_block (log N4) = data_block (log N)" using 2(6) S(7) by simp
    have ok4: "file_ok N4 ip" by (rule file_ok_same [OF less.prems(3)]) (use 2(7,8) S(4,5) db F(1) in simp_all)
    have pre4: "CP (platter N4)" "unat (off + m) + unat (left - m) < 2 ^ 32" "fmapped_range N4 ip (unat (off + m)) (unat (off + m) + unat (left - m))"
      using pre1(1) 2(10) less.prems(4,5) R by (simp_all add: fmapped_range_def F(2))
    let ?src = "\<lambda>j. src (unat (ucast m :: u64) + j)"
    have less': "unat (left - m) < unat left" using R by simp
    obtain P5 N5 where 5: "does D (\<lambda>M. CP (platter M)) i [] (writei_loop ip (ObjSrc ?src) (off + m) (left - m) (tot + m)) N4
        (tot + m + (left - m), off + m + (left - m)) [] N5" "in_op i P5 c N5" "platter N5 = platter N4" "file_ok N5 ip"
      "data_block (log N5) = data_block (log N4)" "file_put N4 N5 ip (unat (off + m)) (map ?src [0..<unat (left - m)])"
      using less.hyps [OF less' 2(5) pre4(1) ok4 pre4(2,3), of ?src "tot + m"] by (elim exE conjE) (rule that)
    have um: "unat (ucast m :: u64) = unat m" by (rule unat_ucast_32)
    have app: "?bs @ map ?src [0..<unat (left - m)] = map src [0..<unat left]"
      by (rule nth_equalityI) (use R(2,4) in \<open>auto simp: nth_append um\<close>)
    have put5: "file_put N N5 ip (unat off) (map src [0..<unat left])"
      using file_put_trans [OF less.prems(3) put] 5(6) R(1) by (simp add: app [symmetric])
    have body: "does D (\<lambda>M. CP (platter M)) i [] (sq (log_write b) (sq (brelse b) (writei_loop ip (ObjSrc ?src) (off + m) (left - m) (tot + m)))) N3
        (tot + left, off + left) [] N5"
      using does_sq [OF 2(3) 5(1)] by (simp add: sq_assoc algebra_simps)
    have "does D (\<lambda>M. CP (platter M)) i [] (writei_loop ip (ObjSrc src) off left tot) N (tot + left, off + left) [] N5"
      by (subst writei_loop.simps, simp only: False if_False, rule does_bnd [OF 1(1)], simp only: n(1) if_False, rule does_bnd [OF does_geti],
          unfold pre1(4), rule does_bnd [OF 2(1)], unfold Let_def m_def [symmetric], rule does_bnd [OF does_copyin_obj],
          unfold prod.case um, rule does_sq [OF 2(2)], subst if_not_P, simp, unfold source_add.simps, rule body)
    then show ?thesis using 5 put5 db 2(10) 1(2) by (intro exI [of _ P5] exI [of _ N5]) (simp add: blocks_same_def)
  qed
qed

subsection \<open>Inodes in their block\<close>

lemma chars_get_put: "length bs = n \<Longrightarrow> chars_get (chars_put off bs d) off n = bs"
  by (rule nth_equalityI) (auto simp: chars_get_def chars_put_def)

lemma chars_get_put_other: "o1 + n \<le> off \<or> off + length bs \<le> o1 \<Longrightarrow> chars_get (chars_put off bs d) o1 n = chars_get d o1 n"
  by (rule nth_equalityI) (auto simp: chars_get_def chars_put_def)

lemma get_put_words [simp]: "get16 (put16 off v d) off = v" "get32 (put32 off w d) off = w"
  by (simp_all add: get16_def put16_def get32_def put32_def chars_get_put)

lemma get_put_other:
  "o1 + 2 \<le> off \<or> off + 2 \<le> o1 \<Longrightarrow> get16 (put16 off v d) o1 = get16 d o1" "o1 + 2 \<le> off \<or> off + 4 \<le> o1 \<Longrightarrow> get16 (put32 off w d) o1 = get16 d o1"
  "o1 + 4 \<le> off \<or> off + 2 \<le> o1 \<Longrightarrow> get32 (put16 off v d) o1 = get32 d o1" "o1 + 4 \<le> off \<or> off + 4 \<le> o1 \<Longrightarrow> get32 (put32 off w d) o1 = get32 d o1"
  by (simp_all add: get16_def put16_def get32_def put32_def chars_get_put_other)

text \<open>The array of block addresses.\<close>

definition put_addrs :: "nat \<Rightarrow> (nat \<Rightarrow> u32) \<Rightarrow> nat \<Rightarrow> chars \<Rightarrow> chars" where
  "put_addrs off a n = fold (\<lambda>k. put32 (off + 12 + 4 * k) (a k)) [0..<n]"

lemma put_addrs_Suc: "put_addrs off a (Suc n) d = put32 (off + 12 + 4 * n) (a n) (put_addrs off a n d)"
  by (simp add: put_addrs_def)

lemma get_put_addrs:
  "k < n \<Longrightarrow> get32 (put_addrs off a n d) (off + 12 + 4 * k) = a k"
  "o1 + 4 \<le> off + 12 \<or> off + 12 + 4 * n \<le> o1 \<Longrightarrow> get32 (put_addrs off a n d) o1 = get32 d o1"
  "o1 + 2 \<le> off + 12 \<or> off + 12 + 4 * n \<le> o1 \<Longrightarrow> get16 (put_addrs off a n d) o1 = get16 d o1"
proof (induction n)
  case 0
  { case 1 then show ?case by simp }
  { case 2 then show ?case by (simp add: put_addrs_def) }
  { case 3 then show ?case by (simp add: put_addrs_def) }
next
  case (Suc n)
  { case 1
    have "get32 (put_addrs off a (Suc n) d) (off + 12 + 4 * k) = get32 (put_addrs off a n d) (off + 12 + 4 * k)" if "k < n"
      unfolding put_addrs_Suc using that by (intro get_put_other) simp
    then show ?case using 1 Suc.IH(1) by (cases "k = n") (simp_all add: put_addrs_Suc) }
  { case 2 then show ?case unfolding put_addrs_Suc using Suc.IH(2) by (subst get_put_other(4)) auto }
  { case 3 then show ?case unfolding put_addrs_Suc using Suc.IH(3) by (subst get_put_other(2)) auto }
qed

lemma put_dinode_addrs:
  "put_dinode off di d = put_addrs off (di_addrs di) (NDIRECT + 1) (put32 (off + 8) (di_size di) (put16 (off + 6) (di_nlink di) (
     put16 (off + 4) (di_minor di) (put16 (off + 2) (di_major di) (put16 off (di_type di) d)))))"
  by (simp only: put_dinode_def put_addrs_def)

text \<open>Equal as on-disk inodes, which have \<open>NDIRECT + 1\<close> addresses.\<close>

definition dinode_eq :: "dinode \<Rightarrow> dinode \<Rightarrow> bool" where
  "dinode_eq a b \<longleftrightarrow> di_type a = di_type b \<and> di_major a = di_major b \<and> di_minor a = di_minor b \<and> di_nlink a = di_nlink b
     \<and> di_size a = di_size b \<and> (\<forall>k\<le>NDIRECT. di_addrs a k = di_addrs b k)"

lemma get_put_dinode: "dinode_eq (get_dinode (put_dinode off di d) off) di"
  unfolding dinode_eq_def get_dinode_def put_dinode_addrs dinode.simps
  by (intro conjI allI impI; (subst get_put_addrs(1), simp)?; simp add: get_put_addrs(2,3) get_put_other)

lemma get_put_dinode_other: "o1 + DINODE_SIZE \<le> off \<or> off + DINODE_SIZE \<le> o1 \<Longrightarrow> dinode_eq (get_dinode (put_dinode off di d) o1) (get_dinode d o1)"
  unfolding dinode_eq_def get_dinode_def put_dinode_addrs dinode.simps
  by (elim disjE; intro conjI allI impI; simp add: get_put_addrs(2,3) get_put_other)

lemma block_fun_comp:
  assumes "block_fun f" and "block_fun g"
  shows "block_fun (\<lambda>d. f (g d))"
proof -
  have "map (f (g d)) [0..<BSIZE] = on_block f (on_block g (map d [0..<BSIZE]))" for d
    using assms unfolding block_fun_def by simp
  moreover have "on_block (\<lambda>d. f (g d)) bs = on_block f (on_block g bs)" for bs
    using assms(1) unfolding block_fun_def on_block_def [of "\<lambda>d. f (g d)"] on_block_def [of g] by simp
  ultimately show ?thesis unfolding block_fun_def by simp
qed

lemma block_fun_words:
  "off + 2 \<le> BSIZE \<Longrightarrow> block_fun (put16 off v)" "off + 4 \<le> BSIZE \<Longrightarrow> block_fun (put32 off w)"
  unfolding put16_def put32_def by (simp_all add: block_fun_chars_put)

lemma block_fun_addrs: "off + 12 + 4 * n \<le> BSIZE \<Longrightarrow> block_fun (put_addrs off a n)"
proof (induction n)
  case 0
  then show ?case by (auto simp: put_addrs_def block_fun_def on_block_def simp del: upt_rec_numeral)
next
  case (Suc n)
  then have "block_fun (\<lambda>d. put32 (off + 12 + 4 * n) (a n) (put_addrs off a n d))"
    by (intro block_fun_comp [OF block_fun_words(2)] Suc.IH) simp_all
  then show ?case by (simp add: put_addrs_Suc [abs_def])
qed

lemma block_fun_dinode: "off + DINODE_SIZE \<le> BSIZE \<Longrightarrow> block_fun (put_dinode off di)"
  unfolding put_dinode_addrs [abs_def]
  by (rule block_fun_comp [OF block_fun_addrs block_fun_comp [OF block_fun_words(2) block_fun_comp [OF block_fun_words(1)
        block_fun_comp [OF block_fun_words(1) block_fun_comp [OF block_fun_words(1) block_fun_words(1)]]]]]) simp_all

lemma dinode_off_bound: "dinode_off inum + DINODE_SIZE \<le> BSIZE"
proof -
  have "unat (inum mod 16) < 16" by (simp add: unat_mod)
  then show ?thesis by (simp add: dinode_off_def)
qed

lemma dinode_off_disjoint:
  "inum mod IPB \<noteq> jnum mod IPB \<Longrightarrow> dinode_off jnum + DINODE_SIZE \<le> dinode_off inum \<or> dinode_off inum + DINODE_SIZE \<le> dinode_off jnum"
  by (auto simp: dinode_off_def word_eq_iff_unsigned [where 'a = nat] neq_iff)

text \<open>The inode \<open>inum\<close> as block \<open>bs\<close> has it.\<close>

definition block_dinode :: "bytes \<Rightarrow> u32 \<Rightarrow> dinode" where
  "block_dinode bs inum = get_dinode (\<lambda>k. if k < BSIZE then bs ! k else 0) (dinode_off inum)"

lemma get_dinode_cong:
  assumes "\<And>k. off \<le> k \<Longrightarrow> k < off + DINODE_SIZE \<Longrightarrow> d k = d' k"
  shows "dinode_eq (get_dinode d off) (get_dinode d' off)"
proof -
  have "chars_get d o1 n = chars_get d' o1 n" if "off \<le> o1" "o1 + n \<le> off + DINODE_SIZE" for o1 n
    using assms that by (auto simp: chars_get_def)
  then show ?thesis unfolding dinode_eq_def get_dinode_def get16_def get32_def by simp
qed

lemma dinode_eq_trans: "dinode_eq a b \<Longrightarrow> dinode_eq b c \<Longrightarrow> dinode_eq a c"
  by (simp add: dinode_eq_def)

lemma block_dinode_put:
  "dinode_eq (block_dinode (on_block (put_dinode (dinode_off inum) di) bs) inum) di"
  "inum mod IPB \<noteq> jnum mod IPB \<Longrightarrow> dinode_eq (block_dinode (on_block (put_dinode (dinode_off inum) di) bs) jnum) (block_dinode bs jnum)"
proof -
  let ?d = "\<lambda>k. if k < BSIZE then bs ! k else 0"
  have 1: "dinode_eq (block_dinode (on_block (put_dinode (dinode_off inum) di) bs) j) (get_dinode (put_dinode (dinode_off inum) di ?d) (dinode_off j))" for j
    unfolding block_dinode_def by (rule get_dinode_cong) (use dinode_off_bound [of j] in \<open>simp add: on_block_def del: upt_rec_numeral\<close>)
  show "dinode_eq (block_dinode (on_block (put_dinode (dinode_off inum) di) bs) inum) di"
    by (rule dinode_eq_trans [OF 1 get_put_dinode])
  show "dinode_eq (block_dinode (on_block (put_dinode (dinode_off inum) di) bs) jnum) (block_dinode bs jnum)" if "inum mod IPB \<noteq> jnum mod IPB"
    unfolding block_dinode_def [of bs] by (rule dinode_eq_trans [OF 1 get_put_dinode_other [OF dinode_off_disjoint [OF that]]])
qed

lemma does_iupdate:
  assumes op: "in_op i P (Suc c) N" and D: "disk_works D" and CP: "CP (platter N)" and dev: "i_dev (itable N ip) = 1" and n: "data_block (log N) (inode_block N ip)"
  shows "\<exists>P' N'. does D (\<lambda>M. CP (platter M)) i [] (iupdate ip) N () [] N' \<and> in_op i P' c N' \<and> data_block (log N') = data_block (log N)
    \<and> itable N' = itable N \<and> sb N' = sb N \<and> platter N' = platter N
    \<and> blk N' = (blk N)(inode_block N ip := on_block (put_dinode (dinode_off (i_inum (itable N ip))) (i_d (itable N ip))) (blk N (inode_block N ip)))"
proof -
  let ?f = "put_dinode (dinode_off (i_inum (itable N ip))) (i_d (itable N ip))"
  obtain b N1 N2 P' N' where o: "does D (\<lambda>M. CP (platter M)) i [] (bread 1 (inode_block N ip)) N b [] N1"
    "does D (\<lambda>M. CP (platter M)) i [] (upd_data b ?f) N1 () [] N2" "does D (\<lambda>M. CP (platter M)) i [] (sq (log_write b) (brelse b)) N2 () [] N'"
    "itable N1 = itable N" "in_op i P' c N'" "data_block (log N') = data_block (log N)" "itable N' = itable N" "sb N' = sb N"
    "blk N' = (blk N)(inode_block N ip := on_block ?f (blk N (inode_block N ip)))" "platter N' = platter N"
    using does_log_step [where CP = CP and f = ?f, OF op D CP n block_fun_dinode [OF dinode_off_bound]] by (elim exE conjE) (rule that)
  have g: "does D C i [] (gets (\<lambda>s. IBLOCK (i_inum (itable N ip)) (sb s))) N (inode_block N ip) [] N" for C
    unfolding inode_block_def by (rule does_gets) simp
  have "does D (\<lambda>M. CP (platter M)) i [] (iupdate ip) N () [] N'" unfolding iupdate_def
    by (rule does_bnd [OF does_geti], rule does_bnd [OF does_geti], rule does_bnd [OF g], unfold dev, rule does_bnd [OF o(1)], rule does_bnd [OF does_geti],
        rule does_bnd [OF does_geti], unfold o(4), rule does_sq [OF o(2,3)])
  then show ?thesis using o(5-10) by (intro exI [of _ P'] exI [of _ N']) simp
qed

subsection \<open>The write\<close>

lemma bio_itable [simp]:
  "bc i H P (itable_update f N) = bc i H P N" "blk (itable_update f N) = blk N" "pins P (itable_update f N) = pins P N"
  "in_trans i H P (itable_update f N) = in_trans i H P N"
proof -
  have h: "bdata (itable_update f N) b = bdata N b" for b by (simp add: bdata_def)
  have "holds (itable_update f N) b n = holds N b n" for b n by (simp add: holds_def)
  then have "blk (itable_update f N) n = blk N n" for n by (simp add: blk_def h split: option.split)
  then show "blk (itable_update f N) = blk N" by (simp add: fun_eq_iff)
  show 1: "bc i H P (itable_update f N) = bc i H P N" by (simp add: bc_def h sl_mine_def sl_free_def)
  show 2: "pins P (itable_update f N) = pins P N" by (simp add: pins_def)
  show "in_trans i H P (itable_update f N) = in_trans i H P N" by (simp add: in_trans_def 1 2)
qed

lemma in_op_itable [simp]: "in_op i P c N \<Longrightarrow> in_op i P c (itable_update f N)"
  by (simp add: in_op_def)

text \<open>
  What \<open>writei\<close> does to the file of inode \<open>ip\<close>: \<open>bs\<close> are at offset \<open>o1\<close>, the file may have grown, the inode is
  on the disk as it is in the table, and no other block has changed.
\<close>

definition written :: "'z fstate_scheme \<Rightarrow> 'z fstate_scheme \<Rightarrow> nat \<Rightarrow> nat \<Rightarrow> bytes \<Rightarrow> bool" where
  "written N N' ip o1 bs \<longleftrightarrow> sb N' = sb N
     \<and> itable N' = (itable N)(ip := (itable N ip)\<lparr>i_d := (i_d (itable N ip))\<lparr>di_size := max (di_size (i_d (itable N ip))) (of_nat (o1 + length bs))\<rparr>\<rparr>)
     \<and> (\<forall>n. n \<notin> fblock N ip ` {k. fmapped N ip k} \<longrightarrow> n \<noteq> inode_block N ip \<longrightarrow> blk N' n = blk N n)
     \<and> (\<forall>j. fmapped N ip (j div BSIZE) \<longrightarrow> fbyte N' ip j = (if o1 \<le> j \<and> j < o1 + length bs then bs ! (j - o1) else fbyte N ip j))
     \<and> fblock N' ip = fblock N ip \<and> fmapped N' ip = fmapped N ip
     \<and> dinode_eq (block_dinode (blk N' (inode_block N ip)) (i_inum (itable N ip))) (i_d (itable N' ip))"

lemma file_put_written:
  assumes ok: "file_ok N ip" and put: "file_put N M ip o1 bs" and sz: "sz = max (di_size (i_d (itable N ip))) (of_nat (o1 + length bs))"
    and K: "itable K = (itable M)(ip := (itable M ip)\<lparr>i_d := (i_d (itable M ip))\<lparr>di_size := sz\<rparr>\<rparr>)" "sb K = sb M" "inum = i_inum (itable N ip)"
      "blk K = (blk M)(inode_block N ip := on_block (put_dinode (dinode_off inum) (i_d (itable K ip))) (blk M (inode_block N ip)))"
  shows "written N K ip o1 bs"
proof -
  have M: "itable M = itable N" "sb M = sb N" using put by (simp_all only: file_put_def)
  note F = file_put_same [OF ok put]
  have "di_addrs (i_d (itable N ip)) NDIRECT \<noteq> inode_block N ip" using ok by (simp add: file_ok_def)
  then have fb: "fblock K ip k = fblock N ip k" for k using F(1) [of k] by (auto simp: fblock_def K(1,4) M Let_def split: if_splits)
  then have fm: "fmapped K ip k = fmapped N ip k" for k by (simp add: fmapped_def K(1) M)
  have "fbyte K ip j = fbyte M ip j" if "fmapped N ip (j div BSIZE)" for j
    using that ok by (auto simp: fbyte_def fb F(1) K(4) file_ok_def)
  then have bt: "fbyte K ip j = (if o1 \<le> j \<and> j < o1 + length bs then bs ! (j - o1) else fbyte N ip j)" if "fmapped N ip (j div BSIZE)" for j
    using that put unfolding file_put_def by simp
  have "blk K n = blk N n" if "n \<notin> fblock N ip ` {k. fmapped N ip k}" "n \<noteq> inode_block N ip" for n
    using that put by (simp add: K(4) file_put_def)
  moreover have "dinode_eq (block_dinode (blk K (inode_block N ip)) (i_inum (itable N ip))) (i_d (itable K ip))"
    using block_dinode_put(1) by (simp add: K(3,4))
  ultimately show ?thesis using K(1,2) sz M by (simp add: written_def fb fm bt fun_eq_iff)
qed

lemma does_writei:
  assumes op: "in_op i P (Suc c + blocks_of (unat off) (unat off + unat n)) N" and D: "disk_works D" and CP: "CP (platter N)" and ok: "file_ok N ip"
    and off: "off \<le> di_size (i_d (itable N ip))" and len: "unat off + unat n \<le> MAXFILE * BSIZE" and map: "fmapped_range N ip (unat off) (unat off + unat n)"
  shows "\<exists>P' N'. does D (\<lambda>M. CP (platter M)) i [] (writei ip (ObjSrc src) off n) N (int (unat n)) [] N' \<and> in_op i P' c N' \<and> platter N' = platter N
    \<and> data_block (log N') = data_block (log N) \<and> written N N' ip (unat off) (map src [0..<unat n])"
proof -
  have len': "unat off + unat n < 2 ^ 32" "unat n < 2 ^ 31" using len by simp_all
  have add: "unat (off + n) = unat off + unat n" by (rule unat_add_lem [THEN iffD1]) (use len'(1) in simp)
  have sn: "sint n = int (unat n)" by (rule sint_of_unat [OF refl len'(2)])
  obtain P1 N1 where 1: "does D (\<lambda>M. CP (platter M)) i [] (writei_loop ip (ObjSrc src) off n 0) N (0 + n, off + n) [] N1"
    "in_op i P1 (Suc c) N1" "platter N1 = platter N" "file_ok N1 ip" "data_block (log N1) = data_block (log N)"
    "file_put N N1 ip (unat off) (map src [0..<unat n])"
    using does_writei_loop [where CP = CP and c = "Suc c", OF D op CP ok len'(1) map, of src 0] by (elim exE conjE) (rule that)
  let ?d = "i_d (itable N1 ip)"
  let ?big = "di_size ?d < off + n"
  define N2 where "N2 = N1\<lparr>itable := (itable N1)(ip := (itable N1 ip)\<lparr>i_d := ?d\<lparr>di_size := max (di_size ?d) (off + n)\<rparr>\<rparr>)\<rparr>"
  have up: "does D (\<lambda>M. CP (platter M)) i [] (whenM ?big (upd_dinode ip (\<lambda>d. d\<lparr>di_size := off + n\<rparr>))) N1 () [] N2"
  proof (rule does_whenM, cases ?big)
    case True
    then show "does D (\<lambda>M. CP (platter M)) i [] (if ?big then upd_dinode ip (\<lambda>d. d\<lparr>di_size := off + n\<rparr>) else ret ()) N1 () [] N2"
      unfolding upd_dinode_def N2_def using does_upd_inode [of D "\<lambda>M. CP (platter M)" i "[]" ip "\<lambda>i. i\<lparr>i_d := i_d i\<lparr>di_size := off + n\<rparr>\<rparr>" N1]
      by (simp add: max_def less_imp_le)
  next
    case False
    then have "N2 = N1" by (simp add: N2_def max_def not_less)
    then show "does D (\<lambda>M. CP (platter M)) i [] (if ?big then upd_dinode ip (\<lambda>d. d\<lparr>di_size := off + n\<rparr>) else ret ()) N1 () [] N2"
      using False by (simp add: does_ret)
  qed
  have ib: "inode_block N2 ip = inode_block N1 ip" by (simp add: inode_block_def N2_def)
  have pre2: "in_op i P1 (Suc c) N2" "CP (platter N2)" "i_dev (itable N2 ip) = 1" "data_block (log N2) (inode_block N2 ip)"
    using 1(2-4) CP unfolding ib by (simp_all add: N2_def file_ok_def)
  obtain P3 N3 where 3: "does D (\<lambda>M. CP (platter M)) i [] (iupdate ip) N2 () [] N3" "in_op i P3 c N3" "data_block (log N3) = data_block (log N2)"
    "itable N3 = itable N2" "sb N3 = sb N2" "platter N3 = platter N2"
    "blk N3 = (blk N2)(inode_block N2 ip := on_block (put_dinode (dinode_off (i_inum (itable N2 ip))) (i_d (itable N2 ip))) (blk N2 (inode_block N2 ip)))"
    using does_iupdate [where CP = CP, OF pre2(1) D pre2(2-4)] by (elim exE conjE) (rule that)
  have w: "written N N3 ip (unat off) (map src [0..<unat n])"
  proof (rule file_put_written [OF ok 1(6) refl])
    have "itable N1 = itable N" "inode_block N1 ip = inode_block N ip" "blk N2 = blk N1" "sb N2 = sb N1"
      using 1(6) file_put_same(3) [OF ok 1(6)] by (simp_all add: file_put_def N2_def)
    then show "itable N3 = (itable N1)(ip := (itable N1 ip)\<lparr>i_d := (i_d (itable N1 ip))\<lparr>di_size := max (di_size (i_d (itable N ip))) (of_nat (unat off + length (map src [0..<unat n])))\<rparr>\<rparr>)"
      "sb N3 = sb N1" "i_inum (itable N2 ip) = i_inum (itable N ip)"
      "blk N3 = (blk N1)(inode_block N ip := on_block (put_dinode (dinode_off (i_inum (itable N2 ip))) (i_d (itable N3 ip))) (blk N1 (inode_block N ip)))"
      using 3(4,5,7) ib by (simp_all add: N2_def)
  qed
  have fin: "does D (\<lambda>M. CP (platter M)) i [] (bnd (getdi ip di_size) (\<lambda>size. sq (whenM (size < off + n) (upd_dinode ip (\<lambda>d. d\<lparr>di_size := off + n\<rparr>))) (
      sq (iupdate ip) (ret (sint n))))) N1 (int (unat n)) [] N3"
    by (rule does_bnd [OF does_getdi], rule does_sq [OF up], rule does_sq [OF 3(1)], unfold sn, rule does_ret)
  have g: "\<not> (di_size (i_d (itable N ip)) < off \<or> off + n < off)" "\<not> MAXFILE * BSIZE < unat (off + n)"
    using off len len'(1) add by (auto simp: word_add_wraps not_less)
  have "does D (\<lambda>M. CP (platter M)) i [] (writei ip (ObjSrc src) off n) N (int (unat n)) [] N3" unfolding writei_def
    by (rule does_bnd [OF does_getdi], subst if_not_P, rule g(1), subst if_not_P, rule g(2), rule does_bnd [OF 1(1)], unfold prod.case add_0, rule fin)
  then show ?thesis using 3 w 1(3,5) by (intro exI [of _ P3] exI [of _ N3]) (simp add: N2_def)
qed

subsection \<open>The properties\<close>

lemma written_norm [simp]: "inode_block (norm N) ip = inode_block N ip" "written (norm N) (norm N') ip o1 bs = written N N' ip o1 bs"
proof -
  show 1: "inode_block (norm N) ip = inode_block N ip" for N :: "'a fstate_scheme" by (simp add: inode_block_def)
  have "fblock (norm N) ip = fblock N ip" "fmapped (norm N) ip = fmapped N ip" for N :: "'a fstate_scheme" by (simp_all add: fun_eq_iff)
  then show "written (norm N) (norm N') ip o1 bs = written N N' ip o1 bs" by (simp add: written_def 1)
qed

lemma file_ok_norm [simp]: "file_ok (norm N) ip = file_ok N ip"
proof -
  have "fblock (norm N) ip = fblock N ip" by (simp add: fun_eq_iff)
  then show ?thesis by (simp add: file_ok_def)
qed

text \<open>
  C8: \<open>readi\<close> returns a slice of the file. For a file whose blocks in the range are allocated, directly or through
  the indirect block, \<open>readi\<close> of \<open>n\<close> bytes at offset \<open>off\<close> returns the number \<open>m\<close> of bytes that the file has
  there, none past the end or when \<open>off + n\<close> wraps around, and exactly these bytes across all block
  boundaries. No block, no inode and nothing on the disk changes, whatever the cache had to evict.
\<close>

theorem readi_slice:
  assumes "disk_works D" and "quiet i [] s" and "bc i {} P s" and "card P < NBUF" and "i_dev (itable s ip) = 1"
    and "m = read_len (di_size (i_d (itable s ip))) off n" and "fmapped_range s ip (unat off) (unat off + m)"
  shows "achieves (env D i) (\<lambda>_ t. platter t = platter s)
    (\<lambda>(res, bs) t. quiet i [] t \<and> res = int m \<and> bs = map (fbyte s ip) [unat off..<unat off + m]
      \<and> blk t = blk s \<and> platter t = platter s \<and> itable t = itable s \<and> sb t = sb s)
    (readi ip ObjDst off n s)"
proof -
  have pre: "bc i {} P (norm s)" "norm (norm s) = norm s" "i_dev (itable (norm s) ip) = 1" "m = read_len (di_size (i_d (itable (norm s) ip))) off n"
    "fmapped_range (norm s) ip (unat off) (unat off + m)" "platter (norm s) = platter s" using assms by simp_all
  obtain N' where d: "does D (\<lambda>M. platter M = platter s) i [] (readi ip ObjDst off n) (norm s) (int m, map (fbyte (norm s) ip) [unat off..<unat off + m]) [] N'"
    and S: "blocks_same i P (norm s) N'"
    using does_readi [where CP = "\<lambda>p. p = platter s", OF assms(1) pre(1) assms(4) pre(2,6,3-5)] by (elim exE conjE) (rule that)
  show ?thesis
  proof (rule does_achieves [OF d assms(2)])
    fix t :: "'a fstate_scheme" assume t: "quiet i [] t" "norm t = N'"
    have "blk (norm t) = blk (norm s)" "platter (norm t) = platter (norm s)" "itable (norm t) = itable (norm s)" "sb (norm t) = sb (norm s)"
      using S file_same(4,5) [OF S] unfolding t(2) by (simp_all add: blocks_same_def)
    then show "(case (int m, map (fbyte (norm s) ip) [unat off..<unat off + m]) of (res, bs) \<Rightarrow> \<lambda>t. quiet i [] t \<and> res = int m
        \<and> bs = map (fbyte s ip) [unat off..<unat off + m] \<and> blk t = blk s \<and> platter t = platter s \<and> itable t = itable s \<and> sb t = sb s) t"
      using t(1) by simp
  qed simp
qed

text \<open>
  C7: \<open>writei\<close> overwrites a slice of the file. In an operation that may still log the blocks concerned and the block
  of the inode, \<open>writei\<close> of \<open>n\<close> bytes into allocated blocks, starting at most at the end of the file, returns
  \<open>n\<close>. The file has the new bytes in the slice and its old ones elsewhere, its size is the larger of the old
  size and the end of the slice, the inode on the disk block is the one in the table, and no other block and
  no other inode has changed. The disk itself is untouched until the operation commits.
\<close>

theorem writei_overwrites:
  assumes "disk_works D" and "quiet i [] s" and "in_op i P (Suc c + blocks_of (unat off) (unat off + unat n)) (norm s)" and "file_ok s ip"
    and "off \<le> di_size (i_d (itable s ip))" and "unat off + unat n \<le> MAXFILE * BSIZE" and "fmapped_range s ip (unat off) (unat off + unat n)"
  shows "achieves (env D i) (\<lambda>_ t. platter t = platter s)
    (\<lambda>res t. quiet i [] t \<and> res = int (unat n) \<and> (\<exists>Q. in_op i Q c (norm t)) \<and> platter t = platter s
      \<and> written s t ip (unat off) (map src [0..<unat n]))
    (writei ip (ObjSrc src) off n s)"
proof -
  have pre: "platter (norm s) = platter s" "file_ok (norm s) ip" "off \<le> di_size (i_d (itable (norm s) ip))"
    "fmapped_range (norm s) ip (unat off) (unat off + unat n)" using assms by simp_all
  obtain P' N' where d: "does D (\<lambda>M. platter M = platter s) i [] (writei ip (ObjSrc src) off n) (norm s) (int (unat n)) [] N'" "in_op i P' c N'"
    "platter N' = platter (norm s)" "data_block (log N') = data_block (log (norm s))" "written (norm s) N' ip (unat off) (map src [0..<unat n])"
    using does_writei [where CP = "\<lambda>p. p = platter s", OF assms(3,1) pre(1-3) assms(6) pre(4), of src] by (elim exE conjE) (rule that)
  show ?thesis
  proof (rule does_achieves [OF d(1) assms(2)])
    fix t :: "'a fstate_scheme" assume t: "quiet i [] t" "norm t = N'"
    have "in_op i P' c (norm t)" "platter (norm t) = platter (norm s)" "written (norm s) (norm t) ip (unat off) (map src [0..<unat n])"
      unfolding t(2) using d by simp_all
    then show "quiet i [] t \<and> int (unat n) = int (unat n) \<and> (\<exists>Q. in_op i Q c (norm t)) \<and> platter t = platter s \<and> written s t ip (unat off) (map src [0..<unat n])"
      using t(1) by (simp del: map_map) blast
  qed simp
qed

text \<open>
  C9: What is written is read back. \<open>readi\<close> after \<open>writei\<close>, under the conditions of \<open>writei\<close>, returns the bytes
  written, also when the write made the file longer.
\<close>

theorem writei_readi:
  assumes "disk_works D" and "quiet i [] s" and "in_op i P (Suc (blocks_of (unat off) (unat off + unat n))) (norm s)" and "file_ok s ip"
    and "off \<le> di_size (i_d (itable s ip))" and "unat off + unat n \<le> MAXFILE * BSIZE" and "fmapped_range s ip (unat off) (unat off + unat n)"
  shows "achieves (env D i) (\<lambda>_ t. platter t = platter s) (\<lambda>(res, bs) t. res = int (unat n) \<and> bs = map src [0..<unat n])
    (bnd (writei ip (ObjSrc src) off n) (\<lambda>_. readi ip ObjDst off n) s)"
proof -
  let ?o = "unat off" and ?n = "unat n"
  have pre: "platter (norm s) = platter s" "file_ok (norm s) ip" "off \<le> di_size (i_d (itable (norm s) ip))"
    "fmapped_range (norm s) ip ?o (?o + ?n)" "in_op i P (Suc 0 + blocks_of ?o (?o + ?n)) (norm s)" using assms by simp_all
  obtain P' N' where d: "does D (\<lambda>M. platter M = platter s) i [] (writei ip (ObjSrc src) off n) (norm s) (int ?n) [] N'" "in_op i P' 0 N'"
    "platter N' = platter (norm s)" "data_block (log N') = data_block (log (norm s))" "written (norm s) N' ip ?o (map src [0..<?n])"
    using does_writei [where CP = "\<lambda>p. p = platter s", OF pre(5) assms(1) pre(1-3) assms(6) pre(4), of src] by (elim exE conjE) (rule that)
  have it: "itable N' ip = (itable s ip)\<lparr>i_d := (i_d (itable s ip))\<lparr>di_size := max (di_size (i_d (itable s ip))) (of_nat (?o + ?n))\<rparr>\<rparr>"
    and fm: "fmapped N' ip = fmapped (norm s) ip"
    and fb: "fmapped (norm s) ip (j div BSIZE) \<longrightarrow> fbyte N' ip j = (if ?o \<le> j \<and> j < ?o + ?n then map src [0..<?n] ! (j - ?o) else fbyte (norm s) ip j)" for j
    using d(5) by (simp_all add: written_def)
  have lim: "?o + ?n < 2 ^ 32" using assms(6) by simp
  have "unat (of_nat (?o + ?n) :: u32) = ?o + ?n" using lim by (simp add: unat_of_nat take_bit_nat_eq_self del: of_nat_add)
  then have "?o + ?n \<le> unat (di_size (i_d (itable N' ip)))" "off \<le> di_size (i_d (itable N' ip))"
    using assms(5) unfolding it by (simp_all add: max_def word_le_nat_alt del: of_nat_add)
  then have m: "?n = read_len (di_size (i_d (itable N' ip))) off n" using lim by (auto simp: read_len_def)
  have pre': "platter N' = platter s" "i_dev (itable N' ip) = 1" "fmapped_range N' ip ?o (?o + ?n)"
    using d(3) it pre(4) assms(4) by (simp_all add: fmapped_range_def fm file_ok_def)
  note bc = in_op_bc [OF d(2)]
  obtain K where k: "does D (\<lambda>M. platter M = platter s) i [] (readi ip ObjDst off n) N' (int ?n, map (fbyte N' ip) [?o..<?o + ?n]) [] K" "blocks_same i P' N' K"
    using does_readi [where CP = "\<lambda>p. p = platter s", OF assms(1) bc(1,3,2) pre'(1,2) m pre'(3)] by (elim exE conjE) (rule that)
  have "map (fbyte N' ip) [?o..<?o + ?n] = map src [0..<?n]"
    by (rule nth_equalityI) (use fb pre(4) in \<open>auto simp: fmapped_range_def\<close>)
  then show ?thesis by (intro does_achieves [OF does_bnd [OF d(1) k(1)] assms(2)]) simp_all
qed

text \<open>
  C34: An inode survives its way through the disk block. Decoding what \<open>iupdate\<close> encoded into slot \<open>inum\<close> of a
  block gives back every field and all \<open>NDIRECT + 1\<close> addresses, the other inodes of the block are what they
  were, and no slot reaches past the end of the block.
\<close>

theorem dinode_roundtrip:
  assumes "inum mod IPB \<noteq> jnum mod IPB"
  shows "dinode_eq (get_dinode (put_dinode (dinode_off inum) di d) (dinode_off inum)) di
    \<and> dinode_eq (get_dinode (put_dinode (dinode_off inum) di d) (dinode_off jnum)) (get_dinode d (dinode_off jnum))
    \<and> dinode_off inum + DINODE_SIZE \<le> BSIZE"
  using get_put_dinode get_put_dinode_other [OF dinode_off_disjoint [OF assms]] dinode_off_bound by blast

subsection \<open>A machine with a file\<close>

text \<open>Inode 1 has five bytes in block 50, and one operation is going on.\<close>

definition file_disk :: "nat \<Rightarrow> u8" where
  "file_disk x = (if x < 50 * BSIZE then 0 else of_nat (65 + x mod 1024))"

definition file_boot :: fstate where
  "file_boot = ustate.extend (uart_machine\<lparr>platter := file_disk, log := small_log\<lparr>lg_outstanding := 1\<rparr>\<rparr>)
     \<lparr>sb = small_sb, itable = (\<lambda>_. \<lparr>i_dev = 1, i_inum = 1, i_ref = 1, i_valid = True,
         i_d = \<lparr>di_type = 2, di_major = 0, di_minor = 0, di_nlink = 1, di_size = 5, di_addrs = (\<lambda>k. if k = 0 then 50 else 0)\<rparr>\<rparr>)\<rparr>"

definition file_machine :: fstate where
  "file_machine = (case binit file_boot of Ok _ s \<Rightarrow> s | _ \<Rightarrow> file_boot)"

lemma file_boot_ok:
  "quiet 0 [] file_boot" "disk_idle (disk file_boot)" "bufs file_boot b = empty_buf" "platter file_boot = file_disk"
  "log file_boot = small_log\<lparr>lg_outstanding := 1\<rparr>" "sb file_boot = small_sb" "i_dev (itable file_boot ip) = 1" "i_inum (itable file_boot ip) = 1"
  "di_size (i_d (itable file_boot ip)) = 5" "di_addrs (i_d (itable file_boot ip)) k = (if k = 0 then 50 else 0)"
  by (simp_all add: file_boot_def ustate.extend_def uart_machine_def boot_machine_def disk_machine_def two_procs_def
    lstate.extend_def bstate.extend_def pstate.extend_def quiet_def awake_def mach_ok_def running_def lock_free_def ie_def SSTATUS_SIE_def
    init_spinlock_def disk_idle_def idle_disk_def)

lemma file_machine_ok:
  "quiet 0 [] file_machine" "bc 0 {} {} file_machine" "platter file_machine = file_disk" "blk file_machine n = pblk file_disk n"
  "log file_machine = small_log\<lparr>lg_outstanding := 1\<rparr>" "sb file_machine = small_sb" "itable file_machine = itable file_boot"
proof -
  obtain s where s: "binit file_boot = Ok () s" "quiet 0 [] s" "bc 0 {} {} s" "platter s = file_disk" "\<forall>n. blk s n = pblk file_disk n"
    "bio_frame (norm file_boot) (norm s)"
    using binit_runs [OF file_boot_ok(1-3)] by (auto simp: file_boot_ok simp del: upt_rec_numeral)
  moreover have "log s = log file_boot" "sb s = small_sb" "itable s = itable file_boot"
    using bio_frame_log [OF s(6)] bio_frame_fs [OF s(6)] by (simp_all add: file_boot_ok)
  ultimately show "quiet 0 [] file_machine" "bc 0 {} {} file_machine" "platter file_machine = file_disk" "blk file_machine n = pblk file_disk n"
    "log file_machine = small_log\<lparr>lg_outstanding := 1\<rparr>" "sb file_machine = small_sb" "itable file_machine = itable file_boot"
    by (simp_all add: file_machine_def file_boot_ok)
qed

lemma file_machine_file:
  "k < NDIRECT \<Longrightarrow> fblock file_machine ip k = (if k = 0 then 50 else 0)"
  "fmapped file_machine ip k \<longleftrightarrow> k = 0" "inode_block file_machine ip = 32" "file_ok file_machine ip"
proof -
  show 1: "k < NDIRECT \<Longrightarrow> fblock file_machine ip k = (if k = 0 then 50 else 0)" for k
    by (simp add: fblock_def file_machine_ok file_boot_ok)
  then have 2: "fblock file_machine ip 0 = 50" "k < NDIRECT \<Longrightarrow> k \<noteq> 0 \<Longrightarrow> fblock file_machine ip k = 0" for k by simp_all
  show m: "fmapped file_machine ip k \<longleftrightarrow> k = 0" for k
    using 2(2) [of k] by (cases "k = 0") (auto simp: fmapped_def 2(1) file_machine_ok file_boot_ok not_less)
  show i: "inode_block file_machine ip = 32" by (simp add: inode_block_def IBLOCK_def file_machine_ok file_boot_ok small_sb_def)
  show "file_ok file_machine ip"
    by (simp add: file_ok_def m i 2(1) file_machine_ok file_boot_ok data_block_def log_area_def small_log_def)
qed

lemma file_machine_byte: "j < 1024 \<Longrightarrow> fbyte file_machine ip j = of_nat (65 + j)"
proof -
  assume j: "j < 1024"
  have "fblock file_machine ip 0 = 50" using file_machine_file(1) [of 0 ip] by simp
  moreover have "(51200 + j) mod 1024 = j" using j mod_mult_self3 [of 50 1024 j] by simp
  ultimately show ?thesis using j by (simp add: fbyte_def file_machine_ok pblk_def disk_off_def file_disk_def del: upt_rec_numeral)
qed

lemma file_machine_op: "in_op 0 {} 10 (norm file_machine)"
proof -
  have "hd_n (disk_head small_log file_disk) = 0"
  proof -
    have "pblk file_disk (word_of_int (lg_start small_log)) = map (\<lambda>_. 0) [0..<BSIZE]"
      by (rule nth_equalityI) (simp_all add: pblk_def disk_off_def file_disk_def small_log_def del: upt_rec_numeral)
    then show ?thesis using empty_head [of small_log] unfolding disk_head_def by (simp add: pblk_def [of "\<lambda>_. 0"] del: upt_rec_numeral)
  qed
  moreover have "disk_head (small_log\<lparr>lg_outstanding := 1\<rparr>) p = disk_head small_log p" for p by (rule log_disk_cong) simp_all
  ultimately show ?thesis using file_machine_ok
    by (simp add: in_op_def in_trans_def log_ok_def log_geom_def loggable_def logged_def pins_def small_log_def)
qed

theorem readi_slice_witness:
  "achieves (env blk_device 0) (\<lambda>_ t. platter t = file_disk) (\<lambda>(res, bs) t. res = 3 \<and> bs = [67, 68, 69]) (readi 3 ObjDst 2 100 file_machine)"
proof -
  have m: "3 = read_len (di_size (i_d (itable file_machine 3))) 2 100" and r: "fmapped_range file_machine 3 (unat (2 :: u32)) (unat (2 :: u32) + 3)"
    and dev: "i_dev (itable file_machine 3) = 1" and c: "card ({} :: nat set) < NBUF"
    by (simp_all add: read_len_def fmapped_range_def file_machine_file file_machine_ok file_boot_ok)
  have "[2..<5] = [2, 3, 4 :: nat]" by (simp add: upt_rec)
  then show ?thesis
    using achieves_conseq [OF readi_slice [OF blk_device_works file_machine_ok(1,2) c dev m r]]
    by (simp add: file_machine_byte file_machine_ok split_beta)
qed

theorem writei_overwrites_witness:
  "achieves (env blk_device 0) (\<lambda>_ t. platter t = file_disk)
    (\<lambda>res t. res = 3 \<and> fbyte t 3 3 = 68 \<and> fbyte t 3 4 = 0 \<and> fbyte t 3 6 = 2 \<and> di_size (i_d (itable t 3)) = 7)
    (writei 3 (ObjSrc of_nat) 4 3 file_machine)"
proof -
  have b: "blocks_of (unat (4 :: u32)) (unat (4 :: u32) + unat (3 :: u32)) = 1" by (simp add: blocks_of_def)
  have op: "in_op 0 {} (Suc 0 + blocks_of (unat (4 :: u32)) (unat (4 :: u32) + unat (3 :: u32))) (norm file_machine)"
    unfolding b by (rule in_op_mono [OF file_machine_op]) simp
  have pre: "(4 :: u32) \<le> di_size (i_d (itable file_machine 3))" "unat (4 :: u32) + unat (3 :: u32) \<le> MAXFILE * BSIZE"
    "fmapped_range file_machine 3 (unat (4 :: u32)) (unat (4 :: u32) + unat (3 :: u32))"
    by (simp_all add: fmapped_range_def file_machine_file file_machine_ok file_boot_ok)
  have "[0..<3] = [0, 1, 2 :: nat]" by (simp add: upt_rec)
  then show ?thesis
    using achieves_conseq [OF writei_overwrites [OF blk_device_works file_machine_ok(1) op file_machine_file(4) pre, of of_nat]]
    by (simp add: file_machine_ok written_def file_machine_file file_machine_byte file_boot_ok)
qed

theorem writei_readi_witness:
  "achieves (env blk_device 0) (\<lambda>_ t. platter t = file_disk) (\<lambda>(res, bs) t. res = 3 \<and> bs = [0, 1, 2])
    (bnd (writei 3 (ObjSrc of_nat) 4 3) (\<lambda>_. readi 3 ObjDst 4 3) file_machine)"
proof -
  have b: "blocks_of (unat (4 :: u32)) (unat (4 :: u32) + unat (3 :: u32)) = 1" by (simp add: blocks_of_def)
  have op: "in_op 0 {} (Suc (blocks_of (unat (4 :: u32)) (unat (4 :: u32) + unat (3 :: u32)))) (norm file_machine)"
    unfolding b by (rule in_op_mono [OF file_machine_op]) simp
  have pre: "(4 :: u32) \<le> di_size (i_d (itable file_machine 3))" "unat (4 :: u32) + unat (3 :: u32) \<le> MAXFILE * BSIZE"
    "fmapped_range file_machine 3 (unat (4 :: u32)) (unat (4 :: u32) + unat (3 :: u32))"
    by (simp_all add: fmapped_range_def file_machine_file file_machine_ok file_boot_ok)
  have "[0..<3] = [0, 1, 2 :: nat]" by (simp add: upt_rec)
  then show ?thesis
    using achieves_conseq [OF writei_readi [OF blk_device_works file_machine_ok(1) op file_machine_file(4) pre, of of_nat]]
    by (simp add: file_machine_ok split_beta)
qed

theorem dinode_roundtrip_witness:
  "dinode_eq (get_dinode (put_dinode (dinode_off 17) (i_d (itable file_boot 0)) (\<lambda>_. 9)) 64) (i_d (itable file_boot 0))
    \<and> dinode_eq (get_dinode (put_dinode (dinode_off 17) (i_d (itable file_boot 0)) (\<lambda>_. 9)) 128) (get_dinode (\<lambda>_. 9) 128)"
  using dinode_roundtrip [of 17 2] by (simp add: dinode_off_def)

end
