(* ===== verification/Pipe.thy ===== *)
theory Pipe
  imports Fs
begin

text \<open>
  \<open>kernel/pipe.c\<close> and \<open>kernel/file.c\<close>. A \<open>struct file *\<close> is an index of \<open>ftable.file\<close>. A \<open>struct pipe *\<close> is the
  address of the page that \<open>pipealloc\<close> got from \<open>kalloc\<close>; \<open>pipes\<close> gives the object in that page.
\<close>

abbreviation (input) PIPESIZE :: nat where "PIPESIZE \<equiv> 512"

record pipe =
  pi_data :: chars
  pi_nread :: u32
  pi_nwrite :: u32
  pi_readopen :: bool
  pi_writeopen :: bool

datatype ftype = FD_NONE | FD_PIPE | FD_INODE | FD_DEVICE

record file_t =
  f_type :: ftype
  f_ref :: int
  f_readable :: bool
  f_writable :: bool
  f_pipe :: u64
  f_ip :: "nat option"
  f_off :: u32
  f_major :: u16

text \<open>\<open>stat_pad\<close> is what the kernel stack holds where the padding of a \<open>struct stat\<close> lies.\<close>

record kstate = fstate +
  ftable :: "nat \<Rightarrow> file_t"
  pipes :: "u64 \<Rightarrow> pipe"
  stat_pad :: bytes

definition upd_pipe :: "u64 \<Rightarrow> (pipe \<Rightarrow> pipe) \<Rightarrow> (unit, 'z kstate_scheme) kern" where
  "upd_pipe a f = modify (\<lambda>s. s\<lparr>pipes := (pipes s)(a := f (pipes s a))\<rparr>)"

definition getpi :: "u64 \<Rightarrow> (pipe \<Rightarrow> 'a) \<Rightarrow> ('a, 'z kstate_scheme) kern" where
  "getpi a f = gets (\<lambda>s. f (pipes s a))"

definition upd_file :: "nat \<Rightarrow> (file_t \<Rightarrow> file_t) \<Rightarrow> (unit, 'z kstate_scheme) kern" where
  "upd_file i f = modify (\<lambda>s. s\<lparr>ftable := (ftable s)(i := f (ftable s i))\<rparr>)"

definition getf :: "nat \<Rightarrow> (file_t \<Rightarrow> 'a) \<Rightarrow> ('a, 'z kstate_scheme) kern" where
  "getf i f = gets (\<lambda>s. f (ftable s i))"

subsection \<open>Pipes\<close>

definition pipeclose :: "u64 \<Rightarrow> bool \<Rightarrow> (unit, 'z kstate_scheme) kern" where
  "pipeclose pi wr =
     sq (acquire (PipeLock pi)) (
     sq (if wr then
           sq (upd_pipe pi (\<lambda>p. p\<lparr>pi_writeopen := False\<rparr>))
              (wakeup (Some (ChanNread pi)))
         else
           sq (upd_pipe pi (\<lambda>p. p\<lparr>pi_readopen := False\<rparr>))
              (wakeup (Some (ChanNwrite pi)))) (
     bnd (getpi pi (\<lambda>p. \<not> pi_readopen p \<and> \<not> pi_writeopen p)) (\<lambda>closed.
     if closed then sq (release (PipeLock pi)) (kfree pi)
     else release (PipeLock pi))))"

text \<open>
  One round of the loop of \<open>pipewrite\<close> at \<open>i\<close>: \<open>Inl None\<close> when the function returns \<open>-1\<close>, \<open>Inl (Some j)\<close> when
  the loop is left (\<open>j = i\<close>) or has stored a character (\<open>j = i + 1\<close>), \<open>Inr\<close> when it has slept.
\<close>

definition pipewrite_round :: "nat \<Rightarrow> u64 \<Rightarrow> u64 \<Rightarrow> nat \<Rightarrow> (nat option + unit, 'z kstate_scheme) kern" where
  "pipewrite_round pr pi addr i =
     bnd (getpi pi (\<lambda>p. p)) (\<lambda>p.
     bnd (if \<not> pi_readopen p then ret True else killed pr) (\<lambda>k.
     if k then sq (release (PipeLock pi)) (ret (Inl None))
     else bnd (getpi pi (\<lambda>p. p)) (\<lambda>p.
     if pi_nwrite p = pi_nread p + of_nat PIPESIZE then
       sq (wakeup (Some (ChanNread pi))) (
       sq (sleep (Some (ChanNwrite pi)) (PipeLock pi)) (
       ret (Inr ())))
     else bnd (getp pr p_pagetable) (\<lambda>pt.
     bnd (copyin pt (addr + of_nat i) 1) (\<lambda>(r, c).
     if r = -1 then ret (Inl (Some i))
     else sq (upd_pipe pi (\<lambda>p. p\<lparr>pi_data := (pi_data p)(unat (pi_nwrite p) mod PIPESIZE := hd c),
            pi_nwrite := pi_nwrite p + 1\<rparr>)) (
     ret (Inl (Some (Suc i)))))))))"

primrec pipewrite_loop :: "nat \<Rightarrow> nat \<Rightarrow> u64 \<Rightarrow> u64 \<Rightarrow> nat \<Rightarrow> (nat option, 'z kstate_scheme) kern" where
  "pipewrite_loop 0 pr pi addr i = ret (Some i)"
| "pipewrite_loop (Suc k) pr pi addr i =
     bnd (again (pipewrite_round pr pi addr i)) (\<lambda>r. case r of
       None \<Rightarrow> ret None
     | Some j \<Rightarrow> if j = i then ret (Some i) else pipewrite_loop k pr pi addr j)"

definition pipewrite :: "u64 \<Rightarrow> u64 \<Rightarrow> int \<Rightarrow> (int, 'z kstate_scheme) kern" where
  "pipewrite pi addr n =
     bnd curproc (\<lambda>pr.
     sq (acquire (PipeLock pi)) (
     bnd (pipewrite_loop (nat n) pr pi addr 0) (\<lambda>r. case r of
       None \<Rightarrow> ret (-1)
     | Some i \<Rightarrow>
         sq (wakeup (Some (ChanNread pi))) (
         sq (release (PipeLock pi)) (
         ret (int i))))))"

primrec piperead_loop :: "nat \<Rightarrow> nat \<Rightarrow> u64 \<Rightarrow> u64 \<Rightarrow> nat \<Rightarrow> (nat, 'z kstate_scheme) kern" where
  "piperead_loop 0 pr pi addr i = ret i"
| "piperead_loop (Suc k) pr pi addr i =
     bnd (getpi pi (\<lambda>p. p)) (\<lambda>p.
     if pi_nread p = pi_nwrite p then ret i
     else sq (upd_pipe pi (\<lambda>p. p\<lparr>pi_nread := pi_nread p + 1\<rparr>)) (
     bnd (getp pr p_pagetable) (\<lambda>pt.
     bnd (copyout pt (addr + of_nat i) (\<lambda>_. pi_data p (unat (pi_nread p) mod PIPESIZE)) 1) (\<lambda>r.
     if r = -1 then ret i else piperead_loop k pr pi addr (Suc i)))))"

definition piperead :: "u64 \<Rightarrow> u64 \<Rightarrow> int \<Rightarrow> (int, 'z kstate_scheme) kern" where
  "piperead pi addr n =
     bnd curproc (\<lambda>pr.
     sq (acquire (PipeLock pi)) (
     bnd (again (
       bnd (getpi pi (\<lambda>p. pi_nread p = pi_nwrite p \<and> pi_writeopen p)) (\<lambda>w.
       if \<not> w then ret (Inl True)
       else bnd (killed pr) (\<lambda>k.
       if k then sq (release (PipeLock pi)) (ret (Inl False))
       else sq (sleep (Some (ChanNread pi)) (PipeLock pi)) (ret (Inr ())))))) (\<lambda>go.
     if \<not> go then ret (-1)
     else bnd (piperead_loop (nat n) pr pi addr 0) (\<lambda>i.
     sq (wakeup (Some (ChanNwrite pi))) (
     sq (release (PipeLock pi)) (
     ret (int i)))))))"

subsection \<open>Files\<close>

definition fileinit :: "(unit, 'z kstate_scheme) kern" where
  "fileinit = initlock FtableLock ''ftable''"

definition filealloc :: "(nat option, 'z kstate_scheme) kern" where
  "filealloc =
     sq (acquire FtableLock) (
     bnd (gets ftable) (\<lambda>t.
     case find (\<lambda>f. f_ref (t f) = 0) [0..<NFILE] of
       Some f \<Rightarrow>
         sq (upd_file f (\<lambda>x. x\<lparr>f_ref := 1\<rparr>)) (
         sq (release FtableLock) (
         ret (Some f)))
     | None \<Rightarrow> sq (release FtableLock) (ret None)))"

definition filedup :: "nat \<Rightarrow> (nat, 'z kstate_scheme) kern" where
  "filedup f =
     sq (acquire FtableLock) (
     bnd (getf f f_ref) (\<lambda>r.
     if r < 1 then panic ''filedup''
     else sq (upd_file f (\<lambda>x. x\<lparr>f_ref := f_ref x + 1\<rparr>)) (
     sq (release FtableLock) (
     ret f))))"

text \<open>A file pointer that is dereferenced: null faults.\<close>

definition deref :: "'a option \<Rightarrow> ('a, 's) kern" where
  "deref p = (case p of None \<Rightarrow> fault | Some a \<Rightarrow> ret a)"

definition fileclose :: "nat \<Rightarrow> (unit, 'z kstate_scheme) kern" where
  "fileclose f =
     sq (acquire FtableLock) (
     bnd (getf f f_ref) (\<lambda>r.
     if r < 1 then panic ''fileclose''
     else sq (upd_file f (\<lambda>x. x\<lparr>f_ref := f_ref x - 1\<rparr>)) (
     bnd (getf f f_ref) (\<lambda>r.
     if r > 0 then release FtableLock
     else bnd (getf f (\<lambda>x. x)) (\<lambda>ff.
     sq (upd_file f (\<lambda>x. x\<lparr>f_ref := 0\<rparr>)) (
     sq (upd_file f (\<lambda>x. x\<lparr>f_type := FD_NONE\<rparr>)) (
     sq (release FtableLock) (
     if f_type ff = FD_PIPE then pipeclose (f_pipe ff) (f_writable ff)
     else whenM (f_type ff = FD_INODE \<or> f_type ff = FD_DEVICE) (
       sq begin_op (
       bnd (deref (f_ip ff)) (\<lambda>ip.
       sq (iput ip) (
       end_op))))))))))))"

text \<open>\<open>struct stat\<close> in memory: the padding before \<open>size\<close> is not written.\<close>

abbreviation (input) STAT_SIZE :: u64 where "STAT_SIZE \<equiv> 24"

definition stat_chars :: "bytes \<Rightarrow> stat \<Rightarrow> chars" where
  "stat_chars pad st = (\<lambda>k. (le_bytes 4 (st_dev st) @ le_bytes 4 (st_ino st) @ le_bytes 2 (st_type st) @
     le_bytes 2 (st_nlink st) @ take 4 (pad @ replicate 4 0) @ le_bytes 8 (st_size st)) ! k)"

definition filestat :: "nat \<Rightarrow> u64 \<Rightarrow> (int, 'z kstate_scheme) kern" where
  "filestat f addr =
     bnd curproc (\<lambda>p.
     bnd (getf f (\<lambda>x. x)) (\<lambda>x.
     if f_type x = FD_INODE \<or> f_type x = FD_DEVICE then
       sq (ilock (f_ip x)) (
       bnd (deref (f_ip x)) (\<lambda>ip.
       bnd (stati ip) (\<lambda>st.
       sq (iunlock (f_ip x)) (
       bnd (gets stat_pad) (\<lambda>pad.
       bnd (getp p p_pagetable) (\<lambda>pt.
       bnd (copyout pt addr (stat_chars pad st) STAT_SIZE) (\<lambda>r.
       if r < 0 then ret (-1) else ret 0)))))))
     else ret (-1)))"

definition fileread :: "nat \<Rightarrow> u64 \<Rightarrow> int \<Rightarrow> (int, 'z kstate_scheme) kern" where
  "fileread f addr n =
     bnd (getf f (\<lambda>x. x)) (\<lambda>x.
     if \<not> f_readable x then ret (-1)
     else case f_type x of
       FD_PIPE \<Rightarrow> piperead (f_pipe x) addr n
     | FD_DEVICE \<Rightarrow>
         if sint (f_major x) < 0 \<or> sint (f_major x) \<ge> int NDEV then ret (-1)
         else bnd (gets (\<lambda>s. dsw_read (devsws s (unat (f_major x))))) (\<lambda>rd. case rd of
           None \<Rightarrow> ret (-1)
         | Some Consoleread \<Rightarrow> consoleread (UserDst addr) n)
     | FD_INODE \<Rightarrow>
         sq (ilock (f_ip x)) (
         bnd (deref (f_ip x)) (\<lambda>ip.
         bnd (readi ip (UserDst addr) (f_off x) (word_of_int n)) (\<lambda>(r, _).
         sq (whenM (r > 0) (upd_file f (\<lambda>x. x\<lparr>f_off := f_off x + word_of_int r\<rparr>))) (
         sq (iunlock (f_ip x)) (
         ret r)))))
     | FD_NONE \<Rightarrow> panic ''fileread'')"

text \<open>The most that one transaction of \<open>filewrite\<close> writes, and the loop.\<close>

definition filewrite_max :: int where
  "filewrite_max = ((int MAXOPBLOCKS - 1 - 1 - 2) div 2) * int BSIZE"

function filewrite_loop :: "nat \<Rightarrow> nat option \<Rightarrow> u64 \<Rightarrow> int \<Rightarrow> int \<Rightarrow> (int, 'z kstate_scheme) kern" where
  "filewrite_loop f ip addr n i =
     (if \<not> i < n then ret i
      else let n1 = if n - i > filewrite_max then filewrite_max else n - i in
      sq begin_op (
      sq (ilock ip) (
      bnd (deref ip) (\<lambda>p.
      bnd (getf f f_off) (\<lambda>off.
      bnd (writei p (UserSrc (addr + word_of_int i)) off (word_of_int n1)) (\<lambda>r.
      sq (whenM (r > 0) (upd_file f (\<lambda>x. x\<lparr>f_off := f_off x + word_of_int r\<rparr>))) (
      sq (iunlock ip) (
      sq end_op (
      if r \<noteq> n1 then ret i else filewrite_loop f ip addr n (i + r))))))))))"
  by pat_completeness auto
termination
  by (relation "measure (\<lambda>(f, ip, addr, n, i). nat (n - i))") (auto simp: filewrite_max_def Let_def)

definition filewrite :: "nat \<Rightarrow> u64 \<Rightarrow> int \<Rightarrow> (int, 'z kstate_scheme) kern" where
  "filewrite f addr n =
     bnd (getf f (\<lambda>x. x)) (\<lambda>x.
     if \<not> f_writable x then ret (-1)
     else case f_type x of
       FD_PIPE \<Rightarrow> pipewrite (f_pipe x) addr n
     | FD_DEVICE \<Rightarrow>
         if sint (f_major x) < 0 \<or> sint (f_major x) \<ge> int NDEV then ret (-1)
         else bnd (gets (\<lambda>s. dsw_write (devsws s (unat (f_major x))))) (\<lambda>wr. case wr of
           None \<Rightarrow> ret (-1)
         | Some Consolewrite \<Rightarrow> consolewrite (UserSrc addr) n)
     | FD_INODE \<Rightarrow>
         bnd (filewrite_loop f (f_ip x) addr n 0) (\<lambda>i. ret (if i = n then n else -1))
     | FD_NONE \<Rightarrow> panic ''filewrite'')"

subsection \<open>Making a pipe\<close>

definition pipealloc_bad :: "nat option \<Rightarrow> nat option \<Rightarrow> ((nat \<times> nat) option, 'z kstate_scheme) kern" where
  "pipealloc_bad f0 f1 =
     sq (case f0 of None \<Rightarrow> ret () | Some f \<Rightarrow> fileclose f) (
     sq (case f1 of None \<Rightarrow> ret () | Some f \<Rightarrow> fileclose f) (
     ret None))"

definition pipealloc :: "((nat \<times> nat) option, 'z kstate_scheme) kern" where
  "pipealloc =
     bnd filealloc (\<lambda>p0. case p0 of
       None \<Rightarrow> pipealloc_bad None None
     | Some f0 \<Rightarrow>
     bnd filealloc (\<lambda>p1. case p1 of
       None \<Rightarrow> pipealloc_bad (Some f0) None
     | Some f1 \<Rightarrow>
     bnd kalloc (\<lambda>pi.
     if pi = 0 then pipealloc_bad (Some f0) (Some f1)
     else sq (upd_pipe pi (\<lambda>p. p\<lparr>pi_readopen := True, pi_writeopen := True, pi_nwrite := 0, pi_nread := 0\<rparr>)) (
     sq (initlock (PipeLock pi) ''pipe'') (
     sq (upd_file f0 (\<lambda>x. x\<lparr>f_type := FD_PIPE, f_readable := True, f_writable := False, f_pipe := pi\<rparr>)) (
     sq (upd_file f1 (\<lambda>x. x\<lparr>f_type := FD_PIPE, f_readable := False, f_writable := True, f_pipe := pi\<rparr>)) (
     ret (Some (f0, f1)))))))))"

end
