(* ===== verification/Pipeq.thy ===== *)
theory Pipeq
  imports Pipe Umem Guarantee
begin

text \<open>
  The pipes of \<open>kernel/pipe.c\<close> are bounded queues. The ring buffer of a pipe stands for the list of the
  characters written and not yet read; \<open>pipewrite\<close> appends user memory to it, \<open>piperead\<close> moves its front to
  user memory, and no interleaving of the operations makes it overflow.
\<close>

subsection \<open>Execution\<close>

lemma kstate_acq [simp]:
  "pipes (acq l s) = pipes s" "ftable (acq l s) = ftable s" "pipes_update f (acq l s) = acq l (pipes_update f s)"
  "ftable_update g (acq l s) = acq l (ftable_update g s)"
  by (simp_all add: acq_def)

lemma kstate_norm [simp]:
  "pipes (norm s) = pipes s" "ftable (norm s) = ftable s" "norm (pipes_update f s) = pipes_update f (norm s)"
  "norm (ftable_update g s) = ftable_update g (norm s)"
  by (simp_all add: norm_def)

lemma acqs_kstate:
  "acqs L (pipes_update f s) = pipes_update f (acqs L s)" "acqs L (ftable_update g s) = ftable_update g (acqs L s)"
  by (induction L) simp_all

lemma quiet_kstate [simp]:
  assumes "quiet i L s"
  shows "quiet i L (pipes_update f s)" "quiet i L (ftable_update g s)"
  by (rule quiet_acqs_update [OF assms]; simp add: acqs_kstate mach_ok_def lock_free_def ie_def running_def awake_def)+

lemma does_getpi: "does D C i L (getpi a f) N (f (pipes N a)) L N"
  unfolding getpi_def by (rule does_gets) simp

lemma does_upd_pipe: "does D C i L (upd_pipe a f) N () L (N\<lparr>pipes := (pipes N)(a := f (pipes N a))\<rparr>)"
  unfolding upd_pipe_def by (rule does_modify) simp_all

lemma does_killed: "ProcLock j \<notin> set L \<Longrightarrow> does D C i L (killed j) N (p_killed (proc N j)) L N"
  unfolding killed_def
  by (rule does_sq [OF does_acquire], simp, rule does_bnd [OF does_getp], simp, rule does_sq [OF does_release does_ret])

subsection \<open>The queue of a pipe\<close>

interpretation pq: ring PIPESIZE "TYPE(32)"
  by unfold_locales simp_all

definition pipe_queue :: "pipe \<Rightarrow> bytes" where
  "pipe_queue p = ring_list PIPESIZE (pi_data p) (pi_nread p) (pi_nwrite p)"

definition pipe_ok :: "pipe \<Rightarrow> bool" where
  "pipe_ok p \<longleftrightarrow> unat (pi_nwrite p - pi_nread p) \<le> PIPESIZE"

lemma length_pipe_queue: "length (pipe_queue p) = unat (pi_nwrite p - pi_nread p)"
  by (simp add: pipe_queue_def)

lemma pipe_empty: "pi_nread p = pi_nwrite p \<longleftrightarrow> pipe_queue p = []"
proof -
  have "pipe_queue p = [] \<longleftrightarrow> unat (pi_nwrite p - pi_nread p) = 0" unfolding length_pipe_queue [symmetric] by simp
  then show ?thesis by (auto simp: unat_eq_0)
qed

lemma pipe_full: "pipe_ok p \<Longrightarrow> pi_nwrite p = pi_nread p + of_nat PIPESIZE \<longleftrightarrow> length (pipe_queue p) = PIPESIZE"
  using pq.full [of "pi_nwrite p" "pi_nread p"] by (simp add: pipe_ok_def length_pipe_queue)

text \<open>The two steps on a pipe.\<close>

definition pipe_put :: "u8 \<Rightarrow> pipe \<Rightarrow> pipe" where
  "pipe_put c p = p\<lparr>pi_data := (pi_data p)(unat (pi_nwrite p) mod PIPESIZE := c), pi_nwrite := pi_nwrite p + 1\<rparr>"

definition pipe_get :: "pipe \<Rightarrow> pipe" where
  "pipe_get p = p\<lparr>pi_nread := pi_nread p + 1\<rparr>"

lemma pipe_put_queue: "length (pipe_queue p) < PIPESIZE \<Longrightarrow> pipe_queue (pipe_put c p) = pipe_queue p @ [c] \<and> pipe_ok (pipe_put c p)"
  using pq.put [of "pi_nwrite p" "pi_nread p" "pi_data p" c] pq.count_put [of "pi_nwrite p" "pi_nread p"]
  by (simp add: pipe_put_def pipe_queue_def pipe_ok_def)

lemma pipe_get_queue:
  assumes "pipe_ok p" and "pipe_queue p \<noteq> []"
  shows "pipe_queue p = pi_data p (unat (pi_nread p) mod PIPESIZE) # pipe_queue (pipe_get p)" "pipe_ok (pipe_get p)"
proof -
  have ne: "pi_nread p \<noteq> pi_nwrite p" using assms(2) pipe_empty by blast
  show q: "pipe_queue p = pi_data p (unat (pi_nread p) mod PIPESIZE) # pipe_queue (pipe_get p)"
    using pq.get [OF ne, of "pi_data p"] by (simp add: pipe_queue_def pipe_get_def)
  have "length (pipe_queue p) = Suc (length (pipe_queue (pipe_get p)))" by (subst q) simp
  then show "pipe_ok (pipe_get p)" using assms(1) by (simp add: pipe_ok_def length_pipe_queue)
qed

lemma pipe_steps_open [simp]: "pi_readopen (pipe_put c p) = pi_readopen p" "pi_writeopen (pipe_put c p) = pi_writeopen p"
  "pi_readopen (pipe_get p) = pi_readopen p" "pi_writeopen (pipe_get p) = pi_writeopen p"
  by (simp_all add: pipe_put_def pipe_get_def)

subsection \<open>Reading and writing\<close>

lemma pipes_umem [simp]:
  "uvm_inv (pipes_update f s) r A ps = uvm_inv s r A ps" "uspace (pipes_update f s) r A = uspace s r A"
  "writable (pipes_update f s) r va = writable s r va" "ubyte (pipes_update f s) r va = ubyte s r va"
proof -
  show "uspace (pipes_update f s) r A = uspace s r A" "writable (pipes_update f s) r va = writable s r va" by (rule vmap_cong, simp)+
qed (simp_all add: uvm_inv_def vm_inv_def kmem_inv_def mach_ok_def ie_def lock_free_def ubyte_def upa_def)

lemma unat_pred_less: "x \<noteq> a \<Longrightarrow> unat (x - (a + 1) :: u64) = unat (x - a) - 1 \<and> 0 < unat (x - a)"
proof -
  assume "x \<noteq> a"
  then have "x - a \<noteq> 0" by simp
  then show ?thesis by (metis diff_diff_eq unat_minus_one unat_gt_0)
qed

text \<open>\<open>piperead\<close> moves the front of the queue to user memory.\<close>

lemma does_piperead_loop:
  assumes "uvm_inv N r A ps" and "uspace N r A" and "r = p_pagetable (proc N i)" and "pipe_ok (pipes N pi)" and "q = pipe_queue (pipes N pi)"
    and "m = min k (length q)" and "\<forall>x<m. writable N r (addr + of_nat (j + x))"
  shows "\<exists>N' p'. does D C i L (piperead_loop k i pi addr j) N (j + m) L N' \<and> N' = N\<lparr>mem := mem N', pipes := (pipes N)(pi := p')\<rparr>
    \<and> uvm_inv N' r A ps \<and> pipe_queue p' = drop m q \<and> pipe_ok p' \<and> p' = (pipes N pi)\<lparr>pi_nread := pi_nread p'\<rparr>
    \<and> (\<forall>x. ubyte N' r x = (let d = unat (x - (addr + of_nat j)) in if d < m then Some (q ! d) else ubyte N r x))"
  using assms
proof (induction k arbitrary: N j q m)
  case 0
  have "m = 0" using 0(6) by simp
  then show ?case using 0(1,4,5)
    by (intro exI [of _ N] exI [of _ "pipes N pi"]) (simp add: does_ret)
next
  case (Suc k)
  let ?p = "pipes N pi"
  show ?case
  proof (cases "q = []")
    case True
    then have e: "pi_nread ?p = pi_nwrite ?p" using Suc.prems(5) by (simp add: pipe_empty)
    have "does D C i L (piperead_loop (Suc k) i pi addr j) N j L N" unfolding piperead_loop.simps
      by (rule does_bnd [OF does_getpi]) (simp add: e does_ret)
    then show ?thesis using True Suc.prems(1,4,5,6) by (intro exI [of _ N] exI [of _ ?p]) simp
  next
    case False
    let ?c = "pi_data ?p (unat (pi_nread ?p) mod PIPESIZE)" and ?a = "addr + of_nat j"
    let ?N1 = "N\<lparr>pipes := (pipes N)(pi := pipe_get ?p)\<rparr>"
    have ne: "pi_nread ?p \<noteq> pi_nwrite ?p" using False Suc.prems(5) by (simp add: pipe_empty)
    have q: "q = ?c # pipe_queue (pipe_get ?p)" and ok: "pipe_ok (pipe_get ?p)" using pipe_get_queue [OF Suc.prems(4)] False unfolding Suc.prems(5) by blast+
    have m: "m = Suc (min k (length (pipe_queue (pipe_get ?p))))" using Suc.prems(6) q by (metis length_Cons min_Suc_Suc)
    have w: "writable ?N1 r ?a" using Suc.prems(7) m by force
    have inv1: "uvm_inv ?N1 r A ps" "uspace ?N1 r A" using Suc.prems(1,2) by simp_all
    obtain N2 where N2: "does D C i L (copyout r ?a (\<lambda>_. ?c) 1) ?N1 0 L N2" "N2 = ?N1\<lparr>mem := mem N2\<rparr>" "uvm_inv N2 r A ps" "uspace N2 r A"
      "\<forall>x. writable N2 r x = writable ?N1 r x" "\<forall>x. ubyte N2 r x = (if x = ?a then Some ?c else ubyte ?N1 r x)"
      using does_copyout1 [OF inv1 w, where D = D and C = C and i = i and L = L and c = ?c] by (elim exE conjE) (rule that)
    have pN2: "pipes N2 = (pipes N)(pi := pipe_get ?p)" "proc N2 = proc N"
      using arg_cong [OF N2(2), of pipes] arg_cong [OF N2(2), of proc] by simp_all
    let ?m = "min k (length (pipe_queue (pipe_get ?p)))"
    have "writable N2 r (addr + of_nat (Suc j + x))" if "x < ?m" for x
      using Suc.prems(7) [rule_format, of "Suc x"] that m N2(5) by simp
    then have pre: "r = p_pagetable (proc N2 i)" "pipe_ok (pipes N2 pi)" "pipe_queue (pipe_get ?p) = pipe_queue (pipes N2 pi)"
      "\<forall>x<?m. writable N2 r (addr + of_nat (Suc j + x))"
      using Suc.prems(3) ok pN2 by auto
    obtain N' p' where N': "does D C i L (piperead_loop k i pi addr (Suc j)) N2 (Suc j + ?m) L N'"
      "N' = N2\<lparr>mem := mem N', pipes := (pipes N2)(pi := p')\<rparr>" "uvm_inv N' r A ps" "pipe_queue p' = drop ?m (pipe_queue (pipe_get ?p))" "pipe_ok p'"
      "p' = (pipes N2 pi)\<lparr>pi_nread := pi_nread p'\<rparr>"
      "\<forall>x. ubyte N' r x = (let d = unat (x - (addr + of_nat (Suc j))) in if d < ?m then Some (pipe_queue (pipe_get ?p) ! d) else ubyte N2 r x)"
      using Suc.IH [OF N2(3,4) pre(1-3) refl pre(4)] by (elim exE conjE) (rule that)
    have get: "does D C i L (upd_pipe pi (\<lambda>p. p\<lparr>pi_nread := pi_nread p + 1\<rparr>)) N () L ?N1"
      by (rule does_eq [OF does_upd_pipe]) (simp add: pipe_get_def)
    have pt: "does D C i L (getp i p_pagetable) ?N1 r L ?N1" using does_getp [of p_pagetable D C i L i ?N1] Suc.prems(3) by simp
    have "does D C i L (piperead_loop (Suc k) i pi addr j) N (j + m) L N'" unfolding piperead_loop.simps
      by (rule does_bnd [OF does_getpi], simp only: ne if_False, rule does_sq [OF get], rule does_bnd [OF pt], rule does_bnd [OF N2(1)])
        (use N'(1) m in simp)
    moreover have "N' = N\<lparr>mem := mem N', pipes := (pipes N)(pi := p')\<rparr>"
    proof -
      obtain m2 m3 where "N2 = ?N1\<lparr>mem := m2\<rparr>" "N' = N2\<lparr>mem := m3, pipes := (pipes N2)(pi := p')\<rparr>" using N2(2) N'(2) by blast
      then show ?thesis by simp
    qed
    moreover have "ubyte N' r x = (let d = unat (x - ?a) in if d < m then Some (q ! d) else ubyte N r x)" for x
    proof (cases "x = ?a")
      case True
      have "unat (?a - (?a + 1)) = 2 ^ 64 - 1" by (simp add: unsigned_minus_1_eq_mask mask_eq_exp_minus_1)
      moreover have "length (pipe_queue (pipe_get ?p)) \<le> PIPESIZE" using ok by (simp add: pipe_ok_def length_pipe_queue)
      ultimately show ?thesis using True N'(7) N2(6) m q by (simp add: algebra_simps)
    next
      case False
      then obtain e where e: "unat (x - ?a) = Suc e" "unat (x - (addr + of_nat (Suc j))) = e"
        using unat_pred_less [OF False] by (cases "unat (x - ?a)") (auto simp: algebra_simps)
      show ?thesis using N'(7) [rule_format, of x] N2(6) False unfolding Let_def e m q by simp
    qed
    moreover have "pipe_queue p' = drop m q" unfolding N'(4) m q by simp
    moreover have "p' = ?p\<lparr>pi_nread := pi_nread p'\<rparr>"
    proof -
      obtain z where "p' = (pipe_get ?p)\<lparr>pi_nread := z\<rparr>" using N'(6) pN2(1) by auto
      then show ?thesis by (simp add: pipe_get_def)
    qed
    ultimately show ?thesis using N'(3,5) by (intro exI [of _ N'] exI [of _ p'] conjI allI)
  qed
qed

text \<open>\<open>pipewrite\<close> appends user memory to the queue.\<close>

lemma does_pipewrite_round:
  assumes "vm_inv N r ps" and "r = p_pagetable (proc N i)" and "pipe_ok p" and "p = pipes N pi" and "length (pipe_queue p) < PIPESIZE"
    and "pi_readopen p" and "\<not> p_killed (proc N i)" and "ubyte N r (addr + of_nat j) = Some c" and "ProcLock i \<notin> set L"
  shows "does D C i L (pipewrite_round i pi addr j) N (Inl (Some (Suc j))) L (N\<lparr>pipes := (pipes N)(pi := pipe_put c p)\<rparr>)"
proof -
  have full: "pi_nwrite p \<noteq> pi_nread p + of_nat PIPESIZE" using pipe_full [OF assms(3)] assms(5) by simp
  have kill: "does D C i L (if \<not> pi_readopen p then ret True else killed i) N False L N"
    using does_killed [OF assms(9), of D C i N] assms(6,7) by simp
  have pt: "does D C i L (getp i p_pagetable) N r L N" using does_getp [of p_pagetable D C i L i N] assms(2) by simp
  have put: "does D C i L (upd_pipe pi (\<lambda>p. p\<lparr>pi_data := (pi_data p)(unat (pi_nwrite p) mod PIPESIZE := hd [c]), pi_nwrite := pi_nwrite p + 1\<rparr>))
      N () L (N\<lparr>pipes := (pipes N)(pi := pipe_put c p)\<rparr>)"
    by (rule does_eq [OF does_upd_pipe]) (simp add: pipe_put_def assms(4))
  have copy: "does D C i L (bnd (copyin r (addr + of_nat j) 1) (\<lambda>(r, c). if r = -1 then ret (Inl (Some j))
       else sq (upd_pipe pi (\<lambda>p. p\<lparr>pi_data := (pi_data p)(unat (pi_nwrite p) mod PIPESIZE := hd c), pi_nwrite := pi_nwrite p + 1\<rparr>))
         (ret (Inl (Some (Suc j)))))) N (Inl (Some (Suc j))) L (N\<lparr>pipes := (pipes N)(pi := pipe_put c p)\<rparr>)"
    by (rule does_bnd [OF does_copyin1 [OF assms(1,8)]]) (use does_sq [OF put does_ret] in simp)
  show ?thesis unfolding pipewrite_round_def
    by (rule does_bnd [OF does_getpi], fold assms(4), rule does_bnd [OF kill], simp only: if_False, rule does_bnd [OF does_getpi], fold assms(4),
        simp only: full if_False, rule does_bnd [OF pt], rule copy)
qed

lemma does_pipewrite_loop:
  assumes "uvm_inv N r A ps" and "r = p_pagetable (proc N i)" and "pipe_ok (pipes N pi)" and "length (pipe_queue (pipes N pi)) + length bs \<le> PIPESIZE"
    and "pi_readopen (pipes N pi)" and "\<not> p_killed (proc N i)" and "\<forall>x<length bs. ubyte N r (addr + of_nat (j + x)) = Some (bs ! x)"
    and "ProcLock i \<notin> set L"
  shows "\<exists>p'. does D C i L (pipewrite_loop (length bs) i pi addr j) N (Some (j + length bs)) L (N\<lparr>pipes := (pipes N)(pi := p')\<rparr>)
    \<and> pipe_queue p' = pipe_queue (pipes N pi) @ bs \<and> pipe_ok p' \<and> pi_readopen p' = pi_readopen (pipes N pi) \<and> pi_writeopen p' = pi_writeopen (pipes N pi)"
  using assms
proof (induction bs arbitrary: N j)
  case Nil
  show ?case using Nil(3) by (intro exI [of _ "pipes N pi"]) (simp add: does_ret)
next
  case (Cons c bs)
  let ?p = "pipes N pi"
  let ?N = "N\<lparr>pipes := (pipes N)(pi := pipe_put c ?p)\<rparr>"
  have vm: "vm_inv N r ps" using Cons.prems(1) by (simp add: uvm_inv_def)
  have len: "length (pipe_queue ?p) < PIPESIZE" using Cons.prems(4) by simp
  have c: "ubyte N r (addr + of_nat j) = Some c" using Cons.prems(7) [rule_format, of 0] by simp
  note put = pipe_put_queue [OF len, of c]
  have round: "does D C i L (pipewrite_round i pi addr j) N (Inl (Some (Suc j))) L ?N"
    by (rule does_pipewrite_round [OF vm Cons.prems(2,3) refl len Cons.prems(5,6) c Cons.prems(8)])
  have "ubyte ?N r (addr + of_nat (Suc j + x)) = Some (bs ! x)" if "x < length bs" for x
    using Cons.prems(7) [rule_format, of "Suc x"] that by simp
  then have pre: "uvm_inv ?N r A ps" "r = p_pagetable (proc ?N i)" "pipe_ok (pipes ?N pi)" "length (pipe_queue (pipes ?N pi)) + length bs \<le> PIPESIZE"
    "pi_readopen (pipes ?N pi)" "\<not> p_killed (proc ?N i)" "\<forall>x<length bs. ubyte ?N r (addr + of_nat (Suc j + x)) = Some (bs ! x)"
    using Cons.prems(1,2,4,5,6) put by simp_all
  obtain p' where p': "does D C i L (pipewrite_loop (length bs) i pi addr (Suc j)) ?N (Some (Suc j + length bs)) L (?N\<lparr>pipes := (pipes ?N)(pi := p')\<rparr>)"
    "pipe_queue p' = pipe_queue (pipes ?N pi) @ bs" "pipe_ok p'" "pi_readopen p' = pi_readopen (pipes ?N pi)" "pi_writeopen p' = pi_writeopen (pipes ?N pi)"
    using Cons.IH [OF pre Cons.prems(8)] by (elim exE conjE) (rule that)
  have rest: "does D C i L (case Some (Suc j) of None \<Rightarrow> ret None | Some j' \<Rightarrow> if j' = j then ret (Some j) else pipewrite_loop (length bs) i pi addr j')
      ?N (Some (j + length (c # bs))) L (N\<lparr>pipes := (pipes N)(pi := p')\<rparr>)"
    using p'(1) by simp
  have "does D C i L (pipewrite_loop (length (c # bs)) i pi addr j) N (Some (j + length (c # bs))) L (N\<lparr>pipes := (pipes N)(pi := p')\<rparr>)"
    unfolding list.size(4) add_0_right add_Suc_right pipewrite_loop.simps
    by (rule does_bnd [OF does_again_at_once [OF round]]) (use rest in simp)
  moreover have "pipe_queue p' = pipe_queue ?p @ c # bs" "pi_readopen p' = pi_readopen ?p" "pi_writeopen p' = pi_writeopen ?p"
    using p'(2,4,5) put by simp_all
  ultimately show ?case using p'(3) by (intro exI [of _ p'] conjI)
qed

subsection \<open>The properties\<close>

text \<open>
  C23: \<open>pipewrite\<close> appends to the queue of the pipe. When there is room for \<open>n\<close> characters, the read end is open,
  the process is not killed and the \<open>n\<close> bytes at \<open>addr\<close> are user memory of the process, \<open>pipewrite\<close> returns
  \<open>n\<close> without sleeping; the queue of the pipe has grown by exactly those bytes in order, although the
  counters may have wrapped around, it still fits the buffer, and no other pipe and no memory changes.
\<close>

theorem pipewrite_appends:
  assumes "quiet i [] s" and "uvm_inv s r A ps" and "r = p_pagetable (proc s i)" and "pipe_ok (pipes s pi)"
    and "length (pipe_queue (pipes s pi)) + length bs \<le> PIPESIZE" and "pi_readopen (pipes s pi)" and "\<not> p_killed (proc s i)"
    and "\<forall>x<length bs. ubyte s r (addr + of_nat x) = Some (bs ! x)"
  shows "achieves (env D i) (\<lambda>_ _. False)
    (\<lambda>res t. res = int (length bs) \<and> quiet i [] t \<and> pipe_queue (pipes t pi) = pipe_queue (pipes s pi) @ bs \<and> pipe_ok (pipes t pi)
      \<and> (\<forall>a. a \<noteq> pi \<longrightarrow> pipes t a = pipes s a) \<and> mem t = mem s)
    (pipewrite pi addr (int (length bs)) s)"
proof -
  let ?N = "norm s"
  have pre: "uvm_inv ?N r A ps" "r = p_pagetable (proc ?N i)" "pipe_ok (pipes ?N pi)" "length (pipe_queue (pipes ?N pi)) + length bs \<le> PIPESIZE"
    "pi_readopen (pipes ?N pi)" "\<not> p_killed (proc ?N i)" "\<forall>x<length bs. ubyte ?N r (addr + of_nat (0 + x)) = Some (bs ! x)"
    "ProcLock i \<notin> set [PipeLock pi]"
    using assms uvm_norm(1) [OF assms(2)] by (simp_all add: uvm_norm)
  obtain p' where p': "does D (\<lambda>_. False) i [PipeLock pi] (pipewrite_loop (length bs) i pi addr 0) ?N (Some (0 + length bs)) [PipeLock pi] (?N\<lparr>pipes := (pipes ?N)(pi := p')\<rparr>)"
    "pipe_queue p' = pipe_queue (pipes ?N pi) @ bs" "pipe_ok p'"
    using does_pipewrite_loop [OF pre, of D "\<lambda>_. False"] by (elim exE conjE) (rule that)
  have fin: "does D (\<lambda>_. False) i [PipeLock pi] (case Some (0 + length bs) of None \<Rightarrow> ret (-1) | Some j \<Rightarrow>
      sq (wakeup (Some (ChanNread pi))) (sq (release (PipeLock pi)) (ret (int j)))) (?N\<lparr>pipes := (pipes ?N)(pi := p')\<rparr>) (int (length bs)) []
      (?N\<lparr>pipes := (pipes ?N)(pi := p')\<rparr>)"
    by (simp, rule does_sq [OF does_wakeup], simp, rule does_sq [OF does_release does_ret])
  have d: "does D (\<lambda>_. False) i [] (pipewrite pi addr (int (length bs))) ?N (int (length bs)) [] (?N\<lparr>pipes := (pipes ?N)(pi := p')\<rparr>)"
    unfolding pipewrite_def nat_int
    by (rule does_bnd [OF does_curproc], rule does_sq [OF does_acquire], simp, rule does_bnd [OF p'(1)], rule fin)
  show ?thesis
  proof (rule does_achieves [OF d assms(1)])
    fix t :: "'a kstate_scheme" assume t: "quiet i [] t" "norm t = ?N\<lparr>pipes := (pipes ?N)(pi := p')\<rparr>"
    have "pipes t = (pipes s)(pi := p')" "mem t = mem s" using arg_cong [OF t(2), of pipes] arg_cong [OF t(2), of mem] by simp_all
    then show "int (length bs) = int (length bs) \<and> quiet i [] t \<and> pipe_queue (pipes t pi) = pipe_queue (pipes s pi) @ bs \<and> pipe_ok (pipes t pi)
      \<and> (\<forall>a. a \<noteq> pi \<longrightarrow> pipes t a = pipes s a) \<and> mem t = mem s" using t(1) p' by simp
  qed
qed

text \<open>
  C22: \<open>piperead\<close> takes the front of the queue of the pipe. When the queue is not empty or the write end is closed,
  and the destination is writable, \<open>piperead\<close> of \<open>n\<close> characters returns without sleeping the number \<open>m\<close> of
  characters it delivered, the smaller of \<open>n\<close> and the length of the queue, so 0 at end of file; the first
  \<open>m\<close> characters of the queue are at \<open>addr\<close>, the rest is what is left of the queue, and no other byte of
  the address space and no other pipe changes.
\<close>

theorem piperead_takes:
  assumes "quiet i [] s" and "uvm_inv s r A ps" and "uspace s r A" and "r = p_pagetable (proc s i)" and "pipe_ok (pipes s pi)"
    and "q = pipe_queue (pipes s pi)" and "q \<noteq> [] \<or> \<not> pi_writeopen (pipes s pi)" and "m = min n (length q)"
    and "\<forall>x<m. writable s r (addr + of_nat x)"
  shows "achieves (env D i) (\<lambda>_ _. False)
    (\<lambda>res t. res = int m \<and> quiet i [] t \<and> pipe_queue (pipes t pi) = drop m q \<and> pipe_ok (pipes t pi)
      \<and> (\<forall>a. a \<noteq> pi \<longrightarrow> pipes t a = pipes s a)
      \<and> (\<forall>x. ubyte t r x = (let d = unat (x - addr) in if d < m then Some (q ! d) else ubyte s r x)))
    (piperead pi addr (int n) s)"
proof -
  let ?N = "norm s"
  have pre: "uvm_inv ?N r A ps" "uspace ?N r A" "r = p_pagetable (proc ?N i)" "pipe_ok (pipes ?N pi)" "q = pipe_queue (pipes ?N pi)"
    "m = min n (length q)" "\<forall>x<m. writable ?N r (addr + of_nat (0 + x))"
    using assms uvm_norm(1) [OF assms(2)] by (simp_all add: uvm_norm)
  obtain N' p' where N': "does D (\<lambda>_. False) i [PipeLock pi] (piperead_loop n i pi addr 0) ?N (0 + m) [PipeLock pi] N'"
    "N' = ?N\<lparr>mem := mem N', pipes := (pipes ?N)(pi := p')\<rparr>" "uvm_inv N' r A ps" "pipe_queue p' = drop m q" "pipe_ok p'"
    "p' = (pipes ?N pi)\<lparr>pi_nread := pi_nread p'\<rparr>"
    "\<forall>x. ubyte N' r x = (let d = unat (x - (addr + of_nat 0)) in if d < m then Some (q ! d) else ubyte ?N r x)"
    using does_piperead_loop [OF pre, where D = D and C = "\<lambda>_. False" and L = "[PipeLock pi]"] by (elim exE conjE) (rule that)
  have ready: "\<not> (pi_nread (pipes ?N pi) = pi_nwrite (pipes ?N pi) \<and> pi_writeopen (pipes ?N pi))" using assms(6,7) by (auto simp: pipe_empty)
  let ?go = "bnd (getpi pi (\<lambda>p. pi_nread p = pi_nwrite p \<and> pi_writeopen p)) (\<lambda>w. if \<not> w then ret (Inl True)
       else bnd (killed i) (\<lambda>k. if k then sq (release (PipeLock pi)) (ret (Inl False))
       else sq (sleep (Some (ChanNread pi)) (PipeLock pi)) (ret (Inr ()))))"
  have go: "does D (\<lambda>_. False) i [PipeLock pi] (again ?go) ?N True [PipeLock pi] ?N"
    by (rule does_again_at_once, rule does_bnd [OF does_getpi]) (use ready in \<open>simp add: does_ret\<close>)
  have d: "does D (\<lambda>_. False) i [] (piperead pi addr (int n)) ?N (int m) [] N'"
    unfolding piperead_def nat_int
    by (rule does_bnd [OF does_curproc], rule does_sq [OF does_acquire], simp, rule does_bnd [OF go], simp only: simp_thms if_False,
        rule does_bnd [OF N'(1)], rule does_sq [OF does_wakeup], simp, rule does_sq [OF does_release], simp add: does_ret)
  show ?thesis
  proof (rule does_achieves [OF d assms(1)])
    fix t :: "'a kstate_scheme" assume t: "quiet i [] t" "norm t = N'"
    have "pipes t = (pipes s)(pi := p')" using arg_cong [OF t(2), of pipes] arg_cong [OF N'(2), of pipes] by simp
    moreover have "ubyte t r x = ubyte N' r x" for x using t(2) uvm_norm(3) [of t r x] by simp
    ultimately show "int m = int m \<and> quiet i [] t \<and> pipe_queue (pipes t pi) = drop m q \<and> pipe_ok (pipes t pi)
      \<and> (\<forall>a. a \<noteq> pi \<longrightarrow> pipes t a = pipes s a)
      \<and> (\<forall>x. ubyte t r x = (let d = unat (x - addr) in if d < m then Some (q ! d) else ubyte s r x))"
      using t(1) N'(4,5,7) by (simp add: uvm_norm Let_def)
  qed
qed

subsection \<open>The bound in every interleaving\<close>

definition pipes_ok :: "'z kstate_scheme \<Rightarrow> bool" where
  "pipes_ok s \<longleftrightarrow> (\<forall>a. pipe_ok (pipes s a))"

lemma pipes_ok_free: "proc_free pipes_ok"
  by (simp add: proc_free_def mem_free_def mach_free_def pipes_ok_def)

lemma spec_memop:
  assumes "memop m" and "\<And>s f. P s \<Longrightarrow> P (s\<lparr>mem := f\<rparr>)"
  shows "spec R G (\<lambda>_. True) P m (\<lambda>_. P)"
  unfolding spec_def
proof (intro allI impI)
  fix s assume "P s"
  obtain f where f: "\<And>s. m s = (case f (mem s) of Inl e \<Rightarrow> Stop e | Inr (a, m') \<Rightarrow> Ok a (s\<lparr>mem := m'\<rparr>))"
    using assms(1) unfolding memop_def by blast
  show "meets R G (\<lambda>_. True) (\<lambda>_. P) (m s)"
    unfolding f [of s] using \<open>P s\<close> assms(2) by (auto split: sum.split)
qed

lemma pipe_room: "pipe_ok p \<Longrightarrow> pi_nwrite p \<noteq> pi_nread p + of_nat PIPESIZE \<Longrightarrow> length (pipe_queue p) < PIPESIZE"
  using pipe_full [of p] by (simp add: pipe_ok_def length_pipe_queue)

lemma pipes_ok_upd: "pipes_ok s \<Longrightarrow> pipe_ok p \<Longrightarrow> pipes_ok (s\<lparr>pipes := (pipes s)(a := p)\<rparr>)"
  by (simp add: pipes_ok_def)

lemma pipewrite_round_bounded: "keeps pipes_ok (pipewrite_round pr pi addr i)"
proof -
  let ?room = "\<lambda>s :: 'a kstate_scheme. pipes_ok s \<and> pi_nwrite (pipes s pi) \<noteq> pi_nread (pipes s pi) + of_nat PIPESIZE"
  let ?put = "\<lambda>c. upd_pipe pi (\<lambda>p. p\<lparr>pi_data := (pi_data p)(unat (pi_nwrite p) mod PIPESIZE := c), pi_nwrite := pi_nwrite p + 1\<rparr>)"
  let ?copy = "bnd (getp pr p_pagetable) (\<lambda>pt. bnd (copyin pt (addr + of_nat i) 1) (\<lambda>(r, c).
     if r = -1 then ret (Inl (Some i)) else sq (?put (hd c)) (ret (Inl (Some (Suc i)))))) :: (nat option + unit, 'a kstate_scheme) kern"
  let ?wait = "sq (wakeup (Some (ChanNread pi))) (sq (sleep (Some (ChanNwrite pi)) (PipeLock pi)) (ret (Inr ()))) :: (nat option + unit, 'a kstate_scheme) kern"
  let ?R = "\<lambda>_ _. pipes_ok" and ?G = "\<lambda>_. pipes_ok"
  have put: "spec ?R ?G (\<lambda>_. True) ?room (?put c) (\<lambda>_. pipes_ok)" for c
    unfolding spec_def upd_pipe_def
    using pipe_room pipe_put_queue [unfolded pipe_put_def] by (auto simp: run_simps intro!: pipes_ok_upd) (auto simp: pipes_ok_def)
  have "spec ?R ?G (\<lambda>_. True) ?room (sq (?put c) (ret (Inl (Some (Suc i))))) (\<lambda>_. pipes_ok)" for c by (rule spec_sq [OF put keeps_ret])
  then have stored: "spec ?R ?G (\<lambda>_. True) ?room (if r = -1 then ret (Inl (Some i)) else sq (?put c) (ret (Inl (Some (Suc i))))) (\<lambda>_. pipes_ok)" for r :: int and c
    by (cases "r = -1") (simp_all add: spec_def run_simps)
  have copy: "spec ?R ?G (\<lambda>_. True) ?room ?copy (\<lambda>_. pipes_ok)"
    by (rule spec_bnd [OF spec_getp_keep], rule spec_bnd [OF spec_memop [OF memop_copy(2)]], simp add: pipes_ok_def)
      (simp only: split: prod.split, intro allI impI, rule stored)
  have test: "keeps pipes_ok (bnd (getpi pi (\<lambda>p. p)) (\<lambda>p. if pi_nwrite p = pi_nread p + of_nat PIPESIZE then ?wait else ?copy))"
    unfolding spec_def
  proof (intro allI impI)
    fix s :: "'a kstate_scheme" assume s: "pipes_ok s"
    show "meets ?R ?G (\<lambda>_. True) (\<lambda>_. pipes_ok)
      (bnd (getpi pi (\<lambda>p. p)) (\<lambda>p. if pi_nwrite p = pi_nread p + of_nat PIPESIZE then ?wait else ?copy) s)"
    proof (cases "pi_nwrite (pipes s pi) = pi_nread (pipes s pi) + of_nat PIPESIZE")
      case True
      have "keeps pipes_ok ?wait" by (intro keeps_intros pipes_ok_free)
      then show ?thesis using True s by (simp add: spec_def run_simps getpi_def)
    next
      case False
      then show ?thesis using copy s by (simp add: spec_def run_simps getpi_def)
    qed
  qed
  show ?thesis unfolding pipewrite_round_def
    by (rule keeps_bnd, simp add: getpi_def keeps_gets, intro keeps_bnd keeps_if keeps_ret keeps_sq keeps_intros pipes_ok_free proc_freeD [OF pipes_ok_free] test)
qed

lemma piperead_loop_bounded: "keeps pipes_ok (piperead_loop k pr pi addr i)"
proof (induction k arbitrary: i)
  case (Suc k)
  let ?rest = "\<lambda>p. bnd (getp pr p_pagetable) (\<lambda>pt.
     bnd (copyout pt (addr + of_nat i) (\<lambda>_. pi_data p (unat (pi_nread p) mod PIPESIZE)) 1) (\<lambda>r.
     if r = -1 then ret i else piperead_loop k pr pi addr (Suc i))) :: (nat, 'a kstate_scheme) kern"
  have rest: "keeps pipes_ok (?rest p)" for p
    by (rule keeps_bnd [OF keeps_getp], rule keeps_bnd [OF spec_memop [OF memop_copy(1)]], simp add: pipes_ok_def)
      (intro keeps_if keeps_ret Suc)
  show ?case unfolding piperead_loop.simps spec_def
  proof (intro allI impI)
    fix s :: "'a kstate_scheme" assume s: "pipes_ok s"
    let ?p = "pipes s pi" and ?Q = "\<lambda>_. pipes_ok"
    show "meets (\<lambda>_ _. pipes_ok) (\<lambda>_. pipes_ok) (\<lambda>_. True) ?Q (bnd (getpi pi (\<lambda>p. p)) (\<lambda>p. if pi_nread p = pi_nwrite p then ret i
       else sq (upd_pipe pi (\<lambda>p. p\<lparr>pi_nread := pi_nread p + 1\<rparr>)) (?rest p)) s)"
    proof (cases "pi_nread ?p = pi_nwrite ?p")
      case False
      let ?t = "s\<lparr>pipes := (pipes s)(pi := pipe_get ?p)\<rparr>"
      have "pipe_ok (pipe_get ?p)" using s False by (intro pipe_get_queue(2)) (simp_all add: pipes_ok_def pipe_empty)
      then have "pipes_ok ?t" by (rule pipes_ok_upd [OF s])
      then have "meets (\<lambda>_ _. pipes_ok) (\<lambda>_. pipes_ok) (\<lambda>_. True) ?Q (?rest ?p ?t)" by (rule rest [of ?p, unfolded spec_def, rule_format])
      then show ?thesis using False by (simp only: bnd_run sq_run getpi_def upd_pipe_def gets_run modify_run outcome.case if_False pipe_get_def if_run)
    qed (use s in \<open>simp add: getpi_def run_simps\<close>)
  qed
qed (simp add: keeps_ret)

lemma pipe_ops_bounded:
  "keeps pipes_ok (pipewrite pi addr n)" "keeps pipes_ok (piperead pi addr n)" "keeps pipes_ok (pipeclose pi wr)"
proof -
  have mach: "mach_free pipes_ok" by (rule proc_freeD [OF pipes_ok_free])
  have mem: "mem_free pipes_ok" by (simp add: mem_free_def mach pipes_ok_def)
  note intros = keeps_intros pipes_ok_free mach mem
  have "keeps pipes_ok (pipewrite_loop k pr pi addr i)" for k pr i
  proof (induction k arbitrary: i)
    case (Suc k)
    show ?case unfolding pipewrite_loop.simps by (intro intros pipewrite_round_bounded Suc)
  qed (simp add: keeps_ret)
  then show "keeps pipes_ok (pipewrite pi addr n)" unfolding pipewrite_def by (intro intros)
  show "keeps pipes_ok (piperead pi addr n)"
    unfolding piperead_def getpi_def by (intro intros piperead_loop_bounded)
  have "keeps pipes_ok (upd_pipe pi (\<lambda>p. p\<lparr>pi_writeopen := False\<rparr>))" "keeps pipes_ok (upd_pipe pi (\<lambda>p. p\<lparr>pi_readopen := False\<rparr>))"
    unfolding upd_pipe_def by (rule keeps_modify, simp add: pipes_ok_def pipe_ok_def)+
  then show "keeps pipes_ok (pipeclose pi wr)"
    unfolding pipeclose_def getpi_def by (intro intros)
qed

subsection \<open>The lock of a pipe\<close>

text \<open>A function of the memory that always returns.\<close>

definition returns :: "('a, 's) kern \<Rightarrow> bool" where
  "returns m \<longleftrightarrow> (\<forall>s. \<exists>a t. m s = Ok a t)"

lemma returns_bnd: "returns m \<Longrightarrow> (\<And>a. returns (k a)) \<Longrightarrow> returns (bnd m k)"
  unfolding returns_def bnd_def
proof
  fix s assume "\<forall>s. \<exists>a t. m s = Ok a t" and k: "\<And>a. \<forall>s. \<exists>b t. k a s = Ok b t"
  then obtain a t where "m s = Ok a t" by blast
  then show "\<exists>b u. andthen (m s) k = Ok b u" using k [of a] by simp
qed

lemma returns_intros:
  "returns (ret a)" "returns (gets f)" "returns (modify g)" "returns m \<Longrightarrow> returns n \<Longrightarrow> returns (sq m n)"
  "(b \<Longrightarrow> returns x) \<Longrightarrow> (\<not> b \<Longrightarrow> returns y) \<Longrightarrow> returns (if b then x else y)"
  unfolding sq_def by (simp_all add: returns_bnd) (simp_all add: returns_def run_simps)

lemma returns_walk: "va < MAXVA \<Longrightarrow> returns (walk r va False)"
proof -
  have "returns (walk_loop l r va False)" for l r
  proof (induction l arbitrary: r)
    case (Suc l)
    then show ?case unfolding walk_loop.simps Let_def get_pte_def by (intro returns_intros returns_bnd) simp_all
  qed (simp add: returns_intros)
  moreover assume "va < MAXVA"
  then have "\<not> MAXVA \<le> va" by (simp only: not_le)
  ultimately show "returns (walk r va False)" by (simp only: walk_def if_False)
qed

lemma returns_walkaddr: "returns (walkaddr r va)"
  unfolding walkaddr_def get_pte_def by (intro returns_intros returns_bnd returns_walk) simp_all

lemma returns_copyin_acc: "returns (copyin_acc r acc va len)"
proof (induction r acc va len rule: copyin_acc.induct)
  case (1 r acc va len)
  show ?case by (subst copyin_acc.simps, unfold Let_def) (intro returns_intros returns_bnd returns_walkaddr 1; simp)
qed

lemma returns_copy: "returns (copyin r va len)" "returns (copyout r va src len)"
proof -
  show "returns (copyin r va len)" by (simp add: copyin_def returns_copyin_acc)
  show "returns (copyout r va src len)"
  proof (induction r va src len rule: copyout.induct)
    case (1 r va src len)
    show ?case by (subst copyout.simps, unfold Let_def get_pte_def upd_mem_def) (intro returns_intros returns_bnd returns_walk 1; simp add: not_le)
  qed
qed

text \<open>
  \<open>pipe_guar pi s t\<close>: of a segment from \<open>s\<close> to \<open>t\<close>, other CPUs may expect that no other pipe changes, and that while one of them
  holds the lock of the pipe it keeps it and finds the pipe unchanged.
\<close>

definition pipe_guar :: "u64 \<Rightarrow> 'z kstate_scheme \<Rightarrow> 'z kstate_scheme \<Rightarrow> bool" where
  "pipe_guar pi s t \<longleftrightarrow> tp t = tp s \<and> (\<forall>a. a \<noteq> pi \<longrightarrow> pipes t a = pipes s a) \<and>
     (\<forall>c. c \<noteq> tp s \<longrightarrow> lk_holding (locks s (PipeLock pi)) c \<longrightarrow>
        lk_holding (locks t (PipeLock pi)) c \<and> pipes t pi = pipes s pi)"

lemma pipe_guar_guarded: "pipe_guar pi = guarded (PipeLock pi) (\<lambda>s. pipes s pi) (\<lambda>s a. if a = pi then None else Some (pipes s a))"
  by (auto simp: fun_eq_iff pipe_guar_def guarded_def split: if_splits)

lemma pipe_blind: "blind (\<lambda>s :: 'z kstate_scheme. pipes s pi)" "blind (\<lambda>s :: 'z kstate_scheme. \<lambda>a. if a = pi then None else Some (pipes s a))"
  by (simp_all add: blind_def cong: if_cong)

lemma pipe_rkeeps:
  "rkeeps (pipe_guar pi) (acquire l)" "rkeeps (pipe_guar pi) (release l)" "rkeeps (pipe_guar pi) curproc"
  "rkeeps (pipe_guar pi) (sleep q l)" "rkeeps (pipe_guar pi) (wakeup q)" "rkeeps (pipe_guar pi) (killed i)"
  "rkeeps (pipe_guar pi) (kfree pa)"
  unfolding pipe_guar_guarded by (intro rkeeps_intros pipe_blind)+

lemma rkeeps_memop:
  assumes "memop m"
  shows "rkeeps (pipe_guar pi) m"
proof -
  obtain f where f: "\<And>s. m s = (case f (mem s) of Inl e \<Rightarrow> Stop e | Inr (a, m') \<Rightarrow> Ok a (s\<lparr>mem := m'\<rparr>))"
    using assms unfolding memop_def by blast
  then show ?thesis by (auto simp: rkeeps_def f pipe_guar_def split: sum.split)
qed

lemma guar_memop:
  assumes "memop m" and "returns m"
  shows "guar_spec i E (pipe_guar pi) (runs i H) m (\<lambda>_. runs i H)"
proof (rule guar_proc [OF _ rkeeps_memop [OF assms(1)]])
  show "proc_spec i (runs i H) m (\<lambda>_. runs i H)" unfolding spec_def
  proof (intro allI impI)
    fix s :: "'a kstate_scheme" assume s: "runs i H s"
    obtain a t where t: "m s = Ok a t" using assms(2) unfolding returns_def by blast
    then have "t = s\<lparr>mem := mem t\<rparr>" by (rule memop_frame [OF assms(1)])
    then have "runs i H t" using s runs_upd(3) by metis
    then show "meets (proc_rely i) (proc_guar i) (\<lambda>_. False) (\<lambda>_. runs i H) (m s)" by (simp add: t)
  qed
qed

lemmas guar_copy = guar_memop [OF memop_copy(2) returns_copy(1)] guar_memop [OF memop_copy(1) returns_copy(2)]

lemma guar_upd_pipe: "guar_spec i E (pipe_guar pi) (runs i {PipeLock pi}) (upd_pipe pi f) (\<lambda>_. runs i {PipeLock pi})"
  unfolding upd_pipe_def pipe_guar_guarded
proof (rule guar_modify)
  fix s0 s :: "'a kstate_scheme"
  assume s: "runs i {PipeLock pi} s" "guarded (PipeLock pi) (\<lambda>s. pipes s pi) (\<lambda>s a. if a = pi then None else Some (pipes s a)) s0 s"
  then have "PipeLock pi \<in> held s" by (auto simp: runs_def on_def)
  then show "guarded (PipeLock pi) (\<lambda>s. pipes s pi) (\<lambda>s a. if a = pi then None else Some (pipes s a)) s0 (s\<lparr>pipes := (pipes s)(pi := f (pipes s pi))\<rparr>)"
    by (rule guarded_own [OF s(2)]) (auto simp: fun_eq_iff)
qed (simp add: runs_def on_def held_def running_def ie_def)

lemma guar_pipe_ops:
  "L \<notin> H \<Longrightarrow> guar_spec i E (pipe_guar pi) (runs i H) (acquire L) (\<lambda>_. runs i (insert L H))"
  "guar_spec i E (pipe_guar pi) (runs i {L}) (release L) (\<lambda>_. runs i {})"
  "guar_spec i E (pipe_guar pi) (runs i {PipeLock pi}) (wakeup q) (\<lambda>_. runs i {PipeLock pi})"
  "guar_spec i E (pipe_guar pi) (runs i {PipeLock pi}) (sleep q (PipeLock pi)) (\<lambda>_. runs i {PipeLock pi})"
  "guar_spec i E (pipe_guar pi) (runs i {PipeLock pi}) (killed j) (\<lambda>_. runs i {PipeLock pi})"
proof -
  have rel: "proc_spec i (runs i {L}) (release L) (\<lambda>_. runs i {})" by (rule proc_release_insert) simp
  show "guar_spec i E (pipe_guar pi) (runs i {L}) (release L) (\<lambda>_. runs i {})" by (intro guar_proc rel pipe_rkeeps)
qed (intro guar_proc proc_acquire proc_wakeup proc_sleep proc_killed pipe_rkeeps; simp)+

lemma guar_pipewrite_round:
  "guar_spec i E (pipe_guar pi) (runs i {PipeLock pi}) (pipewrite_round pr pi addr j)
    (\<lambda>x t. case x of Inl None \<Rightarrow> runs i {} t | _ \<Rightarrow> runs i {PipeLock pi} t)"
  unfolding pipewrite_round_def getpi_def getp_def
  by (rule guar_bnd [OF guar_gets [where Q = "\<lambda>_. runs i {PipeLock pi}"]], assumption,
      rule guar_bnd [where M = "\<lambda>_. runs i {PipeLock pi}"], rule guar_if, rule guar_ret, assumption, rule guar_pipe_ops,
      rule guar_if, rule guar_sq [OF guar_pipe_ops(2) guar_ret], simp,
      rule guar_bnd [OF guar_gets [where Q = "\<lambda>_. runs i {PipeLock pi}"]], assumption,
      rule guar_if, rule guar_sq [OF guar_pipe_ops(3)], rule guar_sq [OF guar_pipe_ops(4)], rule guar_ret, simp,
      rule guar_bnd [OF guar_gets [where Q = "\<lambda>_. runs i {PipeLock pi}"]], assumption,
      rule guar_bnd [OF guar_copy(1)], simp split: prod.split, intro allI impI conjI, rule guar_ret, simp, 
      rule guar_sq [OF guar_upd_pipe], rule guar_ret, simp)

lemma runs_stable: "runs i H t \<Longrightarrow> cpu_stable t u \<Longrightarrow> runs i H u"
  by (auto simp: runs_def intro: on_stable)

lemma guar_spec_pre: "guar_spec i E X P m Q \<Longrightarrow> (\<And>s. P' s \<Longrightarrow> P s) \<Longrightarrow> guar_spec i E X P' m Q"
  by (auto simp: guar_spec_def)

lemma pipe_guar_refl: "pipe_guar pi s s"
  by (simp add: pipe_guar_def)

lemma guar_pipewrite_loop:
  "guar_spec i E (pipe_guar pi) (runs i {PipeLock pi}) (pipewrite_loop k pr pi addr j)
    (\<lambda>r t. case r of None \<Rightarrow> runs i {} t | Some _ \<Rightarrow> runs i {PipeLock pi} t)"
proof (induction k arbitrary: j)
  case (Suc k)
  have "guar_spec i E (pipe_guar pi) (runs i {PipeLock pi}) (again (pipewrite_round pr pi addr j))
      (\<lambda>r t. case r of None \<Rightarrow> runs i {} t | Some _ \<Rightarrow> runs i {PipeLock pi} t)"
  proof (rule guar_again)
    have "(\<lambda>x t. case x of Inl a \<Rightarrow> case a of None \<Rightarrow> runs i {} t | Some _ \<Rightarrow> runs i {PipeLock pi} t | Inr _ \<Rightarrow> runs i {PipeLock pi} t)
        = (\<lambda>x t. case x of Inl None \<Rightarrow> runs i {} t | _ \<Rightarrow> runs i {PipeLock pi} t)"
      by (auto simp: fun_eq_iff split: sum.split option.split)
    then show "guar_spec i E (pipe_guar pi) (runs i {PipeLock pi}) (pipewrite_round pr pi addr j)
        (\<lambda>x t. case x of Inl a \<Rightarrow> case a of None \<Rightarrow> runs i {} t | Some _ \<Rightarrow> runs i {PipeLock pi} t | Inr _ \<Rightarrow> runs i {PipeLock pi} t)"
      using guar_pipewrite_round by simp
  qed (auto intro: runs_stable pipe_guar_refl)
  then show ?case unfolding pipewrite_loop.simps
  proof (rule guar_bnd)
    fix r show "guar_spec i E (pipe_guar pi) (\<lambda>t :: 'a kstate_scheme. case r of None \<Rightarrow> runs i {} t | Some _ \<Rightarrow> runs i {PipeLock pi} t)
        (case r of None \<Rightarrow> ret None | Some j' \<Rightarrow> if j' = j then ret (Some j) else pipewrite_loop k pr pi addr j')
        (\<lambda>r t. case r of None \<Rightarrow> runs i {} t | Some _ \<Rightarrow> runs i {PipeLock pi} t)"
      by (cases r) (simp_all add: guar_ret Suc)
  qed
qed (simp add: guar_ret)

lemma guar_pipewrite: "guar_spec i E (pipe_guar pi) (runs i {}) (pipewrite pi addr n) (\<lambda>_. runs i {})"
  unfolding pipewrite_def
proof (intro guar_curproc guar_sq [OF guar_pipe_ops(1)] guar_bnd [OF guar_pipewrite_loop] pipe_rkeeps)
  fix r
  have "guar_spec i E (pipe_guar pi) (runs i {PipeLock pi})
      (sq (wakeup (Some (ChanNread pi))) (sq (release (PipeLock pi)) (ret (int j)))) (\<lambda>_. runs i {})" for j
    by (intro guar_sq [OF guar_pipe_ops(3)] guar_sq [OF guar_pipe_ops(2)] guar_ret)
  then show "guar_spec i E (pipe_guar pi) (\<lambda>t. case r of None \<Rightarrow> runs i {} t | Some _ \<Rightarrow> runs i {PipeLock pi} t)
      (case r of None \<Rightarrow> ret (- 1) | Some j \<Rightarrow> sq (wakeup (Some (ChanNread pi))) (sq (release (PipeLock pi)) (ret (int j)))) (\<lambda>_. runs i {})"
    by (cases r) (simp_all add: guar_ret)
qed simp

lemma guar_piperead_loop:
  "guar_spec i E (pipe_guar pi) (runs i {PipeLock pi}) (piperead_loop k pr pi addr j) (\<lambda>_. runs i {PipeLock pi})"
proof (induction k arbitrary: j)
  case (Suc k)
  show ?case unfolding piperead_loop.simps getpi_def getp_def
    by (rule guar_bnd [OF guar_gets [where Q = "\<lambda>_. runs i {PipeLock pi}"]], assumption, rule guar_if, rule guar_ret, assumption,
        rule guar_sq [OF guar_upd_pipe], rule guar_bnd [OF guar_gets [where Q = "\<lambda>_. runs i {PipeLock pi}"]], assumption,
        rule guar_bnd [OF guar_copy(2)], rule guar_if, rule guar_ret, assumption, rule Suc)
qed (simp add: guar_ret)

lemma guar_piperead: "guar_spec i E (pipe_guar pi) (runs i {}) (piperead pi addr n) (\<lambda>_. runs i {})"
proof -
  let ?J = "runs i {PipeLock pi}" and ?X = "pipe_guar pi"
  let ?wait = "bnd (getpi pi (\<lambda>p. pi_nread p = pi_nwrite p \<and> pi_writeopen p)) (\<lambda>w.
       if \<not> w then ret (Inl True) else bnd (killed i) (\<lambda>k. if k then sq (release (PipeLock pi)) (ret (Inl False))
       else sq (sleep (Some (ChanNread pi)) (PipeLock pi)) (ret (Inr ()))))"
  have "guar_spec i E ?X ?J (again ?wait) (\<lambda>go. if go then ?J else runs i {})"
  proof (rule guar_again)
    show "guar_spec i E ?X ?J ?wait (\<lambda>x t. case x of Inl a \<Rightarrow> (if a then ?J else runs i {}) t | Inr _ \<Rightarrow> ?J t)"
      unfolding getpi_def
      by (rule guar_bnd [OF guar_gets [where Q = "\<lambda>_. ?J"]], assumption, rule guar_if, rule guar_ret, simp,
          rule guar_bnd [OF guar_pipe_ops(5)], rule guar_if, rule guar_sq [OF guar_pipe_ops(2) guar_ret], simp,
          rule guar_sq [OF guar_pipe_ops(4) guar_ret], simp)
  qed (auto intro: runs_stable pipe_guar_refl)
  moreover have "guar_spec i E ?X ?J (bnd (piperead_loop (nat n) i pi addr 0) (\<lambda>j. sq (wakeup (Some (ChanNwrite pi))) (
     sq (release (PipeLock pi)) (ret (int j))))) (\<lambda>_. runs i {})"
    by (intro guar_bnd [OF guar_piperead_loop] guar_sq [OF guar_pipe_ops(3)] guar_sq [OF guar_pipe_ops(2)] guar_ret)
  ultimately show ?thesis unfolding piperead_def
    by (intro guar_curproc guar_sq [OF guar_pipe_ops(1)] pipe_rkeeps, simp) (rule guar_bnd, assumption, auto intro: guar_ret)
qed

lemma guar_kfree: "guar_spec i (\<lambda>e. e = Panicked ''kfree'') (pipe_guar pi) (runs i {}) (kfree pa) (\<lambda>_. runs i {})"
proof (rule guar_op [OF _ pipe_rkeeps(7)])
  let ?S = "spec (proc_rely i) (proc_guar i) (\<lambda>e. e = Panicked ''kfree'')"
  have lock: "?S (runs i {}) (acquire KmemLock) (\<lambda>_. runs i {KmemLock})" "?S (runs i {KmemLock}) (release KmemLock) (\<lambda>_. runs i {})"
    using proc_acquire [of KmemLock "{}" i] proc_release_insert [of KmemLock "{}" i] by (auto simp: spec_def elim!: meets_conseq)
  have upd: "?S (runs i H) (upd_mem f) (\<lambda>_. runs i H)" "?S (runs i H) (modify (\<lambda>s. s\<lparr>freelist := p\<rparr>)) (\<lambda>_. runs i H)" for f p H
    by (simp_all add: spec_def upd_mem_def run_simps)
  have "?S (runs i {}) (sq (upd_mem f) (sq (acquire KmemLock) (sq (bnd (gets freelist) (\<lambda>nxt. upd_mem (g nxt))) (
     sq (modify (\<lambda>s. s\<lparr>freelist := pa\<rparr>)) (release KmemLock))))) (\<lambda>_. runs i {})" for f g
    by (intro spec_sq [OF upd(1)] spec_sq [OF lock(1)] spec_sq [OF spec_bnd [OF spec_gets_keep upd(1)]] spec_sq [OF upd(2) lock(2)])
  moreover have "?S (runs i {}) (panic ''kfree'') (\<lambda>_. runs i {})" by (simp add: spec_def panic_def)
  ultimately show "?S (runs i {}) (kfree pa) (\<lambda>_. runs i {})" unfolding kfree_def
    by (intro spec_bnd [OF spec_gets_keep]) (simp only: split: if_split, blast)
qed

lemma guar_pipeclose:
  "guar_spec i (\<lambda>e. e = Panicked ''kfree'') (pipe_guar pi) (runs i {}) (pipeclose pi wr) (\<lambda>_. runs i {})"
  unfolding pipeclose_def getpi_def
  by (rule guar_sq [OF guar_pipe_ops(1)], simp, rule guar_sq, rule guar_if, rule guar_sq [OF guar_upd_pipe], rule guar_pipe_ops(3),
      rule guar_sq [OF guar_upd_pipe], rule guar_pipe_ops(3),
      rule guar_bnd [OF guar_gets [where Q = "\<lambda>_. runs i {PipeLock pi}"]], assumption, rule guar_if,
      rule guar_sq [OF guar_pipe_ops(2) guar_kfree], rule guar_pipe_ops(2))

lemma guar_pipes_ok:
  assumes "guar_spec i E (pipe_guar pi) (runs i {}) m (\<lambda>_. runs i {})" and "keeps pipes_ok m" and "runs i {} s" and "pipes_ok s"
  shows "obeys (\<lambda>w t u. proc_rely i w t u \<and> pipes_ok u) (\<lambda>w s t. proc_guar i w t \<and> pipes_ok t \<and> pipe_guar pi s t) E
    (\<lambda>_ s t. runs i {} t \<and> pipes_ok t \<and> pipe_guar pi s t) s (m s)"
proof -
  have "meets (\<lambda>_ _ u. pipes_ok u) (\<lambda>_. pipes_ok) (\<lambda>_. True) (\<lambda>_. pipes_ok) (m s)" using assms(2,4) by (simp add: spec_def)
  then have 1: "meets (\<lambda>w t u. proc_rely i w t u \<and> pipes_ok u) (\<lambda>_. pipes_ok) (\<lambda>_. True) (\<lambda>_. pipes_ok) (m s)"
    by (rule meets_conseq) auto
  have 2: "obeys (proc_rely i) (\<lambda>w s t. proc_guar i w t \<and> pipe_guar pi s t) E (\<lambda>_ s t. runs i {} t \<and> pipe_guar pi s t) s (m s)"
    using assms(1,3) by (simp add: guar_spec_def pipe_guar_refl)
  show ?thesis by (rule obeys_conseq [OF obeys_meets [OF 1 2]]) auto
qed

text \<open>
  C24: A pipe never holds more than \<open>PIPESIZE\<close> characters, in every interleaving, and is only touched by who holds its
  lock. Called by process \<open>i\<close> with no lock held, with arbitrary arguments, \<open>pipewrite\<close>, \<open>piperead\<close> and \<open>pipeclose\<close> keep
  the bound on the distance of the counters modulo \<open>2^32\<close> at every point where they sleep, spin or return, if
  whoever runs in between keeps it too. Along every segment between two such points they leave all other pipes
  alone, and, if another CPU holds the lock of the pipe when the segment begins, also this pipe and its lock. They
  go to sleep with no lock but the process lock and return with none, and they do not panic, except that
  \<open>pipeclose\<close> does when \<open>kfree\<close> rejects the page of the pipe. The pipe that \<open>pipealloc\<close> sets up satisfies the bound.
\<close>

theorem pipe_never_overflows:
  assumes "runs i {} s" and "pipes_ok s"
  shows "obeys (\<lambda>w t u. proc_rely i w t u \<and> pipes_ok u) (\<lambda>w s t. proc_guar i w t \<and> pipes_ok t \<and> pipe_guar pi s t) (\<lambda>_. False)
      (\<lambda>_ s t. runs i {} t \<and> pipes_ok t \<and> pipe_guar pi s t) s (pipewrite pi addr n s) \<and>
    obeys (\<lambda>w t u. proc_rely i w t u \<and> pipes_ok u) (\<lambda>w s t. proc_guar i w t \<and> pipes_ok t \<and> pipe_guar pi s t) (\<lambda>_. False)
      (\<lambda>_ s t. runs i {} t \<and> pipes_ok t \<and> pipe_guar pi s t) s (piperead pi addr n s) \<and>
    obeys (\<lambda>w t u. proc_rely i w t u \<and> pipes_ok u) (\<lambda>w s t. proc_guar i w t \<and> pipes_ok t \<and> pipe_guar pi s t) (\<lambda>e. e = Panicked ''kfree'')
      (\<lambda>_ s t. runs i {} t \<and> pipes_ok t \<and> pipe_guar pi s t) s (pipeclose pi wr s) \<and>
    pipe_ok (p\<lparr>pi_readopen := True, pi_writeopen := True, pi_nwrite := 0, pi_nread := 0\<rparr>)"
  by (intro conjI guar_pipes_ok pipe_ops_bounded guar_pipewrite guar_piperead guar_pipeclose assms) (simp add: pipe_ok_def)

subsection \<open>A machine with a pipe\<close>

text \<open>A process whose address space is one writable page, and a pipe whose counters are about to wrap around.\<close>

definition pipe_machine :: kstate where
  "pipe_machine = fstate.extend (ustate.extend uart_machine
      \<lparr>sb = small_sb, itable = (\<lambda>_. \<lparr>i_dev = 0, i_inum = 0, i_ref = 0, i_valid = False,
         i_d = \<lparr>di_type = 0, di_major = 0, di_minor = 0, di_nlink = 0, di_size = 0, di_addrs = (\<lambda>_. 0)\<rparr>\<rparr>)\<rparr>)
    \<lparr>ftable = (\<lambda>_. \<lparr>f_type = FD_NONE, f_ref = 0, f_readable = False, f_writable = False, f_pipe = 0, f_ip = None, f_off = 0, f_major = 0\<rparr>),
     pipes = (\<lambda>_. \<lparr>pi_data = (\<lambda>k. of_nat k), pi_nread = 0xFFFFFFFF, pi_nwrite = 1, pi_readopen = True, pi_writeopen = True\<rparr>),
     stat_pad = []\<rparr>
    \<lparr>mem := mem user_kmem, kernel_end := kernel_end user_kmem, proc := (\<lambda>_. a_proc\<lparr>p_pagetable := 0x87000000\<rparr>)\<rparr>"

lemma pipe_machine_ok:
  "quiet 0 [] pipe_machine" "uvm_inv pipe_machine 0x87000000 {0x87003000} []" "uspace pipe_machine 0x87000000 {0x87003000}"
  "0x87000000 = p_pagetable (proc pipe_machine 0)" "pipe_ok (pipes pipe_machine 5)" "\<not> p_killed (proc pipe_machine 0)"
proof -
  note defs = pipe_machine_def fstate.extend_def ustate.extend_def uart_machine_def boot_machine_def disk_machine_def two_procs_def
    lstate.extend_def bstate.extend_def pstate.extend_def
  show "quiet 0 [] pipe_machine"
    by (simp add: quiet_def awake_def defs mach_ok_def running_def lock_free_def ie_def SSTATUS_SIE_def init_spinlock_def)
  have m: "mem pipe_machine = mem user_kmem" "kernel_end pipe_machine = kernel_end user_kmem" "freelist pipe_machine = 0"
    "mach_ok pipe_machine" "lock_free pipe_machine KmemLock"
    by (simp_all add: defs mach_ok_def lock_free_def ie_def SSTATUS_SIE_def init_spinlock_def)
  show "uvm_inv pipe_machine 0x87000000 {0x87003000} []"
    using user_inv m by (simp add: uvm_inv_def vm_inv_def kmem_inv_def)
  show "uspace pipe_machine 0x87000000 {0x87003000}"
    using user_space vmap_cong(3) [of pipe_machine "0x87000000" user_kmem] m(1) by simp
  show "0x87000000 = p_pagetable (proc pipe_machine 0)" "pipe_ok (pipes pipe_machine 5)" "\<not> p_killed (proc pipe_machine 0)"
    by (simp_all add: pipe_machine_def a_proc_def pipe_ok_def fstate.extend_def)
qed

lemma pipe_machine_writable: "k < 4096 \<Longrightarrow> writable pipe_machine 0x87000000 (of_nat k)"
  using user_writable [of k] by (simp add: writable_def pipe_machine_def)

lemma pipe_machine_queue: "pipe_queue (pipes pipe_machine 5) = [255, 0]"
  by (simp add: pipe_machine_def fstate.extend_def pipe_queue_def ring_list_def upt_rec)

lemma pipe_machine_zero: "ubyte pipe_machine 0x87000000 0 = Some 0"
proof -
  have "upa pipe_machine 0x87000000 0 = 0x87003000"
    using pipe_machine_ok(3) pipe_machine_writable [of 0] by (auto simp: uspace_def)
  moreover have "mem pipe_machine 0x87003000 = 0"
    by (simp add: pipe_machine_def user_kmem_def zero_kmem_def store64_def mem_put_def)
  moreover have "PGROUNDDOWN 0 = 0" by (simp add: PGROUNDDOWN_def)
  ultimately show ?thesis by (simp add: ubyte_def)
qed

theorem pipewrite_appends_witness:
  "achieves (env blk_device 0) (\<lambda>_ _. False) (\<lambda>res t. res = 1 \<and> pipe_queue (pipes t 5) = [255, 0, 0]) (pipewrite 5 0 1 pipe_machine)"
proof -
  have len: "length (pipe_queue (pipes pipe_machine 5)) + length [0 :: u8] \<le> PIPESIZE" by (simp add: pipe_machine_queue)
  have rd: "pi_readopen (pipes pipe_machine 5)" by (simp add: pipe_machine_def fstate.extend_def)
  have bs: "\<forall>x<length [0 :: u8]. ubyte pipe_machine 0x87000000 (0 + of_nat x) = Some ([0] ! x)"
    using pipe_machine_zero by simp
  from achieves_conseq [OF pipewrite_appends [OF pipe_machine_ok(1,2,4,5) len rd pipe_machine_ok(6) bs, of blk_device]]
  show ?thesis by (simp add: pipe_machine_queue)
qed

theorem piperead_takes_witness:
  "achieves (env blk_device 0) (\<lambda>_ _. False)
    (\<lambda>res t. res = 1 \<and> pipe_queue (pipes t 5) = [0] \<and> ubyte t 0x87000000 100 = Some 255) (piperead 5 100 1 pipe_machine)"
proof -
  have w: "\<forall>x<1. writable pipe_machine 0x87000000 (100 + of_nat x)" using pipe_machine_writable [of 100] by simp
  have "[255, 0 :: u8] \<noteq> [] \<or> \<not> pi_writeopen (pipes pipe_machine 5)" "1 = min 1 (length [255, 0 :: u8])" by simp_all
  from achieves_conseq [OF piperead_takes [OF pipe_machine_ok(1-5) pipe_machine_queue [symmetric] this w, of blk_device]]
  show ?thesis by (simp add: Let_def)
qed

theorem pipe_never_overflows_witness:
  "obeys (\<lambda>w t u. proc_rely 0 w t u \<and> pipes_ok u) (\<lambda>w s t. proc_guar 0 w t \<and> pipes_ok t \<and> pipe_guar 5 s t) (\<lambda>_. False)
    (\<lambda>_ s t. runs 0 {} t \<and> pipes_ok t \<and> pipe_guar 5 s t) pipe_machine (pipewrite 5 0 1 pipe_machine)"
proof -
  have "runs 0 {} pipe_machine"
    using quiet_NilD [OF pipe_machine_ok(1)] by (auto simp: runs_def on_def awake_def held_def lock_free_def lk_holding_def mach_ok_def)
  moreover have "pipes_ok pipe_machine"
    using pipe_machine_ok(5) by (simp add: pipes_ok_def pipe_machine_def fstate.extend_def)
  ultimately show ?thesis using pipe_never_overflows [of 0 pipe_machine 5 0 1] by simp
qed

end
