(* ===== verification/Exec.thy ===== *)
theory Exec
  imports Pipe
begin

text \<open>
  The functions of \<open>kernel/proc.c\<close> that use the file system (\<open>userinit\<close>, \<open>fork\<close>, \<open>exit\<close>), the fetching of system
  call arguments of \<open>kernel/syscall.c\<close>, and \<open>kernel/exec.c\<close>.
\<close>

unbundle bit_operations_syntax

text \<open>
  The rest of the kernel's state: the clock, the control and status registers of the harts, the
  interrupt controller (not part of the kernel: \<open>plic_read\<close> is its answer to a read after the accesses so far),
  symbols of the linker and two static variables.
\<close>

datatype csr =
    Mhartid | Mstatus | Mepc | Sip | Sie | Mie | Sepc | Medeleg | Mideleg | Stvec | Stimecmp | Menvcfg
  | Pmpcfg0 | Pmpaddr0 | Scause | Stval | Mcounteren | Time

datatype paccess = PRead u64 | PWrite u64 u32

record tstate = kstate +
  ticks :: u32
  csrs :: "nat \<Rightarrow> csr \<Rightarrow> u64"
  plic_read :: "paccess list \<Rightarrow> u64 \<Rightarrow> u32"
  plic_accs :: "paccess list"
  kernelvec :: u64
  uservec :: u64
  userret :: u64
  usertrap_addr :: u64
  main_addr :: u64
  forkret_first :: bool
  started :: bool

subsection \<open>Creating processes\<close>

definition initcode :: bytes where
  "initcode = [
     0x17, 0x05, 0x00, 0x00, 0x13, 0x05, 0x45, 0x02,
     0x97, 0x05, 0x00, 0x00, 0x93, 0x85, 0x35, 0x02,
     0x93, 0x08, 0x70, 0x00, 0x73, 0x00, 0x00, 0x00,
     0x93, 0x08, 0x20, 0x00, 0x73, 0x00, 0x00, 0x00,
     0xef, 0xf0, 0x9f, 0xff, 0x2f, 0x69, 0x6e, 0x69,
     0x74, 0x00, 0x00, 0x24, 0x00, 0x00, 0x00, 0x00,
     0x00, 0x00, 0x00, 0x00]"

definition userinit :: "(unit, 'z fstate_scheme) kern" where
  "userinit =
     bnd allocproc (\<lambda>q.
     sq (modify (\<lambda>s. s\<lparr>initproc := q\<rparr>)) (
     case q of None \<Rightarrow> fault
     | Some p \<Rightarrow>
       bnd (getp p p_pagetable) (\<lambda>pt.
       sq (uvmfirst pt initcode) (
       sq (upd_proc p (\<lambda>x. x\<lparr>p_sz := PGSIZE\<rparr>)) (
       sq (tf_set p tf_epc 0) (
       sq (tf_set p tf_sp PGSIZE) (
       sq (upd_proc p (\<lambda>x. x\<lparr>p_name := safestrcpy (p_name x) (cstr (str ''initcode'')) 16\<rparr>)) (
       bnd (namei [SLASH]) (\<lambda>cwd.
       sq (upd_proc p (\<lambda>x. x\<lparr>p_cwd := cwd\<rparr>)) (
       sq (upd_proc p (\<lambda>x. x\<lparr>p_state := RUNNABLE\<rparr>)) (
       release (ProcLock p))))))))))))"

definition fork :: "(int, 'z kstate_scheme) kern" where
  "fork =
     bnd curproc (\<lambda>p.
     bnd allocproc (\<lambda>q. case q of None \<Rightarrow> ret (-1)
     | Some np \<Rightarrow>
     bnd (getp p p_pagetable) (\<lambda>pt.
     bnd (getp np p_pagetable) (\<lambda>npt.
     bnd (getp p p_sz) (\<lambda>sz.
     bnd (uvmcopy pt npt sz) (\<lambda>r.
     if r < 0 then sq (freeproc np) (sq (release (ProcLock np)) (ret (-1)))
     else bnd (getp p p_sz) (\<lambda>sz.
     sq (upd_proc np (\<lambda>x. x\<lparr>p_sz := sz\<rparr>)) (
     bnd (getp np p_trapframe) (\<lambda>ntf.
     bnd (getp p p_trapframe) (\<lambda>tf.
     sq (upd_mem (memmove ntf tf tf_size)) (
     sq (tf_set np (tf_a 0) 0) (
     sq (forM [0..<NOFILE] (\<lambda>i.
       bnd (getp p (\<lambda>x. p_ofile x i)) (\<lambda>fo. case fo of None \<Rightarrow> ret ()
       | Some f \<Rightarrow>
         bnd (filedup f) (\<lambda>f.
         upd_proc np (\<lambda>x. x\<lparr>p_ofile := (p_ofile x)(i := Some f)\<rparr>))))) (
     bnd (getp p p_cwd) (\<lambda>cwd.
     bnd (deref cwd) (\<lambda>ip.
     bnd (idup ip) (\<lambda>ip.
     sq (upd_proc np (\<lambda>x. x\<lparr>p_cwd := Some ip\<rparr>)) (
     bnd (getp p p_name) (\<lambda>nm.
     sq (upd_proc np (\<lambda>x. x\<lparr>p_name := safestrcpy (p_name x) nm 16\<rparr>)) (
     bnd (getp np p_pid) (\<lambda>pid.
     sq (release (ProcLock np)) (
     sq (acquire WaitLock) (
     sq (upd_proc np (\<lambda>x. x\<lparr>p_parent := Some p\<rparr>)) (
     sq (release WaitLock) (
     sq (acquire (ProcLock np)) (
     sq (upd_proc np (\<lambda>x. x\<lparr>p_state := RUNNABLE\<rparr>)) (
     sq (release (ProcLock np)) (
     ret pid)))))))))))))))))))))))))))"

definition exit :: "int \<Rightarrow> (unit, 'z kstate_scheme) kern" where
  "exit status =
     bnd curproc (\<lambda>p.
     bnd (gets initproc) (\<lambda>ip.
     if Some p = ip then panic ''init exiting''
     else sq (forM [0..<NOFILE] (\<lambda>fd.
       bnd (getp p (\<lambda>x. p_ofile x fd)) (\<lambda>fo. case fo of None \<Rightarrow> ret ()
       | Some f \<Rightarrow>
         sq (fileclose f)
            (upd_proc p (\<lambda>x. x\<lparr>p_ofile := (p_ofile x)(fd := None)\<rparr>))))) (
     sq begin_op (
     bnd (getp p p_cwd) (\<lambda>cwd.
     bnd (deref cwd) (\<lambda>ip.
     sq (iput ip) (
     sq end_op (
     sq (upd_proc p (\<lambda>x. x\<lparr>p_cwd := None\<rparr>)) (
     sq (acquire WaitLock) (
     sq (reparent p) (
     bnd (getp p p_parent) (\<lambda>par.
     sq (wakeup (map_option ChanProc par)) (
     sq (acquire (ProcLock p)) (
     sq (upd_proc p (\<lambda>x. x\<lparr>p_xstate := status\<rparr>)) (
     sq (upd_proc p (\<lambda>x. x\<lparr>p_state := ZOMBIE\<rparr>)) (
     sq (release WaitLock) (
     sq sched (
     panic ''zombie exit''))))))))))))))))))"

subsection \<open>System call arguments\<close>

definition fetchaddr :: "u64 \<Rightarrow> (int \<times> u64, 'z pstate_scheme) kern" where
  "fetchaddr addr =
     bnd curproc (\<lambda>p.
     bnd (getp p p_sz) (\<lambda>sz.
     if addr \<ge> sz \<or> addr + 8 > sz then ret (-1, 0)
     else bnd (getp p p_pagetable) (\<lambda>pt.
     bnd (copyin pt addr 8) (\<lambda>(r, bs).
     if r \<noteq> 0 then ret (-1, 0) else ret (0, le_word bs)))))"

text \<open>
  The second result is the string: what \<open>copyinstr\<close> stored before the NUL, which is also what \<open>strlen\<close> counts.
\<close>

definition fetchstr :: "u64 \<Rightarrow> int \<Rightarrow> (int \<times> bytes, 'z pstate_scheme) kern" where
  "fetchstr addr mx =
     bnd curproc (\<lambda>p.
     bnd (getp p p_pagetable) (\<lambda>pt.
     bnd (copyinstr pt addr (word_of_int mx)) (\<lambda>(r, bs).
     let s = takeWhile (\<lambda>c. c \<noteq> 0) bs in
     if r < 0 then ret (-1, s) else ret (int (length s), s))))"

definition argraw :: "nat \<Rightarrow> (u64, 'z pstate_scheme) kern" where
  "argraw n =
     bnd curproc (\<lambda>p.
     if n \<le> 5 then tf_get p (tf_a n) else panic ''argraw'')"

definition argint :: "nat \<Rightarrow> (int, 'z pstate_scheme) kern" where
  "argint n = bnd (argraw n) (\<lambda>x. ret (sint (ucast x :: u32)))"

definition argaddr :: "nat \<Rightarrow> (u64, 'z pstate_scheme) kern" where
  "argaddr n = argraw n"

definition argstr :: "nat \<Rightarrow> int \<Rightarrow> (int \<times> bytes, 'z pstate_scheme) kern" where
  "argstr n mx = bnd (argaddr n) (\<lambda>addr. fetchstr addr mx)"

subsection \<open>Executing a program\<close>

abbreviation (input) ELF_MAGIC :: u32 where "ELF_MAGIC \<equiv> 0x464C457F"
abbreviation (input) ELF_PROG_LOAD :: u32 where "ELF_PROG_LOAD \<equiv> 1"
abbreviation (input) USERSTACK :: u64 where "USERSTACK \<equiv> 2"

definition word_at :: "bytes \<Rightarrow> nat \<Rightarrow> nat \<Rightarrow> 'a::len word" where
  "word_at bs off n = le_word (take n (drop off bs))"

abbreviation (input) ELFHDR_SIZE :: nat where "ELFHDR_SIZE \<equiv> 64"
abbreviation (input) PROGHDR_SIZE :: nat where "PROGHDR_SIZE \<equiv> 56"

record elfhdr =
  e_magic :: u32
  e_entry :: u64
  e_phoff :: u64
  e_phnum :: u16

record proghdr =
  ph_type :: u32
  ph_flags :: u32
  ph_off :: u64
  ph_vaddr :: u64
  ph_filesz :: u64
  ph_memsz :: u64

definition get_elfhdr :: "bytes \<Rightarrow> elfhdr" where
  "get_elfhdr bs = \<lparr>e_magic = word_at bs 0 4, e_entry = word_at bs 24 8, e_phoff = word_at bs 32 8, e_phnum = word_at bs 56 2\<rparr>"

definition get_proghdr :: "bytes \<Rightarrow> proghdr" where
  "get_proghdr bs = \<lparr>ph_type = word_at bs 0 4, ph_flags = word_at bs 4 4, ph_off = word_at bs 8 8,
     ph_vaddr = word_at bs 16 8, ph_filesz = word_at bs 32 8, ph_memsz = word_at bs 40 8\<rparr>"

definition flags2perm :: "u32 \<Rightarrow> u64" where
  "flags2perm flags =
     (let perm = if flags AND 0x1 \<noteq> 0 then PTE_X else 0 in
      if flags AND 0x2 \<noteq> 0 then perm OR PTE_W else perm)"

primrec loadseg_loop :: "nat list \<Rightarrow> u64 \<Rightarrow> u64 \<Rightarrow> nat \<Rightarrow> u32 \<Rightarrow> u32 \<Rightarrow> (int, 'z fstate_scheme) kern" where
  "loadseg_loop [] pagetable va ip offset sz = ret 0"
| "loadseg_loop (i # is) pagetable va ip offset sz =
     bnd (walkaddr pagetable (va + of_nat i)) (\<lambda>pa.
     if pa = 0 then panic ''loadseg: address should exist''
     else let n = if sz - of_nat i < 4096 then sz - of_nat i else 4096 in
     bnd (readi ip (MemDst pa) (offset + of_nat i) n) (\<lambda>(r, _).
     if word_of_int r \<noteq> n then ret (-1) else loadseg_loop is pagetable va ip offset sz))"

definition loadseg :: "u64 \<Rightarrow> u64 \<Rightarrow> nat \<Rightarrow> u32 \<Rightarrow> u32 \<Rightarrow> (int, 'z fstate_scheme) kern" where
  "loadseg pagetable va ip offset sz =
     loadseg_loop (map (\<lambda>k. 4096 * k) [0..<(unat sz + 4095) div 4096]) pagetable va ip offset sz"

text \<open>
  The loop over the program headers, with \<open>k\<close> headers to go: whether it succeeded, and the size of the
  address space so far.
\<close>

primrec exec_load :: "nat \<Rightarrow> u32 \<Rightarrow> u64 \<Rightarrow> nat \<Rightarrow> u64 \<Rightarrow> (bool \<times> u64, 'z fstate_scheme) kern" where
  "exec_load 0 off pagetable ip sz = ret (True, sz)"
| "exec_load (Suc k) off pagetable ip sz =
     bnd (readi ip ObjDst off (of_nat PROGHDR_SIZE)) (\<lambda>(r, bs).
     let ph = get_proghdr bs in
     if r \<noteq> int PROGHDR_SIZE then ret (False, sz)
     else if ph_type ph \<noteq> ELF_PROG_LOAD then exec_load k (off + of_nat PROGHDR_SIZE) pagetable ip sz
     else if ph_memsz ph < ph_filesz ph then ret (False, sz)
     else if ph_vaddr ph + ph_memsz ph < ph_vaddr ph then ret (False, sz)
     else if ph_vaddr ph mod PGSIZE \<noteq> 0 then ret (False, sz)
     else bnd (uvmalloc pagetable sz (ph_vaddr ph + ph_memsz ph) (flags2perm (ph_flags ph))) (\<lambda>sz1.
     if sz1 = 0 then ret (False, sz)
     else bnd (loadseg pagetable (ph_vaddr ph) ip (ucast (ph_off ph)) (ucast (ph_filesz ph))) (\<lambda>r.
     if r < 0 then ret (False, sz1)
     else exec_load k (off + of_nat PROGHDR_SIZE) pagetable ip sz1)))"

text \<open>
  Pushing the argument strings: \<open>argv\<close> are the kernel addresses of the strings. The result is the stack
  pointer and the user addresses of the strings.
\<close>

primrec exec_push :: "u64 list \<Rightarrow> u64 \<Rightarrow> u64 \<Rightarrow> u64 \<Rightarrow> u64 list \<Rightarrow> ((u64 \<times> u64 list) option, 'z kmem_scheme) kern" where
  "exec_push [] pagetable stackbase sp ustack = ret (Some (sp, ustack))"
| "exec_push (a # argv) pagetable stackbase sp ustack =
     (if length ustack \<ge> MAXARG then ret None
      else bnd (gets (\<lambda>s k. mem s (a + of_nat k))) (\<lambda>arg.
      case strlen arg of None \<Rightarrow> fault
      | Some len \<Rightarrow>
        let sp = sp - (of_nat len + 1); sp = sp - sp mod 16 in
        if sp < stackbase then ret None
        else bnd (copyout pagetable sp arg (of_nat len + 1)) (\<lambda>r.
        if r < 0 then ret None
        else exec_push argv pagetable stackbase sp (ustack @ [sp]))))"

definition exec_bad :: "u64 \<Rightarrow> u64 \<Rightarrow> nat option \<Rightarrow> (int, 'z fstate_scheme) kern" where
  "exec_bad pagetable sz ip =
     sq (whenM (pagetable \<noteq> 0) (proc_freepagetable pagetable sz)) (
     sq (case ip of None \<Rightarrow> ret () | Some i \<Rightarrow> sq (iunlockput i) end_op) (
     ret (-1)))"

text \<open>The program's name: what follows the last slash of the path.\<close>

definition path_last :: "bytes \<Rightarrow> bytes" where
  "path_last path = rev (takeWhile (\<lambda>c. c \<noteq> SLASH) (rev path))"

definition ustack_chars :: "u64 list \<Rightarrow> chars" where
  "ustack_chars us = (\<lambda>k. concat (map (le_bytes 8) us) ! k)"

text \<open>The part of \<open>exec\<close> after the program has been loaded and the inode released.\<close>

definition exec_image :: "nat \<Rightarrow> bytes \<Rightarrow> u64 list \<Rightarrow> u64 \<Rightarrow> u64 \<Rightarrow> u64 \<Rightarrow> (int, 'z fstate_scheme) kern" where
  "exec_image p path argv pagetable sz entry =
     bnd (getp p p_sz) (\<lambda>oldsz.
     let sz = PGROUNDUP sz in
     bnd (uvmalloc pagetable sz (sz + (USERSTACK + 1) * PGSIZE) PTE_W) (\<lambda>sz1.
     if sz1 = 0 then exec_bad pagetable sz None
     else let sz = sz1 in
     sq (uvmclear pagetable (sz - (USERSTACK + 1) * PGSIZE)) (
     let sp = sz; stackbase = sp - USERSTACK * PGSIZE in
     bnd (exec_push argv pagetable stackbase sp []) (\<lambda>r. case r of None \<Rightarrow> exec_bad pagetable sz None
     | Some (sp, ustack) \<Rightarrow>
     let argc = length ustack; sp = sp - (of_nat argc + 1) * 8; sp = sp - sp mod 16 in
     sq (guardM (argc < MAXARG)) (
     if sp < stackbase then exec_bad pagetable sz None
     else bnd (copyout pagetable sp (ustack_chars (ustack @ [0])) ((of_nat argc + 1) * 8)) (\<lambda>r.
     if r < 0 then exec_bad pagetable sz None
     else sq (tf_set p (tf_a 1) sp) (
     sq (upd_proc p (\<lambda>x. x\<lparr>p_name := safestrcpy (p_name x) (cstr (path_last path)) 16\<rparr>)) (
     bnd (getp p p_pagetable) (\<lambda>oldpagetable.
     sq (upd_proc p (\<lambda>x. x\<lparr>p_pagetable := pagetable\<rparr>)) (
     sq (upd_proc p (\<lambda>x. x\<lparr>p_sz := sz\<rparr>)) (
     sq (tf_set p tf_epc entry) (
     sq (tf_set p tf_sp sp) (
     sq (proc_freepagetable oldpagetable oldsz) (
     ret (int argc)))))))))))))))"

definition exec :: "bytes \<Rightarrow> u64 list \<Rightarrow> (int, 'z fstate_scheme) kern" where
  "exec path argv =
     bnd curproc (\<lambda>p.
     sq begin_op (
     bnd (namei path) (\<lambda>q. case q of None \<Rightarrow> sq end_op (ret (-1))
     | Some ip \<Rightarrow>
     sq (ilock (Some ip)) (
     bnd (readi ip ObjDst 0 (of_nat ELFHDR_SIZE)) (\<lambda>(r, bs).
     let elf = get_elfhdr bs in
     if r \<noteq> int ELFHDR_SIZE then exec_bad 0 0 (Some ip)
     else if e_magic elf \<noteq> ELF_MAGIC then exec_bad 0 0 (Some ip)
     else bnd (proc_pagetable p) (\<lambda>pagetable.
     if pagetable = 0 then exec_bad 0 0 (Some ip)
     else bnd (exec_load (unat (e_phnum elf)) (ucast (e_phoff elf)) pagetable ip 0) (\<lambda>(ok, sz).
     if \<not> ok then exec_bad pagetable sz (Some ip)
     else sq (iunlockput ip) (
     sq end_op (
     bnd curproc (\<lambda>p.
     exec_image p path argv pagetable sz (e_entry elf)))))))))))"

end
