(* ===== verification/Sysfile.thy ===== *)
theory Sysfile
  imports Exec
begin

text \<open>
  The system calls: \<open>kernel/sysfile.c\<close>, \<open>kernel/sysproc.c\<close> and the dispatcher of \<open>kernel/syscall.c\<close>. A result
  of C type \<open>int\<close> is converted to the \<open>uint64\<close> that goes to the user's register.
\<close>

unbundle bit_operations_syntax

definition ret_int :: "int \<Rightarrow> (u64, 's) kern" where
  "ret_int n = ret (word_of_int n)"

subsection \<open>File descriptors\<close>

text \<open>The descriptor and its file, or \<open>None\<close> for the result \<open>-1\<close>.\<close>

definition argfd :: "nat \<Rightarrow> ((nat \<times> nat) option, 'z kstate_scheme) kern" where
  "argfd n =
     bnd (argint n) (\<lambda>fd.
     if fd < 0 \<or> fd \<ge> int NOFILE then ret None
     else bnd curproc (\<lambda>p.
     bnd (getp p (\<lambda>x. p_ofile x (nat fd))) (\<lambda>f. case f of
       None \<Rightarrow> ret None
     | Some f \<Rightarrow> ret (Some (nat fd, f)))))"

definition fdalloc :: "nat \<Rightarrow> (nat option, 'z kstate_scheme) kern" where
  "fdalloc f =
     bnd curproc (\<lambda>p.
     bnd (getp p p_ofile) (\<lambda>of_tab.
     case find (\<lambda>fd. of_tab fd = None) [0..<NOFILE] of
       Some fd \<Rightarrow> sq (upd_proc p (\<lambda>x. x\<lparr>p_ofile := (p_ofile x)(fd := Some f)\<rparr>)) (ret (Some fd))
     | None \<Rightarrow> ret None))"

definition clear_fd :: "nat \<Rightarrow> nat \<Rightarrow> (unit, 'z pstate_scheme) kern" where
  "clear_fd p fd = upd_proc p (\<lambda>x. x\<lparr>p_ofile := (p_ofile x)(fd := None)\<rparr>)"

definition sys_dup :: "(u64, 'z kstate_scheme) kern" where
  "sys_dup =
     bnd (argfd 0) (\<lambda>r. case r of None \<Rightarrow> ret_int (-1)
     | Some (_, f) \<Rightarrow>
     bnd (fdalloc f) (\<lambda>r. case r of None \<Rightarrow> ret_int (-1)
     | Some fd \<Rightarrow> sq (filedup f) (ret_int (int fd))))"

definition sys_read :: "(u64, 'z kstate_scheme) kern" where
  "sys_read =
     bnd (argaddr 1) (\<lambda>p.
     bnd (argint 2) (\<lambda>n.
     bnd (argfd 0) (\<lambda>r. case r of None \<Rightarrow> ret_int (-1)
     | Some (_, f) \<Rightarrow> bnd (fileread f p n) ret_int)))"

definition sys_write :: "(u64, 'z kstate_scheme) kern" where
  "sys_write =
     bnd (argaddr 1) (\<lambda>p.
     bnd (argint 2) (\<lambda>n.
     bnd (argfd 0) (\<lambda>r. case r of None \<Rightarrow> ret_int (-1)
     | Some (_, f) \<Rightarrow> bnd (filewrite f p n) ret_int)))"

definition sys_close :: "(u64, 'z kstate_scheme) kern" where
  "sys_close =
     bnd (argfd 0) (\<lambda>r. case r of None \<Rightarrow> ret_int (-1)
     | Some (fd, f) \<Rightarrow>
     bnd curproc (\<lambda>p.
     sq (clear_fd p fd) (
     sq (fileclose f) (
     ret_int 0))))"

definition sys_fstat :: "(u64, 'z kstate_scheme) kern" where
  "sys_fstat =
     bnd (argaddr 1) (\<lambda>st.
     bnd (argfd 0) (\<lambda>r. case r of None \<Rightarrow> ret_int (-1)
     | Some (_, f) \<Rightarrow> bnd (filestat f st) ret_int))"

subsection \<open>Links\<close>

definition add_nlink :: "nat \<Rightarrow> u16 \<Rightarrow> (unit, 'z fstate_scheme) kern" where
  "add_nlink ip k = upd_dinode ip (\<lambda>d. d\<lparr>di_nlink := di_nlink d + k\<rparr>)"

definition link_bad :: "nat \<Rightarrow> (u64, 'z fstate_scheme) kern" where
  "link_bad ip =
     sq (ilock (Some ip)) (
     sq (add_nlink ip (-1)) (
     sq (iupdate ip) (
     sq (iunlockput ip) (
     sq end_op (
     ret_int (-1))))))"

definition sys_link :: "(u64, 'z fstate_scheme) kern" where
  "sys_link =
     bnd (argstr 0 (int MAXPATH)) (\<lambda>(r, old).
     if r < 0 then ret_int (-1)
     else bnd (argstr 1 (int MAXPATH)) (\<lambda>(r, new).
     if r < 0 then ret_int (-1)
     else sq begin_op (
     bnd (namei old) (\<lambda>q. case q of None \<Rightarrow> sq end_op (ret_int (-1))
     | Some ip \<Rightarrow>
     sq (ilock (Some ip)) (
     bnd (getdi ip di_type) (\<lambda>ty.
     if ty = T_DIR then sq (iunlockput ip) (sq end_op (ret_int (-1)))
     else sq (add_nlink ip 1) (
     sq (iupdate ip) (
     sq (iunlock (Some ip)) (
     bnd (nameiparent new (\<lambda>_. 0)) (\<lambda>(q, name). case q of None \<Rightarrow> link_bad ip
     | Some dp \<Rightarrow>
     sq (ilock (Some dp)) (
     bnd (geti dp i_dev) (\<lambda>ddev.
     bnd (geti ip i_dev) (\<lambda>dev.
     bnd (geti ip i_inum) (\<lambda>inum.
     bnd (if ddev \<noteq> dev then ret (-1) else dirlink dp name inum) (\<lambda>r.
     if r < 0 then sq (iunlockput dp) (link_bad ip)
     else sq (iunlockput dp) (
     sq (iput ip) (
     sq end_op (
     ret_int 0))))))))))))))))))"

primrec isdirempty_loop :: "nat \<Rightarrow> nat \<Rightarrow> u32 \<Rightarrow> (bool, 'z fstate_scheme) kern" where
  "isdirempty_loop 0 dp off = fault"
| "isdirempty_loop (Suc k) dp off =
     bnd (getdi dp di_size) (\<lambda>size.
     if \<not> off < size then ret True
     else bnd (readi dp ObjDst off (of_nat DIRENT_SIZE)) (\<lambda>(r, de).
     if r \<noteq> int DIRENT_SIZE then panic ''isdirempty: readi''
     else if de_inum de \<noteq> 0 then ret False
     else isdirempty_loop k dp (off + of_nat DIRENT_SIZE)))"

definition isdirempty :: "nat \<Rightarrow> (bool, 'z fstate_scheme) kern" where
  "isdirempty dp = isdirempty_loop MAXDIRENTS dp (2 * of_nat DIRENT_SIZE)"

definition unlink_bad :: "nat \<Rightarrow> (u64, 'z fstate_scheme) kern" where
  "unlink_bad dp = sq (iunlockput dp) (sq end_op (ret_int (-1)))"

definition sys_unlink :: "(u64, 'z fstate_scheme) kern" where
  "sys_unlink =
     bnd (argstr 0 (int MAXPATH)) (\<lambda>(r, path).
     if r < 0 then ret_int (-1)
     else sq begin_op (
     bnd (nameiparent path (\<lambda>_. 0)) (\<lambda>(q, name). case q of None \<Rightarrow> sq end_op (ret_int (-1))
     | Some dp \<Rightarrow>
     sq (ilock (Some dp)) (
     if namecmp name (cstr (str ''.'')) = 0 \<or> namecmp name (cstr (str ''..'')) = 0 then unlink_bad dp
     else bnd (dirlookup dp name) (\<lambda>q. case q of None \<Rightarrow> unlink_bad dp
     | Some (ip, off) \<Rightarrow>
     sq (ilock (Some ip)) (
     bnd (getdi ip di_nlink) (\<lambda>nl.
     if sint nl < 1 then panic ''unlink: nlink < 1''
     else bnd (getdi ip di_type) (\<lambda>ty.
     bnd (if ty = T_DIR then isdirempty ip else ret True) (\<lambda>e.
     if \<not> e then sq (iunlockput ip) (unlink_bad dp)
     else bnd (writei dp (ObjSrc (\<lambda>_. 0)) off (of_nat DIRENT_SIZE)) (\<lambda>r.
     if r \<noteq> int DIRENT_SIZE then panic ''unlink: writei''
     else bnd (getdi ip di_type) (\<lambda>ty.
     sq (whenM (ty = T_DIR) (
       sq (add_nlink dp (-1))
          (iupdate dp))) (
     sq (iunlockput dp) (
     sq (add_nlink ip (-1)) (
     sq (iupdate ip) (
     sq (iunlockput ip) (
     sq end_op (
     ret_int 0)))))))))))))))))"

subsection \<open>Creating and opening files\<close>

definition create_fail :: "nat \<Rightarrow> nat \<Rightarrow> (nat option, 'z fstate_scheme) kern" where
  "create_fail ip dp =
     sq (upd_dinode ip (\<lambda>d. d\<lparr>di_nlink := 0\<rparr>)) (
     sq (iupdate ip) (
     sq (iunlockput ip) (
     sq (iunlockput dp) (
     ret None))))"

text \<open>The part of \<open>create\<close> after \<open>ialloc\<close> has succeeded.\<close>

definition create_new :: "nat \<Rightarrow> nat \<Rightarrow> chars \<Rightarrow> u16 \<Rightarrow> u16 \<Rightarrow> u16 \<Rightarrow> (nat option, 'z fstate_scheme) kern" where
  "create_new ip dp name type mj mn =
     sq (ilock (Some ip)) (
     sq (upd_dinode ip (\<lambda>d. d\<lparr>di_major := mj\<rparr>)) (
     sq (upd_dinode ip (\<lambda>d. d\<lparr>di_minor := mn\<rparr>)) (
     sq (upd_dinode ip (\<lambda>d. d\<lparr>di_nlink := 1\<rparr>)) (
     sq (iupdate ip) (
     bnd (geti ip i_inum) (\<lambda>inum.
     bnd (geti dp i_inum) (\<lambda>dinum.
     bnd (if type = T_DIR then
            bnd (dirlink ip (cstr (str ''.'')) inum) (\<lambda>r.
            if r < 0 then ret False
            else bnd (dirlink ip (cstr (str ''..'')) dinum) (\<lambda>r. ret (\<not> r < 0)))
          else ret True) (\<lambda>ok.
     if \<not> ok then create_fail ip dp
     else bnd (dirlink dp name inum) (\<lambda>r.
     if r < 0 then create_fail ip dp
     else sq (whenM (type = T_DIR) (
       sq (add_nlink dp 1)
          (iupdate dp))) (
     sq (iunlockput dp) (
     ret (Some ip))))))))))))"

definition create :: "bytes \<Rightarrow> u16 \<Rightarrow> u16 \<Rightarrow> u16 \<Rightarrow> (nat option, 'z fstate_scheme) kern" where
  "create path type mj mn =
     bnd (nameiparent path (\<lambda>_. 0)) (\<lambda>(q, name). case q of None \<Rightarrow> ret None
     | Some dp \<Rightarrow>
     sq (ilock (Some dp)) (
     bnd (dirlookup dp name) (\<lambda>q. case q of
       Some (ip, _) \<Rightarrow>
         sq (iunlockput dp) (
         sq (ilock (Some ip)) (
         bnd (getdi ip di_type) (\<lambda>ty.
         if type = T_FILE \<and> (ty = T_FILE \<or> ty = T_DEVICE) then ret (Some ip)
         else sq (iunlockput ip) (ret None))))
     | None \<Rightarrow>
         bnd (geti dp i_dev) (\<lambda>dev.
         bnd (ialloc dev type) (\<lambda>q. case q of
           None \<Rightarrow> sq (iunlockput dp) (ret None)
         | Some ip \<Rightarrow> create_new ip dp name type mj mn)))))"

abbreviation (input) O_RDONLY :: u32 where "O_RDONLY \<equiv> 0x000"
abbreviation (input) O_WRONLY :: u32 where "O_WRONLY \<equiv> 0x001"
abbreviation (input) O_RDWR :: u32 where "O_RDWR \<equiv> 0x002"
abbreviation (input) O_CREATE :: u32 where "O_CREATE \<equiv> 0x200"
abbreviation (input) O_TRUNC :: u32 where "O_TRUNC \<equiv> 0x400"

text \<open>The first half of \<open>sys_open\<close>: the locked inode, or \<open>None\<close> after \<open>end_op\<close>.\<close>

definition open_inode :: "bytes \<Rightarrow> u32 \<Rightarrow> (nat option, 'z fstate_scheme) kern" where
  "open_inode path omode =
     (if omode AND O_CREATE \<noteq> 0 then
        bnd (create path T_FILE 0 0) (\<lambda>q. case q of
          None \<Rightarrow> sq end_op (ret None)
        | Some ip \<Rightarrow> ret (Some ip))
      else
        bnd (namei path) (\<lambda>q. case q of
          None \<Rightarrow> sq end_op (ret None)
        | Some ip \<Rightarrow>
          sq (ilock (Some ip)) (
          bnd (getdi ip di_type) (\<lambda>ty.
          if ty = T_DIR \<and> omode \<noteq> O_RDONLY then sq (iunlockput ip) (sq end_op (ret None))
          else ret (Some ip)))))"

definition open_bad :: "nat \<Rightarrow> (u64, 'z fstate_scheme) kern" where
  "open_bad ip = sq (iunlockput ip) (sq end_op (ret_int (-1)))"

definition sys_open :: "(u64, 'z kstate_scheme) kern" where
  "sys_open =
     bnd (argint 1) (\<lambda>om.
     let omode = word_of_int om :: u32 in
     bnd (argstr 0 (int MAXPATH)) (\<lambda>(n, path).
     if n < 0 then ret_int (-1)
     else sq begin_op (
     bnd (open_inode path omode) (\<lambda>q. case q of None \<Rightarrow> ret_int (-1)
     | Some ip \<Rightarrow>
     bnd (getdi ip (\<lambda>d. d)) (\<lambda>d.
     if di_type d = T_DEVICE \<and> (sint (di_major d) < 0 \<or> sint (di_major d) \<ge> int NDEV) then open_bad ip
     else bnd filealloc (\<lambda>q. case q of None \<Rightarrow> open_bad ip
     | Some f \<Rightarrow>
     bnd (fdalloc f) (\<lambda>q. case q of None \<Rightarrow> sq (fileclose f) (open_bad ip)
     | Some fd \<Rightarrow>
     bnd (getdi ip (\<lambda>d. d)) (\<lambda>d.
     sq (if di_type d = T_DEVICE
         then upd_file f (\<lambda>x. x\<lparr>f_type := FD_DEVICE, f_major := di_major d\<rparr>)
         else upd_file f (\<lambda>x. x\<lparr>f_type := FD_INODE, f_off := 0\<rparr>)) (
     sq (upd_file f (\<lambda>x. x\<lparr>f_ip := Some ip\<rparr>)) (
     sq (upd_file f (\<lambda>x. x\<lparr>f_readable := (omode AND O_WRONLY = 0)\<rparr>)) (
     sq (upd_file f (\<lambda>x. x\<lparr>f_writable := (omode AND O_WRONLY \<noteq> 0 \<or> omode AND O_RDWR \<noteq> 0)\<rparr>)) (
     sq (whenM (omode AND O_TRUNC \<noteq> 0 \<and> di_type d = T_FILE) (itrunc ip)) (
     sq (iunlock (Some ip)) (
     sq end_op (
     ret_int (int fd))))))))))))))))"

definition sys_mkdir :: "(u64, 'z fstate_scheme) kern" where
  "sys_mkdir =
     sq begin_op (
     bnd (argstr 0 (int MAXPATH)) (\<lambda>(r, path).
     bnd (if r < 0 then ret None else create path T_DIR 0 0) (\<lambda>q. case q of
       None \<Rightarrow> sq end_op (ret_int (-1))
     | Some ip \<Rightarrow>
       sq (iunlockput ip) (
       sq end_op (
       ret_int 0)))))"

definition sys_mknod :: "(u64, 'z fstate_scheme) kern" where
  "sys_mknod =
     sq begin_op (
     bnd (argint 1) (\<lambda>mj.
     bnd (argint 2) (\<lambda>mn.
     bnd (argstr 0 (int MAXPATH)) (\<lambda>(r, path).
     bnd (if r < 0 then ret None else create path T_DEVICE (word_of_int mj) (word_of_int mn)) (\<lambda>q. case q of
       None \<Rightarrow> sq end_op (ret_int (-1))
     | Some ip \<Rightarrow>
       sq (iunlockput ip) (
       sq end_op (
       ret_int 0)))))))"

definition sys_chdir :: "(u64, 'z fstate_scheme) kern" where
  "sys_chdir =
     bnd curproc (\<lambda>p.
     sq begin_op (
     bnd (argstr 0 (int MAXPATH)) (\<lambda>(r, path).
     bnd (if r < 0 then ret None else namei path) (\<lambda>q. case q of
       None \<Rightarrow> sq end_op (ret_int (-1))
     | Some ip \<Rightarrow>
       sq (ilock (Some ip)) (
       bnd (getdi ip di_type) (\<lambda>ty.
       if ty \<noteq> T_DIR then sq (iunlockput ip) (sq end_op (ret_int (-1)))
       else sq (iunlock (Some ip)) (
       bnd (getp p p_cwd) (\<lambda>cwd.
       bnd (deref cwd) (\<lambda>old.
       sq (iput old) (
       sq end_op (
       sq (upd_proc p (\<lambda>x. x\<lparr>p_cwd := Some ip\<rparr>)) (
       ret_int 0))))))))))))"

text \<open>
  The loop of \<open>sys_exec\<close> from argument \<open>i\<close> on, with \<open>k\<close> elements of \<open>argv\<close> left: whether it succeeded, and the pages
  with the arguments fetched so far.
\<close>

primrec exec_args :: "nat \<Rightarrow> nat \<Rightarrow> u64 \<Rightarrow> u64 list \<Rightarrow> (bool \<times> u64 list, 'z pstate_scheme) kern" where
  "exec_args 0 i uargv argv = ret (False, argv)"
| "exec_args (Suc k) i uargv argv =
     bnd (fetchaddr (uargv + 8 * of_nat i)) (\<lambda>(r, uarg).
     if r < 0 then ret (False, argv)
     else if uarg = 0 then ret (True, argv)
     else bnd kalloc (\<lambda>pg.
     if pg = 0 then ret (False, argv)
     else bnd curproc (\<lambda>p.
     bnd (getp p p_pagetable) (\<lambda>pt.
     bnd (copyinstr pt uarg PGSIZE) (\<lambda>(r, bs).
     sq (upd_mem (mem_put pg bs)) (
     if r < 0 then ret (False, argv @ [pg])
     else exec_args k (Suc i) uargv (argv @ [pg])))))))"

definition sys_exec :: "(u64, 'z fstate_scheme) kern" where
  "sys_exec =
     bnd (argaddr 1) (\<lambda>uargv.
     bnd (argstr 0 (int MAXPATH)) (\<lambda>(r, path).
     if r < 0 then ret_int (-1)
     else bnd (exec_args MAXARG 0 uargv []) (\<lambda>(ok, argv).
     bnd (if ok then exec path argv else ret (-1)) (\<lambda>r.
     sq (forM argv kfree) (
     ret_int r)))))"

definition int_chars :: "int \<Rightarrow> chars" where
  "int_chars v = (\<lambda>k. le_bytes 4 (word_of_int v :: u32) ! k)"

definition pipe_bad :: "nat \<Rightarrow> nat \<Rightarrow> (u64, 'z kstate_scheme) kern" where
  "pipe_bad rfile wfile = sq (fileclose rfile) (sq (fileclose wfile) (ret_int (-1)))"

definition sys_pipe :: "(u64, 'z kstate_scheme) kern" where
  "sys_pipe =
     bnd curproc (\<lambda>p.
     bnd (argaddr 0) (\<lambda>fdarray.
     bnd pipealloc (\<lambda>q. case q of None \<Rightarrow> ret_int (-1)
     | Some (rfile, wfile) \<Rightarrow>
     bnd (fdalloc rfile) (\<lambda>q. case q of None \<Rightarrow> pipe_bad rfile wfile
     | Some fd0 \<Rightarrow>
     bnd (fdalloc wfile) (\<lambda>q. case q of None \<Rightarrow> sq (clear_fd p fd0) (pipe_bad rfile wfile)
     | Some fd1 \<Rightarrow>
     bnd (getp p p_pagetable) (\<lambda>pt.
     bnd (copyout pt fdarray (int_chars (int fd0)) 4) (\<lambda>r.
     bnd (if r < 0 then ret r else copyout pt (fdarray + 4) (int_chars (int fd1)) 4) (\<lambda>r.
     if r < 0 then sq (clear_fd p fd0) (sq (clear_fd p fd1) (pipe_bad rfile wfile))
     else ret_int 0))))))))"

subsection \<open>Process system calls\<close>

definition sys_exit :: "(u64, 'z kstate_scheme) kern" where
  "sys_exit = bnd (argint 0) (\<lambda>n. sq (exit n) (ret_int 0))"

definition sys_getpid :: "(u64, 'z pstate_scheme) kern" where
  "sys_getpid = bnd curproc (\<lambda>p. bnd (getp p p_pid) ret_int)"

definition sys_fork :: "(u64, 'z kstate_scheme) kern" where
  "sys_fork = bnd fork ret_int"

definition sys_wait :: "(u64, 'z pstate_scheme) kern" where
  "sys_wait = bnd (argaddr 0) (\<lambda>p. bnd (wait p) ret_int)"

definition sys_sbrk :: "(u64, 'z pstate_scheme) kern" where
  "sys_sbrk =
     bnd (argint 0) (\<lambda>n.
     bnd curproc (\<lambda>p.
     bnd (getp p p_sz) (\<lambda>addr.
     bnd (growproc n) (\<lambda>r.
     if r < 0 then ret_int (-1) else ret addr))))"

definition sys_sleep :: "(u64, 'z tstate_scheme) kern" where
  "sys_sleep =
     bnd (argint 0) (\<lambda>n.
     let n = if n < 0 then 0 else n in
     sq (acquire TicksLock) (
     bnd (gets ticks) (\<lambda>ticks0.
     again (
       bnd (gets ticks) (\<lambda>t.
       if \<not> t - ticks0 < word_of_int n then sq (release TicksLock) (ret (Inl 0))
       else bnd curproc (\<lambda>p.
       bnd (killed p) (\<lambda>k.
       if k then sq (release TicksLock) (ret (Inl (-1)))
       else sq (sleep (Some ChanTicks) TicksLock) (ret (Inr ())))))))))"

definition sys_kill :: "(u64, 'z pstate_scheme) kern" where
  "sys_kill = bnd (argint 0) (\<lambda>pid. bnd (kill pid) ret_int)"

definition sys_uptime :: "(u64, 'z tstate_scheme) kern" where
  "sys_uptime =
     sq (acquire TicksLock) (
     bnd (gets ticks) (\<lambda>xticks.
     sq (release TicksLock) (
     ret (ucast xticks))))"

subsection \<open>The dispatcher\<close>

definition syscalls :: "int \<Rightarrow> (u64, 'z tstate_scheme) kern option" where
  "syscalls num =
     (if 0 < num \<and> num < 22 then Some (
        [sys_fork, sys_exit, sys_wait, sys_pipe, sys_read, sys_kill, sys_exec, sys_fstat, sys_chdir, sys_dup,
         sys_getpid, sys_sbrk, sys_sleep, sys_uptime, sys_open, sys_write, sys_mknod, sys_unlink, sys_link,
         sys_mkdir, sys_close] ! (nat num - 1))
      else None)"

definition syscall :: "(unit, 'z tstate_scheme) kern" where
  "syscall =
     bnd curproc (\<lambda>p.
     bnd (tf_get p (tf_a 7)) (\<lambda>a7.
     let num = sint (ucast a7 :: u32) in
     case syscalls num of
       Some f \<Rightarrow> bnd f (tf_set p (tf_a 0))
     | None \<Rightarrow>
       bnd (getp p p_pid) (\<lambda>pid.
       bnd (getp p p_name) (\<lambda>nm.
       sq (guardM (\<exists>k\<in>set [0..<16]. nm k = 0)) (
       sq (printf (str ''%d %s: unknown sys call %d'' @ [10])
            [AInt (word_of_int pid), AStr (Some (cstr_upto 16 nm)), AInt (word_of_int num)]) (
       tf_set p (tf_a 0) (-1)))))))"

end
