(* ===== verification/Trap.thy ===== *)
theory Trap
  imports Sysfile
begin

text \<open>
  \<open>kernel/plic.c\<close>, \<open>kernel/trap.c\<close>, \<open>kernel/start.c\<close>, \<open>kernel/main.c\<close> and \<open>forkret\<close> of \<open>kernel/proc.c\<close>, with the
  register accessors of \<open>kernel/riscv.h\<close> that they use. A function that leaves the kernel through \<open>userret\<close>
  returns the argument that it passes to it.
\<close>

unbundle bit_operations_syntax

subsection \<open>Control and status registers\<close>

definition r_csr :: "csr \<Rightarrow> (u64, 'z tstate_scheme) kern" where
  "r_csr c = gets (\<lambda>s. csrs s (tp s) c)"

definition w_csr :: "csr \<Rightarrow> u64 \<Rightarrow> (unit, 'z tstate_scheme) kern" where
  "w_csr c x = modify (\<lambda>s. s\<lparr>csrs := (csrs s)(tp s := (csrs s (tp s))(c := x))\<rparr>)"

definition r_mhartid :: "(u64, 'z tstate_scheme) kern" where "r_mhartid = r_csr Mhartid"
definition r_mstatus :: "(u64, 'z tstate_scheme) kern" where "r_mstatus = r_csr Mstatus"
definition w_mstatus :: "u64 \<Rightarrow> (unit, 'z tstate_scheme) kern" where "w_mstatus = w_csr Mstatus"
definition w_mepc :: "u64 \<Rightarrow> (unit, 'z tstate_scheme) kern" where "w_mepc = w_csr Mepc"
definition r_sie :: "(u64, 'z tstate_scheme) kern" where "r_sie = r_csr Sie"
definition w_sie :: "u64 \<Rightarrow> (unit, 'z tstate_scheme) kern" where "w_sie = w_csr Sie"
definition r_mie :: "(u64, 'z tstate_scheme) kern" where "r_mie = r_csr Mie"
definition w_mie :: "u64 \<Rightarrow> (unit, 'z tstate_scheme) kern" where "w_mie = w_csr Mie"
definition w_sepc :: "u64 \<Rightarrow> (unit, 'z tstate_scheme) kern" where "w_sepc = w_csr Sepc"
definition r_sepc :: "(u64, 'z tstate_scheme) kern" where "r_sepc = r_csr Sepc"
definition w_medeleg :: "u64 \<Rightarrow> (unit, 'z tstate_scheme) kern" where "w_medeleg = w_csr Medeleg"
definition w_mideleg :: "u64 \<Rightarrow> (unit, 'z tstate_scheme) kern" where "w_mideleg = w_csr Mideleg"
definition w_stvec :: "u64 \<Rightarrow> (unit, 'z tstate_scheme) kern" where "w_stvec = w_csr Stvec"
definition w_stimecmp :: "u64 \<Rightarrow> (unit, 'z tstate_scheme) kern" where "w_stimecmp = w_csr Stimecmp"
definition r_menvcfg :: "(u64, 'z tstate_scheme) kern" where "r_menvcfg = r_csr Menvcfg"
definition w_menvcfg :: "u64 \<Rightarrow> (unit, 'z tstate_scheme) kern" where "w_menvcfg = w_csr Menvcfg"
definition w_pmpcfg0 :: "u64 \<Rightarrow> (unit, 'z tstate_scheme) kern" where "w_pmpcfg0 = w_csr Pmpcfg0"
definition w_pmpaddr0 :: "u64 \<Rightarrow> (unit, 'z tstate_scheme) kern" where "w_pmpaddr0 = w_csr Pmpaddr0"
definition r_scause :: "(u64, 'z tstate_scheme) kern" where "r_scause = r_csr Scause"
definition r_stval :: "(u64, 'z tstate_scheme) kern" where "r_stval = r_csr Stval"
definition w_mcounteren :: "u64 \<Rightarrow> (unit, 'z tstate_scheme) kern" where "w_mcounteren = w_csr Mcounteren"
definition r_mcounteren :: "(u64, 'z tstate_scheme) kern" where "r_mcounteren = r_csr Mcounteren"
definition r_time :: "(u64, 'z tstate_scheme) kern" where "r_time = r_csr Time"

definition w_satp :: "u64 \<Rightarrow> (unit, 'z vmstate_scheme) kern" where
  "w_satp x = modify (\<lambda>s. s\<lparr>satp := (satp s)(tp s := x)\<rparr>)"

definition r_satp :: "(u64, 'z vmstate_scheme) kern" where
  "r_satp = gets (\<lambda>s. satp s (tp s))"

definition r_tp :: "(u64, 'z mach_scheme) kern" where
  "r_tp = gets (\<lambda>s. of_nat (tp s))"

definition w_tp :: "u64 \<Rightarrow> (unit, 'z mach_scheme) kern" where
  "w_tp x = modify (\<lambda>s. s\<lparr>tp := unat x\<rparr>)"

definition MSTATUS_MPP_MASK :: u64 where "MSTATUS_MPP_MASK = push_bit 11 3"
definition MSTATUS_MPP_S :: u64 where "MSTATUS_MPP_S = push_bit 11 1"
definition SIE_SEIE :: u64 where "SIE_SEIE = push_bit 9 1"
definition SIE_STIE :: u64 where "SIE_STIE = push_bit 5 1"
definition SIE_SSIE :: u64 where "SIE_SSIE = push_bit 1 1"
definition MIE_STIE :: u64 where "MIE_STIE = push_bit 5 1"

subsection \<open>The interrupt controller\<close>

definition UART0_IRQ :: nat where "UART0_IRQ = 10"
definition VIRTIO0_IRQ :: nat where "VIRTIO0_IRQ = 1"

definition PLIC_SENABLE :: "nat \<Rightarrow> u64" where
  "PLIC_SENABLE hart = PLIC + 0x2080 + of_nat hart * 0x100"

definition PLIC_SPRIORITY :: "nat \<Rightarrow> u64" where
  "PLIC_SPRIORITY hart = PLIC + 0x201000 + of_nat hart * 0x2000"

definition PLIC_SCLAIM :: "nat \<Rightarrow> u64" where
  "PLIC_SCLAIM hart = PLIC + 0x201004 + of_nat hart * 0x2000"

definition plic_r :: "u64 \<Rightarrow> (u32, 'z tstate_scheme) kern" where
  "plic_r a =
     bnd (gets (\<lambda>s. plic_read s (plic_accs s) a)) (\<lambda>v.
     sq (modify (\<lambda>s. s\<lparr>plic_accs := plic_accs s @ [PRead a]\<rparr>)) (ret v))"

definition plic_w :: "u64 \<Rightarrow> u32 \<Rightarrow> (unit, 'z tstate_scheme) kern" where
  "plic_w a v = modify (\<lambda>s. s\<lparr>plic_accs := plic_accs s @ [PWrite a v]\<rparr>)"

definition plicinit :: "(unit, 'z tstate_scheme) kern" where
  "plicinit =
     sq (plic_w (PLIC + of_nat UART0_IRQ * 4) 1)
        (plic_w (PLIC + of_nat VIRTIO0_IRQ * 4) 1)"

definition plicinithart :: "(unit, 'z tstate_scheme) kern" where
  "plicinithart =
     bnd cpuid (\<lambda>hart.
     sq (plic_w (PLIC_SENABLE hart) (push_bit UART0_IRQ 1 OR push_bit VIRTIO0_IRQ 1))
        (plic_w (PLIC_SPRIORITY hart) 0))"

definition plic_claim :: "(int, 'z tstate_scheme) kern" where
  "plic_claim =
     bnd cpuid (\<lambda>hart.
     bnd (plic_r (PLIC_SCLAIM hart)) (\<lambda>irq.
     ret (sint irq)))"

definition plic_complete :: "int \<Rightarrow> (unit, 'z tstate_scheme) kern" where
  "plic_complete irq =
     bnd cpuid (\<lambda>hart.
     plic_w (PLIC_SCLAIM hart) (word_of_int irq))"

subsection \<open>Traps\<close>

definition trapinit :: "(unit, 'z tstate_scheme) kern" where
  "trapinit = initlock TicksLock ''time''"

definition trapinithart :: "(unit, 'z tstate_scheme) kern" where
  "trapinithart = bnd (gets kernelvec) w_stvec"

definition clockintr :: "(unit, 'z tstate_scheme) kern" where
  "clockintr =
     bnd cpuid (\<lambda>c.
     sq (whenM (c = 0) (
       sq (acquire TicksLock) (
       sq (modify (\<lambda>s. s\<lparr>ticks := ticks s + 1\<rparr>)) (
       sq (wakeup (Some ChanTicks)) (
       release TicksLock))))) (
     bnd r_time (\<lambda>t. w_stimecmp (t + 1000000))))"

definition devintr :: "(nat, 'z tstate_scheme) kern" where
  "devintr =
     bnd r_scause (\<lambda>scause.
     if scause = 0x8000000000000009 then
       bnd plic_claim (\<lambda>irq.
       sq (if irq = int UART0_IRQ then uartintr
           else if irq = int VIRTIO0_IRQ then virtio_disk_intr
           else whenM (irq \<noteq> 0) (
             sq (printf (str ''unexpected interrupt irq=%d'' @ [10]) [AInt (word_of_int irq)]) (ret ()))) (
       sq (whenM (irq \<noteq> 0) (plic_complete irq)) (
       ret 1)))
     else if scause = 0x8000000000000005 then sq clockintr (ret 2)
     else ret 0)"

definition usertrapret :: "(u64, 'z tstate_scheme) kern" where
  "usertrapret =
     bnd curproc (\<lambda>p.
     sq intr_off (
     bnd (gets (\<lambda>s. TRAMPOLINE + (uservec s - trampoline s))) (\<lambda>tu.
     sq (w_stvec tu) (
     bnd r_satp (\<lambda>sat.
     sq (tf_set p tf_kernel_satp sat) (
     bnd (getp p p_kstack) (\<lambda>ks.
     sq (tf_set p tf_kernel_sp (ks + PGSIZE)) (
     bnd (gets usertrap_addr) (\<lambda>ut.
     sq (tf_set p tf_kernel_trap ut) (
     bnd r_tp (\<lambda>hart.
     sq (tf_set p tf_kernel_hartid hart) (
     bnd r_sstatus (\<lambda>x.
     sq (w_sstatus ((x AND NOT SSTATUS_SPP) OR SSTATUS_SPIE)) (
     bnd (tf_get p tf_epc) (\<lambda>epc.
     sq (w_sepc epc) (
     bnd (getp p p_pagetable) (\<lambda>pt.
     ret (MAKE_SATP pt))))))))))))))))))"

definition usertrap :: "(u64, 'z tstate_scheme) kern" where
  "usertrap =
     bnd r_sstatus (\<lambda>x.
     if x AND SSTATUS_SPP \<noteq> 0 then panic ''usertrap: not from user mode''
     else bnd (gets kernelvec) (\<lambda>kv.
     sq (w_stvec kv) (
     bnd curproc (\<lambda>p.
     bnd r_sepc (\<lambda>pc.
     sq (tf_set p tf_epc pc) (
     bnd r_scause (\<lambda>scause.
     bnd (if scause = 8 then
            bnd (killed p) (\<lambda>k.
            sq (whenM k (exit (-1))) (
            bnd (tf_get p tf_epc) (\<lambda>pc.
            sq (tf_set p tf_epc (pc + 4)) (
            sq intr_on (
            sq syscall (
            ret 0))))))
          else bnd devintr (\<lambda>which_dev.
            if which_dev \<noteq> 0 then ret which_dev
            else bnd (getp p p_pid) (\<lambda>pid.
            bnd r_sepc (\<lambda>sepc.
            bnd r_stval (\<lambda>stval.
            sq (printf (str ''usertrap(): unexpected scause 0x%lx pid=%d'' @ [10]) [ALong scause, AInt (word_of_int pid)]) (
            sq (printf (str ''            sepc=0x%lx stval=0x%lx'' @ [10]) [ALong sepc, ALong stval]) (
            sq (setkilled p) (
            ret 0)))))))) (\<lambda>which_dev.
     bnd (killed p) (\<lambda>k.
     sq (whenM k (exit (-1))) (
     sq (whenM (which_dev = 2) yield) (
     usertrapret)))))))))))"

definition kerneltrap :: "(unit, 'z tstate_scheme) kern" where
  "kerneltrap =
     bnd r_sepc (\<lambda>sepc.
     bnd r_sstatus (\<lambda>sst.
     bnd r_scause (\<lambda>scause.
     if sst AND SSTATUS_SPP = 0 then panic ''kerneltrap: not from supervisor mode''
     else bnd intr_get (\<lambda>on.
     if on then panic ''kerneltrap: interrupts enabled''
     else bnd devintr (\<lambda>which_dev.
     if which_dev = 0 then
       bnd r_sepc (\<lambda>sepc.
       bnd r_stval (\<lambda>stval.
       sq (printf (str ''scause=0x%lx sepc=0x%lx stval=0x%lx'' @ [10]) [ALong scause, ALong sepc, ALong stval]) (
       panic ''kerneltrap'')))
     else bnd (if which_dev = 2 then myproc else ret None) (\<lambda>me.
     sq (whenM (me \<noteq> None) yield) (
     sq (w_sepc sepc) (
     w_sstatus sst))))))))"

definition forkret :: "(u64, 'z tstate_scheme) kern" where
  "forkret =
     bnd curproc (\<lambda>p.
     sq (release (ProcLock p)) (
     bnd (gets forkret_first) (\<lambda>fst.
     sq (whenM fst (
       sq (fsinit (int ROOTDEV))
          (modify (\<lambda>s. s\<lparr>forkret_first := False\<rparr>)))) (
     usertrapret))))"

subsection \<open>Booting\<close>

definition timerinit :: "(unit, 'z tstate_scheme) kern" where
  "timerinit =
     bnd r_mie (\<lambda>x.
     sq (w_mie (x OR MIE_STIE)) (
     bnd r_menvcfg (\<lambda>x.
     sq (w_menvcfg (x OR push_bit 63 1)) (
     bnd r_mcounteren (\<lambda>x.
     sq (w_mcounteren (x OR 2)) (
     bnd r_time (\<lambda>t.
     w_stimecmp (t + 1000000))))))))"

definition start :: "(unit, 'z tstate_scheme) kern" where
  "start =
     bnd r_mstatus (\<lambda>x.
     sq (w_mstatus ((x AND NOT MSTATUS_MPP_MASK) OR MSTATUS_MPP_S)) (
     bnd (gets main_addr) (\<lambda>m.
     sq (w_mepc m) (
     sq (w_satp 0) (
     sq (w_medeleg 0xffff) (
     sq (w_mideleg 0xffff) (
     bnd r_sie (\<lambda>x.
     sq (w_sie (x OR SIE_SEIE OR SIE_STIE OR SIE_SSIE)) (
     sq (w_pmpaddr0 0x3fffffffffffff) (
     sq (w_pmpcfg0 0xf) (
     sq timerinit (
     bnd r_mhartid (\<lambda>hart.
     w_tp (scast (ucast hart :: u32)))))))))))))))"

definition kmain :: "(unit, 'z tstate_scheme) kern" where
  "kmain =
     bnd cpuid (\<lambda>c.
     sq (if c = 0 then
           sq consoleinit (
           sq printfinit (
           sq (printf [10] []) (
           sq (printk ''xv6 kernel is booting'') (
           sq (printf [10] []) (
           sq kinit (
           sq kvminit (
           sq kvminithart (
           sq procinit (
           sq trapinit (
           sq trapinithart (
           sq plicinit (
           sq plicinithart (
           sq binit (
           sq iinit (
           sq fileinit (
           sq virtio_disk_init (
           sq userinit (
           modify (\<lambda>s. s\<lparr>started := True\<rparr>)))))))))))))))))))
         else
           sq (again (
             bnd (gets started) (\<lambda>b.
             ret (if b then Inl () else Inr ())))) (
           bnd cpuid (\<lambda>c.
           sq (printf (str ''hart %d starting'' @ [10]) [AInt (of_nat c)]) (
           sq kvminithart (
           sq trapinithart (
           plicinithart)))))) (
     scheduler))"

end
