(* ===== verification/Uproc.thy ===== *)
theory Uproc
  imports Printf
begin

text \<open>
  Processes as user programs see them: the system-call stubs of \<open>user/usys.S\<close>, and \<open>user/ulib.c\<close> and
  \<open>user/printf.c\<close>, with which every program is linked.

  A user program is written in the same combinators as the kernel. Its state records the system call it has
  trapped with; a call gives up the CPU (\<open>Switched\<close>) and resumes in whatever state the kernel leaves, which
  holds the result and the bytes the kernel copied to the memory that the call names. A program is thus a
  function of the kernel's answers; \<open>fork\<close> is a call that answers a process identifier in the parent and 0
  in the child. A string argument is the list of its characters before the NUL.
\<close>

subsection \<open>System calls\<close>

datatype scall =
    SysFork | SysExit int | SysWait | SysPipe | SysRead int int | SysKill int | SysExec bytes "bytes list" | SysFstat int
  | SysChdir bytes | SysDup int | SysGetpid | SysSbrk int | SysSleep int | SysUptime | SysOpen bytes int | SysWrite int bytes
  | SysMknod bytes int int | SysUnlink bytes | SysLink bytes bytes | SysMkdir bytes | SysClose int

record uproc =
  u_call :: scall
  u_ret :: int
  u_out :: bytes

definition sys_out :: "scall \<Rightarrow> (int \<times> bytes, 'z uproc_scheme) kern" where
  "sys_out c = (\<lambda>s. Switched (s\<lparr>u_call := c\<rparr>) (\<lambda>t. Ok (u_ret t, u_out t) t))"

definition sys :: "scall \<Rightarrow> (int, 'z uproc_scheme) kern" where
  "sys c = bnd (sys_out c) (\<lambda>(r, out). ret r)"

text \<open>\<open>exit\<close> does not return.\<close>

definition u_exit :: "int \<Rightarrow> ('a, 'z uproc_scheme) kern" where
  "u_exit st = bnd (sys (SysExit st)) (\<lambda>_. fault)"

text \<open>A call whose result is not looked at.\<close>

definition call :: "scall \<Rightarrow> (unit, 'z uproc_scheme) kern" where
  "call c = bnd (sys c) (\<lambda>_. ret ())"

text \<open>
  Loops that may go on for ever: the body takes the variables of the loop, makes a system call, and leaves the
  loop with a result (\<open>Inl\<close>) or goes round with new values (\<open>Inr\<close>).
\<close>

primcorec loop_from :: "('x \<Rightarrow> ('a + 'x, 's) kern) \<Rightarrow> ('a + 'x, 's) outcome \<Rightarrow> ('a, 's) outcome" where
  "loop_from b r = (case r of
       Ok x t \<Rightarrow> (case x of
           Inl a \<Rightarrow> Ok a t
         | Inr y \<Rightarrow> (case b y t of
               Ok z u \<Rightarrow> (case z of Inl a \<Rightarrow> Ok a u | Inr y \<Rightarrow> Spin u (\<lambda>v. loop_from b (b y v)))
             | Wait w u k \<Rightarrow> Wait w u (\<lambda>v. loop_from b (k v))
             | Stop e \<Rightarrow> Stop e))
     | Wait w t k \<Rightarrow> Wait w t (\<lambda>u. loop_from b (k u))
     | Stop e \<Rightarrow> Stop e)"

definition loopM :: "('x \<Rightarrow> ('a + 'x, 's) kern) \<Rightarrow> 'x \<Rightarrow> ('a, 's) kern" where
  "loopM b x = (\<lambda>s. loop_from b (b x s))"

lemma loop_from_simps:
  "loop_from b (Ok (Inl a) t) = Ok a t"
  "loop_from b (Ok (Inr y) t) = (case b y t of
       Ok z u \<Rightarrow> (case z of Inl a \<Rightarrow> Ok a u | Inr y \<Rightarrow> Spin u (\<lambda>v. loop_from b (b y v)))
     | Wait w u k \<Rightarrow> Wait w u (\<lambda>v. loop_from b (k v))
     | Stop e \<Rightarrow> Stop e)"
  "loop_from b (Wait w t k) = Wait w t (\<lambda>u. loop_from b (k u))"
  "loop_from b (Stop e) = Stop e"
  by (subst loop_from.code, simp)+

subsection \<open>\<open>user/ulib.c\<close>\<close>

definition u_start :: "('a, 'z uproc_scheme) kern \<Rightarrow> ('b, 'z uproc_scheme) kern" where
  "u_start main = sq main (u_exit 0)"

text \<open>
  The string functions. A string is the list of its characters; the NUL that ends it may be left out. An array
  that is written to is a function of the index.
\<close>

fun strcpy :: "chars \<Rightarrow> nat \<Rightarrow> bytes \<Rightarrow> chars" where
  "strcpy s i [] = s(i := 0)"
| "strcpy s i (c # t) = (if c = 0 then s(i := 0) else strcpy (s(i := c)) (Suc i) t)"

definition char0 :: "bytes \<Rightarrow> u8" where
  "char0 s = (case s of [] \<Rightarrow> 0 | c # _ \<Rightarrow> c)"

function u_strcmp :: "bytes \<Rightarrow> bytes \<Rightarrow> int" where
  "u_strcmp p q =
     (if char0 p \<noteq> 0 \<and> char0 p = char0 q then u_strcmp (tl p) (tl q) else uint (char0 p) - uint (char0 q))"
  by pat_completeness auto
termination by (relation "measure (\<lambda>(p, q). length p)") (auto simp: char0_def split: list.splits)

declare u_strcmp.simps [simp del]

fun u_strlen :: "bytes \<Rightarrow> nat" where
  "u_strlen [] = 0"
| "u_strlen (c # s) = (if c = 0 then 0 else Suc (u_strlen s))"

definition u_memset :: "nat \<Rightarrow> u8 \<Rightarrow> nat \<Rightarrow> chars \<Rightarrow> chars" where
  "u_memset off c n s = fold (\<lambda>i s. s(off + i := c)) [0..<n] s"

text \<open>\<open>strchr\<close> on the characters before the NUL: the index of the first \<open>c\<close>. A NUL is never found.\<close>

primrec strchr :: "bytes \<Rightarrow> u8 \<Rightarrow> nat option" where
  "strchr [] c = None"
| "strchr (x # xs) c = (if x = 0 then None else if x = c then Some 0 else map_option Suc (strchr xs c))"

text \<open>The loop of \<open>gets\<close> with room for \<open>k\<close> more characters before the NUL.\<close>

primrec gets_loop :: "nat \<Rightarrow> bytes \<Rightarrow> (bytes, 'z uproc_scheme) kern" where
  "gets_loop 0 buf = ret buf"
| "gets_loop (Suc k) buf =
     bnd (sys_out (SysRead 0 1)) (\<lambda>(cc, out).
     if cc < 1 then ret buf
     else let c = char0 out in
       if c = 10 \<or> c = 13 then ret (buf @ [c]) else gets_loop k (buf @ [c]))"

definition u_gets :: "nat \<Rightarrow> (bytes, 'z uproc_scheme) kern" where
  "u_gets mx = gets_loop (mx - 1) []"

definition u_stat :: "bytes \<Rightarrow> (int \<times> bytes, 'z uproc_scheme) kern" where
  "u_stat n =
     bnd (sys (SysOpen n 0)) (\<lambda>fd.
     if fd < 0 then ret (-1, [])
     else bnd (sys_out (SysFstat fd)) (\<lambda>(r, st).
     sq (call (SysClose fd)) (
     ret (r, st))))"

text \<open>\<open>atoi\<close> in 32-bit arithmetic.\<close>

fun atoi_loop :: "u32 \<Rightarrow> bytes \<Rightarrow> u32" where
  "atoi_loop n (c # s) = (if 48 \<le> c \<and> c \<le> 57 then atoi_loop (n * 10 + ucast c - 48) s else n)"
| "atoi_loop n [] = n"

definition atoi :: "bytes \<Rightarrow> int" where
  "atoi s = sint (atoi_loop 0 s)"

text \<open>\<open>memmove\<close> on the memory of the process; the count is an \<open>int\<close>, and a negative one moves nothing.\<close>

definition u_memmove :: "u64 \<Rightarrow> u64 \<Rightarrow> int \<Rightarrow> memory \<Rightarrow> memory" where
  "u_memmove dst src n m =
     (if src > dst then copy_fwd (nat n) dst src m
      else copy_bwd (nat n) (dst + word_of_int n) (src + word_of_int n) m)"

definition u_memcmp :: "chars \<Rightarrow> chars \<Rightarrow> nat \<Rightarrow> int" where
  "u_memcmp s1 s2 n = memcmp_loop s1 s2 0 n"

definition u_memcpy :: "u64 \<Rightarrow> u64 \<Rightarrow> u32 \<Rightarrow> memory \<Rightarrow> memory" where
  "u_memcpy dst src n m = u_memmove dst src (sint n) m"

subsection \<open>\<open>user/printf.c\<close>\<close>

definition u_digits :: bytes where
  "u_digits = str ''0123456789ABCDEF''"

definition u_putc :: "int \<Rightarrow> u8 \<Rightarrow> (unit, 'z uproc_scheme) kern" where
  "u_putc fd c = call (SysWrite fd [c])"

primrec u_printint_digits :: "nat \<Rightarrow> u32 \<Rightarrow> u32 \<Rightarrow> bytes \<Rightarrow> bytes option" where
  "u_printint_digits 0 x base buf = None"
| "u_printint_digits (Suc k) x base buf =
     (let buf = buf @ [u_digits ! unat (x mod base)]; x = x div base in
      if x = 0 then Some buf else u_printint_digits k x base buf)"

definition u_printint_buf :: "u32 \<Rightarrow> u32 \<Rightarrow> bool \<Rightarrow> bytes option" where
  "u_printint_buf xx base sign =
     (let neg = sign \<and> sint xx < 0 in
      case u_printint_digits 16 (if neg then - xx else xx) base [] of
        None \<Rightarrow> None
      | Some buf \<Rightarrow> if neg then if length buf < 16 then Some (buf @ [ch CHR ''-'']) else None
                    else Some buf)"

definition u_printint :: "int \<Rightarrow> u32 \<Rightarrow> u32 \<Rightarrow> bool \<Rightarrow> (unit, 'z uproc_scheme) kern" where
  "u_printint fd xx base sign = (case u_printint_buf xx base sign of
     None \<Rightarrow> fault
   | Some buf \<Rightarrow> forM (rev buf) (u_putc fd))"

definition u_printptr :: "int \<Rightarrow> u64 \<Rightarrow> (unit, 'z uproc_scheme) kern" where
  "u_printptr fd x =
     sq (u_putc fd (ch CHR ''0'')) (
     sq (u_putc fd (ch CHR ''x'')) (
     forM [0..<16] (\<lambda>i. u_putc fd (u_digits ! unat (drop_bit 60 (push_bit (4 * i) x))))))"

text \<open>
  One conversion of \<open>vprintf\<close>, chosen by the same chain of tests as in the kernel. A 64-bit argument becomes
  the \<open>int\<close> that \<open>printint\<close> takes, so only its low half is printed.
\<close>

definition u_print_arg :: "int \<Rightarrow> conv \<Rightarrow> u8 \<Rightarrow> vararg list \<Rightarrow> (vararg list, 'z uproc_scheme) kern" where
  "u_print_arg fd c c0 ap = (case (c, ap) of
     (PrInt base sign, AInt v # ap) \<Rightarrow> sq (u_printint fd v (ucast base) sign) (ret ap)
   | (PrLong base sign, ALong v # ap) \<Rightarrow> sq (u_printint fd (ucast v) (ucast base) sign) (ret ap)
   | (PrPtr, ALong v # ap) \<Rightarrow> sq (u_printptr fd v) (ret ap)
   | (PrStr, AStr s # ap) \<Rightarrow> sq (forM (case s of None \<Rightarrow> str ''(null)'' | Some s \<Rightarrow> s) (u_putc fd)) (ret ap)
   | (PrPercent, ap) \<Rightarrow> sq (u_putc fd (ch CHR ''%'')) (ret ap)
   | (PrUnknown, ap) \<Rightarrow> sq (u_putc fd (ch CHR ''%'')) (sq (u_putc fd c0) (ret ap))
   | _ \<Rightarrow> fault)"

text \<open>The loop of \<open>vprintf\<close>; a format that ends after a percent sign prints nothing for it.\<close>

function vprintf :: "int \<Rightarrow> bytes \<Rightarrow> vararg list \<Rightarrow> (unit, 'z uproc_scheme) kern" where
  "vprintf fd fmt ap = (case fmt of
     [] \<Rightarrow> ret ()
   | c # fmt \<Rightarrow>
       if c = 0 then ret ()
       else if c \<noteq> ch CHR ''%'' then sq (u_putc fd c) (vprintf fd fmt ap)
       else let (cv, n) = fmt_conv fmt in
         if cv = PrEnd then ret ()
         else bnd (u_print_arg fd cv (fmt_at fmt 0) ap) (vprintf fd (drop n fmt)))"
  by pat_completeness auto
termination by (relation "measure (\<lambda>(fd, fmt, ap). length fmt)") auto

definition fprintf :: "int \<Rightarrow> bytes \<Rightarrow> vararg list \<Rightarrow> (unit, 'z uproc_scheme) kern" where
  "fprintf fd fmt ap = vprintf fd fmt ap"

definition u_printf :: "bytes \<Rightarrow> vararg list \<Rightarrow> (unit, 'z uproc_scheme) kern" where
  "u_printf fmt ap = vprintf 1 fmt ap"

subsection \<open>Dialogues\<close>

text \<open>
  What a program says to the kernel and hears from it: each call with its answer, the result and the bytes
  copied out. \<open>talks r d a t\<close>: the run \<open>r\<close> returns \<open>a\<close> in state \<open>t\<close> after the dialogue \<open>d\<close>; \<open>leaves r d n\<close>: it
  exits with status \<open>n\<close> after \<open>d\<close>.
\<close>

type_synonym dialogue = "(scall \<times> int \<times> bytes) list"

inductive talks :: "('a, 'z uproc_scheme) outcome \<Rightarrow> dialogue \<Rightarrow> 'a \<Rightarrow> 'z uproc_scheme \<Rightarrow> bool" where
  talks_Ok: "talks (Ok a s) [] a s"
| talks_Wait: "talks (k (s\<lparr>u_ret := r, u_out := out\<rparr>)) d a t \<Longrightarrow> talks (Wait w s k) ((u_call s, r, out) # d) a t"

inductive leaves :: "('a, 'z uproc_scheme) outcome \<Rightarrow> dialogue \<Rightarrow> int \<Rightarrow> bool" where
  leaves_exit: "u_call s = SysExit n \<Longrightarrow> leaves (Wait w s k) [] n"
| leaves_Wait: "leaves (k (s\<lparr>u_ret := r, u_out := out\<rparr>)) d n \<Longrightarrow> leaves (Wait w s k) ((u_call s, r, out) # d) n"

inductive_simps talks_Ok_iff [simp]: "talks (Ok a s) d b t"
inductive_simps talks_Wait_iff: "talks (Wait w s k) d b t"
inductive_simps talks_Stop_iff [simp]: "talks (Stop e) d b t"
inductive_simps leaves_Ok_iff [simp]: "leaves (Ok a s) d n"
inductive_simps leaves_Wait_iff: "leaves (Wait w s k) d n"

definition says :: "('a, 'z uproc_scheme) kern \<Rightarrow> dialogue \<Rightarrow> 'a \<Rightarrow> bool" where
  "says m d a \<longleftrightarrow> (\<forall>s. \<exists>t. talks (m s) d a t)"

definition exits :: "('a, 'z uproc_scheme) kern \<Rightarrow> dialogue \<Rightarrow> int \<Rightarrow> bool" where
  "exits m d n \<longleftrightarrow> (\<forall>s. leaves (m s) d n)"

lemma talks_andthen: "talks r d a t \<Longrightarrow> talks (f a t) e b u \<Longrightarrow> talks (andthen r f) (d @ e) b u"
  by (induction rule: talks.induct) (auto intro: talks.intros)

lemma leaves_andthen: "talks r d a t \<Longrightarrow> leaves (f a t) e n \<Longrightarrow> leaves (andthen r f) (d @ e) n"
  by (induction rule: talks.induct) (auto intro: leaves.intros)

lemma leaves_andthen_first: "leaves r d n \<Longrightarrow> leaves (andthen r f) d n"
  by (induction rule: leaves.induct) (auto intro: leaves.intros)

lemma says_ret: "says (ret a) [] a"
  by (auto simp: says_def run_simps)

lemma says_bnd: "says m d a \<Longrightarrow> says (f a) e b \<Longrightarrow> says (bnd m f) (d @ e) b"
  unfolding says_def bnd_def
proof
  fix s assume "\<forall>s. \<exists>t. talks (m s) d a t" "\<forall>s. \<exists>t. talks (f a s) e b t"
  then obtain t u where "talks (m s) d a t" "talks (f a t) e b u" by meson
  then show "\<exists>t. talks (andthen (m s) f) (d @ e) b t" using talks_andthen [of "m s" d a t f e b u] by blast
qed

lemma says_sq: "says m d a \<Longrightarrow> says n e b \<Longrightarrow> says (sq m n) (d @ e) b"
  unfolding sq_def by (rule says_bnd)

lemma says_sys_out: "says (sys_out c) [(c, r, out)] (r, out)"
  unfolding says_def sys_out_def by (auto simp: talks_Wait_iff)

lemma says_sys: "says (sys c) [(c, r, out)] r"
  unfolding sys_def using says_bnd [OF says_sys_out [of c r out], of "\<lambda>(r, out). ret r" "[]" r] by (simp add: says_ret)

lemma says_call: "says (call c) [(c, r, out)] ()"
  unfolding call_def using says_bnd [OF says_sys [of c r out] says_ret] by simp

lemma says_forM: "(\<And>x. x \<in> set xs \<Longrightarrow> says (f x) (d x) ()) \<Longrightarrow> says (forM xs f) (concat (map d xs)) ()"
  by (induction xs) (auto intro: says_ret says_sq)

lemma says_whenM: "says (if b then m else ret ()) d () \<Longrightarrow> says (whenM b m) d ()"
  by (simp add: whenM_def)

lemma exits_exit: "exits (u_exit n) [] n"
  unfolding exits_def u_exit_def sys_def sys_out_def by (auto simp: run_simps intro: leaves.intros)

lemma exits_bnd: "says m d a \<Longrightarrow> exits (f a) e n \<Longrightarrow> exits (bnd m f) (d @ e) n"
  unfolding says_def exits_def bnd_def
proof
  fix s assume "\<forall>s. \<exists>t. talks (m s) d a t" "\<forall>s. leaves (f a s) e n"
  then obtain t where "talks (m s) d a t" "leaves (f a t) e n" by meson
  then show "leaves (andthen (m s) f) (d @ e) n" by (rule leaves_andthen)
qed

lemma exits_sq: "says m d a \<Longrightarrow> exits k e n \<Longrightarrow> exits (sq m k) (d @ e) n"
  unfolding sq_def by (rule exits_bnd)

lemma exits_bnd_first: "exits m d n \<Longrightarrow> exits (bnd m f) d n"
  unfolding exits_def bnd_def by (simp add: leaves_andthen_first)

lemma exits_sq_first: "exits m d n \<Longrightarrow> exits (sq m k) d n"
  unfolding sq_def by (rule exits_bnd_first)

text \<open>Loops whose body always makes a call before it goes round.\<close>

definition polls :: "('x \<Rightarrow> ('a + 'x, 's) kern) \<Rightarrow> bool" where
  "polls b \<longleftrightarrow> (\<forall>x s y t. b x s \<noteq> Ok (Inr y) t)"

lemma polls_sys_out: "polls (\<lambda>x. bnd (sys_out (c x)) (f x))"
  by (simp add: polls_def sys_out_def run_simps)

lemma polls_sys: "polls (\<lambda>x. bnd (sys (c x)) (f x))"
  by (simp add: polls_def sys_def sys_out_def run_simps)

lemma loop_next: "polls b \<Longrightarrow> loop_from b (Ok (Inr x) t) = loopM b x t"
  unfolding loopM_def polls_def loop_from_simps(2) by (cases "b x t") (auto simp: loop_from_simps split: sum.split)

lemma talks_loop:
  "talks r d x t \<Longrightarrow> (case x of Inl a \<Rightarrow> e = [] \<and> a = b \<and> t = u | Inr y \<Rightarrow> talks (loopM m y t) e b u) \<Longrightarrow> polls m
    \<Longrightarrow> talks (loop_from m r) (d @ e) b u"
  by (induction rule: talks.induct) (auto simp: loop_from_simps(1,3) loop_next intro: talks.intros split: sum.splits)

lemma says_loop_stop: "polls m \<Longrightarrow> says (m x) d (Inl a) \<Longrightarrow> says (loopM m x) d a"
  unfolding says_def
proof
  fix s assume "\<forall>s. \<exists>t. talks (m x s) d (Inl a) t" and p: "polls m"
  then obtain t where "talks (m x s) d (Inl a) t" by meson
  from talks_loop [OF this _ p, where e = "[]" and b = a and u = t] show "\<exists>t. talks (loopM m x s) d a t" by (auto simp: loopM_def)
qed

lemma says_loop: "polls m \<Longrightarrow> says (m x) d (Inr y) \<Longrightarrow> says (loopM m y) e a \<Longrightarrow> says (loopM m x) (d @ e) a"
  unfolding says_def
proof
  fix s assume "\<forall>s. \<exists>t. talks (m x s) d (Inr y) t" "\<forall>s. \<exists>t. talks (loopM m y s) e a t" and p: "polls m"
  then obtain t u where "talks (m x s) d (Inr y) t" "talks (loopM m y t) e a u" by meson
  from talks_loop [OF this(1) _ p, where e = e and b = a and u = u] this(2) show "\<exists>t. talks (loopM m x s) (d @ e) a t" by (auto simp: loopM_def)
qed

lemma leaves_loop: "talks r d x t \<Longrightarrow> x = Inr y \<Longrightarrow> leaves (loopM m y t) e n \<Longrightarrow> polls m \<Longrightarrow> leaves (loop_from m r) (d @ e) n"
  by (induction rule: talks.induct) (auto simp: loop_from_simps(3) loop_next intro: leaves.intros)

lemma leaves_loop_first: "leaves r d n \<Longrightarrow> leaves (loop_from m r) d n"
  by (induction rule: leaves.induct) (auto simp: loop_from_simps(3) intro: leaves.intros)

lemma exits_loop: "polls m \<Longrightarrow> says (m x) d (Inr y) \<Longrightarrow> exits (loopM m y) e n \<Longrightarrow> exits (loopM m x) (d @ e) n"
  unfolding says_def exits_def
proof
  fix s assume "\<forall>s. \<exists>t. talks (m x s) d (Inr y) t" "\<forall>s. leaves (loopM m y s) e n" and p: "polls m"
  then obtain t where "talks (m x s) d (Inr y) t" "leaves (loopM m y t) e n" by meson
  then have "leaves (loop_from m (m x s)) (d @ e) n" using p by (intro leaves_loop) simp_all
  then show "leaves (loopM m x s) (d @ e) n" by (simp add: loopM_def)
qed

lemma exits_loop_first: "exits (m x) d n \<Longrightarrow> exits (loopM m x) d n"
  unfolding exits_def loopM_def by (simp add: leaves_loop_first)

end
