(* ===== verification/Utils.thy ===== *)
theory Utils
  imports Uproc Fs
begin

text \<open>
  The small programs under \<open>user/\<close>. A program is its \<open>main\<close>, given the list of its arguments with the name of the
  program first; \<open>argc\<close> is the length of the list. A buffer that a program reads into and then uses is the
  list of bytes that the kernel copied out.
\<close>

abbreviation (input) nl :: bytes where "nl \<equiv> [10]"

text \<open>A \<open>for\<close> loop over the arguments that opens each of them.\<close>

primrec for_args :: "bytes list \<Rightarrow> (bytes \<Rightarrow> (unit, 's) kern) \<Rightarrow> (unit, 's) kern" where
  "for_args [] f = ret ()"
| "for_args (a # as) f = sq (f a) (for_args as f)"

subsection \<open>\<open>cat\<close> and \<open>echo\<close>\<close>

definition cat :: "int \<Rightarrow> (unit, 'z uproc_scheme) kern" where
  "cat fd =
     bnd (loopM (\<lambda>_ :: unit.
       bnd (sys_out (SysRead fd 512)) (\<lambda>(n, buf).
       if n \<le> 0 then ret (Inl n)
       else bnd (sys (SysWrite 1 (take (nat n) buf))) (\<lambda>w.
         if w \<noteq> n then sq (fprintf 2 (str ''cat: write error'' @ nl) []) (u_exit 1)
         else ret (Inr ())))) ()) (\<lambda>n.
     whenM (n < 0) (sq (fprintf 2 (str ''cat: read error'' @ nl) []) (u_exit 1)))"

definition cat_main :: "bytes list \<Rightarrow> ('a, 'z uproc_scheme) kern" where
  "cat_main argv =
     (if length argv \<le> 1 then sq (cat 0) (u_exit 0)
      else sq (for_args (tl argv) (\<lambda>a.
        bnd (sys (SysOpen a 0)) (\<lambda>fd.
        if fd < 0 then sq (fprintf 2 (str ''cat: cannot open %s'' @ nl) [AStr (Some a)]) (u_exit 1)
        else sq (cat fd) (call (SysClose fd)))))
      (u_exit 0))"

primrec echo_args :: "bytes list \<Rightarrow> (unit, 'z uproc_scheme) kern" where
  "echo_args [] = ret ()"
| "echo_args (a # as) =
     sq (call (SysWrite 1 (take (u_strlen a) a))) (
     sq (call (SysWrite 1 (if as \<noteq> [] then [32] else nl)))
        (echo_args as))"

definition echo_main :: "bytes list \<Rightarrow> ('a, 'z uproc_scheme) kern" where
  "echo_main argv = sq (echo_args (tl argv)) (u_exit 0)"

subsection \<open>\<open>wc\<close>\<close>

record wc_counts =
  wc_l :: u32
  wc_w :: u32
  wc_c :: u32
  wc_inword :: bool

definition wc_char :: "u8 \<Rightarrow> wc_counts \<Rightarrow> wc_counts" where
  "wc_char c k =
     (let k = k\<lparr>wc_c := wc_c k + 1\<rparr>;
          k = if c = 10 then k\<lparr>wc_l := wc_l k + 1\<rparr> else k in
      if strchr [32, 13, 9, 10, 11] c \<noteq> None then k\<lparr>wc_inword := False\<rparr>
      else if \<not> wc_inword k then k\<lparr>wc_w := wc_w k + 1, wc_inword := True\<rparr>
      else k)"

definition wc :: "int \<Rightarrow> bytes \<Rightarrow> (unit, 'z uproc_scheme) kern" where
  "wc fd name =
     bnd (loopM (\<lambda>k.
       bnd (sys_out (SysRead fd 512)) (\<lambda>(n, buf).
       if n \<le> 0 then ret (Inl (n, k))
       else ret (Inr (fold wc_char (take (nat n) buf) k)))) \<lparr>wc_l = 0, wc_w = 0, wc_c = 0, wc_inword = False\<rparr>) (\<lambda>(n, k).
     if n < 0 then sq (u_printf (str ''wc: read error'' @ nl) []) (u_exit 1)
     else u_printf (str ''%d %d %d %s'' @ nl) [AInt (wc_l k), AInt (wc_w k), AInt (wc_c k), AStr (Some name)])"

definition wc_main :: "bytes list \<Rightarrow> ('a, 'z uproc_scheme) kern" where
  "wc_main argv =
     (if length argv \<le> 1 then sq (wc 0 []) (u_exit 0)
      else sq (for_args (tl argv) (\<lambda>a.
        bnd (sys (SysOpen a 0)) (\<lambda>fd.
        if fd < 0 then sq (u_printf (str ''wc: cannot open %s'' @ nl) [AStr (Some a)]) (u_exit 1)
        else sq (wc fd a) (call (SysClose fd)))))
      (u_exit 0))"

subsection \<open>Programs that make one call for each argument\<close>

definition kill_main :: "bytes list \<Rightarrow> ('a, 'z uproc_scheme) kern" where
  "kill_main argv =
     (if length argv < 2 then sq (fprintf 2 (str ''usage: kill pid...'' @ nl) []) (u_exit 1)
      else sq (for_args (tl argv) (\<lambda>a. call (SysKill (atoi a)))) (u_exit 0))"

definition ln_main :: "bytes list \<Rightarrow> ('a, 'z uproc_scheme) kern" where
  "ln_main argv =
     (if length argv \<noteq> 3 then sq (fprintf 2 (str ''Usage: ln old new'' @ nl) []) (u_exit 1)
      else bnd (sys (SysLink (argv ! 1) (argv ! 2))) (\<lambda>r.
        sq (whenM (r < 0) (fprintf 2 (str ''link %s %s: failed'' @ nl) [AStr (Some (argv ! 1)), AStr (Some (argv ! 2))]))
           (u_exit 0)))"

primrec mkdir_args :: "bytes list \<Rightarrow> (unit, 'z uproc_scheme) kern" where
  "mkdir_args [] = ret ()"
| "mkdir_args (a # as) =
     bnd (sys (SysMkdir a)) (\<lambda>r.
     if r < 0 then fprintf 2 (str ''mkdir: %s failed to create'' @ nl) [AStr (Some a)] else mkdir_args as)"

definition mkdir_main :: "bytes list \<Rightarrow> ('a, 'z uproc_scheme) kern" where
  "mkdir_main argv =
     (if length argv < 2 then sq (fprintf 2 (str ''Usage: mkdir files...'' @ nl) []) (u_exit 1)
      else sq (mkdir_args (tl argv)) (u_exit 0))"

primrec rm_args :: "bytes list \<Rightarrow> (unit, 'z uproc_scheme) kern" where
  "rm_args [] = ret ()"
| "rm_args (a # as) =
     bnd (sys (SysUnlink a)) (\<lambda>r.
     if r < 0 then fprintf 2 (str ''rm: %s failed to delete'' @ nl) [AStr (Some a)] else rm_args as)"

definition rm_main :: "bytes list \<Rightarrow> ('a, 'z uproc_scheme) kern" where
  "rm_main argv =
     (if length argv < 2 then sq (fprintf 2 (str ''Usage: rm files...'' @ nl) []) (u_exit 1)
      else sq (rm_args (tl argv)) (u_exit 0))"

definition zombie_main :: "('a, 'z uproc_scheme) kern" where
  "zombie_main =
     bnd (sys SysFork) (\<lambda>pid.
     sq (whenM (pid > 0) (call (SysSleep 5)))
        (u_exit 0))"

subsection \<open>\<open>init\<close>\<close>

text \<open>
  \<open>user/initcode.S\<close>: the first process executes \<open>/init\<close>; if that fails it calls \<open>exit\<close> for ever, with the result
  of the last call still in register \<open>a0\<close>.
\<close>

definition initcode_main :: "('a, 'z uproc_scheme) kern" where
  "initcode_main =
     bnd (sys (SysExec (str ''/init'') [str ''/init''])) (
     loopM (\<lambda>a0. bnd (sys (SysExit a0)) (\<lambda>r. ret (Inr r))))"

text \<open>The two nested loops of \<open>init\<close>: waiting for the shell \<open>pid\<close>, and starting it again.\<close>

definition init_wait :: "int \<Rightarrow> (unit, 'z uproc_scheme) kern" where
  "init_wait pid = loopM (\<lambda>_ :: unit.
     bnd (sys SysWait) (\<lambda>wpid.
     if wpid = pid then ret (Inl ())
     else if wpid < 0 then sq (u_printf (str ''init: wait returned an error'' @ nl) []) (u_exit 1)
     else ret (Inr ()))) ()"

definition init_main :: "('a, 'z uproc_scheme) kern" where
  "init_main =
     bnd (sys (SysOpen (str ''console'') 2)) (\<lambda>r.
     sq (whenM (r < 0) (
       sq (call (SysMknod (str ''console'') 1 0))
          (call (SysOpen (str ''console'') 2)))) (
     sq (call (SysDup 0)) (
     sq (call (SysDup 0)) (
     loopM (\<lambda>_ :: unit.
       sq (u_printf (str ''init: starting sh'' @ nl) []) (
       bnd (sys SysFork) (\<lambda>pid.
       if pid < 0 then sq (u_printf (str ''init: fork failed'' @ nl) []) (u_exit 1)
       else if pid = 0 then
         sq (call (SysExec (str ''sh'') [str ''sh''])) (
         sq (u_printf (str ''init: exec sh failed'' @ nl) []) (u_exit 1))
       else sq (init_wait pid) (ret (Inr ()))))) ()))))"

subsection \<open>\<open>ls\<close>\<close>

text \<open>The fields of \<open>struct stat\<close> and \<open>struct dirent\<close> in the bytes that the kernel copied out.\<close>

definition stat_type :: "bytes \<Rightarrow> u16" where
  "stat_type st = le_word (take 2 (drop 8 st))"

definition stat_ino :: "bytes \<Rightarrow> u32" where
  "stat_ino st = le_word (take 4 (drop 4 st))"

definition stat_size :: "bytes \<Rightarrow> u64" where
  "stat_size st = le_word (take 8 (drop 16 st))"

definition dirent_name :: "bytes \<Rightarrow> bytes" where
  "dirent_name de = take DIRSIZ (drop 2 de)"

definition cstring :: "bytes \<Rightarrow> bytes" where
  "cstring bs = takeWhile (\<lambda>c. c \<noteq> 0) bs"

text \<open>The name after the last slash, padded with blanks to \<open>DIRSIZ\<close> characters.\<close>

definition fmtname :: "bytes \<Rightarrow> bytes" where
  "fmtname path =
     (let p = rev (takeWhile (\<lambda>c. c \<noteq> 47) (rev path)) in
      if u_strlen p \<ge> DIRSIZ then p else p @ replicate (DIRSIZ - u_strlen p) 32)"

definition ls_print :: "bytes \<Rightarrow> bytes \<Rightarrow> (unit, 'z uproc_scheme) kern" where
  "ls_print path st = u_printf (str ''%s %d %d %d'' @ nl)
     [AStr (Some (fmtname path)), AInt (scast (stat_type st)), AInt (stat_ino st), AInt (ucast (stat_size st))]"

definition ls_dir :: "bytes \<Rightarrow> int \<Rightarrow> (unit, 'z uproc_scheme) kern" where
  "ls_dir path fd = loopM (\<lambda>_ :: unit.
     bnd (sys_out (SysRead fd 16)) (\<lambda>(r, de).
     if r \<noteq> 16 then ret (Inl ())
     else if de_inum de = 0 then ret (Inr ())
     else let buf = path @ [47] @ cstring (dirent_name de) in
       bnd (u_stat buf) (\<lambda>(r, st).
       if r < 0 then sq (u_printf (str ''ls: cannot stat %s'' @ nl) [AStr (Some buf)]) (ret (Inr ()))
       else sq (ls_print buf st) (ret (Inr ()))))) ()"

definition ls :: "bytes \<Rightarrow> (unit, 'z uproc_scheme) kern" where
  "ls path =
     bnd (sys (SysOpen path 0)) (\<lambda>fd.
     if fd < 0 then fprintf 2 (str ''ls: cannot open %s'' @ nl) [AStr (Some path)]
     else bnd (sys_out (SysFstat fd)) (\<lambda>(r, st).
     if r < 0 then sq (fprintf 2 (str ''ls: cannot stat %s'' @ nl) [AStr (Some path)]) (call (SysClose fd))
     else sq (
       if stat_type st = 3 \<or> stat_type st = 2 then ls_print path st
       else if stat_type st = 1 then
         if u_strlen path + 1 + DIRSIZ + 1 > 512 then u_printf (str ''ls: path too long'' @ nl) []
         else ls_dir path fd
       else ret ())
     (call (SysClose fd))))"

definition ls_main :: "bytes list \<Rightarrow> ('a, 'z uproc_scheme) kern" where
  "ls_main argv =
     (if length argv < 2 then sq (ls (str ''.'')) (u_exit 0)
      else sq (for_args (tl argv) ls) (u_exit 0))"

subsection \<open>\<open>find\<close>\<close>

text \<open>
  The path of an entry goes into a buffer of 512 characters, and the name of the entry is copied up to a NUL; a
  longer path, or a name that fills its 14 characters and so has no NUL, is undefined. The path grows with
  every level of the recursion.
\<close>

function find :: "bytes \<Rightarrow> bytes \<Rightarrow> (unit, 'z uproc_scheme) kern" where
  "find path target =
     bnd (sys (SysOpen path 0)) (\<lambda>fd.
     if fd < 0 then fprintf 2 (str ''find: cannot open %s'' @ nl) [AStr (Some path)]
     else bnd (sys_out (SysFstat fd)) (\<lambda>(r, st).
     if r < 0 then sq (fprintf 2 (str ''find: cannot stat %s'' @ nl) [AStr (Some path)]) (call (SysClose fd))
     else if stat_type st \<noteq> 1 then sq (fprintf 2 (str ''find: %s is not a directory'' @ nl) [AStr (Some path)]) (call (SysClose fd))
     else sq (loopM (\<lambda>_ :: unit.
       bnd (sys_out (SysRead fd 16)) (\<lambda>(r, de).
       if r \<noteq> 16 then ret (Inl ())
       else if de_inum de = 0 \<or> u_strcmp (dirent_name de) (str ''.'') = 0 \<or> u_strcmp (dirent_name de) (str ''..'') = 0 then ret (Inr ())
       else let name = cstring (dirent_name de); buf = path @ [47] @ name in
         if 0 \<notin> set (dirent_name de) \<or> length buf \<ge> 512 then fault
         else bnd (sys (SysOpen buf 0)) (\<lambda>fd_stat.
         if fd_stat < 0 then sq (fprintf 2 (str ''find: cannot open %s'' @ nl) [AStr (Some buf)]) (ret (Inr ()))
         else bnd (sys_out (SysFstat fd_stat)) (\<lambda>(r, st).
         if r < 0 then sq (fprintf 2 (str ''find: cannot stat %s'' @ nl) [AStr (Some buf)]) (ret (Inr ()))
         else sq (
           if stat_type st = 1 then find buf target
           else if stat_type st = 2 \<and> u_strcmp name target = 0 then u_printf (str ''%s'' @ nl) [AStr (Some buf)]
           else ret ()) (
         sq (call (SysClose fd_stat)) (ret (Inr ()))))))) ())
     (call (SysClose fd))))"
  by pat_completeness auto
termination by (relation "measure (\<lambda>(path, target). 512 - length path)") auto

definition find_main :: "bytes list \<Rightarrow> ('a, 'z uproc_scheme) kern" where
  "find_main argv =
     (if length argv \<noteq> 3 then sq (fprintf 2 (str ''Usage: find <path> <file>'' @ nl) []) (u_exit 1)
      else sq (find (argv ! 1) (argv ! 2)) (u_exit 0))"

subsection \<open>\<open>xargs\<close>\<close>

text \<open>The arguments of the command, without \<open>-n 1\<close>.\<close>

fun xargs_base :: "bytes list \<Rightarrow> bytes list" where
  "xargs_base (a # b # as) =
     (if u_strcmp a (str ''-n'') = 0 \<and> u_strcmp b (str ''1'') = 0 then xargs_base as else a # xargs_base (b # as))"
| "xargs_base as = as"

definition xargs_run :: "bytes list \<Rightarrow> bytes \<Rightarrow> (unit, 'z uproc_scheme) kern" where
  "xargs_run cmd arg =
     bnd (sys SysFork) (\<lambda>pid.
     if pid < 0 then sq (fprintf 2 (str ''xargs: fork failed'' @ nl) []) (u_exit 1)
     else if pid = 0 then
       sq (call (SysExec (hd cmd) (cmd @ [cstring arg]))) (
       sq (fprintf 2 (str ''xargs: exec failed (command: %s)'' @ nl) [AStr (Some (hd cmd))]) (u_exit 1))
     else call SysWait)"

text \<open>
  The loop over the input. Its variables are the characters from \<open>arg_s\<close> to \<open>arg_e\<close> and \<open>has_arg\<close>; \<open>x_argv\<close> has room
  for 32 pointers, the last one null.
\<close>

definition xargs_main :: "bytes list \<Rightarrow> ('a, 'z uproc_scheme) kern" where
  "xargs_main argv =
     (let cmd = xargs_base (tl argv) in
      if cmd = [] then sq (fprintf 2 (str ''xargs: missing command'' @ nl) []) (u_exit 1)
      else if length cmd + 1 \<ge> 32 then fault
      else bnd (loopM (\<lambda>(arg, has_arg).
        bnd (sys_out (SysRead 0 1)) (\<lambda>(r, out).
        let c = char0 out in
        if r \<noteq> 1 then ret (Inl (arg, has_arg))
        else if length arg \<ge> 511 then sq (fprintf 2 (str ''xargs: argument too long'' @ nl) []) (ret (Inr ([], has_arg)))
        else if c = 10 \<or> c = 32 then
          if has_arg then sq (xargs_run cmd arg) (ret (Inr ([], False))) else ret (Inr ([], False))
        else ret (Inr (arg @ [c], True)))) ([], False)) (\<lambda>(arg, has_arg).
      sq (whenM has_arg (xargs_run cmd arg))
         (u_exit 0)))"

subsection \<open>\<open>primes\<close> and \<open>pingpong\<close>\<close>

text \<open>
  The two descriptors of \<open>pipe\<close>, in the bytes the kernel copied out. The programs do not test whether \<open>pipe\<close>
  failed; then they use descriptors that were never set, which is undefined.
\<close>

definition int_at :: "nat \<Rightarrow> bytes \<Rightarrow> int" where
  "int_at off bs = sint (le_word (take 4 (drop off bs)) :: u32)"

definition u_pipe :: "(int \<times> int, 'z uproc_scheme) kern" where
  "u_pipe =
     bnd (sys_out SysPipe) (\<lambda>(r, out).
     if r < 0 then fault else ret (int_at 0 out, int_at 4 out))"

text \<open>
  The loop that passes on what is not a multiple of \<open>prime\<close>. The variable \<open>num\<close> keeps the bytes that a short
  read does not replace; \<open>num\<close> is not set before the first read.
\<close>

definition sieve :: "int \<Rightarrow> int \<Rightarrow> int \<Rightarrow> bytes \<Rightarrow> (unit, 'z uproc_scheme) kern" where
  "sieve prime p0 n1 num = loopM (\<lambda>num.
     bnd (sys_out (SysRead p0 4)) (\<lambda>(r, out).
     if r \<le> 0 then ret (Inl ())
     else let num = out @ drop (length out) num in
       if prime = 0 then fault
       else sq (whenM (\<not> prime dvd int_at 0 num) (call (SysWrite n1 num))) (ret (Inr num)))) num"

text \<open>One process of the pipeline; the child goes on as the next process, with the next pipe.\<close>

definition primes :: "bytes \<Rightarrow> int \<times> int \<Rightarrow> ('a, 'z uproc_scheme) kern" where
  "primes num = loopM (\<lambda>(p0, p1).
     bnd (sys (SysClose p1)) (\<lambda>_.
     bnd (sys_out (SysRead p0 4)) (\<lambda>(r, out).
     if r \<noteq> 4 then
       bnd (sys (SysRead p0 4)) (\<lambda>r.
       if r = 0 then sq (call (SysClose p0)) (u_exit 0)
       else sq (fprintf 2 (str ''primes: read error'' @ nl) []) (u_exit 1))
     else let prime = int_at 0 out in
       sq (u_printf (str ''prime %d'' @ nl) [AInt (word_of_int prime)]) (
       bnd u_pipe (\<lambda>(n0, n1).
       bnd (sys SysFork) (\<lambda>pid.
       if pid = 0 then sq (call (SysClose p0)) (ret (Inr (n0, n1)))
       else sq (call (SysClose n0)) (
         sq (sieve prime p0 n1 num) (
         sq (call (SysClose n1)) (
         sq (call SysWait) (
         sq (call (SysClose p0)) (u_exit 0)))))))))))"

definition primes_main :: "bytes \<Rightarrow> ('a, 'z uproc_scheme) kern" where
  "primes_main num =
     bnd u_pipe (\<lambda>(p0, p1).
     bnd (sys SysFork) (\<lambda>pid.
     if pid = 0 then primes num (p0, p1)
     else sq (call (SysClose p0)) (
       sq (forM [2..<281] (\<lambda>i. call (SysWrite p1 (le_bytes 4 (of_nat i :: u32))))) (
       sq (call (SysClose p1)) (
       sq (call SysWait) (
       u_exit 0))))))"

text \<open>\<open>pingpong\<close>; \<open>c\<close> is what its uninitialised buffer holds.\<close>

definition pingpong_main :: "u8 \<Rightarrow> ('a, 'z uproc_scheme) kern" where
  "pingpong_main c =
     bnd u_pipe (\<lambda>(p0, p1).
     sq (fprintf 1 (str ''Create pipe successfully'' @ nl) []) (
     bnd (sys SysFork) (\<lambda>pid.
     if pid = 0 then
       bnd (sys_out (SysRead p0 1)) (\<lambda>(r, out).
       let c = if r = 1 then char0 out else c in
       sq (whenM (r = 1) (
         bnd (sys SysGetpid) (\<lambda>p. fprintf 1 (str ''%d: received ping'' @ nl) [AInt (word_of_int p)]))) (
       bnd (sys (SysWrite p1 [c])) (\<lambda>w.
       sq (whenM (w < 1) (fprintf 2 (str ''Error: child write failed'' @ nl) []))
          (u_exit 0))))
     else
       bnd (sys (SysWrite p1 [c])) (\<lambda>w.
       sq (whenM (w < 1) (fprintf 2 (str ''Error: parent write failed'' @ nl) [])) (
       sq (call SysWait) (
       bnd (sys_out (SysRead p0 1)) (\<lambda>(r, out).
       sq (whenM (r = 1) (
         bnd (sys SysGetpid) (\<lambda>p. fprintf 1 (str ''%d: received pong'' @ nl) [AInt (word_of_int p)])))
          (u_exit 0))))))))"

subsection \<open>\<open>stressfs\<close> and \<open>forktest\<close>\<close>

text \<open>How many of \<open>k\<close> forks were made by the child of the one before: the value of \<open>i\<close> after the loop.\<close>

primrec stressfs_forks :: "nat \<Rightarrow> nat \<Rightarrow> (nat, 'z uproc_scheme) kern" where
  "stressfs_forks 0 i = ret i"
| "stressfs_forks (Suc k) i = bnd (sys SysFork) (\<lambda>pid. if pid > 0 then ret i else stressfs_forks k (Suc i))"

text \<open>\<open>data\<close> is overwritten by the reads at the end, after its last use.\<close>

definition stressfs_main :: "('a, 'z uproc_scheme) kern" where
  "stressfs_main =
     sq (u_printf (str ''stressfs starting'' @ nl) []) (
     bnd (stressfs_forks 4 0) (\<lambda>i.
     sq (u_printf (str ''write %d'' @ nl) [AInt (of_nat i)]) (
     let path = str ''stressfs'' @ [48 + of_nat i] in
     bnd (sys (SysOpen path 0x202)) (\<lambda>fd.
     sq (forM [0..<20] (\<lambda>_. call (SysWrite fd (replicate 512 97)))) (
     sq (call (SysClose fd)) (
     sq (u_printf (str ''read'' @ nl) []) (
     bnd (sys (SysOpen path 0)) (\<lambda>fd.
     sq (forM [0..<20] (\<lambda>_. call (SysRead fd 512))) (
     sq (call (SysClose fd)) (
     sq (call SysWait) (
     u_exit 0)))))))))))"

definition print :: "bytes \<Rightarrow> (unit, 'z uproc_scheme) kern" where
  "print s = call (SysWrite 1 (take (u_strlen s) s))"

primrec forktest_forks :: "nat \<Rightarrow> nat \<Rightarrow> (nat, 'z uproc_scheme) kern" where
  "forktest_forks 0 n = ret n"
| "forktest_forks (Suc k) n =
     bnd (sys SysFork) (\<lambda>pid.
     if pid < 0 then ret n
     else if pid = 0 then u_exit 0
     else forktest_forks k (Suc n))"

definition forktest :: "(unit, 'z uproc_scheme) kern" where
  "forktest =
     sq (print (str ''fork test'' @ nl)) (
     bnd (forktest_forks 1000 0) (\<lambda>n.
     if n = 1000 then sq (print (str ''fork claimed to work N times!'' @ nl)) (u_exit 1)
     else sq (forM [0..<n] (\<lambda>_.
         bnd (sys SysWait) (\<lambda>r.
         whenM (r < 0) (sq (print (str ''wait stopped early'' @ nl)) (u_exit 1))))) (
       bnd (sys SysWait) (\<lambda>r.
       if r \<noteq> -1 then sq (print (str ''wait got too many'' @ nl)) (u_exit 1)
       else print (str ''fork test OK'' @ nl)))))"

definition forktest_main :: "('a, 'z uproc_scheme) kern" where
  "forktest_main = sq forktest (u_exit 0)"

end
