(* ===== verification/Grep.thy ===== *)
theory Grep
  imports Utils
begin

text \<open>
  \<open>user/grep.c\<close>: the matcher for patterns with \<open>^\<close>, \<open>.\<close>, \<open>*\<close> and \<open>$\<close>, and the loop that cuts the input into
  lines. The matcher is shown to decide a declarative notion of matching, and \<open>grep\<close> to print exactly the
  lines that match, however the kernel cuts the input into pieces.
\<close>

subsection \<open>The program\<close>

definition char1 :: "bytes \<Rightarrow> u8" where
  "char1 s = char0 (if char0 s = 0 then [] else tl s)"

text \<open>\<open>42\<close> is the star, \<open>36\<close> the dollar sign, \<open>46\<close> the dot and \<open>94\<close> the caret.\<close>

function (sequential) matchhere :: "bytes \<Rightarrow> bytes \<Rightarrow> bool" and matchstar :: "u8 \<Rightarrow> bytes \<Rightarrow> bytes \<Rightarrow> bool" where
  "matchhere re text =
     (if char0 re = 0 then True
      else if char1 re = 42 then matchstar (char0 re) (tl (tl re)) text
      else if char0 re = 36 \<and> char1 re = 0 then char0 text = 0
      else if char0 text \<noteq> 0 \<and> (char0 re = 46 \<or> char0 re = char0 text) then matchhere (tl re) (tl text)
      else False)"
| "matchstar c re text =
     (if matchhere re text then True
      else if char0 text \<noteq> 0 \<and> (char0 text = c \<or> c = 46) then matchstar c re (tl text)
      else False)"
  by pat_completeness auto
termination
  by (relation "measures [\<lambda>x. case x of Inl (re, text) \<Rightarrow> 2 * length re | Inr (c, re, text) \<Rightarrow> 2 * length re + 1,
        \<lambda>x. case x of Inl (re, text) \<Rightarrow> length text | Inr (c, re, text) \<Rightarrow> length text]")
    (auto simp: char0_def char1_def split: list.splits if_splits)

declare matchhere.simps [simp del] matchstar.simps [simp del]

text \<open>The loop of \<open>match\<close>, which also looks at the empty string at the end of the text.\<close>

primrec match_any :: "bytes \<Rightarrow> bytes \<Rightarrow> bool" where
  "match_any re [] = matchhere re []"
| "match_any re (c # text) = (if matchhere re (c # text) then True else if c = 0 then False else match_any re text)"

definition match :: "bytes \<Rightarrow> bytes \<Rightarrow> bool" where
  "match re text = (if char0 re = 94 then matchhere (tl re) text else match_any re text)"

lemma strchr_length: "strchr p c = Some q \<Longrightarrow> q < length p"
  by (induction p arbitrary: q) (auto split: if_splits)

text \<open>The inner loop of \<open>grep\<close> on the characters from \<open>p\<close> on; the result is what is left for the next round.\<close>

function grep_lines :: "bytes \<Rightarrow> bytes \<Rightarrow> (bytes, 'z uproc_scheme) kern" where
  "grep_lines pattern p = (case strchr p 10 of
     None \<Rightarrow> ret p
   | Some q \<Rightarrow>
       sq (whenM (match pattern (take q p)) (call (SysWrite 1 (take (q + 1) p))))
          (grep_lines pattern (drop (q + 1) p)))"
  by pat_completeness auto
termination by (relation "measure (\<lambda>(pattern, p). length p)") (auto dest: strchr_length)

declare grep_lines.simps [simp del]

text \<open>The buffer has 1024 characters, one of them for the NUL; the variable is what it holds of an unfinished line.\<close>

definition grep :: "bytes \<Rightarrow> int \<Rightarrow> (unit, 'z uproc_scheme) kern" where
  "grep pattern fd = loopM (\<lambda>buf.
     bnd (sys_out (SysRead fd (1023 - int (length buf)))) (\<lambda>(n, out).
     if n \<le> 0 then ret (Inl ())
     else bnd (grep_lines pattern (buf @ take (nat n) out)) (\<lambda>buf. ret (Inr buf)))) []"

definition grep_main :: "bytes list \<Rightarrow> ('a, 'z uproc_scheme) kern" where
  "grep_main argv =
     (if length argv \<le> 1 then sq (fprintf 2 (str ''usage: grep pattern [file ...]'' @ nl) []) (u_exit 1)
      else let pattern = argv ! 1 in
        if length argv \<le> 2 then sq (grep pattern 0) (u_exit 0)
        else sq (for_args (drop 2 argv) (\<lambda>a.
          bnd (sys (SysOpen a 0)) (\<lambda>fd.
          if fd < 0 then sq (u_printf (str ''grep: cannot open %s'' @ nl) [AStr (Some a)]) (u_exit 1)
          else sq (grep pattern fd) (call (SysClose fd)))))
        (u_exit 0))"

subsection \<open>What a pattern means\<close>

text \<open>A pattern is a sequence of items: a character, any number of a character, or the end of the text.\<close>

datatype item = One u8 | Star u8 | End

fun items :: "bytes \<Rightarrow> item list" where
  "items [] = []"
| "items (c # re) =
     (if re \<noteq> [] \<and> hd re = 42 then Star c # items (tl re)
      else if c = 36 \<and> re = [] then [End]
      else One c # items re)"

text \<open>\<open>takes is t r\<close>: the items match the front of \<open>t\<close> and leave \<open>r\<close>. A dot stands for every character.\<close>

definition stands :: "u8 \<Rightarrow> u8 \<Rightarrow> bool" where
  "stands c x \<longleftrightarrow> c = 46 \<or> c = x"

inductive takes :: "item list \<Rightarrow> bytes \<Rightarrow> bytes \<Rightarrow> bool" where
  takes_Nil: "takes [] t t"
| takes_One: "stands c x \<Longrightarrow> takes is t r \<Longrightarrow> takes (One c # is) (x # t) r"
| takes_Star: "list_all (stands c) u \<Longrightarrow> takes is t r \<Longrightarrow> takes (Star c # is) (u @ t) r"
| takes_End: "takes is [] r \<Longrightarrow> takes (End # is) [] r"

inductive_simps takes_Nil_iff [simp]: "takes [] t r"
inductive_simps takes_One_iff: "takes (One c # is) t r"
inductive_simps takes_Star_iff: "takes (Star c # is) t r"
inductive_simps takes_End_iff: "takes (End # is) t r"

definition matches :: "bytes \<Rightarrow> bytes \<Rightarrow> bool" where
  "matches re text \<longleftrightarrow>
     (if char0 re = 94 then \<exists>r. takes (items (tl re)) text r else \<exists>u v r. text = u @ v \<and> takes (items re) v r)"

lemma takes_Star_step:
  "(\<exists>r. takes (Star c # is) t r) \<longleftrightarrow> (\<exists>r. takes is t r) \<or> (\<exists>x t'. t = x # t' \<and> stands c x \<and> (\<exists>r. takes (Star c # is) t' r))"
proof
  assume "\<exists>r. takes (Star c # is) t r"
  then obtain r u v where t: "t = u @ v" "list_all (stands c) u" "takes is v r" by (auto simp: takes_Star_iff)
  then show "(\<exists>r. takes is t r) \<or> (\<exists>x t'. t = x # t' \<and> stands c x \<and> (\<exists>r. takes (Star c # is) t' r))"
    by (cases u) (auto intro: takes_Star)
next
  assume "(\<exists>r. takes is t r) \<or> (\<exists>x t'. t = x # t' \<and> stands c x \<and> (\<exists>r. takes (Star c # is) t' r))"
  then show "\<exists>r. takes (Star c # is) t r"
  proof (elim disjE exE conjE)
    fix r assume "takes is t r"
    then show ?thesis using takes_Star [of c "[]"] by auto
  next
    fix x t' r assume t: "t = x # t'" "stands c x" "takes (Star c # is) t' r"
    then obtain u v where "t' = u @ v" "list_all (stands c) u" "takes is v r" by (auto simp: takes_Star_iff)
    then show ?thesis using takes_Star [of c "x # u" "is" v r] t by auto
  qed
qed

lemma ex_takes:
  "Ex (takes (One c # is) t) \<longleftrightarrow> t \<noteq> [] \<and> stands c (hd t) \<and> Ex (takes is (tl t))"
  "Ex (takes (End # is) t) \<longleftrightarrow> t = [] \<and> Ex (takes is [])"
  "Ex (takes [] t)"
  by (cases t; auto simp: takes_One_iff takes_End_iff intro: takes_Nil)+

lemma matchhere_takes:
  "0 \<notin> set re \<Longrightarrow> 0 \<notin> set tx \<Longrightarrow> matchhere re tx \<longleftrightarrow> (\<exists>r. takes (items re) tx r)"
  and "0 \<notin> set re \<Longrightarrow> 0 \<notin> set tx \<Longrightarrow> matchstar c re tx \<longleftrightarrow> (\<exists>r. takes (Star c # items re) tx r)"
proof (induction re tx and c re tx rule: matchhere_matchstar.induct)
  case (1 re tx)
  show ?case
  proof (cases re)
    case Nil
    then show ?thesis by (subst matchhere.simps) (simp add: char0_def ex_takes)
  next
    case (Cons c re')
    then have c: "char0 re = c" "c \<noteq> 0" "char1 re = char0 re'" using 1 by (auto simp: char0_def char1_def)
    show ?thesis
    proof (cases "char0 re' = 42")
      case True
      then show ?thesis using 1 Cons c by (subst matchhere.simps) (auto simp: char0_def split: list.splits)
    next
      case False
      then have it: "items re = (if c = 36 \<and> re' = [] then [End] else One c # items re')" "char0 re' = 0 \<longleftrightarrow> re' = []"
        using Cons 1 by (auto simp: char0_def split: list.splits)
      have tx: "char0 tx = 0 \<longleftrightarrow> tx = []" "tx \<noteq> [] \<Longrightarrow> char0 tx = hd tx" using 1 by (auto simp: char0_def split: list.splits)
      have ztl: "0 \<notin> set (tl tx)" using 1 by (cases tx) simp_all
      have IH: "matchhere re' (tl tx) \<longleftrightarrow> Ex (takes (items re') (tl tx))"
        if "\<not> (c = 36 \<and> re' = [])" "tx \<noteq> []" "c = 46 \<or> c = hd tx"
      proof -
        have re': "tl re = re'" "0 \<notin> set (tl re)" using Cons 1 by simp_all
        show ?thesis unfolding re'(1) [symmetric] by (rule "1.IH"(2)) (use that c False it(2) tx ztl re' in auto)
      qed
      have "matchhere re tx \<longleftrightarrow> (if c = 36 \<and> re' = [] then tx = [] else tx \<noteq> [] \<and> (c = 46 \<or> c = hd tx) \<and> matchhere re' (tl tx))"
        using c False it(2) tx Cons by (subst matchhere.simps) auto
      then show ?thesis using IH unfolding it by (auto simp: ex_takes stands_def)
    qed
  qed
next
  case (2 c re tx)
  then show ?case unfolding takes_Star_step [of c "items re" tx]
    by (subst matchstar.simps) (cases tx; auto simp: char0_def stands_def)
qed

lemma match_any_takes: "0 \<notin> set re \<Longrightarrow> 0 \<notin> set t \<Longrightarrow> match_any re t \<longleftrightarrow> (\<exists>u v r. t = u @ v \<and> takes (items re) v r)"
proof (induction t)
  case Nil
  then show ?case by (simp add: matchhere_takes(1))
next
  case (Cons c t)
  have "(\<exists>u v. c # t = u @ v \<and> Q v) \<longleftrightarrow> Q (c # t) \<or> (\<exists>u v. t = u @ v \<and> Q v)" for Q
    by (metis append_Cons append_Nil list.exhaust list.inject)
  from this [of "\<lambda>v. \<exists>r. takes (items re) v r"] show ?case using Cons by (simp add: matchhere_takes(1))
qed

text \<open>
  C29: The matcher of \<open>grep\<close> decides matching. For every pattern and text without a NUL, \<open>match\<close>, with its
  backtracking through \<open>matchhere\<close> and \<open>matchstar\<close>, is true exactly when the items of the pattern match a part of
  the text in the declarative sense: at the start of the text when the pattern begins with a caret, anywhere
  otherwise, a star taking any number of its characters.
\<close>

theorem match_correct:
  assumes "0 \<notin> set re" and "0 \<notin> set t"
  shows "match re t \<longleftrightarrow> matches re t"
proof -
  have "0 \<notin> set (tl re)" using assms(1) by (cases re) simp_all
  then show ?thesis using assms by (simp add: match_def matches_def matchhere_takes(1) match_any_takes)
qed

theorem match_correct_witness: "match (str ''^a.*c$'') (str ''abbc'') \<longleftrightarrow> matches (str ''^a.*c$'') (str ''abbc'')"
  by (rule match_correct) (simp_all add: str_def)

subsection \<open>What \<open>grep\<close> prints\<close>

text \<open>Lines as they are in a file, and the unfinished line at the end of some text.\<close>

definition lined :: "bytes list \<Rightarrow> bytes" where
  "lined xs = concat (map (\<lambda>l. l @ [10]) xs)"

lemma lined_simps [simp]: "lined [] = []" "lined (l # xs) = l @ 10 # lined xs" "lined (xs @ ys) = lined xs @ lined ys"
  by (simp_all add: lined_def)

definition unfinished :: "bytes \<Rightarrow> bytes" where
  "unfinished bs = rev (takeWhile (\<lambda>c. c \<noteq> 10) (rev bs))"

lemma unfinished_lined: "10 \<notin> set r \<Longrightarrow> unfinished (lined xs @ r) = r"
proof -
  assume "10 \<notin> set r"
  then have "takeWhile (\<lambda>c. c \<noteq> 10) (rev r @ ys) = rev r @ takeWhile (\<lambda>c. c \<noteq> 10) ys" for ys
    by (intro takeWhile_append2) auto
  moreover have "takeWhile (\<lambda>c. c \<noteq> 10) (rev (lined xs)) = []" by (cases xs rule: rev_cases) simp_all
  ultimately show ?thesis by (simp add: unfinished_def)
qed

lemma split_at_first: "u @ c # v = l @ c # w \<Longrightarrow> c \<notin> set u \<Longrightarrow> c \<notin> set l \<Longrightarrow> u = l \<and> v = w"
proof (induction u arbitrary: l)
  case Nil
  then show ?case by (cases l) auto
next
  case (Cons a u)
  then show ?case by (cases l) auto
qed

text \<open>A piece of a text that consists of lines is some lines and the beginning of the next one.\<close>

lemma lined_piece:
  assumes "p @ q = lined xs" and "\<forall>l\<in>set xs. 10 \<notin> set l"
  shows "\<exists>ys zs r. xs = ys @ zs \<and> p = lined ys @ r \<and> 10 \<notin> set r \<and> r @ q = lined zs"
  using assms
proof (induction xs arbitrary: p)
  case Nil
  then show ?case by simp
next
  case (Cons l xs)
  show ?case
  proof (cases "10 \<in> set p")
    case False
    then show ?thesis using Cons.prems by (intro exI [of _ "[]"] exI [of _ "l # xs"] exI [of _ p]) simp
  next
    case True
    then obtain u v where p: "p = u @ 10 # v" "10 \<notin> set u" by (meson split_list_first)
    then have "u = l \<and> v @ q = lined xs" using Cons.prems by (intro split_at_first [of _ 10]) simp_all
    then obtain ys zs r where "xs = ys @ zs" "v = lined ys @ r" "10 \<notin> set r" "r @ q = lined zs" "u = l"
      using Cons.IH [of v] Cons.prems(2) by auto
    then show ?thesis using p by (intro exI [of _ "l # ys"] exI [of _ zs] exI [of _ r]) simp
  qed
qed

lemma strchr_line: "0 \<notin> set l \<Longrightarrow> 10 \<notin> set l \<Longrightarrow> strchr (l @ 10 # p) 10 = Some (length l)" "0 \<notin> set l \<Longrightarrow> 10 \<notin> set l \<Longrightarrow> strchr l 10 = None"
  by (induction l) auto

text \<open>
  \<open>filters fd seen inp outs r\<close>: whatever the kernel does within its contract, the run \<open>r\<close> returns, after it has read
  the input \<open>inp\<close> from descriptor \<open>fd\<close> to the end and written the strings \<open>outs\<close>, in this order, to descriptor 1, and
  it makes no other system call. A read of a positive number of bytes delivers at least one and at most that many
  of the next bytes of the input, as many as the kernel likes, and nothing only at the end of the input; a write
  may have any result. Each read asks for exactly the room that is left in the 1024 characters of \<open>buf\<close>, of which
  the unfinished line at the end of the input \<open>seen\<close> so far and the final NUL take up some.
\<close>

inductive filters :: "int \<Rightarrow> bytes \<Rightarrow> bytes \<Rightarrow> bytes list \<Rightarrow> (unit, 'z uproc_scheme) outcome \<Rightarrow> bool" for fd where
  filters_return: "filters fd seen [] [] (Ok () s)"
| filters_eof: "u_call s = SysRead fd n \<Longrightarrow> 0 < n \<Longrightarrow> n = 1023 - int (length (unfinished seen)) \<Longrightarrow>
    filters fd seen [] outs (k (s\<lparr>u_ret := 0, u_out := []\<rparr>)) \<Longrightarrow> filters fd seen [] outs (Wait w s k)"
| filters_read: "u_call s = SysRead fd n \<Longrightarrow> 0 < n \<Longrightarrow> n = 1023 - int (length (unfinished seen)) \<Longrightarrow> inp \<noteq> [] \<Longrightarrow>
    (\<And>r. 1 \<le> r \<Longrightarrow> int r \<le> n \<Longrightarrow> r \<le> length inp \<Longrightarrow>
      filters fd (seen @ take r inp) (drop r inp) outs (k (s\<lparr>u_ret := int r, u_out := take r inp\<rparr>))) \<Longrightarrow>
    filters fd seen inp outs (Wait w s k)"
| filters_write: "u_call s = SysWrite 1 bs \<Longrightarrow> (\<And>r out. filters fd seen inp outs (k (s\<lparr>u_ret := r, u_out := out\<rparr>))) \<Longrightarrow>
    filters fd seen inp (bs # outs) (Wait w s k)"

definition grep_round :: "bytes \<Rightarrow> int \<Rightarrow> bytes \<Rightarrow> (unit + bytes, 'z uproc_scheme) kern" where
  "grep_round pat fd buf =
     bnd (sys_out (SysRead fd (1023 - int (length buf)))) (\<lambda>(n, out).
     if n \<le> 0 then ret (Inl ()) else bnd (grep_lines pat (buf @ take (nat n) out)) (\<lambda>buf. ret (Inr buf)))"

lemma grep_rounds: "grep pat fd = loopM (grep_round pat fd) []"
  by (simp add: grep_def grep_round_def [abs_def])

lemma polls_grep_round: "polls (grep_round pat fd)"
  unfolding grep_round_def [abs_def] by (rule polls_sys_out)

text \<open>The inner loop writes the lines that match; \<open>C\<close> is what the program does with its outcome.\<close>

lemma grep_lines_filters:
  assumes C: "\<And>w s k. C (Wait w s k) = Wait w s (\<lambda>u. C (k u))" and fin: "\<And>s. filters fd seen inp outs (C (Ok r s))"
    and ys: "\<forall>l\<in>set ys. 10 \<notin> set l \<and> 0 \<notin> set l" and r: "10 \<notin> set r" "0 \<notin> set r"
  shows "filters fd seen inp (map (\<lambda>l. l @ [10]) (filter (match pat) ys) @ outs) (C (grep_lines pat (lined ys @ r) s))"
  using ys
proof (induction ys arbitrary: s)
  case Nil
  have "grep_lines pat r s = Ok r s" by (subst grep_lines.simps) (simp add: strchr_line r run_simps)
  then show ?case using fin by simp
next
  case (Cons l ys)
  have "grep_lines pat (lined (l # ys) @ r) s = (if match pat l
      then Switched (s\<lparr>u_call := SysWrite 1 (l @ [10])\<rparr>) (grep_lines pat (lined ys @ r)) else grep_lines pat (lined ys @ r) s)"
    using Cons.prems by (subst grep_lines.simps) (auto simp: strchr_line whenM_def call_def sys_def sys_out_def run_simps)
  then show ?case using Cons by (auto simp: C intro: filters_write)
qed

lemma lined_room: "buf @ inp = lined xs \<Longrightarrow> 10 \<notin> set buf \<Longrightarrow> buf = [] \<or> (\<exists>l\<in>set xs. length buf \<le> length l)"
proof (cases xs)
  case (Cons l ys)
  assume b: "buf @ inp = lined xs" "10 \<notin> set buf"
  have "\<not> length l < length buf"
  proof
    assume "length l < length buf"
    then have "(buf @ inp) ! length l \<in> set buf" by (simp add: nth_append)
    then show False using b by (simp add: Cons)
  qed
  then show ?thesis by (auto simp: Cons)
qed simp

lemma unfinished_append: "unfinished (x @ y) = unfinished (unfinished x @ y)"
proof (cases "10 \<in> set y")
  case True
  then have "takeWhile (\<lambda>c. c \<noteq> 10) (rev y @ z) = takeWhile (\<lambda>c. c \<noteq> 10) (rev y)" for z
    by (intro takeWhile_append1 [of 10]) auto
  then show ?thesis by (simp add: unfinished_def)
next
  case False
  then have "takeWhile (\<lambda>c. c \<noteq> 10) (rev y @ z) = rev y @ takeWhile (\<lambda>c. c \<noteq> 10) z" for z
    by (intro takeWhile_append2) auto
  then show ?thesis by (simp add: unfinished_def takeWhile_idem)
qed

lemma grep_loop_filters:
  assumes "buf @ inp = lined xs" and "10 \<notin> set buf" and "unfinished seen = buf"
    and "\<forall>l\<in>set xs. 10 \<notin> set l \<and> 0 \<notin> set l \<and> length l < 1023"
  shows "filters fd seen inp (map (\<lambda>l. l @ [10]) (filter (match pat) xs)) (loopM (grep_round pat fd) buf s)"
  using assms
proof (induction "length inp" arbitrary: buf inp xs seen s rule: less_induct)
  case less
  let ?b = "grep_round pat fd :: bytes \<Rightarrow> (unit + bytes, 'a uproc_scheme) kern"
  let ?s = "s\<lparr>u_call := SysRead fd (1023 - int (length buf))\<rparr>"
  let ?k = "\<lambda>t. loop_from ?b (if u_ret t \<le> 0 then Ok (Inl ()) t
      else andthen (grep_lines pat (buf @ take (nat (u_ret t)) (u_out t)) t) (\<lambda>buf. Ok (Inr buf)))"
  have run: "loopM ?b buf s = Switched ?s ?k"
    by (simp add: loopM_def grep_round_def sys_out_def bnd_def ret_def loop_from_simps(3) if_distrib [of "\<lambda>m. m _"] cong: if_cong)
  have room: "length buf < 1023"
    using lined_room [OF less.prems(1,2)] less.prems(4) by auto
  show ?case
  proof (cases "inp = []")
    case True
    then have "xs = []" using less.prems(1,2) by (cases xs) auto
    then show ?thesis unfolding run using True less.prems(3) room
      by (auto intro!: filters_eof simp: loop_from_simps(1) intro: filters_return)
  next
    case False
    show ?thesis unfolding run
    proof (rule filters_read [OF _ _ _ False])
      fix r assume r: "1 \<le> r" "r \<le> length inp"
      have "(buf @ take r inp) @ drop r inp = lined xs" "\<forall>l\<in>set xs. 10 \<notin> set l" using less.prems(1,4) by auto
      then obtain ys zs q where s: "xs = ys @ zs" "buf @ take r inp = lined ys @ q" "10 \<notin> set q" "q @ drop r inp = lined zs"
        using lined_piece by blast
      have "0 \<notin> set (lined zs)" using less.prems(4) s(1) by (auto simp: lined_def)
      then have q0: "0 \<notin> set q" by (metis s(4) UnCI set_append)
      have "unfinished (seen @ take r inp) = q"
        using less.prems(3) s(2,3) by (simp add: unfinished_append [of seen] unfinished_lined)
      then have "filters fd (seen @ take r inp) (drop r inp) (map (\<lambda>l. l @ [10]) (filter (match pat) zs)) (loopM ?b q t)" for t
        using less.hyps [of "drop r inp" q zs "seen @ take r inp" t] r s False less.prems(4) by auto
      then have "filters fd (seen @ take r inp) (drop r inp) (map (\<lambda>l. l @ [10]) (filter (match pat) ys) @ map (\<lambda>l. l @ [10]) (filter (match pat) zs))
          (loop_from ?b (andthen (grep_lines pat (lined ys @ q) t) (\<lambda>buf. Ok (Inr buf))))" for t
        by (intro grep_lines_filters [where C = "\<lambda>x. loop_from ?b (andthen x (\<lambda>buf. Ok (Inr buf)))"])
          (use s q0 less.prems(4) in \<open>auto simp: loop_from_simps(3) loop_next polls_grep_round\<close>)
      then show "filters fd (seen @ take r inp) (drop r inp) (map (\<lambda>l. l @ [10]) (filter (match pat) xs))
          (?k (?s\<lparr>u_ret := int r, u_out := take r inp\<rparr>))" using r s(1,2) by simp
    qed (use room less.prems(3) in auto)
  qed
qed

text \<open>
  C30: \<open>grep\<close> prints exactly the lines that match. If the input consists of lines of less than 1023 characters without a
  NUL, then, in whatever pieces the kernel delivers it and whatever the writes return, \<open>grep\<close> reads all of the
  input from the given descriptor and returns, and what it writes to its output is, in order, the lines that
  \<open>match\<close> accepts, each once and complete, also when a line arrives in several pieces. No read can overflow the buffer.
\<close>

theorem grep_prints_matches:
  assumes "\<forall>l\<in>set xs. 10 \<notin> set l \<and> 0 \<notin> set l \<and> length l < 1023"
  shows "filters fd [] (lined xs) (map (\<lambda>l. l @ [10]) (filter (match pat) xs)) (grep pat fd s)"
  unfolding grep_rounds by (rule grep_loop_filters) (use assms in \<open>auto simp: unfinished_def\<close>)

theorem grep_prints_matches_witness:
  "filters 3 [] (str ''ab'' @ nl @ str ''cd'' @ nl) [str ''ab'' @ nl] (grep (str ''b'') 3 \<lparr>u_call = SysGetpid, u_ret = 0, u_out = []\<rparr>)"
proof -
  let ?xs = "[str ''ab'', str ''cd'']"
  have "match (str ''b'') (str ''ab'')" "\<not> match (str ''b'') (str ''cd'')" by code_simp+
  then show ?thesis using grep_prints_matches [of ?xs 3 "str ''b''", where 'a = unit]
    by (simp add: str_def)
qed

end
