(* ===== verification/Grind.thy ===== *)
theory Grind
  imports Utils
begin

text \<open>
  \<open>user/grind.c\<close>: processes that make random system calls for ever. The state has the program's two static variables,
  the generator \<open>rand_next\<close> and the buffer of \<open>go\<close>.
\<close>

record grind = uproc +
  rand_next :: u64
  grind_buf :: bytes

abbreviation (input) RAND_MAX1 :: int where "RAND_MAX1 \<equiv> 0x7fffffff"

text \<open>The generator, with the 64-bit \<open>long\<close> values as integers: none of them overflows.\<close>

definition do_rand :: "u64 \<Rightarrow> int" where
  "do_rand ctx =
     (let x = uint (ctx mod 0x7ffffffe) + 1;
          hi = x div 127773;
          lo = x mod 127773;
          x = 16807 * lo - 2836 * hi;
          x = if x < 0 then x + RAND_MAX1 else x in
      x - 1)"

definition rand :: "(int, 'z grind_scheme) kern" where
  "rand =
     bnd (gets (\<lambda>s. do_rand (rand_next s))) (\<lambda>x.
     sq (modify (\<lambda>s. s\<lparr>rand_next := word_of_int x\<rparr>)) (
     ret x))"

definition die :: "int \<Rightarrow> string \<Rightarrow> ('a, 'z uproc_scheme) kern" where
  "die st msg = sq (u_printf (str msg @ nl) []) (u_exit st)"

definition die2 :: "int \<Rightarrow> string \<Rightarrow> ('a, 'z uproc_scheme) kern" where
  "die2 st msg = sq (fprintf 2 (str msg @ nl) []) (u_exit st)"

definition touch :: "string \<Rightarrow> (unit, 'z uproc_scheme) kern" where
  "touch path = bnd (sys (SysOpen (str path) 0x202)) (\<lambda>fd. call (SysClose fd))"

definition unlink :: "string \<Rightarrow> (unit, 'z uproc_scheme) kern" where
  "unlink path = call (SysUnlink (str path))"

text \<open>\<open>fork\<close>, with what the child does before it exits and what the parent does before it waits.\<close>

definition fork_child :: "(unit, 'z uproc_scheme) kern \<Rightarrow> (int \<Rightarrow> (unit, 'z uproc_scheme) kern) \<Rightarrow> (unit, 'z uproc_scheme) kern" where
  "fork_child child parent =
     bnd (sys SysFork) (\<lambda>pid.
     if pid = 0 then sq child (u_exit 0)
     else if pid < 0 then die 1 ''grind: fork failed''
     else sq (parent pid) (call SysWait))"

subsection \<open>The cases of \<open>go\<close>\<close>

definition go_19 :: "(unit, 'z uproc_scheme) kern" where
  "go_19 =
     bnd (sys_out SysPipe) (\<lambda>(r, out).
     if r < 0 then die 1 ''grind: pipe failed''
     else let f0 = int_at 0 out; f1 = int_at 4 out in
       fork_child (
         sq (call SysFork) (
         sq (call SysFork) (
         bnd (sys (SysWrite f1 (str ''x''))) (\<lambda>w.
         sq (whenM (w \<noteq> 1) (u_printf (str ''grind: pipe write failed'' @ nl) [])) (
         bnd (sys (SysRead f0 1)) (\<lambda>r.
         whenM (r \<noteq> 1) (u_printf (str ''grind: pipe read failed'' @ nl) [])))))))
       (\<lambda>_. sq (call (SysClose f0)) (call (SysClose f1))))"

definition go_21 :: "(unit, 'z uproc_scheme) kern" where
  "go_21 =
     sq (unlink ''c'') (
     bnd (sys (SysOpen (str ''c'') 0x202)) (\<lambda>fd1.
     if fd1 < 0 then die 1 ''grind: create c failed''
     else bnd (sys (SysWrite fd1 (str ''x''))) (\<lambda>w.
     if w \<noteq> 1 then die 1 ''grind: write c failed''
     else bnd (sys_out (SysFstat fd1)) (\<lambda>(r, st).
     if r \<noteq> 0 then die 1 ''grind: fstat failed''
     else if stat_size st \<noteq> 1 then
       sq (u_printf (str ''grind: fstat reports wrong size %d'' @ nl) [AInt (ucast (stat_size st))]) (u_exit 1)
     else if stat_ino st > 200 then
       sq (u_printf (str ''grind: fstat reports crazy i-number %d'' @ nl) [AInt (stat_ino st)]) (u_exit 1)
     else sq (call (SysClose fd1))
             (unlink ''c'')))))"

text \<open>\<open>echo hi | cat\<close>: the two children, and the parent, which reads three characters one by one.\<close>

definition go_22_echo :: "int \<times> int \<Rightarrow> int \<times> int \<Rightarrow> (unit, 'z uproc_scheme) kern" where
  "go_22_echo aa bb =
     sq (call (SysClose (fst bb))) (
     sq (call (SysClose (snd bb))) (
     sq (call (SysClose (fst aa))) (
     sq (call (SysClose 1)) (
     bnd (sys (SysDup (snd aa))) (\<lambda>d.
     if d \<noteq> 1 then die2 1 ''grind: dup failed''
     else sq (call (SysClose (snd aa))) (
     sq (call (SysExec (str ''grindir/../echo'') [str ''echo'', str ''hi'']))
        (die2 2 ''grind: echo: not found'')))))))"

definition go_22_cat :: "int \<times> int \<Rightarrow> int \<times> int \<Rightarrow> (unit, 'z uproc_scheme) kern" where
  "go_22_cat aa bb =
     sq (call (SysClose (snd aa))) (
     sq (call (SysClose (fst bb))) (
     sq (call (SysClose 0)) (
     bnd (sys (SysDup (fst aa))) (\<lambda>d.
     if d \<noteq> 0 then die2 4 ''grind: dup failed''
     else sq (call (SysClose (fst aa))) (
     sq (call (SysClose 1)) (
     bnd (sys (SysDup (snd bb))) (\<lambda>d.
     if d \<noteq> 1 then die2 5 ''grind: dup failed''
     else sq (call (SysClose (snd bb))) (
     sq (call (SysExec (str ''/cat'') [str ''cat'']))
        (die2 6 ''grind: cat: not found''))))))))) "

text \<open>A read into one character of a buffer, which stays 0 when nothing is read; \<open>j1\<close> and \<open>j2\<close> are what \<open>st1\<close> and \<open>st2\<close> hold before.\<close>

definition read1 :: "int \<Rightarrow> (u8, 'z uproc_scheme) kern" where
  "read1 fd = bnd (sys_out (SysRead fd 1)) (\<lambda>(r, out). ret (char0 out))"

definition wait_status :: "int \<Rightarrow> (int, 'z uproc_scheme) kern" where
  "wait_status st = bnd (sys_out SysWait) (\<lambda>(r, out). ret (if r < 0 then st else int_at 0 out))"

definition go_22 :: "int \<Rightarrow> int \<Rightarrow> (unit, 'z uproc_scheme) kern" where
  "go_22 j1 j2 =
     bnd (sys_out SysPipe) (\<lambda>(r, out).
     if r < 0 then die2 1 ''grind: pipe failed''
     else let aa = (int_at 0 out, int_at 4 out) in
     bnd (sys_out SysPipe) (\<lambda>(r, out).
     if r < 0 then die2 1 ''grind: pipe failed''
     else let bb = (int_at 0 out, int_at 4 out) in
     bnd (sys SysFork) (\<lambda>pid1.
     if pid1 = 0 then go_22_echo aa bb
     else if pid1 < 0 then die2 3 ''grind: fork failed''
     else bnd (sys SysFork) (\<lambda>pid2.
     if pid2 = 0 then go_22_cat aa bb
     else if pid2 < 0 then die2 7 ''grind: fork failed''
     else sq (call (SysClose (fst aa))) (
     sq (call (SysClose (snd aa))) (
     sq (call (SysClose (snd bb))) (
     bnd (read1 (fst bb)) (\<lambda>b0.
     bnd (read1 (fst bb)) (\<lambda>b1.
     bnd (read1 (fst bb)) (\<lambda>b2.
     sq (call (SysClose (fst bb))) (
     bnd (wait_status j1) (\<lambda>st1.
     bnd (wait_status j2) (\<lambda>st2.
     let buf = cstring [b0, b1, b2] in
     if st1 \<noteq> 0 \<or> st2 \<noteq> 0 \<or> u_strcmp buf (str ''hi'' @ nl) \<noteq> 0 then
       sq (u_printf (str ''grind: exec pipeline failed %d %d '' @ [34] @ str ''%s'' @ [34] @ nl)
             [AInt (word_of_int st1), AInt (word_of_int st2), AStr (Some buf)])
          (u_exit 1)
     else ret ())))))))))))))"

text \<open>One round of \<open>go\<close>; \<open>fd\<close> is the descriptor that the round before left, and so is the result.\<close>

definition go_case :: "int \<Rightarrow> int \<Rightarrow> int \<Rightarrow> int \<Rightarrow> int \<Rightarrow> (int, 'z grind_scheme) kern" where
  "go_case break0 j1 j2 what fd =
     (if what = 1 then sq (touch ''grindir/../a'') (ret fd)
      else if what = 2 then sq (touch ''grindir/../grindir/../b'') (ret fd)
      else if what = 3 then sq (unlink ''grindir/../a'') (ret fd)
      else if what = 4 then
        bnd (sys (SysChdir (str ''grindir''))) (\<lambda>r.
        if r \<noteq> 0 then die 1 ''grind: chdir grindir failed''
        else sq (unlink ''../b'') (sq (call (SysChdir (str ''/''))) (ret fd)))
      else if what = 5 then sq (call (SysClose fd)) (sys (SysOpen (str ''/grindir/../a'') 0x202))
      else if what = 6 then sq (call (SysClose fd)) (sys (SysOpen (str ''/./grindir/./../b'') 0x202))
      else if what = 7 then bnd (gets grind_buf) (\<lambda>buf. sq (call (SysWrite fd buf)) (ret fd))
      else if what = 8 then
        bnd (sys_out (SysRead fd 999)) (\<lambda>(r, out).
        sq (modify (\<lambda>s. s\<lparr>grind_buf := out @ drop (length out) (grind_buf s)\<rparr>)) (ret fd))
      else if what = 9 then
        sq (call (SysMkdir (str ''grindir/../a''))) (sq (touch ''a/../a/./a'') (sq (unlink ''a/a'') (ret fd)))
      else if what = 10 then
        sq (call (SysMkdir (str ''/../b''))) (sq (touch ''grindir/../b/b'') (sq (unlink ''b/b'') (ret fd)))
      else if what = 11 then
        sq (unlink ''b'') (sq (call (SysLink (str ''../grindir/./../a'') (str ''../b''))) (ret fd))
      else if what = 12 then
        sq (unlink ''../grindir/../a'') (sq (call (SysLink (str ''.././b'') (str ''/grindir/../a''))) (ret fd))
      else if what = 13 then sq (fork_child (ret ()) (\<lambda>_. ret ())) (ret fd)
      else if what = 14 then sq (fork_child (sq (call SysFork) (call SysFork)) (\<lambda>_. ret ())) (ret fd)
      else if what = 15 then sq (call (SysSbrk 6011)) (ret fd)
      else if what = 16 then
        bnd (sys (SysSbrk 0)) (\<lambda>b.
        sq (whenM (b > break0) (bnd (sys (SysSbrk 0)) (\<lambda>b. call (SysSbrk (sint (word_of_int (- (b - break0)) :: u32)))))) (ret fd))
      else if what = 17 then
        sq (fork_child (touch ''a'') (\<lambda>pid.
          bnd (sys (SysChdir (str ''../grindir/..''))) (\<lambda>r.
          if r \<noteq> 0 then die 1 ''grind: chdir failed'' else call (SysKill pid)))) (ret fd)
      else if what = 18 then
        sq (fork_child (bnd (sys SysGetpid) (\<lambda>p. call (SysKill p))) (\<lambda>_. ret ())) (ret fd)
      else if what = 19 then sq go_19 (ret fd)
      else if what = 20 then
        sq (fork_child (
          sq (unlink ''a'') (
          sq (call (SysMkdir (str ''a''))) (
          sq (call (SysChdir (str ''a''))) (
          sq (unlink ''../a'') (
          sq (call (SysOpen (str ''x'') 0x202))
             (unlink ''x'')))))) (\<lambda>_. ret ())) (ret fd)
      else if what = 21 then sq go_21 (ret fd)
      else if what = 22 then sq (go_22 j1 j2) (ret fd)
      else ret fd)"

definition go :: "int \<Rightarrow> int \<Rightarrow> int \<Rightarrow> (unit, 'z grind_scheme) kern" where
  "go j1 j2 which_child =
     bnd (sys (SysSbrk 0)) (\<lambda>break0.
     sq (call (SysMkdir (str ''grindir''))) (
     bnd (sys (SysChdir (str ''grindir''))) (\<lambda>r.
     if r \<noteq> 0 then die 1 ''grind: chdir grindir failed''
     else sq (call (SysChdir (str ''/''))) (
     loopM (\<lambda>(iters :: u64, fd).
       let iters = iters + 1 in
       sq (whenM (iters mod 500 = 0) (call (SysWrite 1 (if which_child \<noteq> 0 then str ''B'' else str ''A'')))) (
       bnd rand (\<lambda>x.
       bnd (go_case break0 j1 j2 (x mod 23) fd) (\<lambda>fd.
       ret (Inr (iters, fd)))))) (0, -1)))))"

definition iter :: "int \<Rightarrow> int \<Rightarrow> (unit, 'z grind_scheme) kern" where
  "iter j1 j2 =
     sq (unlink ''a'') (
     sq (unlink ''b'') (
     bnd (sys SysFork) (\<lambda>pid1.
     if pid1 < 0 then die 1 ''grind: fork failed''
     else if pid1 = 0 then
       sq (modify (\<lambda>s. s\<lparr>rand_next := rand_next s XOR 31\<rparr>)) (
       sq (go j1 j2 0) (u_exit 0))
     else bnd (sys SysFork) (\<lambda>pid2.
     if pid2 < 0 then die 1 ''grind: fork failed''
     else if pid2 = 0 then
       sq (modify (\<lambda>s. s\<lparr>rand_next := rand_next s XOR 7177\<rparr>)) (
       sq (go j1 j2 1) (u_exit 0))
     else bnd (wait_status (-1)) (\<lambda>st1.
     sq (whenM (st1 \<noteq> 0) (sq (call (SysKill pid1)) (call (SysKill pid2)))) (
     bnd (wait_status (-1)) (\<lambda>st2.
     u_exit 0)))))))"

definition grind_main :: "int \<Rightarrow> int \<Rightarrow> ('a, 'z grind_scheme) kern" where
  "grind_main j1 j2 = loopM (\<lambda>_ :: unit.
     bnd (sys SysFork) (\<lambda>pid.
     if pid = 0 then sq (iter j1 j2) (u_exit 0)
     else sq (whenM (pid > 0) (call SysWait)) (
       sq (call (SysSleep 20)) (
       sq (modify (\<lambda>s. s\<lparr>rand_next := rand_next s + 1\<rparr>)) (
       ret (Inr ())))))) ()"

subsection \<open>The generator\<close>

text \<open>
  C38: \<open>do_rand\<close> is the generator of Park and Miller. Although it never multiplies two large numbers, it computes
  \<open>7^5 x mod (2^31 - 1)\<close> for the state mapped to the range from 1 to \<open>2^31 - 2\<close>, and its result is in the
  range from 0 to \<open>2^31 - 3\<close>, so that it is also a state.
\<close>

theorem do_rand_park_miller:
  "do_rand ctx = (7 ^ 5 * (uint (ctx mod 0x7ffffffe) + 1)) mod (2 ^ 31 - 1) - 1 \<and> 0 \<le> do_rand ctx \<and> do_rand ctx < 2 ^ 31 - 2"
proof -
  define x where "x = uint (ctx mod 0x7ffffffe) + 1"
  define v where "v = 16807 * (x mod 127773) - 2836 * (x div 127773)"
  have "uint (ctx mod 0x7ffffffe) = uint ctx mod 0x7ffffffe" by (simp add: uint_mod)
  moreover have "0 \<le> uint ctx mod 0x7ffffffe" "uint ctx mod 0x7ffffffe < 0x7ffffffe" by simp_all
  ultimately have x: "0 < x" "x < 2147483647" unfolding x_def by linarith+
  have lo: "0 \<le> x mod 127773" "x mod 127773 < 127773" by simp_all
  have div: "x = 127773 * (x div 127773) + x mod 127773" by simp
  have "16807 * x = 2147483647 * (x div 127773) + v" unfolding v_def using div by linarith
  then have cong: "16807 * x mod 2147483647 = v mod 2147483647" by simp
  have hi: "0 \<le> x div 127773" "x div 127773 \<le> 16807" using x div lo by linarith+
  have "-2147483647 < 16807 * r - 2836 * q \<and> 16807 * r - 2836 * q < 2147483647" if "0 \<le> q" "q \<le> 16807" "0 \<le> r" "r < 127773" for q r :: int
    using that by linarith
  from this [OF hi lo] have "-2147483647 < v \<and> v < 2147483647" unfolding v_def .
  then have v: "-2147483647 < v" "v < 2147483647" by (rule conjunct1, rule conjunct2)
  have "v mod 2147483647 \<noteq> 0"
  proof
    assume "v mod 2147483647 = 0"
    then have "16807 * x mod 2147483647 = 0" using cong by (simp only:)
    then have "2147483647 dvd 16807 * x" by (simp only: dvd_eq_mod_eq_0)
    moreover have "coprime 2147483647 (16807 :: int)" by code_simp
    ultimately have "2147483647 dvd x" by (simp add: coprime_dvd_mult_right_iff)
    then show False using x zdvd_not_zless by blast
  qed
  moreover have "v mod 2147483647 = (if v < 0 then v + 2147483647 else v)"
  proof (cases "v < 0")
    case True
    then have "(v + 2147483647) mod 2147483647 = v + 2147483647" using v by (intro mod_pos_pos_trivial) simp_all
    then show ?thesis using True by simp
  qed (use v in simp)
  moreover have "do_rand ctx = (if v < 0 then v + 2147483647 else v) - 1" by (simp add: do_rand_def Let_def x_def v_def)
  ultimately show ?thesis using cong v unfolding x_def [symmetric] by (auto split: if_splits)
qed

end
