(* ===== verification/Sh.thy ===== *)
theory Sh
  imports Utils
begin

text \<open>
  \<open>user/sh.c\<close>: the shell. A command line is the list of its characters before the NUL, and a \<open>char*\<close> into it is a
  position. The parser returns the tree of the command with the positions of its words, or the message of
  \<open>panic\<close>; \<open>nulterminate\<close> then stores a NUL after every word, and \<open>runcmd\<close> takes the strings out of that line.
  Memory for the tree is assumed to be there.
\<close>

subsection \<open>Tokens\<close>

definition sh_at :: "bytes \<Rightarrow> nat \<Rightarrow> u8" where
  "sh_at l p = (if p < length l then l ! p else 0)"

definition whitespace :: bytes where
  "whitespace = [32, 9, 13, 10, 11]"

definition symbols :: bytes where
  "symbols = str ''<|>&;()''"

definition is_ws :: "u8 \<Rightarrow> bool" where
  "is_ws c \<longleftrightarrow> strchr whitespace c \<noteq> None"

definition is_sym :: "u8 \<Rightarrow> bool" where
  "is_sym c \<longleftrightarrow> strchr symbols c \<noteq> None"

function skip_ws :: "bytes \<Rightarrow> nat \<Rightarrow> nat" where
  "skip_ws l s = (if s < length l \<and> is_ws (sh_at l s) then skip_ws l (Suc s) else s)"
  by pat_completeness auto
termination by (relation "measure (\<lambda>(l, s). length l - s)") auto

function skip_word :: "bytes \<Rightarrow> nat \<Rightarrow> nat" where
  "skip_word l s = (if s < length l \<and> \<not> is_ws (sh_at l s) \<and> \<not> is_sym (sh_at l s) then skip_word l (Suc s) else s)"
  by pat_completeness auto
termination by (relation "measure (\<lambda>(l, s). length l - s)") auto

declare skip_ws.simps [simp del] skip_word.simps [simp del]

text \<open>\<open>gettoken\<close>: the token, where it begins and ends, and the position after the white space that follows.\<close>

definition gettoken :: "bytes \<Rightarrow> nat \<Rightarrow> u8 \<times> nat \<times> nat \<times> nat" where
  "gettoken l p =
     (let q = skip_ws l p; c = sh_at l q;
          (r, eq) =
            (if c = 0 then (0, q)
             else if c \<in> set (str ''|();&<'') then (c, q + 1)
             else if c = ch CHR ''>'' then if sh_at l (q + 1) = ch CHR ''>'' then (ch CHR ''+'', q + 2) else (c, q + 1)
             else (ch CHR ''a'', skip_word l q)) in
      (r, q, eq, skip_ws l eq))"

definition peek :: "bytes \<Rightarrow> nat \<Rightarrow> bytes \<Rightarrow> nat \<times> bool" where
  "peek l p toks = (let s = skip_ws l p in (s, sh_at l s \<noteq> 0 \<and> strchr toks (sh_at l s) \<noteq> None))"

lemma skip_ws_le: "p \<le> skip_ws l p"
  by (induction l p rule: skip_ws.induct) (subst skip_ws.simps, auto)

lemma skip_word_le: "p \<le> skip_word l p"
  by (induction l p rule: skip_word.induct) (subst skip_word.simps, auto)

lemma skip_ws_not_ws: "skip_ws l p < length l \<Longrightarrow> \<not> is_ws (sh_at l (skip_ws l p))"
  by (induction l p rule: skip_ws.induct) (subst (asm) (2) skip_ws.simps, subst skip_ws.simps, auto split: if_splits)

text \<open>Every token but the end of the line is at least one character.\<close>

lemma gettoken_progress:
  assumes "gettoken l p = (r, q, eq, p')"
  shows "p \<le> p'" "r \<noteq> 0 \<Longrightarrow> p < p'" "r \<noteq> 0 \<Longrightarrow> p < length l"
proof -
  have le: "p \<le> skip_ws l p" "eq \<le> skip_ws l eq" by (rule skip_ws_le)+
  have w: "skip_word l (skip_ws l p) \<noteq> skip_ws l p" if "sh_at l (skip_ws l p) \<noteq> 0" "sh_at l (skip_ws l p) \<notin> set (str ''|();&<'')" "sh_at l (skip_ws l p) \<noteq> ch CHR ''>''"
  proof -
    have "skip_ws l p < length l" using that(1) by (auto simp: sh_at_def split: if_splits)
    moreover have "\<not> is_sym (sh_at l (skip_ws l p))" using that by (auto simp: is_sym_def symbols_def str_def split: if_splits)
    ultimately show ?thesis using skip_ws_not_ws [of l p] skip_word_le [of "Suc (skip_ws l p)" l] by (subst skip_word.simps) auto
  qed
  have c: "sh_at l (skip_ws l p) \<noteq> 0 \<Longrightarrow> skip_ws l p < length l" by (auto simp: sh_at_def split: if_splits)
  show "p \<le> p'" "r \<noteq> 0 \<Longrightarrow> p < p'" "r \<noteq> 0 \<Longrightarrow> p < length l"
    using assms le w c skip_word_le [of "skip_ws l p" l] unfolding gettoken_def Let_def by (auto split: if_splits)
qed

lemma peek_progress: "peek l p toks = (s, b) \<Longrightarrow> p \<le> s \<and> (b \<longrightarrow> s < length l)"
  using skip_ws_le [of p l] by (auto simp: peek_def Let_def sh_at_def split: if_splits)

text \<open>A token that \<open>peek\<close> has seen is there to be taken.\<close>

lemma gettoken_peek:
  assumes "peek l p toks = (s, True)" "gettoken l s = (r, q, eq, p')"
  shows "p < p'" "s < p'" "p < length l" "s < length l"
proof -
  have "skip_ws l (skip_ws l p) = skip_ws l p" using skip_ws_not_ws [of l p] by (subst skip_ws.simps) auto
  then have "sh_at l (skip_ws l s) \<noteq> 0" "p \<le> s" "s < length l"
    using assms(1) skip_ws_le [of p l] peek_progress [OF assms(1)] by (auto simp: peek_def Let_def)
  moreover have "r \<noteq> 0" using assms(2) calculation(1) by (auto simp: gettoken_def Let_def str_def split: if_splits)
  ultimately show "p < p'" "s < p'" "p < length l" "s < length l" using gettoken_progress [OF assms(2)] by auto
qed

subsection \<open>The parser\<close>

text \<open>
  The trees that \<open>execcmd\<close>, \<open>redircmd\<close>, \<open>pipecmd\<close>, \<open>listcmd\<close> and \<open>backcmd\<close> construct, over the type of their words. In
  the parser a word is the position where it begins and the one where it ends; a redirection has its mode and its
  descriptor.
\<close>

datatype 'w shcmd =
    ExecCmd "'w list"
  | RedirCmd "'w shcmd" 'w int int
  | PipeCmd "'w shcmd" "'w shcmd"
  | ListCmd "'w shcmd" "'w shcmd"
  | BackCmd "'w shcmd"

type_synonym word_at = "nat \<times> nat"

text \<open>
  The parser may call \<open>panic\<close>, and \<open>parsecmd\<close> prints what is left over of the line before it does. The recursion has
  fuel, and running out of it is a third way to fail.
\<close>

datatype sh_error = ShPanic string | Leftovers nat | OutOfFuel

type_synonym 'a parse = "sh_error + 'a"

definition pbnd :: "'a parse \<Rightarrow> ('a \<Rightarrow> 'b parse) \<Rightarrow> 'b parse" where
  "pbnd r f = (case r of Inl e \<Rightarrow> Inl e | Inr a \<Rightarrow> f a)"

lemma pbnd_simps [simp]: "pbnd (Inl e) f = Inl e" "pbnd (Inr a) f = f a"
  by (simp_all add: pbnd_def)

lemma pbnd_cong [fundef_cong]: "r = r' \<Longrightarrow> (\<And>a. r' = Inr a \<Longrightarrow> f a = g a) \<Longrightarrow> pbnd r f = pbnd r' g"
  by (cases r') auto

text \<open>
  \<open>parseredirs\<close> gives the redirections it found; \<open>redirs\<close> wraps them around a command, the first one innermost. The
  mode of an input redirection is \<open>O_RDONLY\<close>, otherwise the file is written and created, and truncated unless
  the token was \<open>>>\<close>.
\<close>

type_synonym redir = "word_at \<times> int \<times> int"

definition redirs :: "('w \<times> int \<times> int) list \<Rightarrow> 'w shcmd \<Rightarrow> 'w shcmd" where
  "redirs rs c = fold (\<lambda>(w, mode, fd) c. RedirCmd c w mode fd) rs c"

definition redir_of :: "u8 \<Rightarrow> word_at \<Rightarrow> redir" where
  "redir_of tok w =
     (if tok = ch CHR ''<'' then (w, 0, 0)
      else if tok = ch CHR ''>'' then (w, 0x601, 1)
      else (w, 0x201, 1))"

function parseredirs :: "bytes \<Rightarrow> redir list \<Rightarrow> nat \<Rightarrow> (redir list \<times> nat) parse" where
  "parseredirs l rs p =
     (case peek l p (str ''<>'') of (p, b) \<Rightarrow>
      if \<not> b then Inr (rs, p)
      else case gettoken l p of (tok, _, _, p) \<Rightarrow>
        case gettoken l p of (a, q, eq, p) \<Rightarrow>
        if a \<noteq> ch CHR ''a'' then Inl (ShPanic ''missing file for redirection'')
        else parseredirs l (rs @ [redir_of tok (q, eq)]) p)"
  by pat_completeness auto
termination
proof (relation "measure (\<lambda>(l, rs, p). length l - p)", goal_cases)
  case (2 l rs p p1 b tok y1 x1 y2 x2 p2 a y3 q y4 eq p3)
  then have "peek l p (str ''<>'') = (p1, True)" "gettoken l p1 = (tok, x1, x2, p2)" "gettoken l p2 = (a, q, eq, p3)" by auto
  then show ?case using gettoken_peek [of l p] gettoken_progress(1) [of l p2] by fastforce
qed auto

text \<open>The loop of \<open>parseline\<close> over ampersands.\<close>

function parsebacks :: "bytes \<Rightarrow> word_at shcmd \<Rightarrow> nat \<Rightarrow> word_at shcmd \<times> nat" where
  "parsebacks l c p =
     (case peek l p (str ''&'') of (p, b) \<Rightarrow>
      if \<not> b then (c, p)
      else case gettoken l p of (_, _, _, p) \<Rightarrow> parsebacks l (BackCmd c) p)"
  by pat_completeness auto
termination
proof (relation "measure (\<lambda>(l, c, p). length l - p)", goal_cases)
  case (2 l c p p1 b y0 y1 x1 y2 x2 p2)
  then have "peek l p (str ''&'') = (p1, True)" "gettoken l p1 = (y0, x1, x2, p2)" by auto
  then show ?case using gettoken_peek [of l p] by fastforce
qed auto

declare parseredirs.simps [simp del] parsebacks.simps [simp del]

lemma parseredirs_le: "parseredirs l rs p = Inr (rs', p') \<Longrightarrow> p \<le> p'"
proof (induction l rs p rule: parseredirs.induct)
  case (1 l rs p)
  obtain s b where s: "peek l p (str ''<>'') = (s, b)" by (cases "peek l p (str ''<>'')")
  obtain tok x y u where t: "gettoken l s = (tok, x, y, u)" by (cases "gettoken l s")
  obtain a q eq v where v: "gettoken l u = (a, q, eq, v)" by (cases "gettoken l u")
  have "p \<le> s" "s \<le> u" "u \<le> v" using peek_progress [OF s] gettoken_progress(1) [OF t] gettoken_progress(1) [OF v] by auto
  moreover have "v \<le> p'" if "b" "a = ch CHR ''a''"
    using 1(1) [OF s [symmetric] _ t [symmetric] refl refl v [symmetric] refl refl] that 1(2) s t v
    by (simp add: parseredirs.simps [of l rs p])
  ultimately show ?case using 1(2) s t v by (simp add: parseredirs.simps [of l rs p] split: if_splits)
qed

text \<open>
  The loop of \<open>parseexec\<close> over the words, with the words and the redirections found so far. The tenth word does
  not fit.
\<close>

definition MAXARGS :: nat where
  "MAXARGS = 10"

function parseargs :: "bytes \<Rightarrow> word_at list \<Rightarrow> redir list \<Rightarrow> nat \<Rightarrow> ((word_at list \<times> redir list) \<times> nat) parse" where
  "parseargs l ws rs p =
     (case peek l p (str ''|)&;'') of (p, b) \<Rightarrow>
      if b then Inr ((ws, rs), p)
      else case gettoken l p of (tok, q, eq, p) \<Rightarrow>
        if tok = 0 then Inr ((ws, rs), p)
        else if tok \<noteq> ch CHR ''a'' then Inl (ShPanic ''syntax'')
        else if length ws + 1 \<ge> MAXARGS then Inl (ShPanic ''too many args'')
        else pbnd (parseredirs l rs p) (\<lambda>(rs, p). parseargs l (ws @ [(q, eq)]) rs p))"
  by pat_completeness auto
termination
proof (relation "measure (\<lambda>(l, ws, rs, p). length l - p)", goal_cases)
  case (2 l ws rs p p1 b tok y1 q y2 eq p2 a rs' p3)
  then have "p \<le> p1" "gettoken l p1 = (tok, q, eq, p2)" "tok \<noteq> 0" "p2 \<le> p3"
    using peek_progress [of l p "str ''|)&;''" p1 b] parseredirs_le [of l rs p2 rs' p3] by auto
  then show ?case using gettoken_progress(2,3) [of l p1] by fastforce
qed auto

declare parseargs.simps [simp del]

fun parseline :: "nat \<Rightarrow> bytes \<Rightarrow> nat \<Rightarrow> (word_at shcmd \<times> nat) parse"
  and parsepipe :: "nat \<Rightarrow> bytes \<Rightarrow> nat \<Rightarrow> (word_at shcmd \<times> nat) parse"
  and parseexec :: "nat \<Rightarrow> bytes \<Rightarrow> nat \<Rightarrow> (word_at shcmd \<times> nat) parse"
  and parseblock :: "nat \<Rightarrow> bytes \<Rightarrow> nat \<Rightarrow> (word_at shcmd \<times> nat) parse" where
  "parseline 0 l p = Inl OutOfFuel"
| "parseline (Suc n) l p =
     pbnd (parsepipe n l p) (\<lambda>(c, p).
     case parsebacks l c p of (c, p) \<Rightarrow>
     case peek l p (str '';'') of (p, b) \<Rightarrow>
     if b then case gettoken l p of (_, _, _, p) \<Rightarrow> pbnd (parseline n l p) (\<lambda>(d, p). Inr (ListCmd c d, p))
     else Inr (c, p))"
| "parsepipe 0 l p = Inl OutOfFuel"
| "parsepipe (Suc n) l p =
     pbnd (parseexec n l p) (\<lambda>(c, p).
     case peek l p (str ''|'') of (p, b) \<Rightarrow>
     if b then case gettoken l p of (_, _, _, p) \<Rightarrow> pbnd (parsepipe n l p) (\<lambda>(d, p). Inr (PipeCmd c d, p))
     else Inr (c, p))"
| "parseexec 0 l p = Inl OutOfFuel"
| "parseexec (Suc n) l p =
     (case peek l p (str ''('') of (p, b) \<Rightarrow>
      if b then parseblock n l p
      else pbnd (parseredirs l [] p) (\<lambda>(rs, p).
        pbnd (parseargs l [] rs p) (\<lambda>((ws, rs), p). Inr (redirs rs (ExecCmd ws), p))))"
| "parseblock 0 l p = Inl OutOfFuel"
| "parseblock (Suc n) l p =
     (case peek l p (str ''('') of (p, b) \<Rightarrow>
      if \<not> b then Inl (ShPanic ''parseblock'')
      else case gettoken l p of (_, _, _, p) \<Rightarrow>
        pbnd (parseline n l p) (\<lambda>(c, p).
        case peek l p (str '')'') of (p, b) \<Rightarrow>
        if \<not> b then Inl (ShPanic ''syntax - missing )'')
        else case gettoken l p of (_, _, _, p) \<Rightarrow>
          pbnd (parseredirs l [] p) (\<lambda>(rs, p). Inr (redirs rs c, p))))"

text \<open>
  \<open>nulterminate\<close> on the buffer with the line and its NUL. A word is then the string that begins at its first
  character.
\<close>

definition nul_at :: "word_at \<Rightarrow> bytes \<Rightarrow> bytes" where
  "nul_at w buf = buf[snd w := 0]"

primrec nulterminate :: "word_at shcmd \<Rightarrow> bytes \<Rightarrow> bytes" where
  "nulterminate (ExecCmd ws) buf = fold nul_at ws buf"
| "nulterminate (RedirCmd c w mode fd) buf = nul_at w (nulterminate c buf)"
| "nulterminate (PipeCmd c d) buf = nulterminate d (nulterminate c buf)"
| "nulterminate (ListCmd c d) buf = nulterminate d (nulterminate c buf)"
| "nulterminate (BackCmd c) buf = nulterminate c buf"

definition sh_string :: "bytes \<Rightarrow> word_at \<Rightarrow> bytes" where
  "sh_string buf w = cstring (drop (fst w) buf)"

text \<open>\<open>parsecmd\<close> on the line before its NUL: the tree, whose words point into the buffer, and that buffer.\<close>

definition parse_fuel :: "bytes \<Rightarrow> nat" where
  "parse_fuel l = 4 * length l + 4"

definition parsecmd :: "bytes \<Rightarrow> (word_at shcmd \<times> bytes) parse" where
  "parsecmd l =
     pbnd (parseline (parse_fuel l) l 0) (\<lambda>(c, p).
     case peek l p [] of (p, _) \<Rightarrow>
     if p \<noteq> length l then Inl (Leftovers p)
     else Inr (c, nulterminate c (l @ [0])))"

subsection \<open>Running commands\<close>

definition sh_panic :: "bytes \<Rightarrow> ('a, 'z uproc_scheme) kern" where
  "sh_panic s = sq (fprintf 2 (str ''%s'' @ nl) [AStr (Some s)]) (u_exit 1)"

definition fork1 :: "(int, 'z uproc_scheme) kern" where
  "fork1 =
     bnd (sys SysFork) (\<lambda>pid.
     if pid = -1 then sh_panic (str ''fork'') else ret pid)"

text \<open>\<open>runcmd\<close>, once the words are strings. It never returns.\<close>

primrec runcmd :: "bytes shcmd \<Rightarrow> (unit, 'z uproc_scheme) kern" where
  "runcmd (ExecCmd argv) =
     (if argv = [] then u_exit 1
      else sq (call (SysExec (hd argv) argv)) (
        sq (fprintf 2 (str ''exec %s failed'' @ nl) [AStr (Some (hd argv))]) (
        u_exit 0)))"
| "runcmd (RedirCmd c file mode fd) =
     sq (call (SysClose fd)) (
     bnd (sys (SysOpen file mode)) (\<lambda>r.
     if r < 0 then sq (fprintf 2 (str ''open %s failed'' @ nl) [AStr (Some file)]) (u_exit 1)
     else sq (runcmd c) (u_exit 0)))"
| "runcmd (ListCmd c d) =
     bnd fork1 (\<lambda>pid.
     sq (whenM (pid = 0) (runcmd c)) (
     sq (call SysWait) (
     sq (runcmd d) (
     u_exit 0))))"
| "runcmd (PipeCmd c d) =
     bnd (sys_out SysPipe) (\<lambda>(r, out).
     if r < 0 then sh_panic (str ''pipe'')
     else let p0 = int_at 0 out; p1 = int_at 4 out in
       bnd fork1 (\<lambda>pid.
       sq (whenM (pid = 0) (
         sq (call (SysClose 1)) (
         sq (call (SysDup p1)) (
         sq (call (SysClose p0)) (
         sq (call (SysClose p1)) (
         runcmd c)))))) (
       bnd fork1 (\<lambda>pid.
       sq (whenM (pid = 0) (
         sq (call (SysClose 0)) (
         sq (call (SysDup p0)) (
         sq (call (SysClose p0)) (
         sq (call (SysClose p1)) (
         runcmd d)))))) (
       sq (call (SysClose p0)) (
       sq (call (SysClose p1)) (
       sq (call SysWait) (
       sq (call SysWait) (
       u_exit 0)))))))))"
| "runcmd (BackCmd c) =
     bnd fork1 (\<lambda>pid.
     sq (whenM (pid = 0) (runcmd c)) (
     u_exit 0))"

text \<open>\<open>getcmd\<close> gives the string in the buffer, or nothing at the end of the input.\<close>

definition getcmd :: "(bytes option, 'z uproc_scheme) kern" where
  "getcmd =
     sq (call (SysWrite 2 (str ''$ ''))) (
     bnd (u_gets 100) (\<lambda>buf.
     let s = cstring buf in ret (if s = [] then None else Some s)))"

definition sh_child :: "bytes \<Rightarrow> (unit, 'z uproc_scheme) kern" where
  "sh_child l = (case parsecmd l of
     Inl (ShPanic s) \<Rightarrow> sh_panic (str s)
   | Inl (Leftovers p) \<Rightarrow> sq (fprintf 2 (str ''leftovers: %s'' @ nl) [AStr (Some (drop p l))]) (sh_panic (str ''syntax''))
   | Inl OutOfFuel \<Rightarrow> fault
   | Inr (c, buf) \<Rightarrow> runcmd (map_shcmd (sh_string buf) c))"

definition sh_cd :: "bytes \<Rightarrow> (unit, 'z uproc_scheme) kern" where
  "sh_cd l =
     (let dir = drop 3 (butlast l) in
      bnd (sys (SysChdir dir)) (\<lambda>r.
      whenM (r < 0) (fprintf 2 (str ''cannot cd %s'' @ nl) [AStr (Some dir)])))"

definition sh_main :: "('a, 'z uproc_scheme) kern" where
  "sh_main =
     sq (loopM (\<lambda>_ :: unit.
       bnd (sys (SysOpen (str ''console'') 2)) (\<lambda>fd.
       if fd < 0 then ret (Inl ())
       else if fd \<ge> 3 then sq (call (SysClose fd)) (ret (Inl ()))
       else ret (Inr ()))) ()) (
     sq (loopM (\<lambda>_ :: unit.
       bnd getcmd (\<lambda>l. case l of
         None \<Rightarrow> ret (Inl ())
       | Some l \<Rightarrow>
           if sh_at l 0 = ch CHR ''c'' \<and> sh_at l 1 = ch CHR ''d'' \<and> sh_at l 2 = 32 then sq (sh_cd l) (ret (Inr ()))
           else bnd fork1 (\<lambda>pid.
             sq (whenM (pid = 0) (sh_child l)) (
             sq (call SysWait) (
             ret (Inr ())))))) ()) (
     u_exit 0))"

subsection \<open>Positions and words\<close>

text \<open>
  What a parser returns, when it does: \<open>yields P r\<close>. A word of the line is a maximal run of characters that are
  neither white space nor symbols.
\<close>

definition yields :: "('a \<Rightarrow> bool) \<Rightarrow> 'a parse \<Rightarrow> bool" where
  "yields P r \<longleftrightarrow> (\<forall>a. r = Inr a \<longrightarrow> P a)"

definition plain :: "u8 \<Rightarrow> bool" where
  "plain c \<longleftrightarrow> \<not> is_ws c \<and> \<not> is_sym c"

definition word_ok :: "bytes \<Rightarrow> word_at \<Rightarrow> bool" where
  "word_ok l w = (case w of (q, eq) \<Rightarrow>
     q < eq \<and> eq \<le> length l \<and> (\<forall>i\<in>{q..<eq}. plain (l ! i)) \<and> (eq < length l \<longrightarrow> \<not> plain (l ! eq)))"

definition tree_ok :: "bytes \<Rightarrow> nat \<Rightarrow> word_at shcmd \<times> nat \<Rightarrow> bool" where
  "tree_ok l p = (\<lambda>(c, p'). p \<le> p' \<and> (\<forall>w\<in>set_shcmd c. word_ok l w))"

lemma yields_Inl [simp]: "yields P (Inl e)"
  by (simp add: yields_def)

lemma yields_Inr [simp]: "yields P (Inr a) \<longleftrightarrow> P a"
  by (simp add: yields_def)

lemma yields_pbnd: "yields P r \<Longrightarrow> (\<And>a. P a \<Longrightarrow> yields Q (f a)) \<Longrightarrow> yields Q (pbnd r f)"
  by (cases r) auto

lemma pbnd_Inr: "pbnd r f = Inr b \<Longrightarrow> (\<And>a. r = Inr a \<Longrightarrow> f a = Inr b \<Longrightarrow> P) \<Longrightarrow> P"
  by (cases r) auto

lemma tree_ok_from: "tree_ok l p r \<Longrightarrow> q \<le> p \<Longrightarrow> tree_ok l q r"
  by (auto simp: tree_ok_def)

lemma skip_word_bound: "p \<le> length l \<Longrightarrow> skip_word l p \<le> length l"
  by (induction l p rule: skip_word.induct) (subst skip_word.simps, auto)

lemma skip_word_plain: "p \<le> i \<Longrightarrow> i < skip_word l p \<Longrightarrow> plain (l ! i)"
proof (induction l p rule: skip_word.induct)
  case (1 l s)
  then show ?case
    by (cases "i = s") (auto simp: plain_def sh_at_def skip_word.simps [of l s] split: if_splits)
qed

lemma skip_word_end: "skip_word l p < length l \<Longrightarrow> \<not> plain (l ! skip_word l p)"
proof (induction l p rule: skip_word.induct)
  case (1 l s)
  then show ?case by (auto simp: plain_def sh_at_def skip_word.simps [of l s] split: if_splits)
qed

lemma gettoken_word:
  assumes "gettoken l p = (ch CHR ''a'', q, eq, p')"
  shows "word_ok l (q, eq)"
proof -
  have q: "q = skip_ws l p" "sh_at l q \<noteq> 0" "eq = skip_word l q" "sh_at l q \<notin> set (str ''|();&<'')" "sh_at l q \<noteq> ch CHR ''>''"
    using assms by (auto simp: gettoken_def Let_def str_def split: if_splits)
  have b: "q < length l" using q(2) by (auto simp: sh_at_def split: if_splits)
  have "\<not> is_sym (sh_at l q)" using q by (auto simp: is_sym_def symbols_def str_def split: if_splits)
  moreover have "\<not> is_ws (sh_at l q)" using skip_ws_not_ws b q(1) by blast
  ultimately have "q < eq" unfolding q(3) using b skip_word_le [of "Suc q" l] by (subst skip_word.simps) auto
  then show ?thesis using b q(3) skip_word_bound [of q l] skip_word_plain [of q _ l] skip_word_end [of l q] by (auto simp: word_ok_def)
qed

lemma set_redirs [simp]: "set_shcmd (redirs rs c) = set_shcmd c \<union> fst ` set rs"
  unfolding redirs_def by (induction rs arbitrary: c) (auto simp: case_prod_beta)

lemma redir_of_word [simp]: "fst (redir_of tok w) = w"
  by (simp add: redir_of_def)

lemma parsebacks_ok: "parsebacks l c p = (c', p') \<Longrightarrow> p \<le> p' \<and> set_shcmd c' = set_shcmd c"
proof (induction l c p rule: parsebacks.induct)
  case (1 l c p)
  obtain s b where s: "peek l p (str ''&'') = (s, b)" by (cases "peek l p (str ''&'')")
  obtain tok x y u where t: "gettoken l s = (tok, x, y, u)" by (cases "gettoken l s")
  have "p \<le> s" "s \<le> u" using peek_progress [OF s] gettoken_progress(1) [OF t] by auto
  then show ?case using 1(1) [OF s [symmetric] _ t [symmetric] refl refl] 1(2) s t
    by (auto simp: parsebacks.simps [of l c p] split: if_splits)
qed

lemma parseredirs_ok:
  "\<forall>r\<in>set rs. word_ok l (fst r) \<Longrightarrow> yields (\<lambda>(rs, p'). p \<le> p' \<and> (\<forall>r\<in>set rs. word_ok l (fst r))) (parseredirs l rs p)"
proof (induction l rs p rule: parseredirs.induct)
  case (1 l rs p)
  obtain s b where s: "peek l p (str ''<>'') = (s, b)" by (cases "peek l p (str ''<>'')")
  obtain tok x y u where t: "gettoken l s = (tok, x, y, u)" by (cases "gettoken l s")
  obtain a q eq v where v: "gettoken l u = (a, q, eq, v)" by (cases "gettoken l u")
  have le: "p \<le> s" "s \<le> u" "u \<le> v" using peek_progress [OF s] gettoken_progress(1) [OF t] gettoken_progress(1) [OF v] by auto
  show ?case
  proof (cases "b \<and> a = ch CHR ''a''")
    case True
    then have "word_ok l (q, eq)" using gettoken_word v by auto
    then show ?thesis using 1(1) [OF s [symmetric] _ t [symmetric] refl refl v [symmetric] refl refl] True 1(2) s t v le
      by (auto simp: parseredirs.simps [of l rs p] yields_def)
  next
    case False
    then show ?thesis using s t v le 1(2) by (auto simp: parseredirs.simps [of l rs p])
  qed
qed

lemma parseargs_ok:
  "\<forall>w\<in>set ws \<union> fst ` set rs. word_ok l w
    \<Longrightarrow> yields (\<lambda>((ws, rs), p'). p \<le> p' \<and> (\<forall>w\<in>set ws \<union> fst ` set rs. word_ok l w)) (parseargs l ws rs p)"
proof (induction l ws rs p rule: parseargs.induct)
  case (1 l ws rs p)
  obtain s b where s: "peek l p (str ''|)&;'') = (s, b)" by (cases "peek l p (str ''|)&;'')")
  obtain a q eq v where v: "gettoken l s = (a, q, eq, v)" by (cases "gettoken l s")
  have le: "p \<le> s" "s \<le> v" using peek_progress [OF s] gettoken_progress(1) [OF v] by auto
  show ?case
  proof (cases "\<not> b \<and> a = ch CHR ''a'' \<and> length ws + 1 < MAXARGS")
    case True
    then have "word_ok l (q, eq)" using gettoken_word v by auto
    note w = this
    have eq: "parseargs l ws rs p = pbnd (parseredirs l rs v) (\<lambda>(rs, p). parseargs l (ws @ [(q, eq)]) rs p)"
      using s v True by (simp add: parseargs.simps [of l ws rs p])
    have rs: "\<forall>r\<in>set rs. word_ok l (fst r)" using 1(2) by blast
    show ?thesis unfolding eq pbnd_def
    proof (cases "parseredirs l rs v")
      case (Inr r)
      obtain rs' u where r: "r = (rs', u)" by (cases r)
      have ok: "v \<le> u" "\<forall>r\<in>set rs'. word_ok l (fst r)" using parseredirs_ok [OF rs, of v] Inr r by auto
      have "yields (\<lambda>((ws, rs), p'). u \<le> p' \<and> (\<forall>w\<in>set ws \<union> fst ` set rs. word_ok l w)) (parseargs l (ws @ [(q, eq)]) rs' u)"
        by (rule 1(1) [OF s [symmetric] _ v [symmetric] refl refl _ _ _ Inr r [symmetric]]) (use True w ok 1(2) in auto)
      then show "yields (\<lambda>((ws, rs), p'). p \<le> p' \<and> (\<forall>w\<in>set ws \<union> fst ` set rs. word_ok l w))
          (case parseredirs l rs v of Inl e \<Rightarrow> Inl e | Inr a \<Rightarrow> case a of (rs, p) \<Rightarrow> parseargs l (ws @ [(q, eq)]) rs p)"
        using Inr r le ok(1) by (auto simp: yields_def)
    qed simp
  next
    case False
    then show ?thesis using s v le 1(2) by (auto simp: parseargs.simps [of l ws rs p])
  qed
qed

text \<open>The steps of a parser move forward, and everything it makes is made of words of the line.\<close>

lemma yields_peek: "(\<And>s b. peek l p toks = (s, b) \<Longrightarrow> p \<le> s \<Longrightarrow> yields Q (f s b)) \<Longrightarrow> yields Q (case peek l p toks of (s, b) \<Rightarrow> f s b)"
  using peek_progress [of l p toks] by (cases "peek l p toks") auto

lemma yields_token:
  "(\<And>r q eq p'. gettoken l p = (r, q, eq, p') \<Longrightarrow> p \<le> p' \<Longrightarrow> yields Q (f r q eq p')) \<Longrightarrow> yields Q (case gettoken l p of (r, q, eq, p') \<Rightarrow> f r q eq p')"
  using gettoken_progress(1) [of l p] by (cases "gettoken l p") auto

lemma yields_backs:
  "(\<And>c' p'. p \<le> p' \<Longrightarrow> set_shcmd c' = set_shcmd c \<Longrightarrow> yields Q (f c' p')) \<Longrightarrow> yields Q (case parsebacks l c p of (c', p') \<Rightarrow> f c' p')"
  using parsebacks_ok [of l c p] by (cases "parsebacks l c p") auto

lemma parse_ok:
  "yields (tree_ok l p) (parseline n l p) \<and> yields (tree_ok l p) (parsepipe n l p)
    \<and> yields (tree_ok l p) (parseexec n l p) \<and> yields (tree_ok l p) (parseblock n l p)"
proof (induction n arbitrary: p)
  case (Suc n)
  note IH = Suc [THEN conjunct1] Suc [THEN conjunct2, THEN conjunct1] Suc [THEN conjunct2, THEN conjunct2, THEN conjunct1]
    Suc [THEN conjunct2, THEN conjunct2, THEN conjunct2]
  note redirs = yields_pbnd [OF parseredirs_ok [of "[]"]]
  have line: "yields (tree_ok l p) (parseline (Suc n) l p)" unfolding parseline.simps
  proof (rule yields_pbnd [OF IH(2)], clarify, intro yields_backs yields_peek, clarsimp, safe)
    fix c u d v s b assume a: "tree_ok l p (c, u)" "u \<le> v" "set_shcmd d = set_shcmd c" "v \<le> s"
    show "yields (tree_ok l p) (case gettoken l s of (_, _, _, p) \<Rightarrow> pbnd (parseline n l p) (\<lambda>(e, p). Inr (ListCmd d e, p)))"
      by (intro yields_token, rule yields_pbnd [OF IH(1)]) (use a in \<open>auto simp: tree_ok_def\<close>)
    show "tree_ok l p (d, s)" using a by (auto simp: tree_ok_def)
  qed
  have pipe: "yields (tree_ok l p) (parsepipe (Suc n) l p)" unfolding parsepipe.simps
  proof (rule yields_pbnd [OF IH(3)], clarify, intro yields_peek, clarsimp, safe)
    fix c u s b assume a: "tree_ok l p (c, u)" "u \<le> s"
    show "yields (tree_ok l p) (case gettoken l s of (_, _, _, p) \<Rightarrow> pbnd (parsepipe n l p) (\<lambda>(d, p). Inr (PipeCmd c d, p)))"
      by (intro yields_token, rule yields_pbnd [OF IH(2)]) (use a in \<open>auto simp: tree_ok_def\<close>)
    show "tree_ok l p (c, s)" using a by (auto simp: tree_ok_def)
  qed
  have exec: "yields (tree_ok l p) (parseexec (Suc n) l p)" unfolding parseexec.simps
  proof (intro yields_peek, clarsimp, safe)
    fix s assume "p \<le> s"
    then show "yields (tree_ok l p) (parseblock n l s)" using IH(4) [of s] by (auto simp: yields_def intro: tree_ok_from)
    show "yields (tree_ok l p) (pbnd (parseredirs l [] s) (\<lambda>(rs, p). pbnd (parseargs l [] rs p) (\<lambda>((ws, rs), p). Inr (redirs rs (ExecCmd ws), p))))"
      by (rule redirs, simp, clarify, rule yields_pbnd [OF parseargs_ok]) (use \<open>p \<le> s\<close> in \<open>auto simp: tree_ok_def\<close>)
  qed
  have block: "yields (tree_ok l p) (parseblock (Suc n) l p)" unfolding parseblock.simps
  proof (intro yields_peek, clarsimp, intro impI yields_token, rule yields_pbnd [OF IH(1)], clarify, intro yields_peek, clarsimp, intro impI yields_token)
    fix s u c v x y assume a: "p \<le> s" "s \<le> u" "tree_ok l u (c, v)" "v \<le> x" "x \<le> y"
    show "yields (tree_ok l p) (pbnd (parseredirs l [] y) (\<lambda>(rs, p). Inr (redirs rs c, p)))"
      by (rule redirs, simp) (use a in \<open>fastforce simp: tree_ok_def\<close>)
  qed
  show ?case using line pipe exec block by blast
qed simp

lemmas parseline_ok = parse_ok [THEN conjunct1]
lemmas parsepipe_ok = parse_ok [THEN conjunct2, THEN conjunct1]
lemmas parseexec_ok = parse_ok [THEN conjunct2, THEN conjunct2, THEN conjunct1]
lemmas parseblock_ok = parse_ok [THEN conjunct2, THEN conjunct2, THEN conjunct2]

subsection \<open>The strings of the words\<close>

definition word_text :: "bytes \<Rightarrow> word_at \<Rightarrow> bytes" where
  "word_text l w = take (snd w - fst w) (drop (fst w) l)"

lemma nth_fold_nul:
  "i < length buf \<Longrightarrow> length (fold nul_at ws buf) = length buf \<and> fold nul_at ws buf ! i = (if i \<in> snd ` set ws then 0 else buf ! i)"
  by (induction ws arbitrary: buf) (auto simp: nul_at_def)

lemma nth_nulterminate:
  "i < length buf \<Longrightarrow> length (nulterminate c buf) = length buf \<and> nulterminate c buf ! i = (if i \<in> snd ` set_shcmd c then 0 else buf ! i)"
proof (induction c arbitrary: buf)
  case (ExecCmd ws)
  then show ?case by (simp add: nth_fold_nul)
next
  case (RedirCmd c w mode fd)
  then show ?case using RedirCmd.IH [of buf] by (cases "i = snd w") (simp_all add: nul_at_def)
next
  case (PipeCmd c d)
  then show ?case by (auto simp: image_Un)
next
  case (ListCmd c d)
  then show ?case by (auto simp: image_Un)
next
  case (BackCmd c)
  then show ?case by simp
qed

text \<open>No word ends inside another, so the NULs do not cut a word short.\<close>

lemma sh_string_word:
  assumes "\<forall>w\<in>set_shcmd c. word_ok l w" "w \<in> set_shcmd c" "0 \<notin> set l"
  shows "sh_string (nulterminate c (l @ [0])) w = word_text l w"
proof -
  obtain q e where w: "w = (q, e)" by (cases w)
  let ?b = "nulterminate c (l @ [0])"
  have ok: "q < e" "e \<le> length l" "\<And>i. q \<le> i \<Longrightarrow> i < e \<Longrightarrow> plain (l ! i)" using assms(1,2) w by (auto simp: word_ok_def)
  have len: "length ?b = Suc (length l)" using nth_nulterminate [of 0 "l @ [0]" c] by simp
  have "?b ! e = 0" using nth_nulterminate [of e "l @ [0]" c] ok(2) assms(2) w by force
  moreover have at: "?b ! i = l ! i" "l ! i \<noteq> 0" if i: "q \<le> i" "i < e" for i
  proof -
    have "i \<notin> snd ` set_shcmd c" using ok(2) ok(3) [OF i] i assms(1) by (auto simp: word_ok_def)
    then show "?b ! i = l ! i" using nth_nulterminate [of i "l @ [0]" c] ok(2) i by (simp add: nth_append)
    show "l ! i \<noteq> 0" using assms(3) ok(2) i nth_mem [of i l] by (metis order_less_le_trans)
  qed
  ultimately have "takeWhile (\<lambda>c. c \<noteq> 0) (drop q ?b) = take (e - q) (drop q ?b)"
    using ok len by (intro takeWhile_eq_take_P_nth) auto
  also have "\<dots> = take (e - q) (drop q l)" using ok len by (intro nth_equalityI) (auto simp: at)
  finally show ?thesis by (simp add: sh_string_def word_text_def cstring_def w)
qed

text \<open>
  C32: when a line parses, every word of the tree is a maximal run of ordinary characters of the line, and after
  \<open>nulterminate\<close> the string that begins at the word is exactly that run: storing a NUL after every word never
  cuts or joins another one, even where two words share no white space, as in \<open>a>b\<close>.
\<close>

theorem nulterminate_words:
  assumes "0 \<notin> set l" "parsecmd l = Inr (c, buf)"
  shows "(\<forall>w\<in>set_shcmd c. word_ok l w) \<and> map_shcmd (sh_string buf) c = map_shcmd (word_text l) c"
proof -
  obtain p where p: "parseline (parse_fuel l) l 0 = Inr (c, p)" "buf = nulterminate c (l @ [0])"
    using assms(2) by (auto simp: parsecmd_def split: if_splits prod.splits elim!: pbnd_Inr)
  then have "\<forall>w\<in>set_shcmd c. word_ok l w" using parseline_ok [of l 0 "parse_fuel l"] by (simp add: tree_ok_def)
  then show ?thesis using p(2) assms(1) by (auto intro!: shcmd.map_cong0 sh_string_word)
qed

theorem nulterminate_words_witness:
  "\<exists>c buf. parsecmd (str ''a>b'') = Inr (c, buf) \<and> map_shcmd (sh_string buf) c = RedirCmd (ExecCmd [str ''a'']) (str ''b'') 0x601 1"
proof -
  define c where "c = RedirCmd (ExecCmd [(0 :: nat, 1 :: nat)]) (2, 3) 0x601 1"
  have p: "parsecmd (str ''a>b'') = Inr (c, [97, 0, 98, 0])" unfolding c_def by code_simp
  have "map_shcmd (sh_string [97, 0, 98, 0]) c = map_shcmd (word_text (str ''a>b'')) c"
    using nulterminate_words [OF _ p] by (simp add: str_def)
  then show ?thesis using p by (simp add: c_def word_text_def str_def)
qed

subsection \<open>Enough fuel\<close>

text \<open>Two runs of a parser that give the same result, and do not end for lack of fuel.\<close>

definition same :: "'a parse \<Rightarrow> 'a parse \<Rightarrow> bool" where
  "same r r' \<longleftrightarrow> r = r' \<and> r \<noteq> Inl OutOfFuel"

lemma same_Inr [simp]: "same (Inr a) (Inr a)"
  by (simp add: same_def)

lemma same_panic [simp]: "same (Inl (ShPanic s)) (Inl (ShPanic s))"
  by (simp add: same_def)

lemma same_pbnd: "same r r' \<Longrightarrow> yields P r \<Longrightarrow> (\<And>a. P a \<Longrightarrow> same (f a) (g a)) \<Longrightarrow> same (pbnd r f) (pbnd r' g)"
  by (cases r) (auto simp: same_def, metis)

lemma same_peek: "(\<And>s b. peek l p toks = (s, b) \<Longrightarrow> p \<le> s \<Longrightarrow> same (f s b) (g s b)) \<Longrightarrow> same (case peek l p toks of (s, b) \<Rightarrow> f s b) (case peek l p toks of (s, b) \<Rightarrow> g s b)"
  using peek_progress [of l p toks] by (cases "peek l p toks") auto

lemma same_token:
  "peek l p toks = (s, True) \<Longrightarrow> (\<And>r q eq p'. p < p' \<Longrightarrow> p < length l \<Longrightarrow> same (f r q eq p') (g r q eq p'))
    \<Longrightarrow> same (case gettoken l s of (r, q, eq, p') \<Rightarrow> f r q eq p') (case gettoken l s of (r, q, eq, p') \<Rightarrow> g r q eq p')"
  using gettoken_peek [of l p toks s] by (cases "gettoken l s") auto

lemma same_backs:
  "(\<And>c' p'. p \<le> p' \<Longrightarrow> same (f c' p') (g c' p')) \<Longrightarrow> same (case parsebacks l c p of (c', p') \<Rightarrow> f c' p') (case parsebacks l c p of (c', p') \<Rightarrow> g c' p')"
  using parsebacks_ok [of l c p] by (cases "parsebacks l c p") auto

lemma same_redirs: "same (parseredirs l rs p) (parseredirs l rs p)"
proof (induction l rs p rule: parseredirs.induct)
  case (1 l rs p)
  then show ?case by (simp add: parseredirs.simps [of l rs p] split: prod.split)
qed

lemma same_args: "same (parseargs l ws rs p) (parseargs l ws rs p)"
proof (induction l ws rs p rule: parseargs.induct)
  case (1 l ws rs p)
  obtain s b where s: "peek l p (str ''|)&;'') = (s, b)" by (cases "peek l p (str ''|)&;'')")
  obtain a q eq v where v: "gettoken l s = (a, q, eq, v)" by (cases "gettoken l s")
  have "same (pbnd (parseredirs l rs v) (\<lambda>(rs, p). parseargs l (ws @ [(q, eq)]) rs p)) (pbnd (parseredirs l rs v) (\<lambda>(rs, p). parseargs l (ws @ [(q, eq)]) rs p))"
    if "\<not> b" "a \<noteq> 0" "\<not> a \<noteq> ch CHR ''a''" "\<not> MAXARGS \<le> length ws + 1"
    using 1 [OF s [symmetric] that(1) v [symmetric] refl refl that(2-4)] by (intro same_pbnd [OF same_redirs]) (auto simp: yields_def)
  then show ?case using s v by (simp add: parseargs.simps [of l ws rs p])
qed

text \<open>Four levels for every character that is left.\<close>

lemma parse_enough:
  "n \<le> m \<Longrightarrow>
     (4 * (length l - p) + 4 \<le> n \<longrightarrow> same (parseline n l p) (parseline m l p))
   \<and> (4 * (length l - p) + 3 \<le> n \<longrightarrow> same (parsepipe n l p) (parsepipe m l p))
   \<and> (4 * (length l - p) + 2 \<le> n \<longrightarrow> same (parseexec n l p) (parseexec m l p))
   \<and> (4 * (length l - p) + 1 \<le> n \<longrightarrow> same (parseblock n l p) (parseblock m l p))"
proof (induction n arbitrary: p m)
  case (Suc n)
  obtain k where m: "m = Suc k" "n \<le> k" using Suc(2) by (cases m) auto
  note IH = Suc(1) [OF m(2)]
  have line: "same (parseline (Suc n) l p) (parseline (Suc k) l p)" if f: "4 * (length l - p) + 4 \<le> Suc n"
    unfolding parseline.simps
  proof (rule same_pbnd [OF _ parsepipe_ok], use IH [of p] f in \<open>simp\<close>, clarify, intro same_backs same_peek, clarsimp)
    fix c u d v s assume a: "tree_ok l p (c, u)" "u \<le> v" "peek l v (str '';'') = (s, True)"
    show "same (case gettoken l s of (_, _, _, p) \<Rightarrow> pbnd (parseline n l p) (\<lambda>(e, p). Inr (ListCmd d e, p)))
        (case gettoken l s of (_, _, _, p) \<Rightarrow> pbnd (parseline k l p) (\<lambda>(e, p). Inr (ListCmd d e, p)))"
      by (rule same_token [OF a(3)], rule same_pbnd [OF _ parseline_ok]) (use IH f a in \<open>auto simp: tree_ok_def\<close>)
  qed
  have pipe: "same (parsepipe (Suc n) l p) (parsepipe (Suc k) l p)" if f: "4 * (length l - p) + 3 \<le> Suc n"
    unfolding parsepipe.simps
  proof (rule same_pbnd [OF _ parseexec_ok], use IH [of p] f in \<open>simp\<close>, clarify, intro same_peek, clarsimp)
    fix c u s assume a: "tree_ok l p (c, u)" "peek l u (str ''|'') = (s, True)"
    show "same (case gettoken l s of (_, _, _, p) \<Rightarrow> pbnd (parsepipe n l p) (\<lambda>(d, p). Inr (PipeCmd c d, p)))
        (case gettoken l s of (_, _, _, p) \<Rightarrow> pbnd (parsepipe k l p) (\<lambda>(d, p). Inr (PipeCmd c d, p)))"
      by (rule same_token [OF a(2)], rule same_pbnd [OF _ parsepipe_ok]) (use IH f a in \<open>auto simp: tree_ok_def\<close>)
  qed
  have exec: "same (parseexec (Suc n) l p) (parseexec (Suc k) l p)" if f: "4 * (length l - p) + 2 \<le> Suc n"
    unfolding parseexec.simps
  proof (intro same_peek, clarsimp, safe)
    fix s assume "p \<le> s"
    then show "same (parseblock n l s) (parseblock k l s)" using IH [of s] f by simp
    show "same (pbnd (parseredirs l [] s) (\<lambda>(rs, p). pbnd (parseargs l [] rs p) (\<lambda>((ws, rs), p). Inr (redirs rs (ExecCmd ws), p))))
        (pbnd (parseredirs l [] s) (\<lambda>(rs, p). pbnd (parseargs l [] rs p) (\<lambda>((ws, rs), p). Inr (redirs rs (ExecCmd ws), p))))"
      using same_redirs [of l "[]" s] same_args [of l "[]"] by (auto simp: same_def pbnd_def split: sum.split)
  qed
  have block: "same (parseblock (Suc n) l p) (parseblock (Suc k) l p)" if f: "4 * (length l - p) + 1 \<le> Suc n"
    unfolding parseblock.simps
  proof (intro same_peek, clarsimp)
    fix s assume "peek l p (str ''('') = (s, True)"
    then show "same (case gettoken l s of (_, _, _, u) \<Rightarrow> pbnd (parseline n l u) (\<lambda>(c, p). case peek l p (str '')'') of (p, b) \<Rightarrow>
          if \<not> b then Inl (ShPanic ''syntax - missing )'') else case gettoken l p of (_, _, _, p) \<Rightarrow> pbnd (parseredirs l [] p) (\<lambda>(rs, p). Inr (redirs rs c, p))))
        (case gettoken l s of (_, _, _, u) \<Rightarrow> pbnd (parseline k l u) (\<lambda>(c, p). case peek l p (str '')'') of (p, b) \<Rightarrow>
          if \<not> b then Inl (ShPanic ''syntax - missing )'') else case gettoken l p of (_, _, _, p) \<Rightarrow> pbnd (parseredirs l [] p) (\<lambda>(rs, p). Inr (redirs rs c, p))))"
      by (rule same_token, intro same_pbnd [OF _ parseline_ok])
        (use IH f in \<open>auto intro!: same_peek same_token same_pbnd [OF same_redirs, of "\<lambda>_. True"] simp: yields_def\<close>)
  qed
  show ?case using line pipe exec block m by simp
qed simp

text \<open>
  C33: the parser always comes to an end: with the fuel that \<open>parsecmd\<close> gives it (four units for every character)
  it never runs out, and more fuel gives the same result.
\<close>

theorem parse_terminates:
  "parsecmd l \<noteq> Inl OutOfFuel \<and> parseline (parse_fuel l + n) l 0 = parseline (parse_fuel l) l 0"
proof -
  have "same (parseline (parse_fuel l) l 0) (parseline (parse_fuel l + n) l 0)"
    using parse_enough [of "parse_fuel l" "parse_fuel l + n" l 0] by (simp add: parse_fuel_def)
  then show ?thesis by (auto simp: same_def parsecmd_def pbnd_def split: sum.splits prod.splits if_splits)
qed

text \<open>The parsers with the fuel that is always enough, and their steps.\<close>

definition sh_line :: "bytes \<Rightarrow> nat \<Rightarrow> (word_at shcmd \<times> nat) parse" where
  "sh_line l p = parseline (4 * (length l - p) + 4) l p"

definition sh_pipe :: "bytes \<Rightarrow> nat \<Rightarrow> (word_at shcmd \<times> nat) parse" where
  "sh_pipe l p = parsepipe (4 * (length l - p) + 3) l p"

definition sh_exec :: "bytes \<Rightarrow> nat \<Rightarrow> (word_at shcmd \<times> nat) parse" where
  "sh_exec l p = parseexec (4 * (length l - p) + 2) l p"

lemma parseline_enough: "4 * (length l - p) + 4 \<le> n \<Longrightarrow> parseline n l p = sh_line l p"
  using parse_enough [of "4 * (length l - p) + 4" n l p] by (simp add: sh_line_def same_def)

lemma parsepipe_enough: "4 * (length l - p) + 3 \<le> n \<Longrightarrow> parsepipe n l p = sh_pipe l p"
  using parse_enough [of "4 * (length l - p) + 3" n l p] by (simp add: sh_pipe_def same_def)

lemma parseexec_enough: "4 * (length l - p) + 2 \<le> n \<Longrightarrow> parseexec n l p = sh_exec l p"
  using parse_enough [of "4 * (length l - p) + 2" n l p] by (simp add: sh_exec_def same_def)

lemma sh_line_end:
  assumes "sh_pipe l p = Inr (c, u)" "parsebacks l c u = (d, v)" "peek l v (str '';'') = (s, False)"
  shows "sh_line l p = Inr (d, s)"
  using assms parseline.simps(2) [of "4 * (length l - p) + 3" l p] by (simp add: sh_line_def sh_pipe_def eval_nat_numeral)

lemma sh_line_list:
  assumes "sh_pipe l p = Inr (c, u)" "parsebacks l c u = (d, v)" "peek l v (str '';'') = (s, True)"
    "gettoken l s = (t, x, y, z)" "sh_line l z = Inr (e, w)"
  shows "sh_line l p = Inr (ListCmd d e, w)"
proof -
  have "p \<le> u" using parsepipe_ok [of l p "4 * (length l - p) + 3"] assms(1) by (simp add: sh_pipe_def tree_ok_def)
  moreover have "u \<le> v" "v < z" "v < length l" using parsebacks_ok [OF assms(2)] gettoken_peek [OF assms(3,4)] by auto
  ultimately have "parseline (4 * (length l - p) + 3) l z = sh_line l z" by (intro parseline_enough) linarith
  then show ?thesis using assms parseline.simps(2) [of "4 * (length l - p) + 3" l p] by (simp add: sh_line_def sh_pipe_def eval_nat_numeral)
qed

lemma sh_pipe_end:
  assumes "sh_exec l p = Inr (c, u)" "peek l u (str ''|'') = (s, False)"
  shows "sh_pipe l p = Inr (c, s)"
  using assms parsepipe.simps(2) [of "4 * (length l - p) + 2" l p] by (simp add: sh_pipe_def sh_exec_def eval_nat_numeral)

lemma sh_pipe_pipe:
  assumes "sh_exec l p = Inr (c, u)" "peek l u (str ''|'') = (s, True)" "gettoken l s = (t, x, y, z)" "sh_pipe l z = Inr (e, w)"
  shows "sh_pipe l p = Inr (PipeCmd c e, w)"
proof -
  have "p \<le> u" using parseexec_ok [of l p "4 * (length l - p) + 2"] assms(1) by (simp add: sh_exec_def tree_ok_def)
  moreover have "u < z" "u < length l" using gettoken_peek [OF assms(2,3)] by auto
  ultimately have "parsepipe (4 * (length l - p) + 2) l z = sh_pipe l z" by (intro parsepipe_enough) linarith
  then show ?thesis using assms parsepipe.simps(2) [of "4 * (length l - p) + 2" l p] by (simp add: sh_pipe_def sh_exec_def eval_nat_numeral)
qed

lemma sh_exec_args:
  assumes "peek l p (str ''('') = (s, False)" "parseredirs l [] s = Inr (rs, u)" "parseargs l [] rs u = Inr ((ws, rs'), v)"
  shows "sh_exec l p = Inr (redirs rs' (ExecCmd ws), v)"
  using assms parseexec.simps(2) [of "4 * (length l - p) + 1" l p] by (simp add: sh_exec_def eval_nat_numeral)

lemma sh_exec_block:
  assumes "peek l p (str ''('') = (p, True)" "gettoken l p = (t, x, y, z)" "sh_line l z = Inr (c, u)"
    "peek l u (str '')'') = (v, True)" "gettoken l v = (t', x', y', z')" "parseredirs l [] z' = Inr (rs, w)"
  shows "sh_exec l p = Inr (redirs rs c, w)"
proof -
  have "p < z" "p < length l" using gettoken_peek [OF assms(1,2)] by auto
  then have "parseline (4 * (length l - p)) l z = sh_line l z" by (intro parseline_enough) linarith
  then show ?thesis using assms parseexec.simps(2) [of "4 * (length l - p) + 1" l p] parseblock.simps(2) [of "4 * (length l - p)" l p]
    by (simp add: sh_exec_def eval_nat_numeral)
qed

subsection \<open>Printing commands\<close>

text \<open>
  A command as a line, with the parentheses that it needs: a list binds weakest, then the ampersand, then the
  pipe. Words and file names are followed by a space.
\<close>

definition show_words :: "bytes list \<Rightarrow> bytes" where
  "show_words ws = concat (map (\<lambda>w. w @ [32]) ws)"

definition show_redir :: "bytes \<times> int \<times> int \<Rightarrow> bytes" where
  "show_redir r = (case r of (w, mode, fd) \<Rightarrow>
     (if fd = 0 then str ''<'' else if mode = 0x601 then str ''>'' else str ''>>'') @ w @ [32])"

definition show_redirs :: "(bytes \<times> int \<times> int) list \<Rightarrow> bytes" where
  "show_redirs rs = concat (map show_redir rs)"

definition paren :: "bool \<Rightarrow> bytes \<Rightarrow> bytes" where
  "paren b s = (if b then str ''('' @ s @ str '')'' else s)"

primrec show_cmd :: "nat \<Rightarrow> bytes shcmd \<Rightarrow> bytes" where
  "show_cmd k (ExecCmd ws) = show_words ws"
| "show_cmd k (RedirCmd c w mode fd) = show_cmd 3 c @ show_redir (w, mode, fd)"
| "show_cmd k (PipeCmd c d) = paren (k > 2) (show_cmd 3 c @ str ''|'' @ show_cmd 2 d)"
| "show_cmd k (BackCmd c) = paren (k > 1) (show_cmd 1 c @ str ''&'')"
| "show_cmd k (ListCmd c d) = paren (k > 0) (show_cmd 1 c @ str '';'' @ show_cmd 0 d)"

text \<open>The commands that a line can describe.\<close>

definition word_fine :: "bytes \<Rightarrow> bool" where
  "word_fine w \<longleftrightarrow> w \<noteq> [] \<and> (\<forall>c\<in>set w. c \<noteq> 0 \<and> plain c)"

definition redir_fine :: "bytes \<times> int \<times> int \<Rightarrow> bool" where
  "redir_fine r \<longleftrightarrow> word_fine (fst r) \<and> snd r \<in> {(0, 0), (0x601, 1), (0x201, 1)}"

primrec cmd_fine :: "bytes shcmd \<Rightarrow> bool" where
  "cmd_fine (ExecCmd ws) = (length ws < MAXARGS \<and> (\<forall>w\<in>set ws. word_fine w))"
| "cmd_fine (RedirCmd c w mode fd) = (cmd_fine c \<and> redir_fine (w, mode, fd))"
| "cmd_fine (PipeCmd c d) = (cmd_fine c \<and> cmd_fine d)"
| "cmd_fine (BackCmd c) = cmd_fine c"
| "cmd_fine (ListCmd c d) = (cmd_fine c \<and> cmd_fine d)"

text \<open>What may follow, and the tokens at the front of what is left.\<close>

definition tight :: "bytes \<Rightarrow> bool" where
  "tight cs \<longleftrightarrow> (cs = [] \<or> \<not> is_ws (hd cs))"

definition ends :: "string \<Rightarrow> bytes \<Rightarrow> bool" where
  "ends s cs \<longleftrightarrow> (cs = [] \<or> hd cs \<in> set (str s))"

lemma sh_at_drop: "sh_at l p = char0 (drop p l)"
  by (cases "p < length l") (auto simp: sh_at_def char0_def Cons_nth_drop_Suc [symmetric])

lemma skip_ws_tight: "tight (drop p l) \<Longrightarrow> skip_ws l p = p"
  by (subst skip_ws.simps) (auto simp: tight_def sh_at_def hd_drop_conv_nth)

lemma drop_cons: "drop p l = c # cs \<Longrightarrow> drop (Suc p) l = cs"
  by (metis drop_Suc list.sel(3) tl_drop)

lemma drop_over: "p \<le> length l \<Longrightarrow> drop p l = xs @ cs \<Longrightarrow> p + length xs \<le> length l \<and> drop (p + length xs) l = cs"
proof -
  assume a: "p \<le> length l" "drop p l = xs @ cs"
  have "length l - p = length xs + length cs" using arg_cong [OF a(2), of length] by simp
  moreover have "drop (p + length xs) l = drop (length xs) (drop p l)" by (simp add: add.commute)
  ultimately show ?thesis using a by auto
qed

lemma is_ws_space [simp]: "is_ws 32"
  by (simp add: is_ws_def whitespace_def)

lemma skip_ws_over: "drop p l = ws @ cs \<Longrightarrow> \<forall>c\<in>set ws. is_ws c \<Longrightarrow> tight cs \<Longrightarrow> skip_ws l p = p + length ws"
proof (induction ws arbitrary: p)
  case Nil
  then show ?case by (simp add: skip_ws_tight)
next
  case (Cons c ws)
  have "p < length l" using Cons(2) by (cases "p < length l") auto
  then show ?case using Cons drop_cons [of p l c "ws @ cs"] by (subst skip_ws.simps) (simp add: sh_at_drop char0_def)
qed

text \<open>\<open>at_text l p cs\<close>: the text from \<open>p\<close> on is \<open>cs\<close>, and after it there is only white space, such as the end of the line.\<close>

definition at_text :: "bytes \<Rightarrow> nat \<Rightarrow> bytes \<Rightarrow> bool" where
  "at_text l p cs \<longleftrightarrow> p \<le> length l \<and> (if cs = [] then p = length l else \<exists>t. (\<forall>c\<in>set t. is_ws c) \<and> drop p l = cs @ t)"

lemma at_textE:
  assumes "at_text l p cs" "cs \<noteq> []"
  obtains t where "p \<le> length l" "drop p l = cs @ t" "\<forall>c\<in>set t. is_ws c"
  using assms by (auto simp: at_text_def)

lemma at_text_skip:
  assumes "p \<le> length l" "drop p l = ws @ cs @ t" "\<forall>c\<in>set ws. is_ws c" "\<forall>c\<in>set t. is_ws c" "tight cs"
  shows "at_text l (skip_ws l p) cs"
proof (cases "cs = []")
  case True
  then have "skip_ws l p = p + length (drop p l)" using assms skip_ws_over [of p l "ws @ t" "[]"] by (auto simp: tight_def)
  then show ?thesis using True assms(1) by (simp add: at_text_def)
next
  case False
  then have s: "skip_ws l p = p + length ws" using assms skip_ws_over [of p l ws "cs @ t"] by (simp add: tight_def)
  then show ?thesis using drop_over [OF assms(1,2)] False assms(4) by (auto simp: at_text_def)
qed

lemma at_text_over: "at_text l p (xs @ cs) \<Longrightarrow> cs \<noteq> [] \<Longrightarrow> at_text l (p + length xs) cs"
proof -
  assume a: "at_text l p (xs @ cs)" "cs \<noteq> []"
  then obtain t where t: "p \<le> length l" "drop p l = (xs @ cs) @ t" "\<forall>c\<in>set t. is_ws c" by (auto elim: at_textE)
  then show ?thesis using drop_over [of p l xs "cs @ t"] a(2) by (auto simp: at_text_def)
qed

lemma tight_append: "cs \<noteq> [] \<Longrightarrow> tight (cs @ t) = tight cs"
  by (simp add: tight_def)

lemma char0_append: "cs \<noteq> [] \<Longrightarrow> char0 (cs @ t) = char0 cs"
  by (cases cs) (simp_all add: char0_def)

lemma at_text_here: "at_text l p cs \<Longrightarrow> tight cs \<Longrightarrow> skip_ws l p = p \<and> sh_at l p = char0 cs"
proof (cases "cs = []")
  case False
  assume a: "at_text l p cs" "tight cs"
  obtain t where "drop p l = cs @ t" by (rule at_textE [OF a(1) False])
  then show ?thesis using a(2) False skip_ws_tight [of p l] by (simp add: sh_at_drop char0_append tight_append)
qed (simp add: at_text_def skip_ws_tight sh_at_drop char0_def)

lemma peek_at: "at_text l p cs \<Longrightarrow> tight cs \<Longrightarrow> peek l p toks = (p, char0 cs \<noteq> 0 \<and> strchr toks (char0 cs) \<noteq> None)"
  using at_text_here [of l p cs] by (simp add: peek_def)

lemma gettoken_sym:
  assumes "at_text l p (c # cs)" "c \<in> set (str ''|();&<'')" "tight cs"
  obtains v where "gettoken l p = (c, p, Suc p, v)" "at_text l v cs"
proof -
  obtain t where t: "p \<le> length l" "drop p l = (c # cs) @ t" "\<forall>c\<in>set t. is_ws c" by (rule at_textE [OF assms(1)]) auto
  have "tight (c # cs)" "c \<noteq> 0" using assms(2) by (auto simp: tight_def str_def is_ws_def whitespace_def)
  then have "gettoken l p = (c, p, Suc p, skip_ws l (Suc p))"
    using at_text_here [OF assms(1)] assms(2) by (simp add: gettoken_def char0_def)
  moreover have "p < length l" using t by (cases "p < length l") auto
  then have "at_text l (skip_ws l (Suc p)) cs"
    using at_text_skip [of "Suc p" l "[]" cs t] drop_cons [of p l c "cs @ t"] t assms(3) by simp
  ultimately show thesis by (rule that)
qed

lemma skip_word_over: "drop p l = w @ cs \<Longrightarrow> \<forall>c\<in>set w. plain c \<Longrightarrow> cs = [] \<or> \<not> plain (hd cs) \<Longrightarrow> skip_word l p = p + length w"
proof (induction w arbitrary: p)
  case Nil
  then show ?case by (subst skip_word.simps) (auto simp: plain_def sh_at_def hd_drop_conv_nth [symmetric])
next
  case (Cons c w)
  have "p < length l" using Cons(2) by (cases "p < length l") auto
  then show ?case using Cons drop_cons [of p l c "w @ cs"] by (subst skip_word.simps) (auto simp: sh_at_drop char0_def plain_def)
qed

lemma gettoken_plain:
  assumes "at_text l p (w @ 32 # cs)" "word_fine w" "tight cs"
  obtains v where "gettoken l p = (ch CHR ''a'', p, p + length w, v)" "word_text l (p, p + length w) = w" "at_text l v cs"
proof -
  obtain t where t: "p \<le> length l" "drop p l = (w @ 32 # cs) @ t" "\<forall>c\<in>set t. is_ws c" by (rule at_textE [OF assms(1)]) auto
  obtain c v where w: "w = c # v" using assms(2) by (cases w) (auto simp: word_fine_def)
  have c: "c \<noteq> 0" "plain c" using assms(2) w by (auto simp: word_fine_def)
  have "drop p l = w @ (32 # cs @ t)" using t(2) by simp
  then have s: "skip_word l p = p + length w"
    by (rule skip_word_over) (use assms(2) in \<open>auto simp: word_fine_def plain_def is_ws_def whitespace_def\<close>)
  have v: "at_text l (skip_ws l (p + length w)) cs"
    using t assms(3) drop_over [of p l w "32 # cs @ t"] by (intro at_text_skip [of _ _ "[32]" _ t]) auto
  have "tight (w @ 32 # cs)" using c(2) w by (simp add: tight_def plain_def)
  moreover have "c \<notin> set (str ''|();&<'')" "c \<noteq> ch CHR ''>''" using c(2) by (auto simp: plain_def is_sym_def symbols_def str_def)
  ultimately have "gettoken l p = (ch CHR ''a'', p, p + length w, skip_ws l (p + length w))"
    using c s at_text_here [OF assms(1)] by (simp add: gettoken_def char0_def w)
  moreover have "word_text l (p, p + length w) = w" using t(2) by (simp add: word_text_def)
  ultimately show thesis using v that by blast
qed

lemma tight_word [simp]: "word_fine w \<Longrightarrow> tight (w @ cs)"
  by (cases w) (auto simp: word_fine_def tight_def plain_def)

lemma tight_redir [simp]: "tight (show_redir r @ cs)"
  by (simp add: tight_def show_redir_def str_def is_ws_def whitespace_def split: prod.split)

lemma tight_redirs [simp]: "tight cs \<Longrightarrow> tight (show_redirs rs @ cs)"
  by (cases rs) (simp_all add: show_redirs_def)

lemma tight_words [simp]: "\<forall>w\<in>set ws. word_fine w \<Longrightarrow> tight cs \<Longrightarrow> tight (show_words ws @ cs)"
  by (cases ws) (simp_all add: show_words_def)

lemma tight_sym [simp]: "is_sym c \<Longrightarrow> tight (c # cs)"
  by (auto simp: tight_def is_sym_def symbols_def str_def is_ws_def whitespace_def split: if_splits)

lemma ends_tight: "ends s cs \<Longrightarrow> set s \<subseteq> set ''|)&;'' \<Longrightarrow> tight cs"
  by (auto simp: tight_def ends_def str_def is_ws_def whitespace_def)

lemma is_sym_simps [simp]: "is_sym 40" "is_sym 41" "is_sym 124" "is_sym 38" "is_sym 59" "is_sym 62"
  by (simp_all add: is_sym_def symbols_def str_def)

text \<open>A redirection, and a row of them.\<close>

lemma redir_tokens:
  assumes "at_text l p (show_redir r @ rest)" "redir_fine r" "tight rest"
  obtains t x y u q e v where "peek l p (str ''<>'') = (p, True)" "gettoken l p = (t, x, y, u)" "gettoken l u = (ch CHR ''a'', q, e, v)"
    "apfst (word_text l) (redir_of t (q, e)) = r" "at_text l v rest"
proof -
  obtain w mode fd where r: "r = (w, mode, fd)" by (cases r)
  have w: "word_fine w" and m: "(mode, fd) \<in> {(0, 0), (0x601, 1), (0x201, 1)}" using assms(2) r by (auto simp: redir_fine_def)
  obtain c v where cv: "w = c # v" using w by (cases w) (auto simp: word_fine_def)
  have cp: "c \<noteq> ch CHR ''>''" using w cv by (auto simp: word_fine_def plain_def is_sym_def symbols_def str_def)
  define sy where "sy = (if fd = 0 then str ''<'' else if mode = 0x601 then str ''>'' else str ''>>'')"
  define t where "t = (if fd = 0 then ch CHR ''<'' else if mode = 0x601 then ch CHR ''>'' else ch CHR ''+'')"
  have d: "at_text l p (sy @ w @ 32 # rest)" using assms(1) by (simp add: r show_redir_def sy_def)
  have ts: "tight (sy @ w @ 32 # rest)" by (simp add: sy_def str_def tight_def is_ws_def whitespace_def)
  have u: "at_text l (p + length sy) (w @ 32 # rest)" using at_text_over [OF d] by simp
  have pk: "peek l p (str ''<>'') = (p, True)" using peek_at [OF d ts] by (simp add: sy_def str_def char0_def)
  have s: "sy = hd sy # tl sy" "tl sy \<in> {[], [ch CHR ''>'']}" by (simp_all add: sy_def str_def)
  have "at_text l p ([hd sy] @ tl sy @ w @ 32 # rest)" using d by (subst (asm) s(1)) simp
  then have n: "at_text l (Suc p) (tl sy @ w @ 32 # rest)" using at_text_over by fastforce
  have "tight (tl sy @ w @ 32 # rest)" using s(2) w by auto
  then have "sh_at l (Suc p) = (if tl sy = [] then c else ch CHR ''>'')" using at_text_here [OF n] s(2) by (auto simp: char0_def cv)
  then have g: "gettoken l p = (t, p, p + length sy, p + length sy)"
    using at_text_here [OF d ts] at_text_here [OF u tight_word [OF w]] cp
    by (cases "fd = 0"; cases "mode = 0x601") (simp_all add: gettoken_def sy_def t_def str_def char0_def)
  obtain e where e: "gettoken l (p + length sy) = (ch CHR ''a'', p + length sy, p + length sy + length w, e)"
      "word_text l (p + length sy, p + length sy + length w) = w" "at_text l e rest"
    by (rule gettoken_plain [OF u w assms(3)])
  have "apfst (word_text l) (redir_of t (p + length sy, p + length sy + length w)) = r" using e(2) m by (auto simp: redir_of_def t_def r)
  then show thesis using that pk g e(1,3) by blast
qed

definition no_redir :: "bytes \<Rightarrow> bool" where
  "no_redir cs \<longleftrightarrow> tight cs \<and> char0 cs \<notin> set (str ''<>'')"

lemma parseredirs_show:
  "at_text l p (show_redirs rs @ rest) \<Longrightarrow> \<forall>r\<in>set rs. redir_fine r \<Longrightarrow> no_redir rest
    \<Longrightarrow> \<exists>rs' p'. parseredirs l acc p = Inr (acc @ rs', p') \<and> map (apfst (word_text l)) rs' = rs \<and> at_text l p' rest"
proof (induction rs arbitrary: p acc)
  case Nil
  then have "peek l p (str ''<>'') = (p, False)" using peek_at [of l p rest] by (auto simp: no_redir_def show_redirs_def str_def)
  then show ?case using Nil by (simp add: parseredirs.simps [of l acc p] show_redirs_def)
next
  case (Cons r rs)
  have t: "tight (show_redirs rs @ rest)" using Cons(4) by (simp add: no_redir_def)
  have "at_text l p (show_redir r @ show_redirs rs @ rest)" using Cons(2) by (simp add: show_redirs_def)
  then obtain t x y u q e v where g: "peek l p (str ''<>'') = (p, True)" "gettoken l p = (t, x, y, u)" "gettoken l u = (ch CHR ''a'', q, e, v)"
      "apfst (word_text l) (redir_of t (q, e)) = r" "at_text l v (show_redirs rs @ rest)"
    using Cons(3) t by (auto elim: redir_tokens)
  obtain rs' p' where "parseredirs l (acc @ [redir_of t (q, e)]) v = Inr ((acc @ [redir_of t (q, e)]) @ rs', p')"
      "map (apfst (word_text l)) rs' = rs" "at_text l p' rest"
    using Cons.IH [OF g(5), of "acc @ [redir_of t (q, e)]"] Cons(3,4) by auto
  then show ?case using g by (intro exI [of _ "redir_of t (q, e) # rs'"] exI [of _ p']) (simp add: parseredirs.simps [of l acc p])
qed

lemma ends_no_redir: "ends s cs \<Longrightarrow> set s \<subseteq> set ''|)&;'' \<Longrightarrow> no_redir cs"
  using ends_tight [of s cs] by (cases cs) (auto simp: no_redir_def ends_def char0_def str_def)

lemma word_no_redir: "word_fine w \<Longrightarrow> no_redir (w @ cs)"
  by (cases w) (auto simp: word_fine_def no_redir_def tight_def plain_def char0_def is_sym_def symbols_def str_def)

lemma words_no_redir: "\<forall>w\<in>set ws. word_fine w \<Longrightarrow> ws \<noteq> [] \<or> no_redir cs \<Longrightarrow> no_redir (show_words ws @ cs)"
  by (cases ws) (simp_all add: show_words_def word_no_redir)

lemma word_first: "word_fine w \<Longrightarrow> is_sym c \<Longrightarrow> char0 (w @ cs) \<noteq> c"
  by (cases w) (auto simp: word_fine_def plain_def char0_def)

lemma strchr_None: "0 \<notin> set s \<Longrightarrow> strchr s c = None \<longleftrightarrow> c \<notin> set s"
  by (induction s) auto

text \<open>The words of a command, and the redirections after the last one.\<close>

lemma parseargs_stop:
  assumes "at_text l p rest" "ends ''|)&;'' rest"
  shows "parseargs l ws rs p = Inr ((ws, rs), p)"
proof (cases rest)
  case Nil
  then have "peek l p (str ''|)&;'') = (p, False)" "gettoken l p = (0, p, p, p)"
    using assms peek_at [of l p rest] at_text_here [of l p rest] by (simp_all add: char0_def gettoken_def tight_def)
  then show ?thesis by (simp add: parseargs.simps [of l ws rs p])
next
  case (Cons c cs)
  then have "c \<in> set (str ''|)&;'')" "tight rest" using assms(2) by (auto simp: ends_def intro: ends_tight)
  then have "peek l p (str ''|)&;'') = (p, True)" using assms(1) Cons peek_at [of l p rest] by (auto simp: char0_def str_def)
  then show ?thesis by (simp add: parseargs.simps [of l ws rs p])
qed

lemma parseargs_word:
  assumes "at_text l p (w @ 32 # cs)" "word_fine w" "tight cs" "length ws + 1 < MAXARGS"
  obtains q e v where "word_text l (q, e) = w" "at_text l v cs"
    "\<And>rs' u. parseredirs l rs v = Inr (rs', u) \<Longrightarrow> parseargs l ws rs p = parseargs l (ws @ [(q, e)]) rs' u"
proof -
  have "char0 (w @ 32 # cs) \<notin> set (str ''|)&;'')"
    using word_first [OF assms(2), of _ "32 # cs"] by (auto simp: str_def is_sym_def symbols_def)
  then have pk: "peek l p (str ''|)&;'') = (p, False)"
    using peek_at [OF assms(1) tight_word [OF assms(2)]] by (auto simp: strchr_None str_def)
  obtain v where v: "gettoken l p = (ch CHR ''a'', p, p + length w, v)" "word_text l (p, p + length w) = w" "at_text l v cs"
    by (rule gettoken_plain [OF assms(1-3)])
  show thesis by (rule that [OF v(2,3)]) (use pk v(1) assms(4) in \<open>simp add: parseargs.simps [of l ws rs p]\<close>)
qed

lemma parseargs_show:
  "at_text l p (show_words ws @ show_redirs rs @ rest) \<Longrightarrow> ws \<noteq> [] \<or> rs = [] \<Longrightarrow> \<forall>w\<in>set ws. word_fine w \<Longrightarrow> \<forall>r\<in>set rs. redir_fine r
    \<Longrightarrow> ends ''|)&;'' rest \<Longrightarrow> length acc + length ws < MAXARGS
    \<Longrightarrow> \<exists>ws' rs' p'. parseargs l acc ac p = Inr ((acc @ ws', ac @ rs'), p') \<and> map (word_text l) ws' = ws
          \<and> map (apfst (word_text l)) rs' = rs \<and> at_text l p' rest"
proof (induction ws arbitrary: p acc ac rs)
  case Nil
  then have "at_text l p rest" "rs = []" by (auto simp: show_words_def show_redirs_def)
  then show ?case using parseargs_stop [OF _ Nil(5), of l p acc ac] by (intro exI [of _ "[]"] exI [of _ p]) simp
next
  case (Cons w ws)
  let ?more = "show_words ws @ show_redirs rs @ rest"
  have d: "at_text l p (w @ 32 # ?more)" using Cons(2) by (simp add: show_words_def)
  have w: "word_fine w" "\<forall>w\<in>set ws. word_fine w" using Cons(4) by auto
  have t: "tight ?more" using w(2) ends_tight [OF Cons(6)] by simp
  obtain q e v where g: "word_text l (q, e) = w" "at_text l v ?more"
      "\<And>rs' u. parseredirs l ac v = Inr (rs', u) \<Longrightarrow> parseargs l acc ac p = parseargs l (acc @ [(q, e)]) rs' u"
    by (rule parseargs_word [OF d w(1) t, of acc]) (use Cons(7) in auto)
  define now later where nl: "now = (if ws = [] then rs else [])" "later = (if ws = [] then [] else rs)"
  have split: "?more = show_redirs now @ show_words ws @ show_redirs later @ rest" by (simp add: nl show_redirs_def show_words_def)
  have nr: "no_redir (show_words ws @ show_redirs later @ rest)"
    using w(2) Cons(6) by (intro words_no_redir) (auto simp: nl show_redirs_def intro: ends_no_redir)
  obtain rs1 u where r: "parseredirs l ac v = Inr (ac @ rs1, u)" "map (apfst (word_text l)) rs1 = now"
      "at_text l u (show_words ws @ show_redirs later @ rest)"
    using parseredirs_show [OF g(2) [unfolded split] _ nr, of ac] Cons(5) by (auto simp: nl)
  have "\<exists>ws' rs' p'. parseargs l (acc @ [(q, e)]) (ac @ rs1) u = Inr (((acc @ [(q, e)]) @ ws', (ac @ rs1) @ rs'), p')
      \<and> map (word_text l) ws' = ws \<and> map (apfst (word_text l)) rs' = later \<and> at_text l p' rest"
    by (rule Cons.IH [OF r(3)]) (use w(2) Cons(5-7) in \<open>auto simp: nl\<close>)
  then obtain ws' rs' p' where "parseargs l (acc @ [(q, e)]) (ac @ rs1) u = Inr (((acc @ [(q, e)]) @ ws', (ac @ rs1) @ rs'), p')"
      "map (word_text l) ws' = ws" "map (apfst (word_text l)) rs' = later" "at_text l p' rest" by blast
  moreover have "now @ later = rs" by (simp add: nl)
  ultimately show ?case using g(3) [OF r(1)] g(1) r(2)
    by (intro exI [of _ "(q, e) # ws'"] exI [of _ "rs1 @ rs'"] exI [of _ p']) simp
qed

text \<open>
  What each parser makes of a printed command: \<open>parsed l r c rest\<close>, the result \<open>r\<close> is the tree of \<open>c\<close> and the text after
  it is \<open>rest\<close>.
\<close>

definition parsed :: "bytes \<Rightarrow> (word_at shcmd \<times> nat) parse \<Rightarrow> bytes shcmd \<Rightarrow> bytes \<Rightarrow> bool" where
  "parsed l r c rest \<longleftrightarrow> (\<exists>c' p'. r = Inr (c', p') \<and> map_shcmd (word_text l) c' = c \<and> at_text l p' rest)"

definition sh_backs :: "bytes \<Rightarrow> nat \<Rightarrow> (word_at shcmd \<times> nat) parse" where
  "sh_backs l p = pbnd (sh_pipe l p) (\<lambda>(c, u). Inr (parsebacks l c u))"

definition good_exec :: "bytes shcmd \<Rightarrow> bool" where
  "good_exec c \<longleftrightarrow> (\<forall>l p rs rest. at_text l p (show_cmd 3 c @ show_redirs rs @ rest) \<longrightarrow> (\<forall>r\<in>set rs. redir_fine r) \<longrightarrow> ends ''|)&;'' rest
     \<longrightarrow> parsed l (sh_exec l p) (redirs rs c) rest)"

definition good_pipe :: "bytes shcmd \<Rightarrow> bool" where
  "good_pipe c \<longleftrightarrow> (\<forall>l p rest. at_text l p (show_cmd 2 c @ rest) \<longrightarrow> ends '')&;'' rest \<longrightarrow> parsed l (sh_pipe l p) c rest)"

definition good_backs :: "bytes shcmd \<Rightarrow> bool" where
  "good_backs c \<longleftrightarrow> (\<forall>l p n rest. at_text l p (show_cmd 1 c @ replicate n (ch CHR ''&'') @ rest) \<longrightarrow> ends '');'' rest
     \<longrightarrow> parsed l (sh_backs l p) ((BackCmd ^^ n) c) rest)"

definition good_line :: "bytes shcmd \<Rightarrow> bool" where
  "good_line c \<longleftrightarrow> (\<forall>l p rest. at_text l p (show_cmd 0 c @ rest) \<longrightarrow> ends '')'' rest \<longrightarrow> parsed l (sh_line l p) c rest)"

lemma map_redirs: "map_shcmd f (redirs rs c) = redirs (map (apfst f) rs) (map_shcmd f c)"
  unfolding redirs_def by (induction rs arbitrary: c) (auto simp: case_prod_beta)

lemma tight_cmd [simp]: "cmd_fine c \<Longrightarrow> tight cs \<Longrightarrow> tight (show_cmd k c @ cs)"
  by (induction c arbitrary: k cs) (simp_all add: paren_def str_def)

lemma ends_peek:
  assumes "at_text l p rest" "ends s rest" "set s \<subseteq> set ''|)&;''" "set (str t) \<inter> set (str s) = {}" "0 \<notin> set (str t)"
  shows "peek l p (str t) = (p, False)"
  using peek_at [OF assms(1) ends_tight [OF assms(2,3)], of "str t"] assms(2,4,5)
  by (cases rest) (auto simp: char0_def ends_def strchr_None)

lemma ends_weaken: "ends s cs \<Longrightarrow> set s \<subseteq> set t \<Longrightarrow> ends t cs"
  by (auto simp: ends_def str_def)

lemma good_execD:
  assumes "good_exec c" "at_text l p (show_cmd 3 c @ show_redirs rs @ rest)" "\<forall>r\<in>set rs. redir_fine r" "ends ''|)&;'' rest"
  obtains c' u where "sh_exec l p = Inr (c', u)" "map_shcmd (word_text l) c' = redirs rs c" "at_text l u rest"
  using assms unfolding good_exec_def parsed_def by blast

lemma good_pipeD:
  assumes "good_pipe c" "at_text l p (show_cmd 2 c @ rest)" "ends '')&;'' rest"
  obtains c' u where "sh_pipe l p = Inr (c', u)" "map_shcmd (word_text l) c' = c" "at_text l u rest"
  using assms unfolding good_pipe_def parsed_def by blast

lemma good_backsD:
  assumes "good_backs c" "at_text l p (show_cmd 1 c @ replicate n (ch CHR ''&'') @ rest)" "ends '');'' rest"
  obtains c' u d v where "sh_pipe l p = Inr (c', u)" "parsebacks l c' u = (d, v)" "map_shcmd (word_text l) d = (BackCmd ^^ n) c" "at_text l v rest"
  using assms unfolding good_backs_def parsed_def sh_backs_def by (fastforce elim!: pbnd_Inr)

lemma good_lineD:
  assumes "good_line c" "at_text l p (show_cmd 0 c @ rest)" "ends '')'' rest"
  obtains c' u where "sh_line l p = Inr (c', u)" "map_shcmd (word_text l) c' = c" "at_text l u rest"
  using assms unfolding good_line_def parsed_def by blast

lemma good_exec_pipe: "good_exec c \<Longrightarrow> show_cmd 2 c = show_cmd 3 c \<Longrightarrow> good_pipe c"
  unfolding good_pipe_def
proof (intro allI impI)
  fix l p rest assume a: "good_exec c" "show_cmd 2 c = show_cmd 3 c" "at_text l p (show_cmd 2 c @ rest)" "ends '')&;'' rest"
  obtain c' u where u: "sh_exec l p = Inr (c', u)" "map_shcmd (word_text l) c' = redirs [] c" "at_text l u rest"
    by (rule good_execD [OF a(1), of l p "[]" rest]) (use a ends_weaken [OF a(4)] in \<open>auto simp: show_redirs_def\<close>)
  have "peek l u (str ''|'') = (u, False)" using ends_peek [OF u(3) a(4), of "''|''"] by (simp add: str_def)
  then show "parsed l (sh_pipe l p) c rest" using sh_pipe_end [OF u(1)] u by (simp add: parsed_def redirs_def)
qed

lemma parsebacks_show:
  "at_text l p (replicate n (ch CHR ''&'') @ rest) \<Longrightarrow> ends '');'' rest \<Longrightarrow> \<exists>v. parsebacks l c p = ((BackCmd ^^ n) c, v) \<and> at_text l v rest"
proof (induction n arbitrary: c p)
  case 0
  then have "peek l p (str ''&'') = (p, False)" using ends_peek [of l p rest "'');''" "''&''"] by (simp add: str_def)
  then show ?case using 0 by (simp add: parsebacks.simps [of l c p])
next
  case (Suc n)
  have t: "tight (replicate n (ch CHR ''&'') @ rest)" using ends_tight [OF Suc(3)] by (cases n) auto
  have d: "at_text l p (ch CHR ''&'' # replicate n (ch CHR ''&'') @ rest)" using Suc(2) by simp
  have "peek l p (str ''&'') = (p, True)" using peek_at [OF d] by (simp add: char0_def str_def)
  moreover obtain v where "gettoken l p = (ch CHR ''&'', p, Suc p, v)" and v: "at_text l v (replicate n (ch CHR ''&'') @ rest)"
    by (rule gettoken_sym [OF d _ t]) (auto simp: str_def)
  ultimately have "parsebacks l c p = parsebacks l (BackCmd c) v" by (simp add: parsebacks.simps [of l c p])
  then show ?case using Suc.IH [OF v Suc(3), of "BackCmd c"] by (simp add: funpow_swap1)
qed

lemma map_backs: "map_shcmd f ((BackCmd ^^ n) c) = (BackCmd ^^ n) (map_shcmd f c)"
  by (induction n) auto

lemma good_pipe_backs: "good_pipe c \<Longrightarrow> show_cmd 1 c = show_cmd 2 c \<Longrightarrow> good_backs c"
  unfolding good_backs_def
proof (intro allI impI)
  fix l p n rest
  assume a: "good_pipe c" "show_cmd 1 c = show_cmd 2 c" "at_text l p (show_cmd 1 c @ replicate n (ch CHR ''&'') @ rest)" "ends '');'' rest"
  have "ends '')&;'' (replicate n (ch CHR ''&'') @ rest)" using a(4) by (cases n) (auto simp: ends_def str_def)
  then obtain c' u where u: "sh_pipe l p = Inr (c', u)" "map_shcmd (word_text l) c' = c" "at_text l u (replicate n (ch CHR ''&'') @ rest)"
    using a by (auto elim: good_pipeD)
  obtain v where "parsebacks l c' u = ((BackCmd ^^ n) c', v)" "at_text l v rest" using parsebacks_show [OF u(3) a(4)] by blast
  then show "parsed l (sh_backs l p) ((BackCmd ^^ n) c) rest" using u by (simp add: parsed_def sh_backs_def map_backs)
qed

lemma good_backs_line: "good_backs c \<Longrightarrow> show_cmd 0 c = show_cmd 1 c \<Longrightarrow> good_line c"
  unfolding good_line_def
proof (intro allI impI)
  fix l p rest assume a: "good_backs c" "show_cmd 0 c = show_cmd 1 c" "at_text l p (show_cmd 0 c @ rest)" "ends '')'' rest"
  obtain c' u d v where u: "sh_pipe l p = Inr (c', u)" "parsebacks l c' u = (d, v)" "map_shcmd (word_text l) d = (BackCmd ^^ 0) c" "at_text l v rest"
    by (rule good_backsD [OF a(1), of l p 0 rest]) (use a ends_weaken [OF a(4)] in auto)
  have "peek l v (str '';'') = (v, False)" using ends_peek [OF u(4) a(4), of "'';''"] by (simp add: str_def)
  then show "parsed l (sh_line l p) c rest" using sh_line_end [OF u(1,2)] u by (simp add: parsed_def)
qed

lemma good_line_exec:
  assumes "good_line c" "cmd_fine c" "show_cmd 3 c = paren True (show_cmd 0 c)"
  shows "good_exec c"
  unfolding good_exec_def
proof (intro allI impI)
  fix l p rs rest
  assume a: "at_text l p (show_cmd 3 c @ show_redirs rs @ rest)" "\<forall>r\<in>set rs. redir_fine r" "ends ''|)&;'' rest"
  let ?more = "show_redirs rs @ rest"
  have d: "at_text l p (ch CHR ''('' # show_cmd 0 c @ ch CHR '')'' # ?more)" using a(1) assms(3) by (simp add: paren_def str_def)
  have t: "tight ?more" "tight (show_cmd 0 c @ ch CHR '')'' # ?more)" using ends_tight [OF a(3)] assms(2) by simp_all
  have pk: "peek l p (str ''('') = (p, True)" using peek_at [OF d] by (simp add: char0_def str_def)
  obtain z where g: "gettoken l p = (ch CHR ''('', p, Suc p, z)" and z: "at_text l z (show_cmd 0 c @ ch CHR '')'' # ?more)"
    by (rule gettoken_sym [OF d _ t(2)]) (auto simp: str_def)
  obtain c' u where u: "sh_line l z = Inr (c', u)" "map_shcmd (word_text l) c' = c" "at_text l u (ch CHR '')'' # ?more)"
    by (rule good_lineD [OF assms(1) z]) (auto simp: ends_def str_def)
  have pk': "peek l u (str '')'') = (u, True)" using peek_at [OF u(3)] by (simp add: char0_def str_def)
  obtain z' where g': "gettoken l u = (ch CHR '')'', u, Suc u, z')" and z': "at_text l z' ?more"
    by (rule gettoken_sym [OF u(3) _ t(1)]) (auto simp: str_def)
  obtain rs' v where "parseredirs l [] z' = Inr (rs', v)" "map (apfst (word_text l)) rs' = rs" "at_text l v rest"
    using parseredirs_show [OF z' a(2) ends_no_redir [OF a(3)], of "[]"] by auto
  then show "parsed l (sh_exec l p) (redirs rs c) rest"
    using sh_exec_block [OF pk g u(1) pk' g'] u(2) by (simp add: parsed_def map_redirs)
qed

lemma good_exec_words:
  assumes "cmd_fine (ExecCmd ws)"
  shows "good_exec (ExecCmd ws)"
  unfolding good_exec_def
proof (intro allI impI)
  fix l p rs rest
  assume a: "at_text l p (show_cmd 3 (ExecCmd ws) @ show_redirs rs @ rest)" "\<forall>r\<in>set rs. redir_fine r" "ends ''|)&;'' rest"
  have w: "\<forall>w\<in>set ws. word_fine w" "length ws < MAXARGS" using assms by auto
  have d: "at_text l p (show_words ws @ show_redirs rs @ rest)" using a(1) by simp
  have "char0 (show_words ws @ show_redirs rs @ rest) \<noteq> 40"
  proof (cases ws)
    case Nil
    then show ?thesis using a(3) by (cases rs; cases rest) (auto simp: show_words_def show_redirs_def show_redir_def char0_def ends_def str_def split: if_splits)
  next
    case (Cons v vs)
    then show ?thesis using w(1) word_first [of v 40] by (simp add: show_words_def)
  qed
  then have pk: "peek l p (str ''('') = (p, False)" using peek_at [OF d] w(1) ends_tight [OF a(3)] by (auto simp: str_def)
  define now later where nl: "now = (if ws = [] then rs else [])" "later = (if ws = [] then [] else rs)"
  have "at_text l p (show_redirs now @ show_words ws @ show_redirs later @ rest)" using d by (cases ws) (simp_all add: nl show_redirs_def show_words_def)
  moreover have "no_redir (show_words ws @ show_redirs later @ rest)"
    using w(1) a(3) by (intro words_no_redir) (auto simp: nl show_redirs_def intro: ends_no_redir)
  ultimately obtain rs1 u where r: "parseredirs l [] p = Inr (rs1, u)" "map (apfst (word_text l)) rs1 = now" "at_text l u (show_words ws @ show_redirs later @ rest)"
    using parseredirs_show [of l p now "show_words ws @ show_redirs later @ rest" "[]"] a(2) by (auto simp: nl)
  have "\<exists>ws' rs' p'. parseargs l [] rs1 u = Inr (([] @ ws', rs1 @ rs'), p') \<and> map (word_text l) ws' = ws \<and> map (apfst (word_text l)) rs' = later \<and> at_text l p' rest"
    by (rule parseargs_show [OF r(3)]) (use w a(2,3) in \<open>auto simp: nl\<close>)
  then obtain ws' rs' v where "parseargs l [] rs1 u = Inr ((ws', rs1 @ rs'), v)" "map (word_text l) ws' = ws"
      "map (apfst (word_text l)) rs' = later" "at_text l v rest" by auto
  moreover have "now @ later = rs" by (simp add: nl)
  ultimately show "parsed l (sh_exec l p) (redirs rs (ExecCmd ws)) rest"
    using sh_exec_args [OF pk r(1)] r(2) by (simp add: parsed_def map_redirs)
qed

lemma good_exec_redir: "good_exec c \<Longrightarrow> cmd_fine (RedirCmd c w mode fd) \<Longrightarrow> good_exec (RedirCmd c w mode fd)"
  unfolding good_exec_def
proof (intro allI impI)
  fix l p rs rest
  assume a: "\<forall>l p rs rest. at_text l p (show_cmd 3 c @ show_redirs rs @ rest) \<longrightarrow> (\<forall>r\<in>set rs. redir_fine r) \<longrightarrow> ends ''|)&;'' rest
      \<longrightarrow> parsed l (sh_exec l p) (redirs rs c) rest" "cmd_fine (RedirCmd c w mode fd)"
    "at_text l p (show_cmd 3 (RedirCmd c w mode fd) @ show_redirs rs @ rest)" "\<forall>r\<in>set rs. redir_fine r" "ends ''|)&;'' rest"
  have "at_text l p (show_cmd 3 c @ show_redirs ((w, mode, fd) # rs) @ rest)" using a(3) by (simp add: show_redirs_def)
  moreover have "\<forall>r\<in>set ((w, mode, fd) # rs). redir_fine r" using a(2,4) by simp
  ultimately have "parsed l (sh_exec l p) (redirs ((w, mode, fd) # rs) c) rest" using a(1,5) by blast
  then show "parsed l (sh_exec l p) (redirs rs (RedirCmd c w mode fd)) rest" by (simp add: redirs_def)
qed

lemma good_pipe_pipe:
  assumes "good_exec c" "good_pipe d" "cmd_fine d"
  shows "good_pipe (PipeCmd c d)"
  unfolding good_pipe_def
proof (intro allI impI)
  fix l p rest assume a: "at_text l p (show_cmd 2 (PipeCmd c d) @ rest)" "ends '')&;'' rest"
  obtain c' u where u: "sh_exec l p = Inr (c', u)" "map_shcmd (word_text l) c' = redirs [] c" "at_text l u (ch CHR ''|'' # show_cmd 2 d @ rest)"
    by (rule good_execD [OF assms(1), of l p "[]" "ch CHR ''|'' # show_cmd 2 d @ rest"]) (use a in \<open>auto simp: show_redirs_def paren_def str_def ends_def\<close>)
  have pk: "peek l u (str ''|'') = (u, True)" using peek_at [OF u(3)] by (simp add: char0_def str_def)
  obtain z where g: "gettoken l u = (ch CHR ''|'', u, Suc u, z)" and z: "at_text l z (show_cmd 2 d @ rest)"
    by (rule gettoken_sym [OF u(3)]) (use assms(3) ends_tight [OF a(2)] in \<open>auto simp: str_def\<close>)
  obtain d' v where "sh_pipe l z = Inr (d', v)" "map_shcmd (word_text l) d' = d" "at_text l v rest"
    by (rule good_pipeD [OF assms(2) z a(2)])
  then show "parsed l (sh_pipe l p) (PipeCmd c d) rest" using sh_pipe_pipe [OF u(1) pk g] u(2) by (simp add: parsed_def redirs_def)
qed

lemma good_backs_back: "good_backs c \<Longrightarrow> good_backs (BackCmd c)"
  unfolding good_backs_def
proof (intro allI impI)
  fix l p n rest
  assume a: "\<forall>l p n rest. at_text l p (show_cmd 1 c @ replicate n (ch CHR ''&'') @ rest) \<longrightarrow> ends '');'' rest
      \<longrightarrow> parsed l (sh_backs l p) ((BackCmd ^^ n) c) rest"
    "at_text l p (show_cmd 1 (BackCmd c) @ replicate n (ch CHR ''&'') @ rest)" "ends '');'' rest"
  have "at_text l p (show_cmd 1 c @ replicate (Suc n) (ch CHR ''&'') @ rest)" using a(2) by (simp add: paren_def str_def)
  then have "parsed l (sh_backs l p) ((BackCmd ^^ Suc n) c) rest" using a(1,3) by blast
  then show "parsed l (sh_backs l p) ((BackCmd ^^ n) (BackCmd c)) rest" by (simp add: funpow_swap1)
qed

lemma good_line_list:
  assumes "good_backs c" "good_line d" "cmd_fine d"
  shows "good_line (ListCmd c d)"
  unfolding good_line_def
proof (intro allI impI)
  fix l p rest assume a: "at_text l p (show_cmd 0 (ListCmd c d) @ rest)" "ends '')'' rest"
  obtain c' u e v where u: "sh_pipe l p = Inr (c', u)" "parsebacks l c' u = (e, v)" "map_shcmd (word_text l) e = (BackCmd ^^ 0) c"
      "at_text l v (ch CHR '';'' # show_cmd 0 d @ rest)"
    by (rule good_backsD [OF assms(1), of l p 0 "ch CHR '';'' # show_cmd 0 d @ rest"]) (use a in \<open>auto simp: paren_def str_def ends_def\<close>)
  have pk: "peek l v (str '';'') = (v, True)" using peek_at [OF u(4)] by (simp add: char0_def str_def)
  obtain z where g: "gettoken l v = (ch CHR '';'', v, Suc v, z)" and z: "at_text l z (show_cmd 0 d @ rest)"
    by (rule gettoken_sym [OF u(4)]) (use assms(3) ends_tight [OF a(2)] in \<open>auto simp: str_def\<close>)
  obtain d' w where "sh_line l z = Inr (d', w)" "map_shcmd (word_text l) d' = d" "at_text l w rest"
    by (rule good_lineD [OF assms(2) z a(2)])
  then show "parsed l (sh_line l p) (ListCmd c d) rest" using sh_line_list [OF u(1,2) pk g] u(3) by (simp add: parsed_def)
qed

lemma good_cmd: "cmd_fine c \<Longrightarrow> good_exec c \<and> good_pipe c \<and> good_backs c \<and> good_line c"
proof (induction c)
  case (ExecCmd ws)
  then show ?case by (simp add: good_exec_words good_exec_pipe good_pipe_backs good_backs_line)
next
  case (RedirCmd c w mode fd)
  then have "good_exec (RedirCmd c w mode fd)" by (intro good_exec_redir) auto
  then show ?case by (simp add: good_exec_pipe good_pipe_backs good_backs_line)
next
  case (PipeCmd c d)
  then have "good_pipe (PipeCmd c d)" by (intro good_pipe_pipe) auto
  moreover from this have "good_line (PipeCmd c d)" by (simp add: good_pipe_backs good_backs_line paren_def)
  ultimately show ?case using PipeCmd by (simp add: good_line_exec good_pipe_backs paren_def)
next
  case (ListCmd c d)
  then have "good_line (ListCmd c d)" by (intro good_line_list) auto
  then have "good_exec (ListCmd c d)" using ListCmd by (intro good_line_exec) (simp_all add: paren_def)
  then show ?case using \<open>good_line (ListCmd c d)\<close> by (simp add: good_exec_pipe good_pipe_backs paren_def)
next
  case (BackCmd c)
  then have b: "good_backs (BackCmd c)" by (intro good_backs_back) auto
  then have "good_line (BackCmd c)" by (simp add: good_backs_line paren_def)
  moreover from this have "good_exec (BackCmd c)" using BackCmd by (intro good_line_exec) (simp_all add: paren_def)
  ultimately show ?case using b by (simp add: good_exec_pipe paren_def)
qed

lemma show_no_nul: "cmd_fine c \<Longrightarrow> 0 \<notin> set (show_cmd k c)"
  by (induction c arbitrary: k) (auto simp: show_words_def show_redir_def paren_def str_def word_fine_def redir_fine_def)

lemma show_nonempty: "cmd_fine c \<Longrightarrow> c \<noteq> ExecCmd [] \<Longrightarrow> show_cmd k c \<noteq> []"
  by (cases c) (auto simp: show_words_def show_redir_def paren_def str_def redir_fine_def)

text \<open>
  C31: the parser reads back what the printer wrote. For every command that a line can describe (words of ordinary
  characters, fewer than ten of them, and the three redirections), its text with only the parentheses it needs,
  followed by any white space, parses to the tree of the command, with the words in the NUL-terminated buffer;
  so the child that the shell forks for that line runs exactly the command.
\<close>

theorem parse_show:
  assumes "cmd_fine c" "c \<noteq> ExecCmd []" "\<forall>x\<in>set tail. is_ws x"
  shows "(\<exists>tree buf. parsecmd (show_cmd 0 c @ tail) = Inr (tree, buf) \<and> map_shcmd (sh_string buf) tree = c)
    \<and> (sh_child (show_cmd 0 c @ tail) :: (unit, 'z uproc_scheme) kern) = runcmd c"
proof -
  let ?l = "show_cmd 0 c @ tail"
  have at: "at_text ?l 0 (show_cmd 0 c @ [])" using show_nonempty [OF assms(1,2)] assms(3) by (auto simp: at_text_def)
  have g: "good_line c" using good_cmd [OF assms(1)] by blast
  obtain tree u where u: "sh_line ?l 0 = Inr (tree, u)" "map_shcmd (word_text ?l) tree = c" "at_text ?l u []"
    by (rule good_lineD [OF g at]) (simp add: ends_def)
  have p: "parseline (parse_fuel ?l) ?l 0 = Inr (tree, u)" using parseline_enough [of ?l 0 "parse_fuel ?l"] u(1) by (simp add: parse_fuel_def)
  have "peek ?l u [] = (length ?l, False)" using peek_at [OF u(3), of "[]"] u(3) by (simp add: tight_def char0_def at_text_def)
  then have c: "parsecmd ?l = Inr (tree, nulterminate tree (?l @ [0]))" using p by (simp add: parsecmd_def)
  have "\<forall>w\<in>set_shcmd tree. word_ok ?l w" using parseline_ok [of ?l 0 "parse_fuel ?l"] p by (simp add: tree_ok_def)
  moreover have "0 \<notin> set ?l" using show_no_nul [OF assms(1)] assms(3) by (auto simp: is_ws_def whitespace_def)
  ultimately have "map_shcmd (sh_string (nulterminate tree (?l @ [0]))) tree = map_shcmd (word_text ?l) tree"
    by (intro shcmd.map_cong0 sh_string_word)
  then show ?thesis using c u(2) by (simp add: sh_child_def)
qed

definition sample_cmd :: "bytes shcmd" where
  "sample_cmd = ListCmd (BackCmd (ExecCmd [str ''a''])) (PipeCmd (ExecCmd [str ''ls'']) (RedirCmd (ExecCmd [str ''wc'', str ''-l'']) (str ''out'') 0x601 1))"

theorem parse_show_witness:
  "show_cmd 0 sample_cmd = str ''a &;ls |wc -l >out '' \<and> (sh_child (str ''a &;ls |wc -l >out '' @ nl) :: (unit, unit uproc_scheme) kern) = runcmd sample_cmd"
proof -
  have s: "show_cmd 0 sample_cmd = str ''a &;ls |wc -l >out ''"
    by (simp add: sample_cmd_def show_words_def show_redir_def paren_def str_def)
  have "cmd_fine sample_cmd" "sample_cmd \<noteq> ExecCmd []"
    by (simp_all add: sample_cmd_def word_fine_def redir_fine_def plain_def is_ws_def whitespace_def is_sym_def symbols_def str_def MAXARGS_def)
  then have "(sh_child (show_cmd 0 sample_cmd @ nl) :: (unit, unit uproc_scheme) kern) = runcmd sample_cmd"
    using parse_show [of sample_cmd nl, where 'z = unit] by (simp add: is_ws_def whitespace_def)
  then show ?thesis using s by simp
qed

end
