(* ===== verification/Spec2Isabelle.thy ===== *)
theory Spec2Isabelle
  imports Prelude Riscv Cstring Spinlock Kalloc Vm Pagetable Uvm Ucopy Proc Sched Guarantee Quiet Virtio Bio Log Recovery Ring Umem Uart Printf Console Fs Fsops Pipe Pipeq Exec Sysfile Trap Uproc Utils Grep Grind Sh
begin

text \<open>
  A verification of xv6 for RISC-V: the kernel under \<open>kernel/\<close> and the programs under \<open>user/\<close>.

  \<^bold>\<open>The model.\<close> A C function is a function from the state to an \<open>outcome\<close> (\<open>Prelude\<close>): it returns, it gives up
  the CPU in \<open>swtch\<close> and goes on in whatever state it is resumed in, it spins, it panics, or it does something that
  C leaves undefined. Outcomes are a codatatype, since a function may wait any number of times. The state is a
  record that grows with the layers, \<open>mach\<close> (spin locks, CPUs), \<open>kmem\<close> (memory, free list), \<open>vmstate\<close>, \<open>pstate\<close>
  (processes, sleep locks), \<open>bstate\<close> (disk, buffers), \<open>lstate\<close> (log), \<open>ustate\<close> (UART, console, \<open>printf\<close>),
  \<open>fstate\<close> (inodes), \<open>kstate\<close> (files, pipes) and \<open>tstate\<close>, so that a function of a lower layer runs unchanged in
  every layer above it. Machine integers are words of their width. Hardware is a parameter of the state: the
  functions \<open>vdev_read\<close> and \<open>udev_read\<close> answer register reads, and \<open>disk_works\<close> is what the driver relies on of the disk:
  a request is served once the device has been notified of it, if its chain of descriptors and their flags are
  well-formed. The nesting depth \<open>noff\<close> is the integer that its C \<open>int\<close> stands for, which is the same below \<open>2^31\<close>.

  \<^bold>\<open>Theories and sources.\<close>
  \<^item> \<open>Riscv\<close>: \<open>riscv.h\<close>, \<open>memlayout.h\<close>, \<open>types.h\<close>, \<open>param.h\<close>. \<open>Cstring\<close>: \<open>string.c\<close>.
  \<^item> \<open>Spinlock\<close>: \<open>spinlock.c\<close>, with an interleaving semantics of one lock. \<open>Kalloc\<close>: \<open>kalloc.c\<close>; the locale
    \<open>page_allocator\<close> is its contract, interpreted on \<open>kalloc\<close> and \<open>kfree\<close>.
  \<^item> \<open>Vm\<close>: \<open>vm.c\<close>. \<open>Pagetable\<close>, \<open>Uvm\<close> and \<open>Ucopy\<close> read page tables in memory as maps from virtual addresses, and
    prove the operations against these maps, out-of-memory paths included.
  \<^item> \<open>Proc\<close>: \<open>proc.c\<close> and \<open>sleeplock.c\<close>. \<open>Sched\<close>: scheduling and sleeping. \<open>Guarantee\<close>: what
    a process guarantees to other CPUs along each segment between two waits. \<open>Quiet\<close>: total correctness of a
    process whose waits are answered, by the relation \<open>does\<close> and its rules.
  \<^item> \<open>Virtio\<close>: \<open>virtio_disk.c\<close>. \<open>Bio\<close>: \<open>bio.c\<close>. \<open>Log\<close> and \<open>Recovery\<close>: \<open>log.c\<close> and its crash safety.
  \<^item> \<open>Ring\<close>: the locale \<open>ring\<close> of ring buffers with wrapping counters, interpreted on the transmit buffer of \<open>Uart\<close>
    (\<open>uart.c\<close>) and on the buffers of pipes in \<open>Pipeq\<close>. \<open>Umem\<close>: functions of the memory only.
  \<^item> \<open>Printf\<close>: \<open>printf.c\<close>. \<open>Console\<close>: \<open>console.c\<close>. \<open>Fs\<close> and \<open>Fsops\<close>: \<open>fs.c\<close>. \<open>Pipe\<close> and \<open>Pipeq\<close>: \<open>pipe.c\<close> and
    \<open>file.c\<close>. \<open>Exec\<close>: \<open>exec.c\<close> and the rest of \<open>proc.c\<close>. \<open>Sysfile\<close>: \<open>sysfile.c\<close>, \<open>sysproc.c\<close>, \<open>syscall.c\<close>.
    \<open>Trap\<close>: \<open>trap.c\<close>, \<open>plic.c\<close>, \<open>start.c\<close>, \<open>main.c\<close>.
  \<^item> \<open>Uproc\<close>: the stubs \<open>usys.S\<close>, \<open>ulib.c\<close> and \<open>printf.c\<close> of user programs, and the dialogues of a program with the
    kernel. \<open>Utils\<close>, \<open>Grep\<close>, \<open>Grind\<close> and \<open>Sh\<close>: the programs. A program is a function of the kernel's answers; \<open>fork\<close> is a
    call that answers differently in parent and child.

  \<^bold>\<open>What is shown.\<close>
  \<^item> Crash safety: a transaction is atomic at every point where the disk may change, and recovery restores what the
    disk stands for and may itself be interrupted (\<open>transaction_atomic\<close>, \<open>recovery_correct\<close>); the admission
    test of \<open>begin_op\<close> is off by one against the size of the log: a run of three operations that it admits ends in
    a panic (\<open>log_reservation_gap\<close>).
  \<^item> Files: \<open>readi\<close> returns a slice of the content, \<open>writei\<close> overwrites one in place and what was written is read
    back; inodes survive their encoding (\<open>readi_slice\<close>, \<open>writei_overwrites\<close>, \<open>writei_readi\<close>, \<open>dinode_roundtrip\<close>).
  \<^item> Memory: pages are neither lost nor handed out twice, mappings are exact, copies between kernel and user memory
    move exactly the accessible bytes, and an address space grows entirely or not at all.
  \<^item> Processes: mutual exclusion of spin locks and sleep locks, nesting of interrupt disabling, sleeping without a
    gap between the lock of the caller and that of the process (\<open>sleep_atomic\<close>), no lost wakeup, and
    what the scheduler needs of a process that gives up the CPU.
  \<^item> Devices and queues: the disk driver, the cache and its order of reuse, the output queue of the UART, and pipes
    as bounded queues that no interleaving overflows and that nobody touches while another CPU holds their lock.
  \<^item> Output: \<open>printint\<close> computes numerals, and exactly when it overruns its buffer (\<open>printint_numeral\<close>).
  \<^item> Programs: \<open>grep\<close> prints exactly the matching lines, whatever the kernel answers within its contract, and its matcher decides what a pattern means; the random
    numbers of \<open>grind\<close> are those of Park and Miller. The shell: printing a command and parsing it gives it back, the
    NULs stored in the line never cut a word, and the parser ends (\<open>parse_show\<close>, \<open>nulterminate_words\<close>, \<open>parse_terminates\<close>).

  \<^bold>\<open>Bounds and fuel.\<close> Loops of the source are structural recursion or have a termination proof. The loop of \<open>uartstart\<close>
  has fuel for one more round than the buffer has characters, and \<open>uartputc_fifo\<close> shows that it is never used up.
  \<open>mappages\<close> has one round for each page of its range. A loop that may go on for ever is \<open>again\<close> or \<open>loopM\<close>, whose
  outcome is then infinite; a statement with \<open>achieves\<close> or \<open>filters\<close> includes that it ends. The recursion of \<open>find\<close> is
  bounded by its buffer of 512 characters, past which the outcome is undefined. The
  parser of the shell has four units of fuel for each character of the line, one for each of its four functions.

  \<^bold>\<open>What the statements assume.\<close> Statements about one process in \<open>does\<close> and \<open>achieves\<close> hold in a quiet system: while
  the process sleeps, only what it waits for happens, so no other process changes the data meanwhile.
  Statements with \<open>meets\<close>, \<open>spins_until\<close> and \<open>obeys\<close> hold for every interleaving with other CPUs that act according to their
  rely; a segment of code between two waits is one step of such an interleaving. The files of \<open>Fsops\<close> have their blocks
  allocated in the range concerned; \<open>balloc\<close>, \<open>itrunc\<close>, directories and path names are modelled and have no theorems.

  \<^bold>\<open>Not modelled.\<close> The assembly in \<open>entry.S\<close>, \<open>kernelvec.S\<close> and \<open>trampoline.S\<close>, which saves and restores registers
  (\<open>swtch.S\<close> is the continuation in an outcome); \<open>umalloc.c\<close>; \<open>mkfs.c\<close>, a program of the host; the test
  driver \<open>usertests.c\<close>, which only makes system calls with fixed arguments. The translation look-aside buffer and the
  reordering of memory accesses by the hardware have no counterpart in the model.
\<close>

end
